(* ===== verification/Prelude.thy ===== *)
theory Prelude
  imports Main "HOL-Library.Word"
begin

text \<open>
  What the component theories share: the widths of the C++ integer types, the outcome type
  of code that can fault, byte-addressed memory with little-endian loads and stores, and the
  word lemmas (ranges, alignment, division) that the component proofs rest on.
\<close>

unbundle bit_operations_syntax

section \<open>Integer types and outcomes\<close>

text \<open>\<open>size_t\<close>, \<open>uintptr_t\<close>, \<open>uint64_t\<close> and every pointer are 64 bits wide on the kernel's
  target (\<open>-target x86_64-unknown-elf\<close>); \<open>int\<close> is 32 bits wide.\<close>

type_synonym u8 = "8 word"
type_synonym u16 = "16 word"
type_synonym u32 = "32 word"
type_synonym u64 = "64 word"

named_theorems result_simps \<open>evaluation of the outcome monad\<close>
named_theorems mem_eval \<open>evaluation of loads and stores of a concrete width\<close>
named_theorems frame_simps \<open>parts of the state that an operation leaves alone\<close>

text \<open>The ways a piece of kernel code does not return normally.\<close>

datatype fault =
    NullDeref      \<comment> \<open>a load or store through a null pointer\<close>
  | PageFault      \<comment> \<open>a load or store at an address the page tables do not map\<close>
  | OutOfBounds    \<comment> \<open>an access past the end of an array\<close>
  | Deadlock       \<comment> \<open>a wait for a lock that its only user already holds\<close>
  | Diverges       \<comment> \<open>a loop that never ends\<close>
  | DivideByZero   \<comment> \<open>an integer division by zero\<close>
  | Halted         \<comment> \<open>the processor was stopped for good\<close>

type_synonym 'a result = "fault + 'a"

definition rbind :: "'e + 'a \<Rightarrow> ('a \<Rightarrow> 'e + 'b) \<Rightarrow> 'e + 'b" where
  "rbind m f = (case m of Inl e \<Rightarrow> Inl e | Inr x \<Rightarrow> f x)"

lemma rbind_Inr [simp, result_simps]: "rbind (Inr x) f = f x"
  by (simp add: rbind_def)

lemma rbind_Inl [simp, result_simps]: "rbind (Inl e) f = Inl e"
  by (simp add: rbind_def)

lemma rbind_eq_Inr: "rbind m f = Inr y \<longleftrightarrow> (\<exists>x. m = Inr x \<and> f x = Inr y)"
  by (cases m) auto

lemma rbind_assoc: "rbind (rbind m f) g = rbind m (\<lambda>x. rbind (f x) g)"
  by (cases m) simp_all

text \<open>What a run returned, without the state it left.\<close>

definition returned :: "'e + 'a \<times> 's \<Rightarrow> 'a option" where
  "returned m = (case m of Inl _ \<Rightarrow> None | Inr (x, _) \<Rightarrow> Some x)"

lemma returned_eq_Some: "returned m = Some x \<longleftrightarrow> (\<exists>s. m = Inr (x, s))"
  by (auto simp: returned_def split: sum.splits prod.splits)

text \<open>What a loop that may run for ever returns.\<close>

definition loop_result :: "'b result option \<Rightarrow> 'b result" where
  "loop_result m = (case m of None \<Rightarrow> Inl Diverges | Some r \<Rightarrow> r)"

lemma loop_result_simps [simp, result_simps]: "loop_result None = Inl Diverges" "loop_result (Some r) = r"
  by (simp_all add: loop_result_def)

section \<open>Byte memory\<close>

text \<open>Memory maps every 64-bit address to a byte; addresses wrap around, as they do in
  64-bit pointer arithmetic.\<close>

type_synonym memory = "u64 \<Rightarrow> u8"

text \<open>\<open>load_le n m a\<close> is the value of the \<open>n\<close> bytes at \<open>a\<close>, least significant first;
  \<open>store_le n m a v\<close> writes the \<open>n\<close> low bytes of \<open>v\<close> there.\<close>

primrec load_le :: "nat \<Rightarrow> memory \<Rightarrow> u64 \<Rightarrow> u64" where
  "load_le 0 m a = 0"
| "load_le (Suc n) m a = ucast (m a) OR push_bit 8 (load_le n m (a + 1))"

primrec store_le :: "nat \<Rightarrow> memory \<Rightarrow> u64 \<Rightarrow> u64 \<Rightarrow> memory" where
  "store_le 0 m a v = m"
| "store_le (Suc n) m a v = store_le n (m(a := ucast v)) (a + 1) (drop_bit 8 v)"

lemma load_le_numeral [mem_eval]:
  "load_le (numeral k) m a = ucast (m a) OR push_bit 8 (load_le (pred_numeral k) m (a + 1))"
  by (simp add: numeral_eq_Suc)

lemma store_le_numeral [mem_eval]:
  "store_le (numeral k) m a v = store_le (pred_numeral k) (m(a := ucast v)) (a + 1) (drop_bit 8 v)"
  by (simp add: numeral_eq_Suc)

text \<open>\<open>in_range a s n\<close>: the address \<open>a\<close> is one of the \<open>n\<close> addresses \<open>s\<close>, \<open>s + 1\<close>, \dots\<close>

definition in_range :: "u64 \<Rightarrow> u64 \<Rightarrow> nat \<Rightarrow> bool" where
  "in_range a s n \<longleftrightarrow> unat (a - s) < n"

lemma in_range_0 [simp]: "\<not> in_range a s 0"
  by (simp add: in_range_def)

text \<open>\<open>range_sep a n b k\<close>: going up from \<open>a\<close> one needs at least \<open>n\<close> steps to reach \<open>b\<close>, and
  \<open>k\<close> steps to get from \<open>b\<close> to \<open>a\<close>; then the \<open>n\<close> bytes at \<open>a\<close> and the \<open>k\<close> bytes at \<open>b\<close> are
  disjoint, also when a range wraps around.\<close>

definition range_sep :: "u64 \<Rightarrow> nat \<Rightarrow> u64 \<Rightarrow> nat \<Rightarrow> bool" where
  "range_sep a n b k \<longleftrightarrow> n \<le> unat (b - a) \<and> k \<le> unat (a - b)"

lemma range_sep_sym: "range_sep a n b k \<longleftrightarrow> range_sep b k a n"
  by (auto simp: range_sep_def)

lemma unat_u64_less: "unat (x :: u64) < 18446744073709551616"
  using unsigned_less [where 'a = nat and w = x] by simp

lemma unat_u32_less: "unat (w :: u32) < 4294967296"
  using unsigned_less [where 'a = nat and w = w] by simp

lemma unat_ucast_u32 [simp]: "unat (ucast (w :: u32) :: u64) = unat w"
  using unat_u32_less [of w] by (simp add: unsigned_ucast_eq take_bit_nat_eq_self)

lemma unat_diff_wrap: "x \<noteq> (y :: u64) \<Longrightarrow> unat (x - y) + unat (y - x) = 2 ^ 64"
  using unat_u64_less [of x] unat_u64_less [of y]
  by (auto simp: unat_sub_if' word_le_nat_alt word_unat_eq_iff)

lemma unat_plus_offset:
  "n \<le> unat (b - a) \<Longrightarrow> i < n \<Longrightarrow> unat ((a - b) + of_nat i) = unat (a - b) + i" for a b :: u64
proof -
  assume n: "n \<le> unat (b - a)" and i: "i < n"
  have ne: "a \<noteq> b" using n i by auto
  have "unat (b - a) < 2 ^ 64" using unat_u64_less [of "b - a"] by simp
  then have "unat (of_nat i :: u64) = i" using n i by (simp add: unat_of_nat)
  moreover have "unat (a - b) + i < 2 ^ 64"
    using unat_diff_wrap [OF ne] n i by linarith
  ultimately show ?thesis by (simp add: unat_word_ariths)
qed

lemma unat_add_u64:
  "unat a + unat b < 18446744073709551616 \<Longrightarrow> unat (a + b) = unat a + unat b" for a b :: u64
  by (simp add: unat_word_ariths)

lemma unat_mult_u64:
  "unat a * unat b < 18446744073709551616 \<Longrightarrow> unat (a * b) = unat a * unat b" for a b :: u64
  by (simp add: unat_word_ariths)

lemma range_sep_not_in_range:
  assumes "range_sep a n b k" and "i < n"
  shows "\<not> in_range (a + of_nat i) b k"
proof -
  have "unat ((a - b) + of_nat i) = unat (a - b) + i"
    using assms by (auto simp: range_sep_def intro: unat_plus_offset)
  then show ?thesis
    using assms(1) by (simp add: in_range_def range_sep_def algebra_simps)
qed

section \<open>Loads and stores\<close>

lemma load_le_cong:
  "(\<And>i. i < n \<Longrightarrow> m (a + of_nat i) = m' (a + of_nat i)) \<Longrightarrow> load_le n m a = load_le n m' a"
proof (induction n arbitrary: a)
  case 0
  then show ?case by simp
next
  case (Suc n)
  have "m a = m' a" using Suc.prems [of 0] by simp
  moreover have "load_le n m (a + 1) = load_le n m' (a + 1)"
  proof (rule Suc.IH)
    fix i assume "i < n"
    then show "m (a + 1 + of_nat i) = m' (a + 1 + of_nat i)"
      using Suc.prems [of "Suc i"] by (simp add: ac_simps)
  qed
  ultimately show ?case by simp
qed

lemma bit_load_le:
  "bit (load_le n m a) k \<longleftrightarrow> k < 64 \<and> k < 8 * n \<and> bit (m (a + of_nat (k div 8))) (k mod 8)"
proof (induction n arbitrary: a k)
  case 0
  then show ?case by simp
next
  case (Suc n)
  show ?case
  proof (cases "k < 8")
    case True
    then show ?thesis by (simp add: bit_simps)
  next
    case False
    then obtain j where k: "k = 8 + j" using le_iff_add [of 8 k] by auto
    have high: "\<not> bit (m a) (8 + j)"
      by (auto dest: bit_imp_le_length)
    have "bit (load_le (Suc n) m a) k \<longleftrightarrow> k < 64 \<and> bit (load_le n m (a + 1)) j"
      using high by (simp add: k bit_simps)
    also have "\<dots> \<longleftrightarrow> k < 64 \<and> k < 8 * Suc n \<and> bit (m (a + of_nat (k div 8))) (k mod 8)"
      by (auto simp: k Suc.IH ac_simps div_add_self2)
    finally show ?thesis .
  qed
qed

lemma in_range_Suc: "n < 2 ^ 64 \<Longrightarrow> in_range x a (Suc n) \<longleftrightarrow> x = a \<or> in_range x (a + 1) n"
proof -
  assume n: "n < 2 ^ 64"
  show ?thesis
  proof (cases "x = a")
    case True
    then show ?thesis using n by (simp add: in_range_def)
  next
    case False
    then have "unat (x - (a + 1)) = unat (x - a) - 1" and "0 < unat (x - a)"
      by (simp_all add: unat_minus_one unat_gt_0 diff_diff_eq [symmetric])
    with False show ?thesis by (auto simp: in_range_def)
  qed
qed

lemma not_in_range_next: "n < 2 ^ 64 \<Longrightarrow> \<not> in_range a (a + 1) n"
  by (simp add: in_range_def unsigned_minus_1_eq_mask mask_eq_exp_minus_1)

lemma store_le_outside:
  "n < 2 ^ 64 \<Longrightarrow> \<not> in_range x a n \<Longrightarrow> store_le n m a v x = m x"
proof (induction n arbitrary: m a v)
  case 0
  then show ?case by simp
next
  case (Suc n)
  then have "x \<noteq> a" "\<not> in_range x (a + 1) n" by (simp_all add: in_range_Suc)
  with Suc show ?case by simp
qed

lemma store_le_inside:
  "n < 2 ^ 64 \<Longrightarrow> i < n \<Longrightarrow> store_le n m a v (a + of_nat i) = ucast (drop_bit (8 * i) v)"
proof (induction n arbitrary: m a v i)
  case 0
  then show ?case by simp
next
  case (Suc n)
  show ?case
  proof (cases i)
    case 0
    have "\<not> in_range a (a + 1) n"
      using Suc.prems(1) by (simp add: not_in_range_next)
    then have "store_le n (m(a := ucast v)) (a + 1) (drop_bit 8 v) a = ucast v"
      using Suc.prems(1) by (simp add: store_le_outside)
    then show ?thesis by (simp add: 0)
  next
    case (Suc j)
    have "store_le n (m(a := ucast v)) (a + 1) (drop_bit 8 v) (a + 1 + of_nat j)
        = ucast (drop_bit (8 * j) (drop_bit 8 v))"
      using Suc.prems Suc by (intro Suc.IH) simp_all
    then show ?thesis by (simp add: Suc ac_simps)
  qed
qed

lemma load_store_same:
  assumes "n \<le> 8"
  shows "load_le n (store_le n m a v) a = take_bit (8 * n) v"
proof (rule bit_word_eqI)
  fix k assume "k < LENGTH(64)"
  then show "bit (load_le n (store_le n m a v) a) k = bit (take_bit (8 * n) v) k"
    using assms by (auto simp: bit_load_le store_le_inside bit_simps div_less_iff_less_mult ac_simps simp del: drop_bit_drop_bit)
qed

lemma load_store_sep:
  assumes "range_sep a n b k" and "k < 2 ^ 64"
  shows "load_le n (store_le k m b v) a = load_le n m a"
  using assms by (intro load_le_cong store_le_outside range_sep_not_in_range)

text \<open>The widths the kernel uses.\<close>

definition load8 :: "memory \<Rightarrow> u64 \<Rightarrow> u8" where
  "load8 m a = m a"

definition load16 :: "memory \<Rightarrow> u64 \<Rightarrow> u16" where
  "load16 m a = ucast (load_le 2 m a)"

definition load32 :: "memory \<Rightarrow> u64 \<Rightarrow> u32" where
  "load32 m a = ucast (load_le 4 m a)"

definition load64 :: "memory \<Rightarrow> u64 \<Rightarrow> u64" where
  "load64 m a = load_le 8 m a"

definition store32 :: "memory \<Rightarrow> u64 \<Rightarrow> u32 \<Rightarrow> memory" where
  "store32 m a v = store_le 4 m a (ucast v)"

definition store64 :: "memory \<Rightarrow> u64 \<Rightarrow> u64 \<Rightarrow> memory" where
  "store64 m a v = store_le 8 m a v"

lemmas load_defs [mem_eval] = load8_def load16_def load32_def load64_def
lemmas store_defs [mem_eval] = store32_def store64_def

lemma load64_store64_same [simp]: "load64 (store64 m a v) a = v"
  by (simp add: load64_def store64_def load_store_same take_bit_word_eq_self)

lemma store64_outside: "\<not> in_range x a 8 \<Longrightarrow> store64 m a v x = m x"
  by (simp add: store64_def store_le_outside)

lemma load64_cong: "(\<And>x. in_range x a 8 \<Longrightarrow> m x = m' x) \<Longrightarrow> load64 m a = load64 m' a"
  unfolding load64_def by (rule load_le_cong) (simp add: in_range_def unat_of_nat)

section \<open>Alignment\<close>

text \<open>\<open>aligned k a\<close>: \<open>a\<close> is a multiple of \<open>2 ^ k\<close>.\<close>

definition aligned :: "nat \<Rightarrow> u64 \<Rightarrow> bool" where
  "aligned k a \<longleftrightarrow> 2 ^ k dvd unat a"

lemma aligned_0 [simp]: "aligned k 0"
  by (simp add: aligned_def)

lemma dvd_exp_64: "k \<le> 64 \<Longrightarrow> 2 ^ k dvd (18446744073709551616 :: nat)"
  using le_imp_power_dvd [of k 64 "2 :: nat"] by simp

lemma aligned_add: "aligned k a \<Longrightarrow> aligned k b \<Longrightarrow> k \<le> 64 \<Longrightarrow> aligned k (a + b)"
  by (simp add: aligned_def unat_word_ariths dvd_mod dvd_exp_64)

lemma aligned_mult: "aligned k a \<Longrightarrow> k \<le> 64 \<Longrightarrow> aligned k (a * b)"
  by (simp add: aligned_def unat_word_ariths dvd_mod dvd_exp_64)

lemma aligned_diff:
  assumes "aligned k a" "aligned k b" "k \<le> 64"
  shows "aligned k (a - b)"
proof -
  have "aligned k (b * (- 1))" using assms by (intro aligned_mult)
  then have "aligned k (a + b * (- 1))" using assms by (intro aligned_add)
  then show ?thesis by simp
qed

lemma aligned_mono: "aligned k a \<Longrightarrow> j \<le> k \<Longrightarrow> aligned j a"
  unfolding aligned_def using le_imp_power_dvd dvd_trans by blast

lemma aligned_8_mult [simp]: "aligned 3 (8 * x)"
  using aligned_mult [of 3 8 x] by (simp add: aligned_def)

lemma aligned_page_mult [simp]: "aligned 12 (x * 4096)"
  using aligned_mult [of 12 4096 x] by (simp add: aligned_def mult.commute)

lemma aligned_unat_le:
  assumes "aligned k a" and "a \<noteq> 0"
  shows "2 ^ k \<le> unat a"
  using assms by (simp add: aligned_def dvd_imp_le unat_gt_0)

lemma aligned_range_sep:
  assumes "aligned k a" "aligned k b" "a \<noteq> b" "k < 64"
  shows "range_sep a (2 ^ k) b (2 ^ k)"
  using assms aligned_diff [of k a b] aligned_diff [of k b a]
  by (simp add: range_sep_def aligned_unat_le)

text \<open>Two quadwords at 8-aligned addresses are the same or disjoint.\<close>

lemma load64_store64_other:
  assumes "aligned 3 a" "aligned 3 b" "a \<noteq> b"
  shows "load64 (store64 m b v) a = load64 m a"
  using aligned_range_sep [OF assms] by (simp add: load64_def store64_def load_store_sep)

text \<open>The slots of 4096-byte tables with 8-byte entries.\<close>

lemma page_slot_mod:
  assumes "aligned 12 t" "i < 512"
  shows "unat (t + 8 * i) mod 4096 = 8 * unat i"
proof -
  have i: "unat i < 512" using assms(2) by (simp add: word_less_nat_alt)
  obtain q where q: "unat t = 4096 * q" using assms(1) by (auto simp: aligned_def)
  have "unat (t + 8 * i) mod 4096 = (unat t + 8 * unat i) mod 4096"
    using i by (simp add: unat_word_ariths mod_mod_cancel)
  then show ?thesis using i by (simp add: q)
qed

lemma page_slot_eq_iff:
  assumes "aligned 12 t" "aligned 12 t'" "i < 512" "j < 512"
  shows "t + 8 * i = t' + 8 * j \<longleftrightarrow> t = t' \<and> i = j"
proof
  assume eq: "t + 8 * i = t' + 8 * j"
  then have "8 * unat i = 8 * unat j"
    using assms by (metis page_slot_mod)
  then have "i = j" by (simp add: word_unat_eq_iff)
  with eq show "t = t' \<and> i = j" by simp
qed simp

lemma aligned_page_slot: "aligned 12 t \<Longrightarrow> aligned 3 (t + 8 * i)"
  by (auto intro!: aligned_add elim: aligned_mono)

lemma load64_store64_slot:
  assumes "aligned 12 t" "aligned 12 t'" "i < 512" "j < 512"
  shows "load64 (store64 m (t' + 8 * j) v) (t + 8 * i)
    = (if t = t' \<and> i = j then v else load64 m (t + 8 * i))"
  using assms page_slot_eq_iff [OF assms]
  by (auto simp: load64_store64_other aligned_page_slot)

text \<open>A store writes the same bytes into any memory.\<close>

lemma store64_cong: "m x = m' x \<Longrightarrow> store64 m a v x = store64 m' a v x"
proof (cases "in_range x a 8")
  case True
  then obtain k where k: "x = a + of_nat k" "k < 8"
    by (intro that [of "unat (x - a)"]) (simp_all add: in_range_def)
  then show ?thesis by (simp add: store64_def store_le_inside)
qed (simp add: store64_outside)

text \<open>The last of two stores to one address wins.\<close>

lemma store64_twice [simp]: "store64 (store64 m a v) a w = store64 m a w"
proof
  fix x
  show "store64 (store64 m a v) a w x = store64 m a w x"
  proof (cases "in_range x a 8")
    case True
    then obtain k where k: "x = a + of_nat k" "k < 8"
      by (intro that [of "unat (x - a)"]) (simp_all add: in_range_def)
    then show ?thesis by (simp add: store64_def store_le_inside)
  qed (simp add: store64_outside)
qed

end
