(* ===== verification/MemOps.thy ===== *)
theory MemOps
  imports Prelude
begin

text \<open>
  The constants of \<open>hardware/mm/mm.hpp\<close>, the direct map of physical memory, and the two byte
  loops of \<open>hardware/mm/mm.cpp\<close>, \<open>memset\<close> and \<open>memcpy\<close>, with their closed forms.
\<close>

unbundle bit_operations_syntax

section \<open>Constants and the direct map\<close>

named_theorems mm_consts \<open>the address-space constants of mm.hpp\<close>

definition virtual_kernel_base :: u64 where [mm_consts]: "virtual_kernel_base = 0xFFFFFFFF80000000"
definition virtual_physical_base :: u64 where [mm_consts]: "virtual_physical_base = 0xFFFF800000000000"
definition page_size :: u64 where [mm_consts]: "page_size = 0x1000"
definition memory_base :: u64 where [mm_consts]: "memory_base = 0x2000000"
definition heap_base :: u64 where [mm_consts]: "heap_base = 0x200000000"

text \<open>The kernel reaches the physical byte \<open>p\<close> through the virtual address
  \<open>p + virtual_physical_base\<close>; \<open>phys_of\<close> is the physical address behind such a pointer.\<close>

definition phys_of :: "u64 \<Rightarrow> u64" where
  "phys_of v = v - virtual_physical_base"

lemma phys_of_direct [simp]: "phys_of (p + virtual_physical_base) = p"
  by (simp add: phys_of_def)

lemma phys_of_add: "phys_of (a + b) = phys_of a + b"
  by (simp add: phys_of_def)

text \<open>The part of the machine that every component shares is its physical memory.\<close>

record machine =
  ram :: memory

section \<open>memset\<close>

text \<open>\<open>memset_n n m p c\<close> runs the loop \<open>while (n--) *p++ = fill\<close>.\<close>

primrec memset_n :: "nat \<Rightarrow> memory \<Rightarrow> u64 \<Rightarrow> u8 \<Rightarrow> memory" where
  "memset_n 0 m p fill = m"
| "memset_n (Suc n) m p fill = memset_n n (m(p := fill)) (p + 1) fill"

definition memset :: "memory \<Rightarrow> u64 \<Rightarrow> u32 \<Rightarrow> u64 \<Rightarrow> memory" where
  "memset m s c n = memset_n (unat n) m s (ucast c)"

lemma memset_n_eq:
  "n < 2 ^ 64 \<Longrightarrow> memset_n n m p c x = (if in_range x p n then c else m x)"
proof (induction n arbitrary: m p)
  case 0
  then show ?case by simp
next
  case (Suc n)
  then show ?case by (auto simp: in_range_Suc not_in_range_next)
qed

lemma memset_eq: "memset m s c n x = (if x - s < n then ucast c else m x)"
  using unat_u64_less [of n] by (simp add: memset_def memset_n_eq in_range_def word_less_nat_alt)

text \<open>A quadword inside a cleared page reads zero, one outside keeps its value.\<close>

lemma load64_memset_zero_inside:
  assumes "aligned 12 t" "i < 512"
  shows "load64 (memset m t 0 4096) (t + 8 * i) = 0"
proof -
  have i: "unat i < 512" using assms(2) by (simp add: word_less_nat_alt)
  have "memset m t 0 4096 x = 0" if x: "in_range x (t + 8 * i) 8" for x
  proof -
    have u8i: "unat (8 * i) = 8 * unat i" using i by (simp add: unat_mult_u64)
    have "unat (x - t) = unat ((x - (t + 8 * i)) + 8 * i)" by simp
    also have "\<dots> = unat (x - (t + 8 * i)) + unat (8 * i)"
      using i x u8i by (intro unat_add_u64) (simp add: in_range_def)
    finally have "unat (x - t) = unat (x - (t + 8 * i)) + 8 * unat i" by (simp add: u8i)
    then have "x - t < 4096" using i x by (simp add: in_range_def word_less_nat_alt)
    then show ?thesis by (simp add: memset_eq)
  qed
  then have "load64 (memset m t 0 4096) (t + 8 * i) = load64 (\<lambda>_. 0) (t + 8 * i)"
    by (intro load64_cong)
  then show ?thesis by (simp add: load64_def eval_nat_numeral)
qed

lemma load64_memset_outside:
  assumes "\<And>x. in_range x a 8 \<Longrightarrow> \<not> in_range x s (unat n)"
  shows "load64 (memset m s c n) a = load64 m a"
  using assms by (intro load64_cong) (simp add: memset_eq in_range_def word_less_nat_alt)

section \<open>memcpy\<close>

text \<open>\<open>memcpy_n n m d s\<close> runs the loop \<open>while (len--) *d++ = *s++\<close>.\<close>

primrec memcpy_n :: "nat \<Rightarrow> memory \<Rightarrow> u64 \<Rightarrow> u64 \<Rightarrow> memory" where
  "memcpy_n 0 m d s = m"
| "memcpy_n (Suc n) m d s = memcpy_n n (m(d := m s)) (d + 1) (s + 1)"

definition memcpy :: "memory \<Rightarrow> u64 \<Rightarrow> u64 \<Rightarrow> u64 \<Rightarrow> memory" where
  "memcpy m dest src len = memcpy_n (unat len) m dest src"

text \<open>The loop copies upwards, so it is right whenever no source byte is overwritten before it is
  read: \<open>dest\<close> may lie below \<open>src\<close> or past its end, not strictly inside.\<close>

lemma memcpy_n_eq:
  assumes "n < 2 ^ 64" "\<And>i. i < n \<Longrightarrow> i \<noteq> 0 \<Longrightarrow> d \<noteq> s + of_nat i"
  shows "memcpy_n n m d s x = (if in_range x d n then m (s + (x - d)) else m x)"
  using assms
proof (induction n arbitrary: m d s)
  case 0
  then show ?case by simp
next
  case (Suc n)
  have clash: "d + 1 \<noteq> s + 1 + of_nat i" if "i < n" "i \<noteq> 0" for i
    using Suc.prems(2) [of i] that by simp
  have IH: "memcpy_n n (m(d := m s)) (d + 1) (s + 1) x
    = (if in_range x (d + 1) n then (m(d := m s)) (s + 1 + (x - (d + 1))) else (m(d := m s)) x)"
    using Suc.prems(1) clash by (intro Suc.IH) simp_all
  have src: "s + 1 + (x - (d + 1)) = s + (x - d)" by simp
  show ?case
  proof (cases "in_range x (d + 1) n")
    case True
    then have r: "in_range x d (Suc n)" and ne: "x \<noteq> d"
      using Suc.prems(1) by (auto simp: in_range_Suc not_in_range_next)
    have "d \<noteq> s + (x - d)"
    proof -
      have "unat (x - d) < Suc n" "unat (x - d) \<noteq> 0" using r ne by (auto simp: in_range_def unat_eq_zero)
      then show ?thesis using Suc.prems(2) [of "unat (x - d)"] by simp
    qed
    with True r IH show ?thesis by (simp add: src)
  next
    case False
    then show ?thesis using IH Suc.prems(1) by (auto simp: in_range_Suc)
  qed
qed

end
