(* ===== verification/MathLib.thy ===== *)
theory MathLib
  imports Prelude
begin

text \<open>\<open>lib/math.cpp\<close>: rounding, range containment and maximum on \<open>size_t\<close>.\<close>

section \<open>Definitions\<close>

text \<open>A division by a zero \<open>s\<close> traps on the target; every caller in the kernel passes
  \<open>page_size\<close>. The model keeps the value HOL gives to a division by zero out of the results by
  making the trap an outcome.\<close>

definition round_up :: "u64 \<Rightarrow> u64 \<Rightarrow> u64 result" where
  "round_up n s = (if s = 0 then Inl DivideByZero else Inr (((n + s - 1) div s) * s))"

definition round_down :: "u64 \<Rightarrow> u64 \<Rightarrow> u64 result" where
  "round_down n s = (if s = 0 then Inl DivideByZero else Inr ((n div s) * s))"

definition overlaps :: "u64 \<Rightarrow> u64 \<Rightarrow> u64 \<Rightarrow> u64 \<Rightarrow> bool" where
  "overlaps a as b bs \<longleftrightarrow> a \<ge> b \<and> a + as \<le> b + bs"

definition math_max :: "u64 \<Rightarrow> u64 \<Rightarrow> u64" where
  "math_max x y = (if x > y then x else y)"

end
