(* ===== verification/PageAllocator.thy ===== *)
theory PageAllocator
  imports MemOps
begin

text \<open>
  The interface between the page-table code and the physical memory manager, as a locale: the
  one-page allocation \<open>Pmm::alloc(1)\<close> that the client calls, and what the provider promises
  about it. \<open>used s x\<close> says that the page holding the physical byte \<open>x\<close> is handed out,
  \<open>own s x\<close> that the byte \<open>x\<close> is part of the allocator's own records.
\<close>

locale page_allocator =
  fixes alloc :: "'a machine_scheme \<Rightarrow> (u64 \<times> 'a machine_scheme) result"
    and wf :: "'a machine_scheme \<Rightarrow> bool"
    and used :: "'a machine_scheme \<Rightarrow> u64 \<Rightarrow> bool"
    and own :: "'a machine_scheme \<Rightarrow> u64 \<Rightarrow> bool"
  assumes alloc_returns: "\<exists>p s'. alloc s = Inr (p, s')"
    and alloc_null: "wf s \<Longrightarrow> alloc s = Inr (0, s') \<Longrightarrow> s' = s"
    and alloc_wf: "wf s \<Longrightarrow> alloc s = Inr (p, s') \<Longrightarrow> wf s'"
    and alloc_aligned: "wf s \<Longrightarrow> alloc s = Inr (p, s') \<Longrightarrow> aligned 12 p \<and> unat p < 2 ^ 47"
    and alloc_fresh: "wf s \<Longrightarrow> alloc s = Inr (p, s') \<Longrightarrow> p \<noteq> 0 \<Longrightarrow> \<not> used s p"
    and alloc_marks: "wf s \<Longrightarrow> alloc s = Inr (p, s') \<Longrightarrow> p \<noteq> 0 \<Longrightarrow> used s' p"
    and alloc_keeps: "wf s \<Longrightarrow> alloc s = Inr (p, s') \<Longrightarrow> used s x \<Longrightarrow> used s' x"
    and alloc_ram: "wf s \<Longrightarrow> alloc s = Inr (p, s') \<Longrightarrow> \<not> own s x \<Longrightarrow> ram s' x = ram s x"
    and alloc_own: "alloc s = Inr (p, s') \<Longrightarrow> own s' = own s"
    and own_used: "wf s \<Longrightarrow> own s x \<Longrightarrow> used s x"
    and used_page: "x div 4096 = y div 4096 \<Longrightarrow> used s x = used s y"
    and own_ram: "own (s\<lparr>ram := m\<rparr>) = own s"
    and used_ram: "(\<And>x. own s x \<Longrightarrow> m x = ram s x) \<Longrightarrow> wf s \<Longrightarrow>
      wf (s\<lparr>ram := m\<rparr>) \<and> used (s\<lparr>ram := m\<rparr>) = used s"
    and alloc_local: "wf s \<Longrightarrow> (\<And>x. own s x \<Longrightarrow> m x = ram s x) \<Longrightarrow> alloc s = Inr (p, s') \<Longrightarrow>
      \<exists>m'. alloc (s\<lparr>ram := m\<rparr>) = Inr (p, s'\<lparr>ram := m'\<rparr>) \<and> (\<forall>x. own s x \<longrightarrow> m' x = ram s' x)"

text \<open>\<open>can_alloc alloc n s\<close>: the next \<open>n\<close> one-page allocations succeed.\<close>

primrec can_alloc ::
  "('a machine_scheme \<Rightarrow> (u64 \<times> 'a machine_scheme) result) \<Rightarrow> nat \<Rightarrow> 'a machine_scheme \<Rightarrow> bool" where
  "can_alloc alloc 0 s = True"
| "can_alloc alloc (Suc n) s =
     (case alloc s of Inl e \<Rightarrow> False | Inr (p, s') \<Rightarrow> p \<noteq> 0 \<and> can_alloc alloc n s')"

lemma can_alloc_mono: "can_alloc alloc n s \<Longrightarrow> k \<le> n \<Longrightarrow> can_alloc alloc k s"
proof (induction k arbitrary: n s)
  case (Suc k)
  then obtain j where "n = Suc j" "k \<le> j" by (cases n) auto
  with Suc show ?case by (auto split: sum.splits prod.splits)
qed simp

context page_allocator
begin

lemma can_alloc_ram:
  "wf s \<Longrightarrow> (\<And>x. own s x \<Longrightarrow> m x = ram s x) \<Longrightarrow> can_alloc alloc n s \<Longrightarrow> can_alloc alloc n (s\<lparr>ram := m\<rparr>)"
proof (induction n arbitrary: s m)
  case (Suc n)
  obtain p s' where run: "alloc s = Inr (p, s')" using alloc_returns by blast
  then obtain m' where m': "alloc (s\<lparr>ram := m\<rparr>) = Inr (p, s'\<lparr>ram := m'\<rparr>)"
    "\<And>x. own s x \<Longrightarrow> m' x = ram s' x"
    using alloc_local [OF Suc.prems(1,2)] by blast
  have "can_alloc alloc n (s'\<lparr>ram := m'\<rparr>)"
    using Suc.IH [OF alloc_wf [OF Suc.prems(1) run], of m'] m'(2) alloc_own [OF run] Suc.prems(3) run
    by simp
  then show ?case using m'(1) Suc.prems(3) run by simp
qed simp

end

declare can_alloc.simps(2) [simp del]

end
