(* ===== verification/Pmm.thy ===== *)
theory Pmm
  imports PageAllocator MathLib
begin

text \<open>
  The physical memory manager, \<open>hardware/mm/pmm.cpp\<close>: one bit per page frame in a bitmap that
  lies in physical memory, first-fit allocation, and the initialisation from the boot loader's
  memory map.

  The mask of a page is \<open>(size_t)(1 << (idx % 64))\<close> with an \<open>int\<close> on the left. For a shift
  count of 32 or more C++ gives no value; the model takes the one the x86-64 instruction computes,
  which uses the low five bits of the count. For count 31 the \<open>int\<close> is negative and its conversion
  extends the sign. \<open>slot\<close> names the resulting unit of bookkeeping.
\<close>

unbundle bit_operations_syntax

section \<open>State\<close>

text \<open>The globals of \<open>pmm.cpp\<close>. \<open>bitmap\<close> is a virtual address in the direct map.\<close>

record pmm_state = machine +
  bitmap :: u64
  free_pages :: u64
  total_pages :: u64
  bitmap_len :: u64

text \<open>\<open>Multiboot::MemoryMap\<close> and \<open>Multiboot::MemoryState\<close> of \<open>multiboot.hpp\<close>.\<close>

record memory_map =
  mm_size :: u32
  mm_addr :: u64
  mm_len :: u64
  mm_type :: u32

definition AVAILABLE :: u32 where "AVAILABLE = 1"

section \<open>The bitmap\<close>

definition bit_mask :: "u64 \<Rightarrow> u64" where
  "bit_mask idx = scast (push_bit (unat (idx mod 64) mod 32) (1 :: u32))"

text \<open>\<open>bitmap[off]\<close>: the quadword at byte offset \<open>8 * off\<close>.\<close>

definition bitmap_slot :: "u64 \<Rightarrow> u64 \<Rightarrow> u64" where
  "bitmap_slot bm off = phys_of bm + 8 * off"

definition bit_read :: "memory \<Rightarrow> u64 \<Rightarrow> u64 \<Rightarrow> bool" where
  "bit_read m bm idx =
     (let off = idx div 64; mask = bit_mask idx
      in load64 m (bitmap_slot bm off) AND mask = mask)"

primrec bit_write_n :: "nat \<Rightarrow> memory \<Rightarrow> u64 \<Rightarrow> u64 \<Rightarrow> u32 \<Rightarrow> memory" where
  "bit_write_n 0 m bm idx b = m"
| "bit_write_n (Suc n) m bm idx b =
     (let off = idx div 64; mask = bit_mask idx; a = bitmap_slot bm off;
          w = (if b \<noteq> 0 then load64 m a OR mask else load64 m a AND NOT mask)
      in bit_write_n n (store64 m a w) bm (idx + 1) b)"

definition bit_write :: "memory \<Rightarrow> u64 \<Rightarrow> u64 \<Rightarrow> u32 \<Rightarrow> u64 \<Rightarrow> memory" where
  "bit_write m bm idx b count = bit_write_n (unat count) m bm idx b"

primrec bitmap_is_free_n :: "nat \<Rightarrow> memory \<Rightarrow> u64 \<Rightarrow> u64 \<Rightarrow> bool" where
  "bitmap_is_free_n 0 m bm idx = True"
| "bitmap_is_free_n (Suc n) m bm idx =
     (if bit_read m bm idx then False else bitmap_is_free_n n m bm (idx + 1))"

definition bitmap_is_free :: "memory \<Rightarrow> u64 \<Rightarrow> u64 \<Rightarrow> u64 \<Rightarrow> bool" where
  "bitmap_is_free m bm idx count = bitmap_is_free_n (unat count) m bm idx"

section \<open>Allocation and release\<close>

text \<open>The search loop of \<open>Pmm::alloc\<close>: \<open>None\<close> when it never ends, \<open>Some None\<close> when it runs
  past \<open>max_idx\<close>, \<open>Some (Some idx)\<close> for the first candidate whose pages all read free.\<close>

partial_function (option) find_free ::
  "memory \<Rightarrow> u64 \<Rightarrow> u64 \<Rightarrow> u64 \<Rightarrow> u64 \<Rightarrow> u64 \<Rightarrow> u64 option option" where
  "find_free m bm count alignment max_idx idx =
     (if idx < max_idx then
        if \<not> bitmap_is_free m bm idx count
        then find_free m bm count alignment max_idx (idx + alignment)
        else Some (Some idx)
      else Some None)"

declare find_free.simps [code]

definition pmm_max_idx :: "u64 \<Rightarrow> 'a pmm_state_scheme \<Rightarrow> u64" where
  "pmm_max_idx upper s =
     (if upper = 0 then bitmap_len s
      else if bitmap_len s < upper div page_size then bitmap_len s
      else upper div page_size)"

definition pmm_alloc_aligned ::
  "u64 \<Rightarrow> u64 \<Rightarrow> u64 \<Rightarrow> 'a pmm_state_scheme \<Rightarrow> (u64 \<times> 'a pmm_state_scheme) result" where
  "pmm_alloc_aligned count alignment upper s =
     (case find_free (ram s) (bitmap s) count alignment (pmm_max_idx upper s)
             (memory_base div page_size) of
        None \<Rightarrow> Inl Diverges
      | Some None \<Rightarrow> Inr (0, s)
      | Some (Some idx) \<Rightarrow>
          (let s1 = s\<lparr>ram := bit_write (ram s) (bitmap s) idx 1 count\<rparr>;
               s2 = (if total_pages s1 \<noteq> 0 then s1\<lparr>free_pages := free_pages s1 - count\<rparr> else s1)
           in Inr (idx * page_size, s2)))"

definition pmm_alloc ::
  "u64 \<Rightarrow> 'a pmm_state_scheme \<Rightarrow> (u64 \<times> 'a pmm_state_scheme) result" where
  "pmm_alloc count s = pmm_alloc_aligned count 1 0 s"

definition pmm_free :: "u64 \<Rightarrow> u64 \<Rightarrow> 'a pmm_state_scheme \<Rightarrow> 'a pmm_state_scheme" where
  "pmm_free mem count s =
     (let idx = mem div page_size
      in s\<lparr>ram := bit_write (ram s) (bitmap s) idx 0 count,
           free_pages := free_pages s + count\<rparr>)"

section \<open>Initialisation\<close>

primrec find_memory_top :: "memory_map list \<Rightarrow> u64 \<Rightarrow> u64" where
  "find_memory_top [] hi = hi"
| "find_memory_top (e # es) hi =
     find_memory_top es
       (if mm_type e = AVAILABLE \<and> mm_addr e + mm_len e > hi
        then mm_addr e + mm_len e else hi)"

definition find_available_memory_top :: "memory_map list \<Rightarrow> u64" where
  "find_available_memory_top mmap = find_memory_top mmap 0"

text \<open>One round of the loop in \<open>Pmm::init\<close> over the memory map.\<close>

definition pmm_init_entry ::
  "u64 \<Rightarrow> memory_map \<Rightarrow> 'a pmm_state_scheme \<Rightarrow> 'a pmm_state_scheme result" where
  "pmm_init_entry bitmap_phys e s =
     (if mm_type e = AVAILABLE then
        rbind (round_up (mm_addr e) page_size) (\<lambda>start0.
        rbind (round_down (mm_len e) page_size) (\<lambda>len0.
          if len0 = 0 \<or> start0 + len0 < memory_base then Inr s
          else
            let (start1, len1) =
                  (if start0 < memory_base then (memory_base, len0 - (memory_base - start0))
                   else (start0, len0))
            in if overlaps bitmap_phys (bitmap_len s div 8) start1 len1
               then
                 let s1 = (if start1 < bitmap_phys
                           then pmm_free start1 ((start1 - bitmap_phys) div page_size) s
                           else s);
                     start2 = bitmap_phys + bitmap_len s1 div 8;
                     len2 = len1 - bitmap_len s1 div 8
                 in Inr (pmm_free start2 (len2 div page_size) s1)
               else Inr (pmm_free start1 (len1 div page_size) s)))
      else Inr s)"

primrec pmm_init_entries ::
  "u64 \<Rightarrow> memory_map list \<Rightarrow> 'a pmm_state_scheme \<Rightarrow> 'a pmm_state_scheme result" where
  "pmm_init_entries bitmap_phys [] s = Inr s"
| "pmm_init_entries bitmap_phys (e # es) s =
     rbind (pmm_init_entry bitmap_phys e s) (pmm_init_entries bitmap_phys es)"

definition pmm_init :: "memory_map list \<Rightarrow> 'a pmm_state_scheme \<Rightarrow> 'a pmm_state_scheme result" where
  "pmm_init mmap s =
     (let mem_top = find_available_memory_top mmap;
          mem_pages = ucast ((mem_top + page_size - 1) div page_size) :: u32;
          s1 = s\<lparr>bitmap := memory_base + virtual_physical_base, bitmap_len := ucast mem_pages\<rparr>;
          bitmap_phys = bitmap s1 - virtual_physical_base;
          s2 = s1\<lparr>ram := memset (ram s1) (phys_of (bitmap s1)) 0xFF (bitmap_len s1 div 8)\<rparr>
      in rbind (pmm_init_entries bitmap_phys mmap s2) (\<lambda>s3.
           let s4 = s3\<lparr>total_pages := free_pages s3\<rparr>;
               pages = (bitmap_len s4 div 8 + page_size - 1) div page_size;
               s5 = s4\<lparr>ram := bit_write (ram s4) (bitmap s4) (bitmap_phys div page_size) 1 pages\<rparr>
           in rbind (pmm_alloc pages s5) (\<lambda>(p, s6). Inr s6)))"

section \<open>Slots\<close>

definition slot :: "u64 \<Rightarrow> u64 \<times> nat" where
  "slot idx = (idx div 64, unat idx mod 32)"

lemma bit_bit_mask: "bit (bit_mask idx) k \<longleftrightarrow> k < 64 \<and> min 31 k = unat idx mod 32"
proof -
  have "unat (idx mod 64) mod 32 = unat idx mod 32"
    by (simp add: unat_mod mod_mod_cancel)
  then show ?thesis
    by (auto simp: bit_mask_def bit_simps min_def)
qed

lemma bit_read_iff:
  "bit_read m bm idx \<longleftrightarrow>
     (\<forall>k < 64. min 31 k = unat idx mod 32 \<longrightarrow> bit (load64 m (bitmap_slot bm (idx div 64))) k)"
  unfolding bit_read_def Let_def
  by (auto simp: bit_eq_iff bit_simps bit_bit_mask)

lemma bitmap_slot_eq_iff:
  "bitmap_slot bm (i div 64) = bitmap_slot bm (j div 64) \<longleftrightarrow> i div 64 = j div 64"
proof -
  have "unat (8 * (x div 64)) = 8 * (unat x div 64)" for x :: u64
    using unat_u64_less [of x] by (simp add: unat_mult_u64 unat_div)
  then have "8 * (i div 64) = 8 * (j div 64) \<longleftrightarrow> unat i div 64 = unat j div 64"
    by (metis mult_cancel_left word_unat_eq_iff zero_neq_numeral)
  moreover have "i div 64 = j div 64 \<longleftrightarrow> unat i div 64 = unat j div 64"
    by (simp add: word_unat_eq_iff unat_div)
  ultimately show ?thesis by (simp add: bitmap_slot_def)
qed

lemma load64_store64_bitmap:
  assumes "aligned 3 (phys_of bm)"
  shows "load64 (store64 m (bitmap_slot bm (i div 64)) w) (bitmap_slot bm (j div 64))
    = (if i div 64 = j div 64 then w else load64 m (bitmap_slot bm (j div 64)))"
proof (cases "i div 64 = j div 64")
  case False
  then have "bitmap_slot bm (j div 64) \<noteq> bitmap_slot bm (i div 64)"
    by (simp add: bitmap_slot_eq_iff)
  moreover have "aligned 3 (bitmap_slot bm x)" for x
    using assms by (simp add: bitmap_slot_def aligned_add)
  ultimately show ?thesis using False by (simp add: load64_store64_other)
qed simp

text \<open>The word \<open>bit_write\<close> stores in one round.\<close>

definition bit_update :: "u64 \<Rightarrow> u64 \<Rightarrow> u32 \<Rightarrow> u64" where
  "bit_update w mk b = (if b \<noteq> 0 then w OR mk else w AND NOT mk)"

lemma bit_read_step:
  assumes "aligned 3 (phys_of bm)"
    and m': "m' = store64 m (bitmap_slot bm (i div 64))
      (bit_update (load64 m (bitmap_slot bm (i div 64))) (bit_mask i) b)"
  shows "bit_read m' bm j \<longleftrightarrow> (if slot i = slot j then b \<noteq> 0 else bit_read m bm j)"
proof (cases "i div 64 = j div 64")
  case False
  then show ?thesis
    by (simp add: bit_read_def m' load64_store64_bitmap [OF assms(1)] slot_def)
next
  case True
  have "unat j mod 32 < 32" by simp
  then have "min 31 (unat j mod 32) = unat j mod 32" "unat j mod 32 < 64" by linarith+
  then have ex: "\<exists>k < 64. min 31 k = unat j mod 32" by blast
  show ?thesis
    using True ex
    by (auto simp: bit_read_iff m' bit_update_def load64_store64_bitmap [OF assms(1)] slot_def
        bit_simps bit_bit_mask)
qed

lemma bit_read_write_n:
  assumes "aligned 3 (phys_of bm)"
  shows "bit_read (bit_write_n n m bm i b) bm j
    \<longleftrightarrow> (if \<exists>k < n. slot (i + of_nat k) = slot j then b \<noteq> 0 else bit_read m bm j)"
proof (induction n arbitrary: m i)
  case 0
  then show ?case by simp
next
  case (Suc n)
  have split: "(\<exists>k < Suc n. slot (i + of_nat k) = slot j)
      \<longleftrightarrow> slot i = slot j \<or> (\<exists>k < n. slot (i + 1 + of_nat k) = slot j)"
    by (auto simp: Ex_less_Suc2 ac_simps)
  show ?case
    unfolding split using bit_read_step [OF assms refl, of m i b j]
    by (auto simp: Suc.IH Let_def bit_update_def)
qed

lemma bit_read_write:
  "aligned 3 (phys_of bm) \<Longrightarrow>
   bit_read (bit_write m bm i b count) bm j
     \<longleftrightarrow> (if \<exists>k < unat count. slot (i + of_nat k) = slot j then b \<noteq> 0 else bit_read m bm j)"
  by (simp add: bit_write_def bit_read_write_n)

lemma bitmap_is_free_n_iff:
  "bitmap_is_free_n n m bm i \<longleftrightarrow> (\<forall>k < n. \<not> bit_read m bm (i + of_nat k))"
  by (induction n arbitrary: i) (auto simp: All_less_Suc2 ac_simps)

lemma bitmap_is_free_iff:
  "bitmap_is_free m bm i count \<longleftrightarrow> (\<forall>k < unat count. \<not> bit_read m bm (i + of_nat k))"
  by (simp add: bitmap_is_free_def bitmap_is_free_n_iff)

section \<open>The search\<close>

lemma find_free_stuck:
  assumes "find_free m bm c al mx i = Some r"
  shows "\<not> (al = 0 \<and> i < mx \<and> \<not> bitmap_is_free m bm i c)"
  by (rule find_free.raw_induct
      [where P = "\<lambda>m bm c al mx i r. \<not> (al = 0 \<and> i < mx \<and> \<not> bitmap_is_free m bm i c)", OF _ assms])
    (auto split: if_splits)

lemma find_free_fit:
  assumes "find_free m bm c al mx i = Some (Some r)"
  shows "r < mx \<and> bitmap_is_free m bm r c \<and>
    (\<exists>k. r = i + of_nat k * al \<and> (\<forall>j < k. \<not> bitmap_is_free m bm (i + of_nat j * al) c))"
proof -
  let ?P = "\<lambda>m bm c al mx i r'. \<forall>r. r' = Some r \<longrightarrow> r < mx \<and> bitmap_is_free m bm r c \<and>
    (\<exists>k. r = i + of_nat k * al \<and> (\<forall>j < k. \<not> bitmap_is_free m bm (i + of_nat j * al) c))"
  have "?P m bm c al mx i (Some r)"
  proof (rule find_free.raw_induct [where P = ?P, OF _ assms], intro allI impI)
    fix f m bm c al mx i r' r
    assume IH: "\<And>m bm c al mx i r'. f m bm c al mx i = Some r' \<Longrightarrow> ?P m bm c al mx i r'"
      and eq: "(if i < mx then if \<not> bitmap_is_free m bm i c then f m bm c al mx (i + al)
               else Some (Some i) else Some None) = Some r'"
      and r: "r' = Some r"
    show "r < mx \<and> bitmap_is_free m bm r c \<and>
      (\<exists>k. r = i + of_nat k * al \<and> (\<forall>j < k. \<not> bitmap_is_free m bm (i + of_nat j * al) c))"
    proof (cases "bitmap_is_free m bm i c")
      case True
      then have "r = i" "i < mx" using eq r by (auto split: if_splits)
      with True show ?thesis by (auto intro!: exI [of _ "0 :: nat"])
    next
      case False
      then have "f m bm c al mx (i + al) = Some (Some r)" using eq r by (auto split: if_splits)
      from IH [OF this] obtain k where "r < mx" "bitmap_is_free m bm r c"
        and k: "r = i + al + of_nat k * al"
        and before: "\<forall>j < k. \<not> bitmap_is_free m bm (i + al + of_nat j * al) c"
        by blast
      moreover have "\<forall>j < Suc k. \<not> bitmap_is_free m bm (i + of_nat j * al) c"
        using False before by (auto simp: All_less_Suc2 algebra_simps)
      moreover have "r = i + of_nat (Suc k) * al" using k by (simp add: algebra_simps)
      ultimately show ?thesis by blast
    qed
  qed
  then show ?thesis by blast
qed

text \<open>A positive alignment that cannot carry the index past \<open>2 ^ 64\<close> makes the loop end.\<close>

lemma find_free_returns:
  assumes "al \<noteq> 0" "unat mx + unat al \<le> 2 ^ 64"
  shows "\<exists>r. find_free m bm c al mx i = Some r"
proof (induction "unat mx - unat i" arbitrary: i rule: less_induct)
  case less
  show ?case
  proof (cases "i < mx \<and> \<not> bitmap_is_free m bm i c")
    case False
    then show ?thesis by (subst find_free.simps) auto
  next
    case True
    then have "unat i < unat mx" by (simp add: word_less_nat_alt)
    moreover from this assms(2) have "unat (i + al) = unat i + unat al"
      by (intro unat_add_u64) simp
    moreover have "0 < unat al" using assms(1) by (simp add: unat_gt_0)
    ultimately have "unat mx - unat (i + al) < unat mx - unat i" by linarith
    from less [OF this] True show ?thesis by (subst find_free.simps) auto
  qed
qed

section \<open>What an allocation does\<close>

definition page_marked :: "'a pmm_state_scheme \<Rightarrow> u64 \<Rightarrow> bool" where
  "page_marked s i = bit_read (ram s) (bitmap s) i"

definition first_page :: u64 where
  "first_page = memory_base div page_size"

lemma first_page_eq: "first_page = 8192"
  by (simp add: first_page_def mm_consts)

definition pmm_take :: "u64 \<Rightarrow> u64 \<Rightarrow> 'a pmm_state_scheme \<Rightarrow> 'a pmm_state_scheme" where
  "pmm_take idx count s =
     s\<lparr>ram := bit_write (ram s) (bitmap s) idx 1 count,
       free_pages := (if total_pages s \<noteq> 0 then free_pages s - count else free_pages s)\<rparr>"

lemma word_Suc_le: "i < m \<Longrightarrow> unat (i + 1) = unat i + 1" for i m :: u64
  using unat_u64_less [of m] by (subst unat_add_u64) (simp_all add: word_less_nat_alt)

lemma find_free_step_1:
  assumes "find_free m bm c 1 mx i = Some r"
  shows "case r of
      None \<Rightarrow> \<forall>j. i \<le> j \<and> j < mx \<longrightarrow> \<not> bitmap_is_free m bm j c
    | Some q \<Rightarrow> i \<le> q \<and> q < mx \<and> bitmap_is_free m bm q c \<and>
        (\<forall>j. i \<le> j \<and> j < q \<longrightarrow> \<not> bitmap_is_free m bm j c)"
  using assms
proof (induction "unat mx - unat i" arbitrary: i rule: less_induct)
  case less
  show ?case
  proof (cases "i < mx \<and> \<not> bitmap_is_free m bm i c")
    case False
    then show ?thesis using less.prems by (subst (asm) find_free.simps) (auto split: if_splits)
  next
    case True
    have u: "unat (i + 1) = unat i + 1" using True word_Suc_le by blast
    have next_le: "i + 1 \<le> j \<longleftrightarrow> i \<le> j \<and> i \<noteq> j" for j
      using u by (auto simp: word_le_nat_alt word_unat_eq_iff)
    have "find_free m bm c 1 mx (i + 1) = Some r"
      using True less.prems by (subst (asm) find_free.simps) simp
    moreover have "unat mx - unat (i + 1) < unat mx - unat i"
      using True u by (auto simp: word_less_nat_alt intro: diff_less_mono2)
    ultimately show ?thesis
      using less.hyps [of "i + 1"] True next_le by (auto split: option.splits)
  qed
qed

lemma pmm_alloc_cases:
  assumes "pmm_alloc count s = Inr (p, s')"
  obtains (exhausted) "p = 0" "s' = s"
      "\<And>j. first_page \<le> j \<Longrightarrow> j < bitmap_len s \<Longrightarrow> \<not> bitmap_is_free (ram s) (bitmap s) j count"
  | (found) idx where "first_page \<le> idx" "idx < bitmap_len s" "p = idx * page_size"
      "bitmap_is_free (ram s) (bitmap s) idx count"
      "\<And>j. first_page \<le> j \<Longrightarrow> j < idx \<Longrightarrow> \<not> bitmap_is_free (ram s) (bitmap s) j count"
      "s' = pmm_take idx count s"
proof -
  let ?free = "\<lambda>j. bitmap_is_free (ram s) (bitmap s) j count"
  let ?search = "find_free (ram s) (bitmap s) count 1 (bitmap_len s) first_page"
  have run: "pmm_alloc count s = (case ?search of
        None \<Rightarrow> Inl Diverges
      | Some None \<Rightarrow> Inr (0, s)
      | Some (Some idx) \<Rightarrow> Inr (idx * page_size, pmm_take idx count s))"
    by (auto simp: pmm_alloc_def pmm_alloc_aligned_def pmm_max_idx_def first_page_def pmm_take_def
        Let_def split: option.splits)
  consider "?search = Some None" | idx where "?search = Some (Some idx)"
    using assms run by (auto split: option.splits)
  then show thesis
  proof cases
    case 1
    show thesis
      using exhausted find_free_step_1 [OF 1] assms run 1 by simp
  next
    case (2 idx)
    show thesis
      using found [of idx] find_free_step_1 [OF 2] assms run 2 by simp
  qed
qed

lemma pmm_alloc_returns: "\<exists>p s'. pmm_alloc count s = Inr (p, s')"
proof -
  have "unat (bitmap_len s) + unat (1 :: u64) \<le> 2 ^ 64"
    using unat_u64_less [of "bitmap_len s"] by simp
  then obtain r where
    "find_free (ram s) (bitmap s) count 1 (bitmap_len s) (memory_base div page_size) = Some r"
    using find_free_returns [of 1] by (metis one_neq_zero)
  then show ?thesis
    by (auto simp: pmm_alloc_def pmm_alloc_aligned_def pmm_max_idx_def Let_def split: option.splits)
qed

section \<open>The bytes a write to the bitmap touches\<close>

lemma bit_write_n_outside:
  assumes "\<And>k. k < n \<Longrightarrow> \<not> in_range x (bitmap_slot bm ((i + of_nat k) div 64)) 8"
  shows "bit_write_n n m bm i b x = m x"
  using assms
proof (induction n arbitrary: m i)
  case 0
  then show ?case by simp
next
  case (Suc n)
  have "\<not> in_range x (bitmap_slot bm (i div 64)) 8" using Suc.prems [of 0] by simp
  moreover have "\<not> in_range x (bitmap_slot bm ((i + 1 + of_nat k) div 64)) 8" if "k < n" for k
    using Suc.prems [of "Suc k"] that by (simp add: ac_simps)
  ultimately show ?case by (simp add: Let_def Suc.IH store64_outside)
qed

text \<open>The bytes of the quadwords that hold the bits of the pages below \<open>bitmap_len\<close>.\<close>

definition bitmap_bytes :: "u64 \<Rightarrow> nat" where
  "bitmap_bytes len = 8 * ((unat len + 63) div 64)"

definition pmm_own :: "'a pmm_state_scheme \<Rightarrow> u64 \<Rightarrow> bool" where
  "pmm_own s x \<longleftrightarrow> in_range x (phys_of (bitmap s)) (bitmap_bytes (bitmap_len s))"

text \<open>A physical byte is used when its page reads as taken; the pages past the end of the bitmap
  are not the allocator's to give and count as used.\<close>

definition pmm_used :: "'a pmm_state_scheme \<Rightarrow> u64 \<Rightarrow> bool" where
  "pmm_used s x \<longleftrightarrow>
     (x div page_size < bitmap_len s \<longrightarrow> page_marked s (x div page_size))"

definition pmm_wf :: "'a pmm_state_scheme \<Rightarrow> bool" where
  "pmm_wf s \<longleftrightarrow> aligned 12 (phys_of (bitmap s)) \<and> unat (bitmap_len s) < 2 ^ 32 \<and>
     unat (phys_of (bitmap s)) + bitmap_bytes (bitmap_len s) \<le> 2 ^ 52 \<and>
     (\<forall>x. pmm_own s x \<longrightarrow> pmm_used s x)"

lemma pmm_wf_aligned: "pmm_wf s \<Longrightarrow> aligned 3 (phys_of (bitmap s))"
  by (auto simp: pmm_wf_def elim: aligned_mono)

lemma slot_bytes_own:
  assumes "idx < bitmap_len s" and "in_range x (bitmap_slot (bitmap s) (idx div 64)) 8"
  shows "pmm_own s x"
proof -
  let ?b = "phys_of (bitmap s)" and ?q = "unat idx div 64"
  have q: "unat (8 * (idx div 64)) = 8 * ?q"
    using unat_u64_less [of idx] by (simp add: unat_mult_u64 unat_div)
  have r: "unat (x - (?b + 8 * (idx div 64))) < 8"
    using assms(2) by (simp add: in_range_def bitmap_slot_def)
  have "unat (x - ?b) = unat ((x - (?b + 8 * (idx div 64))) + 8 * (idx div 64))" by simp
  also have "\<dots> = unat (x - (?b + 8 * (idx div 64))) + 8 * ?q"
    using r q unat_u64_less [of idx] by (subst unat_add_u64) auto
  finally have "unat (x - ?b) < 8 * ?q + 8" using r by simp
  also have "\<dots> = 8 * ((unat idx + 64) div 64)" by (simp add: div_add_self2)
  also have "\<dots> \<le> bitmap_bytes (bitmap_len s)"
    using assms(1) unfolding bitmap_bytes_def word_less_nat_alt
    by (intro mult_le_mono2 div_le_mono) simp
  finally show ?thesis by (simp add: pmm_own_def in_range_def)
qed

section \<open>The allocator keeps its promises\<close>

lemma ram_pmm_take [simp]: "ram (pmm_take idx count s) = bit_write (ram s) (bitmap s) idx 1 count"
  by (simp add: pmm_take_def)

lemma pmm_take_frame [simp]:
  "bitmap (pmm_take idx count s) = bitmap s"
  "bitmap_len (pmm_take idx count s) = bitmap_len s"
  "total_pages (pmm_take idx count s) = total_pages s"
  by (simp_all add: pmm_take_def)

lemma page_marked_take:
  assumes "aligned 3 (phys_of (bitmap s))"
  shows "page_marked (pmm_take idx count s) j
    \<longleftrightarrow> (\<exists>k < unat count. slot (idx + of_nat k) = slot j) \<or> page_marked s j"
  using assms by (auto simp: page_marked_def bit_read_write)

lemma pmm_take_one_ram:
  assumes "idx < bitmap_len s" and "\<not> pmm_own s x"
  shows "ram (pmm_take idx 1 s) x = ram s x"
proof -
  have "\<not> in_range x (bitmap_slot (bitmap s) (idx div 64)) 8"
    using assms slot_bytes_own by blast
  then show ?thesis by (simp add: bit_write_def Let_def store64_outside)
qed

lemma pmm_wf_take:
  assumes "pmm_wf s"
  shows "pmm_wf (pmm_take idx count s)"
  using assms page_marked_take [OF pmm_wf_aligned [OF assms], of idx count]
  by (auto simp: pmm_wf_def pmm_own_def pmm_used_def)

lemma unat_page:
  assumes "idx < bitmap_len s" and "pmm_wf s"
  shows "unat (idx * page_size) = unat idx * 4096"
  using assms by (subst unat_mult_u64) (simp_all add: pmm_wf_def word_less_nat_alt mm_consts)

lemma page_div:
  assumes "idx < bitmap_len s" and "pmm_wf s"
  shows "idx * page_size div page_size = idx"
  using unat_page [OF assms] by (simp add: word_unat_eq_iff unat_div mm_consts)

text \<open>A page whose quadword lies in the records of the allocator reads the same in every memory
  that agrees on the records; pages past the end of the bitmap are read from other memory, so the
  client is promised nothing about them.\<close>

lemma page_marked_cong:
  assumes "idx < bitmap_len s" and "\<And>x. pmm_own s x \<Longrightarrow> m x = ram s x"
  shows "page_marked (s\<lparr>ram := m\<rparr>) idx = page_marked s idx"
proof -
  have "load64 m (bitmap_slot (bitmap s) (idx div 64))
      = load64 (ram s) (bitmap_slot (bitmap s) (idx div 64))"
    using slot_bytes_own [OF assms(1)] assms(2) by (intro load64_cong) blast
  then show ?thesis by (simp add: page_marked_def bit_read_def)
qed

lemma pmm_used_ram:
  assumes "\<And>x. pmm_own s x \<Longrightarrow> m x = ram s x" and "pmm_wf s"
  shows "pmm_wf (s\<lparr>ram := m\<rparr>) \<and> pmm_used (s\<lparr>ram := m\<rparr>) = pmm_used s"
proof -
  have "pmm_own (s\<lparr>ram := m\<rparr>) = pmm_own s" by (simp add: pmm_own_def fun_eq_iff)
  moreover have "pmm_used (s\<lparr>ram := m\<rparr>) = pmm_used s"
    using page_marked_cong [OF _ assms(1)] by (auto simp: pmm_used_def fun_eq_iff)
  ultimately show ?thesis using assms(2) by (simp add: pmm_wf_def)
qed

lemma pmm_alloc_one_cases:
  assumes "pmm_wf s" and "pmm_alloc 1 s = Inr (p, s')"
  obtains (exhausted) "p = 0" "s' = s"
  | (found) idx where "first_page \<le> idx" "idx < bitmap_len s" "p = idx * page_size" "p \<noteq> 0"
      "p div page_size = idx" "unat p < 2 ^ 47" "\<not> page_marked s idx" "s' = pmm_take idx 1 s"
  using assms(2)
proof (cases rule: pmm_alloc_cases)
  case exhausted
  then show ?thesis using that by blast
next
  case (found idx)
  have i: "unat idx < 2 ^ 32"
    using found(2) assms(1) by (simp add: pmm_wf_def word_less_nat_alt)
  have u: "unat p = unat idx * 4096"
    using unat_page [OF found(2) assms(1)] found(3) by simp
  moreover have "8192 \<le> unat idx" using found(1) by (simp add: first_page_eq word_le_nat_alt)
  ultimately have "p \<noteq> 0" "unat p < 2 ^ 47" using i by (auto simp: word_unat_eq_iff)
  then show ?thesis
    using that(2) [of idx] found page_div [OF found(2) assms(1)]
    by (simp add: bitmap_is_free_iff page_marked_def)
qed

lemma pmm_alloc_local:
  assumes wf: "pmm_wf s" and agree: "\<And>x. pmm_own s x \<Longrightarrow> m x = ram s x"
    and run: "pmm_alloc 1 s = Inr (p, s')"
  shows "\<exists>m'. pmm_alloc 1 (s\<lparr>ram := m\<rparr>) = Inr (p, s'\<lparr>ram := m'\<rparr>) \<and>
    (\<forall>x. pmm_own s x \<longrightarrow> m' x = ram s' x)"
proof -
  let ?t = "s\<lparr>ram := m\<rparr>"
  have free: "bitmap_is_free m (bitmap s) j 1 \<longleftrightarrow> bitmap_is_free (ram s) (bitmap s) j 1"
    if "j < bitmap_len s" for j
    using page_marked_cong [OF that agree] by (simp add: bitmap_is_free_iff page_marked_def)
  obtain q t' where run': "pmm_alloc 1 ?t = Inr (q, t')" using pmm_alloc_returns by blast
  from run show ?thesis
  proof (cases rule: pmm_alloc_cases)
    case exhausted
    from run' show ?thesis
    proof (cases rule: pmm_alloc_cases)
      case exhausted': exhausted
      then show ?thesis using exhausted run' agree by (intro exI [of _ m]) simp
    next
      case (found idx)
      then show ?thesis using exhausted free [of idx] by simp
    qed
  next
    case (found idx)
    note idx = found
    from run' show ?thesis
    proof (cases rule: pmm_alloc_cases)
      case exhausted
      then show ?thesis using found free [of idx] by simp
    next
      case (found idx')
      have "\<not> idx < idx'" "\<not> idx' < idx"
        using found idx free [of idx] free [of idx'] by auto
      then have eq: "idx' = idx" by simp
      define a where "a = bitmap_slot (bitmap s) (idx div 64)"
      have "load64 m a = load64 (ram s) a"
        using slot_bytes_own [OF idx(2)] agree by (intro load64_cong) (simp add: a_def)
      then have "bit_write m (bitmap s) idx 1 1 x = bit_write (ram s) (bitmap s) idx 1 1 x"
        if "pmm_own s x" for x
        using agree [OF that] by (auto simp: bit_write_def Let_def a_def intro!: store64_cong)
      then show ?thesis
        using found idx run' eq
        by (intro exI [of _ "bit_write m (bitmap s) idx 1 1"]) (simp add: pmm_take_def)
    qed
  qed
qed

text \<open>The interface, discharged by the code of \<open>pmm.cpp\<close>.\<close>

interpretation pmm: page_allocator "pmm_alloc 1" pmm_wf pmm_used pmm_own
proof unfold_locales
  fix s s' :: "'a pmm_state_scheme" and p x y :: u64 and m :: memory
  show "\<exists>p s'. pmm_alloc 1 s = Inr (p, s')" by (rule pmm_alloc_returns)
  show "pmm_own s' = pmm_own s" if "pmm_alloc 1 s = Inr (p, s')"
    using that by (cases rule: pmm_alloc_cases) (simp_all add: pmm_own_def fun_eq_iff)
  show "pmm_used s x" if "pmm_wf s" "pmm_own s x"
    using that by (simp add: pmm_wf_def)
  show "pmm_used s x = pmm_used s y" if "x div 4096 = y div 4096"
    using that by (simp add: pmm_used_def mm_consts)
  show "pmm_own (s\<lparr>ram := m\<rparr>) = pmm_own s"
    by (simp add: pmm_own_def fun_eq_iff)
  show "pmm_wf (s\<lparr>ram := m\<rparr>) \<and> pmm_used (s\<lparr>ram := m\<rparr>) = pmm_used s"
    if "\<And>x. pmm_own s x \<Longrightarrow> m x = ram s x" "pmm_wf s"
    using that by (rule pmm_used_ram)
  show "\<exists>m'. pmm_alloc 1 (s\<lparr>ram := m\<rparr>) = Inr (p, s'\<lparr>ram := m'\<rparr>) \<and> (\<forall>x. pmm_own s x \<longrightarrow> m' x = ram s' x)"
    if "pmm_wf s" "\<And>x. pmm_own s x \<Longrightarrow> m x = ram s x" "pmm_alloc 1 s = Inr (p, s')"
    using that by (rule pmm_alloc_local)
  assume wf: "pmm_wf s"
  note marked = page_marked_take [OF pmm_wf_aligned [OF wf]]
  show "s' = s" if "pmm_alloc 1 s = Inr (0, s')"
    using wf that by (cases rule: pmm_alloc_one_cases) simp_all
  assume run: "pmm_alloc 1 s = Inr (p, s')"
  show "pmm_wf s'"
    using wf run by (cases rule: pmm_alloc_one_cases) (simp_all add: wf pmm_wf_take)
  show "aligned 12 p \<and> unat p < 2 ^ 47"
    using wf run by (cases rule: pmm_alloc_one_cases) (simp_all add: mm_consts)
  show "\<not> pmm_used s p" if "p \<noteq> 0"
    using wf run that by (cases rule: pmm_alloc_one_cases) (simp_all add: pmm_used_def)
  show "pmm_used s' p" if "p \<noteq> 0"
    using wf run that by (cases rule: pmm_alloc_one_cases) (simp_all add: pmm_used_def marked)
  show "pmm_used s' x" if "pmm_used s x"
    using wf run that by (cases rule: pmm_alloc_one_cases) (auto simp: pmm_used_def marked)
  show "ram s' x = ram s x" if "\<not> pmm_own s x"
    using wf run that by (cases rule: pmm_alloc_one_cases) (auto intro: pmm_take_one_ram simp del: ram_pmm_take)
qed

section \<open>Initialisation protects the bitmap\<close>

lemma pmm_free_frame [simp]:
  "bitmap (pmm_free mem count s) = bitmap s"
  "bitmap_len (pmm_free mem count s) = bitmap_len s"
  "total_pages (pmm_free mem count s) = total_pages s"
  "free_pages (pmm_free mem count s) = free_pages s + count"
  by (simp_all add: pmm_free_def Let_def)

lemma page_size_neq_0 [simp]: "page_size \<noteq> 0"
  by (simp add: mm_consts)

lemma pmm_init_entry_returns:
  "\<exists>s'. pmm_init_entry bp e s = Inr s' \<and> bitmap s' = bitmap s \<and> bitmap_len s' = bitmap_len s"
  by (auto simp: pmm_init_entry_def round_up_def round_down_def Let_def)

lemma pmm_init_entries_returns:
  "\<exists>s'. pmm_init_entries bp es s = Inr s' \<and> bitmap s' = bitmap s \<and> bitmap_len s' = bitmap_len s"
proof (induction es arbitrary: s)
  case Nil
  then show ?case by simp
next
  case (Cons e es)
  obtain s1 where "pmm_init_entry bp e s = Inr s1"
    "bitmap s1 = bitmap s" "bitmap_len s1 = bitmap_len s"
    using pmm_init_entry_returns by blast
  with Cons [of s1] show ?case by auto
qed

text \<open>\<open>pmm_init\<close> marks \<open>(len / 8 + 4095) / 4096\<close> pages from the start of the bitmap. That is
  enough for all its quadwords unless the last one starts exactly on a page boundary.\<close>

definition bitmap_fits :: "u64 \<Rightarrow> bool" where
  "bitmap_fits len \<longleftrightarrow> unat len mod 32768 = 0 \<or> 8 \<le> unat len mod 32768"

definition bitmap_pages :: "u64 \<Rightarrow> u64" where
  "bitmap_pages len = (len div 8 + page_size - 1) div page_size"

lemma unat_bitmap_pages:
  assumes "unat len < 2 ^ 32"
  shows "unat (bitmap_pages len) = (unat len div 8 + 4095) div 4096"
proof -
  have "unat (4095 + len div 8) = unat len div 8 + 4095"
    using assms by (subst unat_add_u64) (auto simp: unat_div)
  then show ?thesis by (simp add: bitmap_pages_def mm_consts unat_div)
qed

lemma bitmap_bytes_le_pages:
  assumes "bitmap_fits len"
  shows "bitmap_bytes len \<le> 4096 * ((unat len div 8 + 4095) div 4096)"
proof -
  define q r where "q = unat len div 32768" and "r = unat len mod 32768"
  have L: "unat len = 32768 * q + r" and r: "r < 32768" by (simp_all add: q_def r_def)
  have lhs: "bitmap_bytes len = 4096 * q + 8 * ((r + 63) div 64)"
    using div_mult_self4 [of 64 "512 * q" "r + 63"] by (simp add: bitmap_bytes_def L algebra_simps)
  have "(unat len div 8 + 4095) div 4096 = q + (r div 8 + 4095) div 4096"
    by (simp add: L)
  moreover have "8 * ((r + 63) div 64) \<le> 4096 * ((r div 8 + 4095) div 4096)"
  proof (cases "r = 0")
    case False
    with assms have "8 \<le> r" by (simp add: bitmap_fits_def r_def)
    then have "1 \<le> (r div 8 + 4095) div 4096" by simp
    moreover have "(r + 63) div 64 \<le> 512" using r by simp
    ultimately show ?thesis by linarith
  qed simp
  ultimately show ?thesis by (simp add: lhs)
qed

text \<open>In the other case the marked pages end where the last quadword begins.\<close>

lemma bitmap_bytes_not_fits:
  assumes "\<not> bitmap_fits len"
  shows "bitmap_bytes len = 4096 * ((unat len div 8 + 4095) div 4096) + 8"
    and "(unat len div 8 + 4095) div 4096 = unat len div 32768"
proof -
  define q r where "q = unat len div 32768" and "r = unat len mod 32768"
  have L: "unat len = 32768 * q + r" by (simp add: q_def r_def)
  have r: "0 < r" "r < 8" using assms by (simp_all add: bitmap_fits_def r_def)
  have "r = 1 \<or> r = 2 \<or> r = 3 \<or> r = 4 \<or> r = 5 \<or> r = 6 \<or> r = 7" using r by linarith
  then have small: "r div 8 = 0" "(r + 63) div 64 = 1" by auto
  have "(unat len + 63) div 64 = 512 * q + (r + 63) div 64"
    using div_mult_self4 [of 64 "512 * q" "r + 63"] by (simp add: L algebra_simps)
  moreover have "unat len div 8 = 4096 * q + r div 8" by (simp add: L)
  ultimately show "bitmap_bytes len = 4096 * ((unat len div 8 + 4095) div 4096) + 8"
    "(unat len div 8 + 4095) div 4096 = unat len div 32768"
    by (simp_all add: bitmap_bytes_def small q_def [symmetric])
qed

lemma bitmap_bytes_le:
  "bitmap_bytes len \<le> 4096 * ((unat len div 8 + 4095) div 4096) + 8"
  using bitmap_bytes_le_pages [of len] bitmap_bytes_not_fits(1) [of len] by (cases "bitmap_fits len") simp_all

text \<open>A manager whose reserved pages are marked is well formed exactly when the page behind them is not
  needed, or is taken too.\<close>

lemma pmm_wf_marked_iff:
  assumes bm: "bitmap s = memory_base + virtual_physical_base"
    and len: "unat (bitmap_len s) < 2 ^ 32"
    and marked: "\<And>k. k < unat (bitmap_pages (bitmap_len s)) \<Longrightarrow> page_marked s (first_page + of_nat k)"
  shows "pmm_wf s \<longleftrightarrow> bitmap_fits (bitmap_len s) \<or> pmm_used s (memory_base + 4096 * bitmap_pages (bitmap_len s))"
    (is "_ \<longleftrightarrow> _ \<or> pmm_used s ?end")
proof -
  let ?bytes = "bitmap_bytes (bitmap_len s)" and ?pages = "unat (bitmap_pages (bitmap_len s))"
  have phys: "phys_of (bitmap s) = 0x2000000" by (simp add: bm phys_of_def mm_consts)
  have bytes: "?bytes \<le> 4096 * ?pages + 8"
    using bitmap_bytes_le by (simp add: unat_bitmap_pages [OF len])
  have "(unat (bitmap_len s) + 63) div 64 \<le> 2 ^ 30" using len by simp
  then have small: "?bytes \<le> 2 ^ 33" by (simp add: bitmap_bytes_def)
  have pages: "?pages < 2 ^ 30" using len by (simp add: unat_bitmap_pages)
  have end_unat: "unat ?end = 0x2000000 + 4096 * ?pages"
    using pages by (simp add: mm_consts unat_add_u64 unat_word_ariths)
  have page: "x div page_size = first_page + of_nat (unat (x - 0x2000000) div 4096)" if own: "pmm_own s x" for x
  proof -
    have d: "unat (x - 0x2000000) < 2 ^ 33" using own small by (simp add: pmm_own_def in_range_def phys)
    have "unat x = unat ((x - 0x2000000) + 0x2000000)" by simp
    also have "\<dots> = unat (x - 0x2000000) + 0x2000000" using d by (subst unat_add_u64) auto
    finally have "unat (x div page_size) = 8192 + unat (x - 0x2000000) div 4096" by (simp add: mm_consts unat_div)
    moreover have "unat (x - 0x2000000) div 4096 < 2 ^ 33" using d by simp
    ultimately show ?thesis by (simp add: word_unat_eq_iff first_page_eq unat_add_u64 unat_of_nat)
  qed
  have low: "pmm_used s x" if "pmm_own s x" "unat (x - 0x2000000) < 4096 * ?pages" for x
    using marked [of "unat (x - 0x2000000) div 4096"] that(2) by (simp add: pmm_used_def page [OF that(1)])
  have high: "x div page_size = ?end div page_size" if own: "pmm_own s x" "\<not> unat (x - 0x2000000) < 4096 * ?pages" for x
  proof -
    have "unat (x - 0x2000000) < 4096 * ?pages + 8" using own(1) bytes by (simp add: pmm_own_def in_range_def phys)
    then have "unat (x - 0x2000000) div 4096 = ?pages" using own(2) by linarith
    moreover have "unat (?end div page_size) = 8192 + ?pages" using end_unat by (simp add: mm_consts unat_div)
    then have "?end div page_size = first_page + of_nat ?pages"
      using pages by (simp add: word_unat_eq_iff first_page_eq unat_add_u64 unat_of_nat)
    ultimately show ?thesis using page [OF own(1)] by (simp only:)
  qed
  have own_iff: "(\<forall>x. pmm_own s x \<longrightarrow> pmm_used s x) \<longleftrightarrow> bitmap_fits (bitmap_len s) \<or> pmm_used s ?end"
  proof (cases "bitmap_fits (bitmap_len s)")
    case True
    then have "?bytes \<le> 4096 * ?pages" using bitmap_bytes_le_pages by (simp add: unat_bitmap_pages [OF len])
    then have "pmm_used s x" if "pmm_own s x" for x
      using low [OF that] that by (simp add: pmm_own_def in_range_def phys)
    with True show ?thesis by blast
  next
    case False
    have "?bytes = 4096 * ?pages + 8" using bitmap_bytes_not_fits(1) [OF False] by (simp add: unat_bitmap_pages [OF len])
    moreover have "unat (?end - 0x2000000) = 4096 * ?pages" using pages by (simp add: mm_consts unat_word_ariths)
    ultimately have own: "pmm_own s ?end" by (simp add: pmm_own_def in_range_def phys)
    have "pmm_used s x" if "pmm_used s ?end" "pmm_own s x" for x
      using low [OF that(2)] high [OF that(2)] that(1) by (cases "unat (x - 0x2000000) < 4096 * ?pages") (simp_all add: pmm_used_def)
    with own False show ?thesis by blast
  qed
  have "aligned 12 (phys_of (bitmap s)) \<and> unat (bitmap_len s) < 2 ^ 32 \<and>
      unat (phys_of (bitmap s)) + bitmap_bytes (bitmap_len s) \<le> 2 ^ 52"
    using small len by (simp add: phys aligned_def)
  then show ?thesis unfolding pmm_wf_def own_iff [symmetric] by blast
qed

lemma pmm_wf_marked_bitmap:
  assumes "bitmap s = memory_base + virtual_physical_base"
    and "unat (bitmap_len s) < 2 ^ 32" "bitmap_fits (bitmap_len s)"
    and "\<And>k. k < unat (bitmap_pages (bitmap_len s)) \<Longrightarrow> page_marked s (first_page + of_nat k)"
  shows "pmm_wf s"
  using pmm_wf_marked_iff [OF assms(1,2,4)] assms(3) by simp

lemma pmm_alloc_wf_any:
  assumes "pmm_alloc count s = Inr (p, s')" and "pmm_wf s"
  shows "pmm_wf s' \<and> bitmap s' = bitmap s \<and> bitmap_len s' = bitmap_len s"
  using assms(1)
proof (cases rule: pmm_alloc_cases)
  case exhausted
  then show ?thesis by (simp add: assms(2))
next
  case (found idx)
  then show ?thesis by (simp add: assms(2) pmm_wf_take)
qed

lemma pmm_init_returns:
  "\<exists>s'. pmm_init mmap s = Inr s' \<and>
     bitmap s' = memory_base + virtual_physical_base \<and>
     bitmap_len s' = ucast (ucast ((find_available_memory_top mmap + page_size - 1) div page_size) :: u32) \<and>
     (\<forall>k < unat (bitmap_pages (bitmap_len s')). page_marked s' (first_page + of_nat k)) \<and>
     (pmm_wf s' \<longleftrightarrow> bitmap_fits (bitmap_len s') \<or> pmm_used s' (memory_base + 4096 * bitmap_pages (bitmap_len s')))"
proof -
  define len where
    "len = (ucast (ucast ((find_available_memory_top mmap + page_size - 1) div page_size) :: u32) :: u64)"
  define s1 where "s1 = s\<lparr>bitmap := memory_base + virtual_physical_base, bitmap_len := len\<rparr>"
  define s2 where "s2 = s1\<lparr>ram := memset (ram s1) (phys_of (bitmap s1)) 0xFF (len div 8)\<rparr>"
  obtain s3 where s3: "pmm_init_entries memory_base mmap s2 = Inr s3"
    "bitmap s3 = memory_base + virtual_physical_base" "bitmap_len s3 = len"
    using pmm_init_entries_returns [of memory_base mmap s2] by (auto simp: s2_def s1_def)
  define s4 where "s4 = s3\<lparr>total_pages := free_pages s3\<rparr>"
  define s5 where
    "s5 = s4\<lparr>ram := bit_write (ram s4) (bitmap s4) first_page 1 (bitmap_pages len)\<rparr>"
  obtain p s6 where s6: "pmm_alloc (bitmap_pages len) s5 = Inr (p, s6)"
    using pmm_alloc_returns by blast
  have run: "pmm_init mmap s = Inr s6"
    using s3 s6
    by (simp add: pmm_init_def Let_def s5_def s4_def s2_def s1_def bitmap_pages_def
        first_page_def flip: len_def)
  have b5: "bitmap s5 = memory_base + virtual_physical_base" "bitmap_len s5 = len"
    by (simp_all add: s5_def s4_def s3)
  have b6: "bitmap s6 = bitmap s5 \<and> bitmap_len s6 = bitmap_len s5"
    using s6 by (cases rule: pmm_alloc_cases) simp_all
  have len: "unat len < 2 ^ 32"
    using unat_u32_less by (simp add: len_def)
  have aligned: "aligned 3 (phys_of (bitmap s4))" "aligned 3 (phys_of (bitmap s5))"
    by (simp_all add: b5 s4_def s3 phys_of_def mm_consts aligned_def)
  have "page_marked s5 (first_page + of_nat k)" if "k < unat (bitmap_pages len)" for k
    using aligned(1) that by (auto simp: page_marked_def s5_def bit_read_write)
  moreover have "page_marked s6 j" if "page_marked s5 j" for j
    using s6 by (cases rule: pmm_alloc_cases) (simp_all add: that page_marked_take [OF aligned(2)])
  ultimately have marked: "page_marked s6 (first_page + of_nat k)" if "k < unat (bitmap_pages len)" for k
    using that by blast
  have b6': "bitmap s6 = memory_base + virtual_physical_base" "bitmap_len s6 = len" using b5 b6 by simp_all
  have "pmm_wf s6 \<longleftrightarrow> bitmap_fits (bitmap_len s6) \<or> pmm_used s6 (memory_base + 4096 * bitmap_pages (bitmap_len s6))"
    using marked len by (intro pmm_wf_marked_iff) (simp_all add: b6')
  with run b6' marked show ?thesis by (auto simp: len_def)
qed

end
