(* ===== verification/PmmSafety.thy ===== *)
theory PmmSafety
  imports Pmm
begin

text \<open>
  The properties of the physical memory manager: totality and first fit of \<open>Pmm::alloc\<close>, the
  state machine of allocations and matching releases with its disjointness invariant, the
  accounting, what \<open>Pmm::init\<close> establishes, and the consequences of the 32-bit mask.
\<close>

unbundle bit_operations_syntax

section \<open>A concrete manager\<close>

text \<open>A bitmap for 8200 pages at \<open>memory_base\<close> in which only the bitmap's own page is taken. The
  witnesses run on it.\<close>

definition small_pmm :: pmm_state where
  "small_pmm = \<lparr>ram = (\<lambda>x. if x = 0x2000400 then 1 else 0),
     bitmap = memory_base + virtual_physical_base,
     free_pages = 7, total_pages = 7, bitmap_len = 8200\<rparr>"

lemma small_pmm_word: "load64 (ram small_pmm) (bitmap_slot (bitmap small_pmm) 128) = 1"
  by (simp add: small_pmm_def bitmap_slot_def phys_of_def mm_consts mem_eval)

lemma small_pmm_marked: "8192 \<le> i \<Longrightarrow> i < 8200 \<Longrightarrow> page_marked small_pmm i \<longleftrightarrow> i = 8192"
proof -
  assume i: "8192 \<le> i" "i < 8200"
  then have "unat i div 64 = 128" by (simp add: word_le_nat_alt word_less_nat_alt)
  then have off: "i div 64 = 128" by (simp add: word_unat_eq_iff unat_div)
  have "unat i mod 32 = unat i - 8192"
    using i by (simp add: word_le_nat_alt word_less_nat_alt mod_nat_eqI)
  then show ?thesis
    using i unfolding page_marked_def bit_read_iff off small_pmm_word
    by (auto simp: bit_1_iff word_le_nat_alt word_less_nat_alt word_unat_eq_iff
        dest!: spec [of _ "unat i - 8192"])
qed

lemma small_pmm_wf: "pmm_wf small_pmm"
proof (rule pmm_wf_marked_bitmap)
  show "page_marked small_pmm (first_page + of_nat k)"
    if "k < unat (bitmap_pages (bitmap_len small_pmm))" for k
    using that small_pmm_marked [of 8192]
    by (simp add: first_page_eq small_pmm_def bitmap_pages_def mm_consts)
qed (simp_all add: small_pmm_def bitmap_fits_def)

section \<open>Allocations and matching releases\<close>

text \<open>A block is the address an allocation returned with the number of pages asked for; \<open>live\<close>
  lists the blocks handed out and not yet given back. A client allocates, or releases a live block
  with its own count.\<close>

type_synonym block = "u64 \<times> u64"

inductive pmm_reach :: "'a pmm_state_scheme \<Rightarrow> 'a pmm_state_scheme \<Rightarrow> block list \<Rightarrow> bool" for s0 where
  start: "pmm_reach s0 s0 []"
| alloc: "pmm_reach s0 s live \<Longrightarrow> pmm_alloc c s = Inr (p, s') \<Longrightarrow> p \<noteq> 0 \<Longrightarrow>
    pmm_reach s0 s' ((p, c) # live)"
| alloc_fails: "pmm_reach s0 s live \<Longrightarrow> pmm_alloc c s = Inr (0, s') \<Longrightarrow> pmm_reach s0 s' live"
| release: "pmm_reach s0 s live \<Longrightarrow> (p, c) \<in> set live \<Longrightarrow>
    pmm_reach s0 (pmm_free p c s) (remove1 (p, c) live)"

definition block_page :: "block \<Rightarrow> nat \<Rightarrow> u64" where
  "block_page b k = fst b div page_size + of_nat k"

definition block_slots :: "block \<Rightarrow> (u64 \<times> nat) set" where
  "block_slots b = (\<lambda>k. slot (block_page b k)) ` {..<unat (snd b)}"

lemma in_block_slots: "x \<in> block_slots b \<longleftrightarrow> (\<exists>k < unat (snd b). slot (block_page b k) = x)"
  by (auto simp: block_slots_def)

primrec blocks_disjoint :: "block list \<Rightarrow> bool" where
  "blocks_disjoint [] = True"
| "blocks_disjoint (b # bs) =
     ((\<forall>b' \<in> set bs. block_slots b \<inter> block_slots b' = {}) \<and> blocks_disjoint bs)"

definition live_inv :: "'a pmm_state_scheme \<Rightarrow> 'a pmm_state_scheme \<Rightarrow> block list \<Rightarrow> bool" where
  "live_inv s0 s live \<longleftrightarrow>
     bitmap s = bitmap s0 \<and> bitmap_len s = bitmap_len s0 \<and> blocks_disjoint live \<and>
     (\<forall>b \<in> set live. \<forall>k < unat (snd b). page_marked s (block_page b k))"

lemma page_marked_slot: "slot i = slot j \<Longrightarrow> page_marked s i = page_marked s j"
  by (simp add: page_marked_def bit_read_iff slot_def)

lemma page_marked_free:
  "aligned 3 (phys_of (bitmap s)) \<Longrightarrow>
   page_marked (pmm_free p c s) j \<longleftrightarrow> slot j \<notin> block_slots (p, c) \<and> page_marked s j"
  by (auto simp: page_marked_def pmm_free_def Let_def bit_read_write in_block_slots block_page_def)

lemma blocks_disjoint_remove1: "blocks_disjoint bs \<Longrightarrow> blocks_disjoint (remove1 b bs)"
  by (induction bs) (auto dest: notin_set_remove1 [THEN contrapos_nn] set_remove1_subset [THEN subsetD])

lemma blocks_disjoint_others:
  "blocks_disjoint bs \<Longrightarrow> b \<in> set bs \<Longrightarrow> b' \<in> set (remove1 b bs) \<Longrightarrow>
   block_slots b \<inter> block_slots b' = {}"
  by (induction bs) (auto split: if_splits dest: set_remove1_subset [THEN subsetD])

lemma page_div_52:
  assumes "idx < len" and "unat len < 2 ^ 52"
  shows "idx * page_size div page_size = (idx :: u64)"
proof -
  have "unat idx < 2 ^ 52" using assms by (simp add: word_less_nat_alt)
  then have "unat (idx * page_size) = unat idx * 4096"
    by (subst unat_mult_u64) (simp_all add: mm_consts)
  then show ?thesis by (simp add: word_unat_eq_iff unat_div mm_consts)
qed

lemma live_inv_alloc:
  assumes inv: "live_inv s0 s live" and run: "pmm_alloc c s = Inr (p, s')"
    and al: "aligned 3 (phys_of (bitmap s0))" and len: "unat (bitmap_len s0) < 2 ^ 52"
  shows "live_inv s0 s' live \<and> (p \<noteq> 0 \<longrightarrow> live_inv s0 s' ((p, c) # live))"
  using run
proof (cases rule: pmm_alloc_cases)
  case exhausted
  then show ?thesis using inv by simp
next
  case (found idx)
  have page: "block_page (p, c) k = idx + of_nat k" for k
    using found inv len page_div_52 [of idx "bitmap_len s0"]
    by (simp add: block_page_def live_inv_def)
  have al': "aligned 3 (phys_of (bitmap s))" using al inv by (simp add: live_inv_def)
  have marks: "page_marked s' j \<longleftrightarrow> slot j \<in> block_slots (p, c) \<or> page_marked s j" for j
    using page_marked_take [OF al', of idx c j] found(6)
    by (simp add: in_block_slots page)
  have free: "\<not> page_marked s (idx + of_nat k)" if "k < unat c" for k
    using found(4) that by (simp add: bitmap_is_free_iff page_marked_def)
  have "block_slots (p, c) \<inter> block_slots b = {}" if "b \<in> set live" for b
  proof -
    have "slot (idx + of_nat k) \<noteq> slot (block_page b j)" if "k < unat c" "j < unat (snd b)" for k j
    proof -
      have "page_marked s (block_page b j)"
        using inv \<open>b \<in> set live\<close> that(2) by (simp add: live_inv_def)
      then show ?thesis
        using free [OF that(1)] page_marked_slot [of "idx + of_nat k" "block_page b j" s] by auto
    qed
    then show ?thesis unfolding disjoint_iff in_block_slots page by (metis snd_conv)
  qed
  then show ?thesis
    using inv found(6) marks by (auto simp: live_inv_def block_slots_def)
qed

lemma live_inv_free:
  assumes inv: "live_inv s0 s live" and b: "(p, c) \<in> set live"
    and al: "aligned 3 (phys_of (bitmap s0))"
  shows "live_inv s0 (pmm_free p c s) (remove1 (p, c) live)"
proof -
  have "aligned 3 (phys_of (bitmap s))" using al inv by (simp add: live_inv_def)
  note marked = page_marked_free [OF this]
  have "page_marked (pmm_free p c s) (block_page b k)"
    if "b \<in> set (remove1 (p, c) live)" "k < unat (snd b)" for b k
  proof -
    have "b \<in> set live" using that(1) set_remove1_subset by fastforce
    moreover have "slot (block_page b k) \<notin> block_slots (p, c)"
      using blocks_disjoint_others [of live "(p, c)" b] that b inv
      by (auto simp: live_inv_def block_slots_def)
    ultimately show ?thesis using inv that(2) by (simp add: marked live_inv_def)
  qed
  then show ?thesis using inv by (simp add: live_inv_def blocks_disjoint_remove1)
qed

lemma pmm_reach_live_inv:
  assumes "pmm_reach s0 s live"
    and "aligned 3 (phys_of (bitmap s0))" "unat (bitmap_len s0) < 2 ^ 52"
  shows "live_inv s0 s live"
  using assms
  by (induction rule: pmm_reach.induct)
    (auto simp: live_inv_free live_inv_alloc [THEN conjunct1] live_inv_alloc [THEN conjunct2, rule_format],
     simp add: live_inv_def)

section \<open>Properties\<close>

lemma small_pmm_allocs:
  "returned (pmm_alloc 2 small_pmm) = Some 0x2001000"
  "returned (rbind (pmm_alloc 2 small_pmm) (\<lambda>(p, s). pmm_alloc 3 s)) = Some 0x2003000"
  by code_simp+

lemma small_pmm_reach:
  "\<exists>s. pmm_reach small_pmm s [(0x2003000, 3), (0x2001000, 2)]"
proof -
  obtain s1 s2 where s1: "pmm_alloc 2 small_pmm = Inr (0x2001000, s1)"
    and s2: "pmm_alloc 3 s1 = Inr (0x2003000, s2)"
    using small_pmm_allocs by (auto simp: returned_eq_Some)
  have "pmm_reach small_pmm s1 [(0x2001000, 2)]"
    using pmm_reach.alloc [OF pmm_reach.start s1] by simp
  from pmm_reach.alloc [OF this s2] have "pmm_reach small_pmm s2 [(0x2003000, 3), (0x2001000, 2)]"
    by simp
  then show ?thesis by blast
qed

text \<open>C1: \<open>Pmm::alloc(count)\<close> always returns. Either no page index from \<open>memory_base\<close> to the end
  of the bitmap starts \<open>count\<close> free pages, and then the result is the null pointer and nothing
  changes, or the result is the address of the first index that does, its pages get marked and
  \<open>free_pages\<close> drops by \<open>count\<close> once \<open>total_pages\<close> is known.\<close>

theorem pmm_alloc_first_fit:
  fixes s :: "'a pmm_state_scheme"
  shows "\<exists>p s'. pmm_alloc count s = Inr (p, s') \<and>
    ((p = 0 \<and> s' = s \<and>
        (\<forall>j. 8192 \<le> j \<and> j < bitmap_len s \<longrightarrow> \<not> bitmap_is_free (ram s) (bitmap s) j count)) \<or>
     (\<exists>idx. 8192 \<le> idx \<and> idx < bitmap_len s \<and> p = idx * 4096 \<and>
        bitmap_is_free (ram s) (bitmap s) idx count \<and>
        (\<forall>j. 8192 \<le> j \<and> j < idx \<longrightarrow> \<not> bitmap_is_free (ram s) (bitmap s) j count) \<and>
        s' = s\<lparr>ram := bit_write (ram s) (bitmap s) idx 1 count,
               free_pages := (if total_pages s \<noteq> 0 then free_pages s - count else free_pages s)\<rparr>))"
proof -
  obtain p s' where run: "pmm_alloc count s = Inr (p, s')" using pmm_alloc_returns by blast
  from run show ?thesis
  proof (cases rule: pmm_alloc_cases)
    case exhausted
    then show ?thesis using run by (auto simp: first_page_eq)
  next
    case (found idx)
    then show ?thesis using run
      by (intro exI [of _ p] exI [of _ s']) (auto simp: first_page_eq pmm_take_def page_size_def)
  qed
qed

theorem pmm_alloc_first_fit_witness:
  "bitmap_is_free (ram small_pmm) (bitmap small_pmm) 8193 2 \<and>
   (\<exists>s'. pmm_alloc 2 small_pmm = Inr (0x2001000, s'))"
proof -
  have "bitmap_is_free (ram small_pmm) (bitmap small_pmm) 8193 2" by code_simp
  moreover have "\<exists>p s'. pmm_alloc 2 small_pmm = Inr (p, s')"
    using pmm_alloc_first_fit [of 2 small_pmm] by blast
  ultimately show ?thesis using small_pmm_allocs(1) by (auto simp: returned_eq_Some)
qed

text \<open>C2: as long as every release gives back a live block with the count it was allocated with,
  no two live blocks share a page, for every interleaving of allocations and releases.\<close>

theorem live_blocks_share_no_page:
  fixes s0 :: "'a pmm_state_scheme"
  assumes "pmm_reach s0 s live"
    and "aligned 12 (phys_of (bitmap s0))" and "unat (bitmap_len s0) < 2 ^ 32"
    and "live = xs @ b # ys @ b' # zs" and "i < unat (snd b)" and "j < unat (snd b')"
  shows "fst b div 4096 + of_nat i \<noteq> fst b' div 4096 + of_nat j"
proof -
  have "live_inv s0 s live"
    using assms(1-3) by (intro pmm_reach_live_inv) (auto elim: aligned_mono)
  then have "blocks_disjoint (xs @ b # ys @ b' # zs)"
    using assms(4) by (simp add: live_inv_def)
  then have "block_slots b \<inter> block_slots b' = {}" by (induction xs) auto
  moreover have "slot (block_page b i) \<in> block_slots b" "slot (block_page b' j) \<in> block_slots b'"
    using assms(5,6) by (auto simp: in_block_slots)
  ultimately have "block_page b i \<noteq> block_page b' j" by auto
  then show ?thesis by (simp add: block_page_def mm_consts)
qed

theorem live_blocks_share_no_page_witness:
  "(0x2003000 div 4096 + of_nat 1 :: u64) \<noteq> 0x2001000 div 4096 + of_nat 1"
proof -
  obtain s where s: "pmm_reach small_pmm s [(0x2003000, 3), (0x2001000, 2)]"
    using small_pmm_reach by blast
  show ?thesis
    using live_blocks_share_no_page [OF s, of "[]" "(0x2003000, 3)" "[]" "(0x2001000, 2)" "[]" 1 1]
    by (simp add: small_pmm_def phys_of_def mm_consts aligned_def)
qed

text \<open>C3: releasing what was just allocated restores the manager: every page reads as before the
  allocation and \<open>free_pages\<close> has its old value.\<close>

theorem pmm_alloc_free_roundtrip:
  fixes s :: "'a pmm_state_scheme"
  assumes "aligned 12 (phys_of (bitmap s))" and "unat (bitmap_len s) < 2 ^ 32"
    and "total_pages s \<noteq> 0" and "pmm_alloc count s = Inr (p, s')" and "p \<noteq> 0"
  shows "page_marked (pmm_free p count s') j = page_marked s j
    \<and> free_pages (pmm_free p count s') = free_pages s"
  using assms(4)
proof (cases rule: pmm_alloc_cases)
  case exhausted
  then show ?thesis using assms(5) by simp
next
  case (found idx)
  have al: "aligned 3 (phys_of (bitmap s))" using assms(1) by (auto elim: aligned_mono)
  have page: "block_page (p, count) k = idx + of_nat k" for k
    using found page_div_52 [of idx "bitmap_len s"] assms(2) by (simp add: block_page_def)
  have fresh: "\<not> page_marked s j" if j: "slot j \<in> block_slots (p, count)"
  proof -
    obtain k where k: "k < unat count" "slot (idx + of_nat k) = slot j"
      using j by (auto simp: in_block_slots page)
    then have "\<not> page_marked s (idx + of_nat k)"
      using found(4) by (simp add: bitmap_is_free_iff page_marked_def)
    then show ?thesis using page_marked_slot [OF k(2), of s] by simp
  qed
  have "page_marked s' j \<longleftrightarrow> slot j \<in> block_slots (p, count) \<or> page_marked s j"
    using page_marked_take [OF al, of idx count j] found(6) by (simp add: in_block_slots page)
  moreover have "page_marked (pmm_free p count s') j
      \<longleftrightarrow> slot j \<notin> block_slots (p, count) \<and> page_marked s' j"
    using al found(6) by (intro page_marked_free) simp
  moreover have "free_pages (pmm_free p count s') = free_pages s"
    using found(6) assms(3) by (simp add: pmm_take_def)
  ultimately show ?thesis using fresh by blast
qed

theorem pmm_alloc_free_roundtrip_witness:
  "\<exists>p s'. pmm_alloc 2 small_pmm = Inr (p, s') \<and> p \<noteq> 0 \<and>
     page_marked (pmm_free p 2 s') 8192 \<and> free_pages (pmm_free p 2 s') = 7"
proof -
  obtain s1 where run: "pmm_alloc 2 small_pmm = Inr (0x2001000, s1)"
    using small_pmm_allocs(1) by (auto simp: returned_eq_Some)
  have "page_marked (pmm_free 0x2001000 2 s1) 8192 = page_marked small_pmm 8192
      \<and> free_pages (pmm_free 0x2001000 2 s1) = free_pages small_pmm"
    using run by (intro pmm_alloc_free_roundtrip)
      (simp_all add: small_pmm_def phys_of_def mm_consts aligned_def)
  then show ?thesis using run small_pmm_marked [of 8192] by (auto simp: small_pmm_def)
qed

text \<open>The one-page allocation never returns a page in the upper half of its group of 64,
  because that page shares its bit with the page 32 below it, which the search meets first.\<close>

theorem pmm_alloc_one_lower_half:
  fixes s :: "'a pmm_state_scheme"
  assumes "pmm_alloc 1 s = Inr (p, s')" and "p \<noteq> 0" and "unat (bitmap_len s) < 2 ^ 32"
  shows "unat (p div 4096) mod 64 < 32"
  using assms(1)
proof (cases rule: pmm_alloc_cases)
  case exhausted
  then show ?thesis using assms(2) by simp
next
  case (found idx)
  have p: "p div 4096 = idx"
    using found page_div_52 [of idx "bitmap_len s"] assms(3) by (simp add: mm_consts)
  define q r where "q = unat idx div 64" and "r = unat idx mod 64"
  have idx: "unat idx = 64 * q + r" and r: "r < 64" by (simp_all add: q_def r_def)
  have q: "128 \<le> q" using found(1) idx r by (simp add: first_page_eq word_le_nat_alt)
  show ?thesis
  proof (rule ccontr)
    assume "\<not> unat (p div 4096) mod 64 < 32"
    then have hi: "32 \<le> r" by (simp add: p r_def)
    define j where "j = idx - 32"
    have j: "unat j = 64 * q + (r - 32)"
      using hi idx by (simp add: j_def unat_sub word_le_nat_alt)
    have "unat j div 64 = q" using j r by simp
    moreover have "unat j mod 32 = unat idx mod 32" using hi by (simp add: j idx mod_add_eq le_mod_geq)
    ultimately have "slot j = slot idx" by (simp add: slot_def word_unat_eq_iff unat_div q_def)
    moreover have "first_page \<le> j" "j < idx"
      using j q hi idx by (simp_all add: first_page_eq word_le_nat_alt word_less_nat_alt)
    ultimately show False
      using found(4,5) page_marked_slot [of j idx s]
      by (simp add: bitmap_is_free_iff page_marked_def)
  qed
qed

theorem pmm_alloc_one_lower_half_witness: "unat ((0x2001000 :: u64) div 4096) mod 64 < 32"
proof -
  have "returned (pmm_alloc 1 small_pmm) = Some 0x2001000" by code_simp
  then obtain s1 where "pmm_alloc 1 small_pmm = Inr (0x2001000, s1)" by (auto simp: returned_eq_Some)
  from pmm_alloc_one_lower_half [OF this] show ?thesis by (simp add: small_pmm_def)
qed

text \<open>C4: the exact effect of releasing one page: every page of the same group of 64 with the same
  index modulo 32 reads free afterwards, the page itself and the one 32 away, and no other page
  changes.\<close>

theorem pmm_free_clears_neighbour:
  fixes s :: "'a pmm_state_scheme"
  assumes "aligned 12 (phys_of (bitmap s))" and "unat i < 2 ^ 32"
  shows "page_marked (pmm_free (i * 4096) 1 s) j \<longleftrightarrow>
    page_marked s j \<and> \<not> (unat j div 64 = unat i div 64 \<and> unat j mod 32 = unat i mod 32)"
proof -
  have al: "aligned 3 (phys_of (bitmap s))" using assms(1) by (auto elim: aligned_mono)
  have "i < 0x100000000" using assms(2) by (simp add: word_less_nat_alt)
  then have "i * 4096 div page_size = i"
    using page_div_52 [of i "0x100000000"] by (simp add: mm_consts)
  then have "slot j \<in> block_slots (i * 4096, 1) \<longleftrightarrow> slot j = slot i"
    by (auto simp: in_block_slots block_page_def)
  then show ?thesis
    using page_marked_free [OF al] by (auto simp: slot_def word_unat_eq_iff unat_div)
qed

theorem pmm_free_clears_neighbour_witness:
  "page_marked (small_pmm\<lparr>ram := \<lambda>_. 0xFF\<rparr>) 8225 \<and>
   \<not> page_marked (pmm_free (8193 * 4096) 1 (small_pmm\<lparr>ram := \<lambda>_. 0xFF\<rparr>)) 8225"
proof -
  have "page_marked (small_pmm\<lparr>ram := \<lambda>_. 0xFF\<rparr>) 8225" by code_simp
  moreover have "aligned 12 (phys_of (bitmap (small_pmm\<lparr>ram := \<lambda>_. 0xFF\<rparr>)))"
    by (simp add: small_pmm_def phys_of_def mm_consts aligned_def)
  ultimately show ?thesis
    using pmm_free_clears_neighbour [of "small_pmm\<lparr>ram := \<lambda>_. 0xFF\<rparr>" 8193 8225] by simp
qed

text \<open>C5: \<open>Pmm::init\<close> returns for every memory map. It leaves every page taken that the first
  \<open>len / 8\<close> bytes of the bitmap occupy. The manager is well formed when the number of pages is a multiple
  of 32768 or exceeds one by 8 or more; otherwise the last quadword of the bitmap begins the page behind the
  reserved ones, and the manager is well formed exactly when that page is taken as well. From a well-formed
  manager no one-page allocation hands out a page of the bitmap.\<close>

theorem pmm_init_protects_bitmap:
  fixes s :: "'a pmm_state_scheme"
  assumes "len = (ucast (ucast ((find_available_memory_top mmap + page_size - 1) div page_size) :: u32) :: u64)"
  shows "\<exists>s'. pmm_init mmap s = Inr s' \<and> bitmap s' = memory_base + virtual_physical_base \<and> bitmap_len s' = len \<and>
    (\<forall>k < (unat len div 8 + 4095) div 4096. page_marked s' (first_page + of_nat k)) \<and>
    (pmm_wf s' \<longleftrightarrow> unat len mod 32768 = 0 \<or> 8 \<le> unat len mod 32768 \<or>
       pmm_used s' (memory_base + 4096 * (len div 32768))) \<and>
    (pmm_wf s' \<longrightarrow> (\<forall>p s'' x. pmm_alloc 1 s' = Inr (p, s'') \<and> p \<noteq> 0 \<and> pmm_own s' x \<longrightarrow> x div 4096 \<noteq> p div 4096))"
proof -
  have len: "unat len < 2 ^ 32" using unat_u32_less by (simp add: assms)
  obtain s' where s': "pmm_init mmap s = Inr s'" "bitmap s' = memory_base + virtual_physical_base"
      "bitmap_len s' = len" "\<forall>k < unat (bitmap_pages len). page_marked s' (first_page + of_nat k)"
    and wf: "pmm_wf s' \<longleftrightarrow> bitmap_fits len \<or> pmm_used s' (memory_base + 4096 * bitmap_pages len)"
    using pmm_init_returns [of mmap s] assms by metis
  have "bitmap_pages len = len div 32768" if "\<not> bitmap_fits len"
    using bitmap_bytes_not_fits(2) [OF that] unat_bitmap_pages [OF len] by (simp add: word_unat_eq_iff unat_div)
  then have iff: "pmm_wf s' \<longleftrightarrow> unat len mod 32768 = 0 \<or> 8 \<le> unat len mod 32768 \<or>
      pmm_used s' (memory_base + 4096 * (len div 32768))"
    unfolding wf bitmap_fits_def by metis
  have fresh: "x div 4096 \<noteq> p div 4096"
    if "pmm_wf s'" "pmm_alloc 1 s' = Inr (p, s'')" "p \<noteq> 0" "pmm_own s' x" for p s'' x
    using pmm.alloc_fresh [OF that(1-3)] pmm.own_used [OF that(1,4)] pmm.used_page by blast
  show ?thesis
    using s'(4) unfolding unat_bitmap_pages [OF len]
    by (intro exI [of _ s'] conjI s'(1-3) iff) (use fresh in blast)+
qed

theorem pmm_init_protects_bitmap_witness:
  "\<exists>s'. pmm_init [\<lparr>mm_size = 20, mm_addr = 0x2000000, mm_len = 0x8000, mm_type = 1\<rparr>] small_pmm
     = Inr s' \<and> bitmap_len s' = 8200 \<and> pmm_wf s'"
  using pmm_init_protects_bitmap [of 8200
      "[\<lparr>mm_size = 20, mm_addr = 0x2000000, mm_len = 0x8000, mm_type = 1\<rparr>]" small_pmm]
  by (auto simp: find_available_memory_top_def AVAILABLE_def mm_consts)

text \<open>An aligned allocation with alignment 0 whose first candidate is not free never returns.\<close>

theorem pmm_alloc_alignment_zero_diverges:
  fixes s :: "'a pmm_state_scheme"
  assumes "\<not> bitmap_is_free (ram s) (bitmap s) 8192 count" and "8192 < pmm_max_idx upper s"
  shows "pmm_alloc_aligned count 0 upper s = Inl Diverges"
proof -
  have "find_free (ram s) (bitmap s) count 0 (pmm_max_idx upper s) 8192 = None"
    using find_free_stuck assms by (metis option.exhaust)
  then show ?thesis by (simp add: pmm_alloc_aligned_def mm_consts)
qed

theorem pmm_alloc_alignment_zero_diverges_witness:
  "pmm_alloc_aligned 1 0 0 small_pmm = Inl Diverges"
proof -
  have "\<not> bitmap_is_free (ram small_pmm) (bitmap small_pmm) 8192 1" by code_simp
  then show ?thesis
    by (rule pmm_alloc_alignment_zero_diverges) (simp add: pmm_max_idx_def small_pmm_def)
qed

end
