(* ===== verification/Vmm.thy ===== *)
theory Vmm
  imports PageAllocator
begin

text \<open>
  The virtual memory manager, \<open>hardware/mm/vmm.cpp\<close>: the indices of a virtual address, the
  four-level page tables in physical memory, and the loops that map, unmap and change pages of
  4 KiB and of 2 MiB. The tables are reached through the direct map. New tables come from a
  one-page allocator, which is an argument of the operations here, \<open>alloc\<close>; the kernel passes
  \<open>Pmm::alloc(1)\<close>.
\<close>

unbundle bit_operations_syntax

section \<open>Constants and indices\<close>

definition address_mask :: u64 where
  "address_mask = NOT (0xFFF OR push_bit 63 1)"

definition VMM_PRESENT :: u32 where "VMM_PRESENT = 1"
definition VMM_WRITE :: u32 where "VMM_WRITE = 2"
definition VMM_USER :: u32 where "VMM_USER = 4"
definition VMM_WT :: u32 where "VMM_WT = 8"
definition VMM_NO_CACHE :: u32 where "VMM_NO_CACHE = 16"
definition VMM_DIRTY :: u32 where "VMM_DIRTY = 32"
definition VMM_LARGE :: u32 where "VMM_LARGE = 128"

lemmas vmm_flags = VMM_PRESENT_def VMM_WRITE_def VMM_USER_def VMM_WT_def VMM_NO_CACHE_def
  VMM_DIRTY_def VMM_LARGE_def

record page_table_entries =
  pml4_idx :: u64
  pdp_idx :: u64
  pd_idx :: u64
  pt_idx :: u64

definition virtual_to_entries :: "u64 \<Rightarrow> page_table_entries" where
  "virtual_to_entries virt =
     \<lparr>pml4_idx = drop_bit 39 virt AND 0x1ff,
      pdp_idx = drop_bit 30 virt AND 0x1ff,
      pd_idx = drop_bit 21 virt AND 0x1ff,
      pt_idx = drop_bit 12 virt AND 0x1ff\<rparr>"

definition entries_to_virtual :: "page_table_entries \<Rightarrow> u64" where
  "entries_to_virtual offs =
     0 OR push_bit 39 (pml4_idx offs) OR push_bit 30 (pdp_idx offs)
       OR push_bit 21 (pd_idx offs) OR push_bit 12 (pt_idx offs)"

section \<open>Table entries\<close>

text \<open>\<open>tab->ents[off]\<close> for a table pointer in the direct map: the quadword at this physical
  address.\<close>

definition ent_addr :: "u64 \<Rightarrow> u64 \<Rightarrow> u64" where
  "ent_addr tab off = phys_of tab + 8 * off"

definition ent :: "memory \<Rightarrow> u64 \<Rightarrow> u64 \<Rightarrow> u64" where
  "ent m tab off = load64 m (ent_addr tab off)"

definition set_ent :: "u64 \<Rightarrow> u64 \<Rightarrow> u64 \<Rightarrow> 'a machine_scheme \<Rightarrow> 'a machine_scheme" where
  "set_ent tab off v s = s\<lparr>ram := store64 (ram s) (ent_addr tab off) v\<rparr>"

text \<open>The flags are an \<open>int\<close>; combining them with a 64-bit entry extends the sign.\<close>

definition flag_bits :: "u32 \<Rightarrow> u64" where
  "flag_bits flags = scast flags"

type_synonym 'a allocator = "'a machine_scheme \<Rightarrow> (u64 \<times> 'a machine_scheme) result"

definition get_or_alloc_ent ::
  "'a allocator \<Rightarrow> u64 \<Rightarrow> u64 \<Rightarrow> u32 \<Rightarrow> 'a allocator" where
  "get_or_alloc_ent alloc tab off flags s =
     (if tab = 0 then Inl NullDeref
      else
        let ea = ent (ram s) tab off AND address_mask
        in if ea = 0 then
             rbind (alloc s) (\<lambda>(p, s1).
               let s2 = set_ent tab off p s1
               in if p = 0 then Inr (0, s2)
                  else
                    let s3 = set_ent tab off
                               (ent (ram s2) tab off OR flag_bits (flags OR VMM_PRESENT)) s2;
                        s4 = s3\<lparr>ram := memset (ram s3) (phys_of (p + virtual_physical_base)) 0 4096\<rparr>
                    in Inr (p + virtual_physical_base, s4))
           else Inr (ea + virtual_physical_base, s))"

definition get_or_null_ent :: "u64 \<Rightarrow> u64 \<Rightarrow> 'a machine_scheme \<Rightarrow> u64 result" where
  "get_or_null_ent tab off s =
     (if tab = 0 then Inl NullDeref
      else
        let ea = ent (ram s) tab off AND address_mask
        in if ea = 0 then Inr 0 else Inr (ea + virtual_physical_base))"

text \<open>A store through a table pointer that may be null.\<close>

definition put_ent :: "u64 \<Rightarrow> u64 \<Rightarrow> u64 \<Rightarrow> 'a machine_scheme \<Rightarrow> 'a machine_scheme result" where
  "put_ent tab off v s = (if tab = 0 then Inl NullDeref else Inr (set_ent tab off v s))"

section \<open>Pages of 4 KiB\<close>

primrec map_pages_n ::
  "nat \<Rightarrow> 'a allocator \<Rightarrow> u64 \<Rightarrow> u64 \<Rightarrow> u64 \<Rightarrow> u32 \<Rightarrow> 'a machine_scheme
    \<Rightarrow> (bool \<times> 'a machine_scheme) result" where
  "map_pages_n 0 alloc pml4 virt phys perms s = Inr (True, s)"
| "map_pages_n (Suc n) alloc pml4 virt phys perms s =
     (let offs = virtual_to_entries virt;
          pml4_virt = pml4 + virtual_physical_base
      in rbind (get_or_alloc_ent alloc pml4_virt (pml4_idx offs) perms s) (\<lambda>(pdp_virt, s1).
         rbind (get_or_alloc_ent alloc pdp_virt (pdp_idx offs) perms s1) (\<lambda>(pd_virt, s2).
         rbind (get_or_alloc_ent alloc pd_virt (pd_idx offs) perms s2) (\<lambda>(pt_virt, s3).
         rbind (put_ent pt_virt (pt_idx offs) (phys OR flag_bits perms OR flag_bits VMM_PRESENT) s3)
           (\<lambda>s4. map_pages_n n alloc pml4 (virt + 0x1000) (phys + 0x1000) perms s4)))))"

definition map_pages ::
  "'a allocator \<Rightarrow> u64 \<Rightarrow> u64 \<Rightarrow> u64 \<Rightarrow> u64 \<Rightarrow> u32 \<Rightarrow> 'a machine_scheme
    \<Rightarrow> (bool \<times> 'a machine_scheme) result" where
  "map_pages alloc pml4 virt phys count perms s =
     map_pages_n (unat count) alloc pml4 virt phys perms s"

text \<open>The descent that \<open>unmap_pages\<close>, \<open>update_perms\<close> and \<open>get_entry\<close> share: the virtual address
  of the page table, or 0 at the first missing level.\<close>

definition find_pt :: "u64 \<Rightarrow> page_table_entries \<Rightarrow> 'a machine_scheme \<Rightarrow> u64 result" where
  "find_pt pml4 offs s =
     rbind (get_or_null_ent (pml4 + virtual_physical_base) (pml4_idx offs) s) (\<lambda>pdp_virt.
       if pdp_virt = 0 then Inr 0
       else rbind (get_or_null_ent pdp_virt (pdp_idx offs) s) (\<lambda>pd_virt.
         if pd_virt = 0 then Inr 0
         else get_or_null_ent pd_virt (pd_idx offs) s))"

primrec unmap_pages_n ::
  "nat \<Rightarrow> u64 \<Rightarrow> u64 \<Rightarrow> 'a machine_scheme \<Rightarrow> (bool \<times> 'a machine_scheme) result" where
  "unmap_pages_n 0 pml4 virt s = Inr (True, s)"
| "unmap_pages_n (Suc n) pml4 virt s =
     (let offs = virtual_to_entries virt
      in rbind (find_pt pml4 offs s) (\<lambda>pt_virt.
           if pt_virt = 0 then Inr (False, s)
           else unmap_pages_n n pml4 (virt + 0x1000) (set_ent pt_virt (pt_idx offs) 0 s)))"

definition unmap_pages ::
  "u64 \<Rightarrow> u64 \<Rightarrow> u64 \<Rightarrow> 'a machine_scheme \<Rightarrow> (bool \<times> 'a machine_scheme) result" where
  "unmap_pages pml4 virt count s = unmap_pages_n (unat count) pml4 virt s"

primrec update_perms_n ::
  "nat \<Rightarrow> u64 \<Rightarrow> u64 \<Rightarrow> u32 \<Rightarrow> 'a machine_scheme \<Rightarrow> (bool \<times> 'a machine_scheme) result" where
  "update_perms_n 0 pml4 virt perms s = Inr (True, s)"
| "update_perms_n (Suc n) pml4 virt perms s =
     (let offs = virtual_to_entries virt
      in rbind (find_pt pml4 offs s) (\<lambda>pt_virt.
           if pt_virt = 0 then Inr (False, s)
           else
             let e = (ent (ram s) pt_virt (pt_idx offs) AND address_mask)
                       OR flag_bits perms OR flag_bits VMM_PRESENT
             in update_perms_n n pml4 (virt + 0x1000) perms (set_ent pt_virt (pt_idx offs) e s)))"

definition update_perms ::
  "u64 \<Rightarrow> u64 \<Rightarrow> u64 \<Rightarrow> u32 \<Rightarrow> 'a machine_scheme \<Rightarrow> (bool \<times> 'a machine_scheme) result" where
  "update_perms pml4 virt count perms s = update_perms_n (unat count) pml4 virt perms s"

section \<open>Pages of 2 MiB\<close>

primrec map_huge_pages_n ::
  "nat \<Rightarrow> 'a allocator \<Rightarrow> u64 \<Rightarrow> u64 \<Rightarrow> u64 \<Rightarrow> u32 \<Rightarrow> 'a machine_scheme
    \<Rightarrow> (bool \<times> 'a machine_scheme) result" where
  "map_huge_pages_n 0 alloc pml4 virt phys perms s = Inr (True, s)"
| "map_huge_pages_n (Suc n) alloc pml4 virt phys perms s =
     (let offs = virtual_to_entries virt;
          pml4_virt = pml4 + virtual_physical_base
      in rbind (get_or_alloc_ent alloc pml4_virt (pml4_idx offs) perms s) (\<lambda>(pdp_virt, s1).
         rbind (get_or_alloc_ent alloc pdp_virt (pdp_idx offs) perms s1) (\<lambda>(pd_virt, s2).
         rbind (put_ent pd_virt (pd_idx offs)
                 (phys OR flag_bits perms OR flag_bits VMM_PRESENT OR flag_bits VMM_LARGE) s2)
           (\<lambda>s3. map_huge_pages_n n alloc pml4 (virt + 0x200000) (phys + 0x200000) perms s3))))"

definition map_huge_pages ::
  "'a allocator \<Rightarrow> u64 \<Rightarrow> u64 \<Rightarrow> u64 \<Rightarrow> u64 \<Rightarrow> u32 \<Rightarrow> 'a machine_scheme
    \<Rightarrow> (bool \<times> 'a machine_scheme) result" where
  "map_huge_pages alloc pml4 virt phys count perms s =
     map_huge_pages_n (unat count) alloc pml4 virt phys perms s"

primrec unmap_huge_pages_n ::
  "nat \<Rightarrow> u64 \<Rightarrow> u64 \<Rightarrow> 'a machine_scheme \<Rightarrow> (bool \<times> 'a machine_scheme) result" where
  "unmap_huge_pages_n 0 pml4 virt s = Inr (True, s)"
| "unmap_huge_pages_n (Suc n) pml4 virt s =
     (let offs = virtual_to_entries virt
      in rbind (get_or_null_ent (pml4 + virtual_physical_base) (pml4_idx offs) s) (\<lambda>pdp_virt.
           if pdp_virt = 0 then Inr (False, s)
           else rbind (get_or_null_ent pdp_virt (pdp_idx offs) s) (\<lambda>pd_virt.
                rbind (put_ent pd_virt (pd_idx offs) 0 s)
                  (unmap_huge_pages_n n pml4 (virt + 0x200000)))))"

definition unmap_huge_pages ::
  "u64 \<Rightarrow> u64 \<Rightarrow> u64 \<Rightarrow> 'a machine_scheme \<Rightarrow> (bool \<times> 'a machine_scheme) result" where
  "unmap_huge_pages pml4 virt count s = unmap_huge_pages_n (unat count) pml4 virt s"

primrec update_huge_perms_n ::
  "nat \<Rightarrow> u64 \<Rightarrow> u64 \<Rightarrow> u32 \<Rightarrow> 'a machine_scheme \<Rightarrow> (bool \<times> 'a machine_scheme) result" where
  "update_huge_perms_n 0 pml4 virt perms s = Inr (True, s)"
| "update_huge_perms_n (Suc n) pml4 virt perms s =
     (let offs = virtual_to_entries virt
      in rbind (get_or_null_ent (pml4 + virtual_physical_base) (pml4_idx offs) s) (\<lambda>pdp_virt.
           if pdp_virt = 0 then Inr (False, s)
           else rbind (get_or_null_ent pdp_virt (pdp_idx offs) s) (\<lambda>pd_virt.
                let e = (ent (ram s) pd_virt (pd_idx offs) AND address_mask)
                          OR flag_bits perms OR flag_bits VMM_PRESENT OR flag_bits VMM_LARGE
                in rbind (put_ent pd_virt (pd_idx offs) e s)
                     (update_huge_perms_n n pml4 (virt + 0x200000) perms))))"

definition update_huge_perms ::
  "u64 \<Rightarrow> u64 \<Rightarrow> u64 \<Rightarrow> u32 \<Rightarrow> 'a machine_scheme \<Rightarrow> (bool \<times> 'a machine_scheme) result" where
  "update_huge_perms pml4 virt count perms s = update_huge_perms_n (unat count) pml4 virt perms s"

section \<open>Lookup and new address spaces\<close>

definition get_entry :: "u64 \<Rightarrow> u64 \<Rightarrow> 'a machine_scheme \<Rightarrow> u64 result" where
  "get_entry pml4 virt s =
     (if virt \<ge> 0xFFFFFFFF80000000 then Inr (virt - 0xFFFFFFFF80000000)
      else if virt \<ge> 0xFFFF800000000000 then Inr (virt - 0xFFFF800000000000)
      else
        let offs = virtual_to_entries virt
        in rbind (find_pt pml4 offs s) (\<lambda>pt_virt.
             if pt_virt = 0 then Inr 0 else Inr (ent (ram s) pt_virt (pt_idx offs))))"

definition new_address_space :: "'a allocator \<Rightarrow> 'a allocator" where
  "new_address_space alloc s =
     rbind (alloc s) (\<lambda>(new_pml4, s1).
       let s2 = s1\<lparr>ram := memset (ram s1) (phys_of (new_pml4 + virtual_physical_base)) 0 4096\<rparr>
       in rbind (map_huge_pages alloc new_pml4 0xFFFFFFFF80000000 0 64 3 s2) (\<lambda>(b1, s3).
          rbind (map_huge_pages alloc new_pml4 0xFFFF800000000000 0 (512 * 4) 3 s3) (\<lambda>(b2, s4).
            Inr (new_pml4, s4))))"

section \<open>Indices\<close>

lemma idx_less_512: "x AND 0x1ff < (512 :: u64)"
proof -
  have "x AND 0x1ff \<le> 0x1ff" by (rule word_and_le1)
  then show ?thesis by (simp add: word_le_nat_alt word_less_nat_alt)
qed

lemma entries_less [simp]:
  "pml4_idx (virtual_to_entries v) < 512" "pdp_idx (virtual_to_entries v) < 512"
  "pd_idx (virtual_to_entries v) < 512" "pt_idx (virtual_to_entries v) < 512"
  by (simp_all add: virtual_to_entries_def idx_less_512)

lemma ent_addr_direct [simp]: "ent_addr (t + virtual_physical_base) i = t + 8 * i"
  by (simp add: ent_addr_def)

lemma ent_direct [simp]: "ent m (t + virtual_physical_base) i = load64 m (t + 8 * i)"
  by (simp add: ent_def)

lemma set_ent_direct:
  "set_ent (t + virtual_physical_base) i v s = s\<lparr>ram := store64 (ram s) (t + 8 * i) v\<rparr>"
  by (simp add: set_ent_def)

section \<open>Frames\<close>

definition entry_frame :: "u64 \<Rightarrow> u64" where
  "entry_frame e = e AND address_mask"

lemma bit_address_mask: "bit address_mask k \<longleftrightarrow> 12 \<le> k \<and> k < 63"
proof -
  have "address_mask = push_bit 12 (mask 51)"
    by (simp add: address_mask_def mask_eq_exp_minus_1)
  then have "bit address_mask k \<longleftrightarrow> bit (push_bit 12 (mask 51) :: u64) k" by metis
  then show ?thesis by (auto simp: bit_push_bit_iff bit_mask_iff)
qed

lemma bit_entry_frame: "bit (entry_frame e) k \<longleftrightarrow> bit e k \<and> 12 \<le> k \<and> k < 63"
  by (simp add: entry_frame_def bit_and_iff bit_address_mask)

lemma aligned_entry_frame [simp]: "aligned 12 (entry_frame e)"
proof -
  have "entry_frame e AND mask 12 = 0" by (rule bit_word_eqI) (simp add: bit_simps bit_entry_frame)
  then show ?thesis using and_mask_dvd_nat [of 12 "entry_frame e"] by (simp add: aligned_def)
qed

lemma bit_aligned: "aligned n f \<Longrightarrow> k < n \<Longrightarrow> \<not> bit f k"
proof -
  assume "aligned n f" "k < n"
  then have "f AND mask n = 0" by (simp add: aligned_def and_mask_dvd_nat)
  then have "\<not> bit (f AND mask n) k" by simp
  then show ?thesis using \<open>k < n\<close> by (auto simp: bit_simps dest: bit_imp_le_length)
qed

lemma bit_small: "unat f < 2 ^ n \<Longrightarrow> n \<le> k \<Longrightarrow> \<not> bit (f :: u64) k"
proof -
  assume "unat f < 2 ^ n" "n \<le> k"
  then have "\<not> bit (take_bit n (unat f)) k" by (simp add: bit_take_bit_iff)
  then have "\<not> bit (unat f) k" using \<open>unat f < 2 ^ n\<close> by (simp add: take_bit_nat_eq_self)
  then show ?thesis by (auto simp: bit_unsigned_iff dest: bit_imp_possible_bit)
qed

lemma entry_frame_flags:
  assumes "aligned 12 f" "unat f < 2 ^ 63" "unat g < 4096"
  shows "entry_frame (f OR g) = f"
proof (rule bit_word_eqI)
  fix k assume "k < LENGTH(64)"
  show "bit (entry_frame (f OR g)) k = bit f k"
    using bit_aligned [OF assms(1), of k] bit_small [OF assms(2), of k] bit_small [of g 12 k] assms(3)
    by (cases "12 \<le> k"; cases "k < 63") (auto simp: bit_entry_frame bit_simps)
qed

end
