(* ===== verification/VmmTree.thy ===== *)
theory VmmTree
  imports Vmm
begin

text \<open>
  The specification side of the page tables: the four-level walk an x86-64 processor makes from
  \<open>cr3\<close>, the tree of tables that the code's entries describe, its well-formedness, and two lemmas
  on how it changes: installing an empty table never changes a translation, and writing a leaf
  changes the translation of one page.
\<close>

unbundle bit_operations_syntax

section \<open>The walk of the processor\<close>

text \<open>What a walk ends in: the entry of a page of 4 KiB, 2 MiB or 1 GiB, or no translation.
  Bit 0 of an entry is the present bit, bit 7 of a page-directory or pointer-table entry makes it a
  large page, and bits 51 to 12 hold the frame.\<close>

datatype mapping = Unmapped | Page4K u64 | Page2M u64 | Page1G u64

definition hw_frame :: "u64 \<Rightarrow> u64" where
  "hw_frame e = e AND 0x000FFFFFFFFFF000"

definition hw_index :: "nat \<Rightarrow> u64 \<Rightarrow> u64" where
  "hw_index level v = drop_bit (12 + 9 * level) v AND 0x1ff"

definition hw_walk :: "memory \<Rightarrow> u64 \<Rightarrow> u64 \<Rightarrow> mapping" where
  "hw_walk m cr3 v =
     (let e4 = load64 m (hw_frame cr3 + 8 * hw_index 3 v) in
      if \<not> bit e4 0 then Unmapped
      else let e3 = load64 m (hw_frame e4 + 8 * hw_index 2 v) in
      if \<not> bit e3 0 then Unmapped
      else if bit e3 7 then Page1G e3
      else let e2 = load64 m (hw_frame e3 + 8 * hw_index 1 v) in
      if \<not> bit e2 0 then Unmapped
      else if bit e2 7 then Page2M e2
      else let e1 = load64 m (hw_frame e2 + 8 * hw_index 0 v) in
      if \<not> bit e1 0 then Unmapped else Page4K e1)"

text \<open>The physical address of a virtual one.\<close>

definition hw_translate :: "memory \<Rightarrow> u64 \<Rightarrow> u64 \<Rightarrow> u64 option" where
  "hw_translate m cr3 v =
     (case hw_walk m cr3 v of
        Unmapped \<Rightarrow> None
      | Page4K e \<Rightarrow> Some (hw_frame e OR (v AND 0xFFF))
      | Page2M e \<Rightarrow> Some ((e AND 0x000FFFFFFFE00000) OR (v AND 0x1FFFFF))
      | Page1G e \<Rightarrow> Some ((e AND 0x000FFFFFC0000000) OR (v AND 0x3FFFFFFF)))"

section \<open>The tree of tables\<close>

text \<open>A path holds the indices taken from the root, the last one first. \<open>table_at m r p\<close> is the
  frame of the table at path \<open>p\<close>; a large page in a page directory ends the path.\<close>

definition next_table :: "memory \<Rightarrow> u64 \<Rightarrow> u64 \<Rightarrow> u64 option" where
  "next_table m t i =
     (let e = load64 m (t + 8 * i)
      in if entry_frame e = 0 \<or> bit e 7 then None else Some (entry_frame e))"

primrec table_at :: "memory \<Rightarrow> u64 \<Rightarrow> u64 list \<Rightarrow> u64 option" where
  "table_at m r [] = Some r"
| "table_at m r (i # p) =
     (case table_at m r p of None \<Rightarrow> None | Some t \<Rightarrow> next_table m t i)"

definition valid_path :: "u64 list \<Rightarrow> bool" where
  "valid_path p \<longleftrightarrow> length p \<le> 3 \<and> (\<forall>i \<in> set p. i < 512)"

definition table_frames :: "memory \<Rightarrow> u64 \<Rightarrow> u64 set" where
  "table_frames m r = {f. \<exists>p. valid_path p \<and> table_at m r p = Some f}"

text \<open>An entry above the page tables: a present large page, which only a page directory may hold,
  or a table, or nothing; the present bit says which.\<close>

definition entry_ok :: "nat \<Rightarrow> u64 \<Rightarrow> bool" where
  "entry_ok depth e \<longleftrightarrow>
     (if bit e 7 then depth = 2 \<and> bit e 0 else bit e 0 \<longleftrightarrow> entry_frame e \<noteq> 0)"

definition frame_ok :: "u64 \<Rightarrow> bool" where
  "frame_ok f \<longleftrightarrow> aligned 12 f \<and> unat f < 2 ^ 47"

definition tree_ok :: "memory \<Rightarrow> u64 \<Rightarrow> bool" where
  "tree_ok m r \<longleftrightarrow>
     (\<forall>p f. valid_path p \<and> table_at m r p = Some f \<longrightarrow> frame_ok f) \<and>
     (\<forall>p q f. valid_path p \<and> valid_path q \<and> table_at m r p = Some f \<and> table_at m r q = Some f
        \<longrightarrow> p = q) \<and>
     (\<forall>p t i. valid_path p \<and> length p < 3 \<and> table_at m r p = Some t \<and> i < 512
        \<longrightarrow> entry_ok (length p) (load64 m (t + 8 * i)))"

lemma valid_path_Nil [simp]: "valid_path []"
  by (simp add: valid_path_def)

lemma valid_path_Cons: "valid_path (i # p) \<longleftrightarrow> valid_path p \<and> length p < 3 \<and> i < 512"
  by (auto simp: valid_path_def)

lemma tree_ok_frame: "tree_ok m r \<Longrightarrow> valid_path p \<Longrightarrow> table_at m r p = Some f \<Longrightarrow> frame_ok f"
  by (auto simp: tree_ok_def)

lemma tree_ok_unique:
  "tree_ok m r \<Longrightarrow> valid_path p \<Longrightarrow> valid_path q \<Longrightarrow> table_at m r p = Some f \<Longrightarrow>
   table_at m r q = Some f \<Longrightarrow> p = q"
  by (auto simp: tree_ok_def)

lemma tree_ok_entry:
  "tree_ok m r \<Longrightarrow> valid_path p \<Longrightarrow> length p < 3 \<Longrightarrow> table_at m r p = Some t \<Longrightarrow> i < 512 \<Longrightarrow>
   entry_ok (length p) (load64 m (t + 8 * i))"
  by (auto simp: tree_ok_def)

lemma tree_okI:
  assumes "\<And>p f. valid_path p \<Longrightarrow> table_at m r p = Some f \<Longrightarrow> frame_ok f"
    and "\<And>p q f. valid_path p \<Longrightarrow> valid_path q \<Longrightarrow> table_at m r p = Some f \<Longrightarrow>
      table_at m r q = Some f \<Longrightarrow> p = q"
    and "\<And>p t i. valid_path p \<Longrightarrow> length p < 3 \<Longrightarrow> table_at m r p = Some t \<Longrightarrow> i < 512 \<Longrightarrow>
      entry_ok (length p) (load64 m (t + 8 * i))"
  shows "tree_ok m r"
  unfolding tree_ok_def using assms by blast

lemma table_framesI: "valid_path p \<Longrightarrow> table_at m r p = Some f \<Longrightarrow> f \<in> table_frames m r"
  by (auto simp: table_frames_def)

lemma hw_frame_entry_frame:
  assumes "unat (entry_frame e) < 2 ^ 52"
  shows "hw_frame e = entry_frame e"
proof (rule bit_word_eqI)
  fix k
  have m: "(0x000FFFFFFFFFF000 :: u64) = push_bit 12 (mask 40)"
    by (simp add: mask_eq_exp_minus_1)
  show "bit (hw_frame e) k = bit (entry_frame e) k"
    using bit_small [OF assms, of k]
    by (cases "k < 52") (auto simp: hw_frame_def m bit_simps bit_entry_frame)
qed

lemma hw_frame_of_frame: "frame_ok f \<Longrightarrow> hw_frame f = f"
proof -
  assume f: "frame_ok f"
  then have "entry_frame f = f"
    using entry_frame_flags [of f 0] by (simp add: frame_ok_def)
  with f hw_frame_entry_frame [of f] show ?thesis by (simp add: frame_ok_def)
qed

lemma hw_index_entries:
  "hw_index 3 v = pml4_idx (virtual_to_entries v)" "hw_index 2 v = pdp_idx (virtual_to_entries v)"
  "hw_index (Suc 0) v = pd_idx (virtual_to_entries v)" "hw_index 0 v = pt_idx (virtual_to_entries v)"
  by (simp_all add: hw_index_def virtual_to_entries_def)

definition path_to_pd :: "u64 \<Rightarrow> u64 list" where
  "path_to_pd v = [pdp_idx (virtual_to_entries v), pml4_idx (virtual_to_entries v)]"

definition path_to_pt :: "u64 \<Rightarrow> u64 list" where
  "path_to_pt v = pd_idx (virtual_to_entries v) # path_to_pd v"

lemma length_paths [simp]: "length (path_to_pd v) = 2" "length (path_to_pt v) = 3"
  by (simp_all add: path_to_pd_def path_to_pt_def)

lemma valid_paths [simp]: "valid_path (path_to_pd v)" "valid_path (path_to_pt v)"
  by (simp_all add: path_to_pd_def path_to_pt_def valid_path_Cons)

text \<open>The walk, in terms of the tree.\<close>

definition tree_walk :: "memory \<Rightarrow> u64 \<Rightarrow> u64 \<Rightarrow> mapping" where
  "tree_walk m r v =
     (case table_at m r (path_to_pd v) of
        None \<Rightarrow> Unmapped
      | Some pd \<Rightarrow>
          (let e = load64 m (pd + 8 * pd_idx (virtual_to_entries v)) in
           if bit e 7 then Page2M e
           else (case table_at m r (path_to_pt v) of
                   None \<Rightarrow> Unmapped
                 | Some pt \<Rightarrow>
                     (let l = load64 m (pt + 8 * pt_idx (virtual_to_entries v))
                      in if bit l 0 then Page4K l else Unmapped))))"

lemma walk_step:
  assumes "tree_ok m r" "valid_path p" "length p < 3" "table_at m r p = Some t" "i < 512"
    and e: "e = load64 m (t + 8 * i)" and "\<not> bit e 7"
  shows "table_at m r (i # p) = (if bit e 0 then Some (hw_frame e) else None)"
proof -
  have ok: "entry_ok (length p) e" using tree_ok_entry [OF assms(1-5)] by (simp add: e)
  have tab: "table_at m r (i # p) = (if entry_frame e = 0 then None else Some (entry_frame e))"
    using assms(4,7) by (simp add: next_table_def e)
  show ?thesis
  proof (cases "bit e 0")
    case True
    then have "table_at m r (i # p) = Some (entry_frame e)"
      using ok assms(7) tab by (simp add: entry_ok_def)
    moreover from this have "frame_ok (entry_frame e)"
      using tree_ok_frame [OF assms(1), of "i # p"] assms(2,3,5) by (simp add: valid_path_Cons del: table_at.simps)
    ultimately show ?thesis using True hw_frame_entry_frame [of e] by (simp add: frame_ok_def)
  next
    case False
    then show ?thesis using ok assms(7) tab by (simp add: entry_ok_def)
  qed
qed

lemma hw_walk_tree:
  assumes "tree_ok m r"
  shows "hw_walk m r v = tree_walk m r v"
proof -
  define e4 where "e4 = load64 m (r + 8 * pml4_idx (virtual_to_entries v))"
  define e3 where "e3 = load64 m (hw_frame e4 + 8 * pdp_idx (virtual_to_entries v))"
  define e2 where "e2 = load64 m (hw_frame e3 + 8 * pd_idx (virtual_to_entries v))"
  have r: "hw_frame r = r"
    using tree_ok_frame [OF assms valid_path_Nil] by (intro hw_frame_of_frame) simp
  have t4: "\<not> bit e4 7"
    using tree_ok_entry [OF assms valid_path_Nil, of r "pml4_idx (virtual_to_entries v)"]
    by (auto simp: entry_ok_def e4_def split: if_splits)
  have s4: "table_at m r [pml4_idx (virtual_to_entries v)] = (if bit e4 0 then Some (hw_frame e4) else None)"
    using walk_step [OF assms valid_path_Nil _ _ _ e4_def t4] by simp
  show ?thesis
  proof (cases "bit e4 0")
    case False
    then show ?thesis
      using s4 by (simp add: hw_walk_def tree_walk_def Let_def hw_index_entries r path_to_pd_def flip: e4_def)
  next
    case True
    have t3: "\<not> bit e3 7"
      using tree_ok_entry [OF assms, of "[pml4_idx (virtual_to_entries v)]" "hw_frame e4"
          "pdp_idx (virtual_to_entries v)"] True s4
      by (auto simp: entry_ok_def e3_def valid_path_Cons split: if_splits)
    have s3: "table_at m r (path_to_pd v) = (if bit e3 0 then Some (hw_frame e3) else None)"
      unfolding path_to_pd_def
      using True s4 by (intro walk_step [OF assms _ _ _ _ e3_def t3]) (simp_all add: valid_path_Cons)
    show ?thesis
    proof (cases "bit e3 0")
      case False
      then show ?thesis
        using s3 True by (simp add: hw_walk_def tree_walk_def Let_def hw_index_entries r flip: e4_def e3_def)
    next
      case e3: True
      have ok2: "entry_ok (length (path_to_pd v)) e2"
        using tree_ok_entry [OF assms valid_paths(1), of v "hw_frame e3" "pd_idx (virtual_to_entries v)"]
          e3 s3 by (simp add: e2_def)
      have s2: "table_at m r (path_to_pt v) = (if bit e2 0 then Some (hw_frame e2) else None)"
        if "\<not> bit e2 7"
        unfolding path_to_pt_def
        using e3 s3 that by (intro walk_step [OF assms _ _ _ _ e2_def]) (simp_all add: path_to_pd_def valid_path_Cons)
      show ?thesis
        using True e3 s3 t3 s2 ok2
        by (auto simp: hw_walk_def tree_walk_def Let_def hw_index_entries r entry_ok_def
            simp flip: e4_def e3_def e2_def)
    qed
  qed
qed

lemma tree_walk_cong:
  assumes "table_at m' r (path_to_pd v) = table_at m r (path_to_pd v)"
    and "table_at m' r (path_to_pt v) = table_at m r (path_to_pt v)"
    and "\<And>t i. table_at m r (path_to_pd v) = Some t \<Longrightarrow> i = pd_idx (virtual_to_entries v) \<Longrightarrow>
      load64 m' (t + 8 * i) = load64 m (t + 8 * i)"
    and "\<And>t i. table_at m r (path_to_pt v) = Some t \<Longrightarrow> i = pt_idx (virtual_to_entries v) \<Longrightarrow>
      load64 m' (t + 8 * i) = load64 m (t + 8 * i)"
  shows "tree_walk m' r v = tree_walk m r v"
  using assms by (simp add: tree_walk_def Let_def split: option.split)

section \<open>How stores change the tree\<close>

text \<open>\<open>slots_kept m m' r t0 i0\<close>: every entry of a table of the tree reads the same in both
  memories, entry \<open>i0\<close> of the table at \<open>t0\<close> apart.\<close>

definition slots_kept :: "memory \<Rightarrow> memory \<Rightarrow> u64 \<Rightarrow> u64 \<Rightarrow> u64 \<Rightarrow> bool" where
  "slots_kept m m' r t0 i0 \<longleftrightarrow>
     (\<forall>q t i. valid_path q \<and> table_at m r q = Some t \<and> i < 512 \<and> (t, i) \<noteq> (t0, i0)
        \<longrightarrow> load64 m' (t + 8 * i) = load64 m (t + 8 * i))"

lemma slots_keptD:
  "slots_kept m m' r t0 i0 \<Longrightarrow> valid_path q \<Longrightarrow> table_at m r q = Some t \<Longrightarrow> i < 512 \<Longrightarrow>
   t \<noteq> t0 \<or> i \<noteq> i0 \<Longrightarrow> load64 m' (t + 8 * i) = load64 m (t + 8 * i)"
  unfolding slots_kept_def by (metis prod.inject)

lemma slots_kept_store:
  assumes "tree_ok m r" "valid_path p0" "table_at m r p0 = Some t0" "i0 < 512"
  shows "slots_kept m (store64 m (t0 + 8 * i0) e) r t0 i0"
  unfolding slots_kept_def
proof (intro allI impI, elim conjE)
  fix q t i
  assume q: "valid_path q" "table_at m r q = Some t" "i < 512" "(t, i) \<noteq> (t0, i0)"
  have "aligned 12 t" "aligned 12 t0"
    using tree_ok_frame [OF assms(1)] assms(2,3) q(1,2) by (auto simp: frame_ok_def)
  then show "load64 (store64 m (t0 + 8 * i0) e) (t + 8 * i) = load64 m (t + 8 * i)"
    using q(3,4) assms(4) page_slot_eq_iff [of t t0 i i0]
    by (intro load64_store64_other) (auto intro!: aligned_page_slot)
qed

lemma next_table_cong: "load64 m' (t + 8 * i) = load64 m (t + 8 * i) \<Longrightarrow> next_table m' t i = next_table m t i"
  by (simp add: next_table_def)

text \<open>A store into a page that holds no table changes nothing.\<close>

lemma outside_tree:
  assumes "tree_ok m r" "aligned 12 f" "f \<notin> table_frames m r" "j < 512"
  shows outside_tables: "valid_path q \<Longrightarrow> table_at (store64 m (f + 8 * j) e) r q = table_at m r q"
    and outside_walk: "tree_walk (store64 m (f + 8 * j) e) r v = tree_walk m r v"
    and outside_tree_ok: "tree_ok (store64 m (f + 8 * j) e) r"
proof -
  let ?m = "store64 m (f + 8 * j) e"
  have load: "load64 ?m (t + 8 * i) = load64 m (t + 8 * i)"
    if "valid_path q" "table_at m r q = Some t" "i < 512" for q t i
    using that assms tree_ok_frame [OF assms(1) that(1,2)] table_framesI [OF that(1,2)]
    by (subst load64_store64_slot) (auto simp: frame_ok_def)
  show tab: "table_at ?m r q = table_at m r q" if "valid_path q" for q
    using that
  proof (induction q)
    case (Cons i q)
    then have "valid_path q" "i < 512" by (simp_all add: valid_path_Cons)
    then show ?case using Cons.IH load by (auto split: option.splits intro!: next_table_cong)
  qed simp
  show "tree_walk ?m r v = tree_walk m r v"
    using load [OF valid_paths(1)] load [OF valid_paths(2)] by (intro tree_walk_cong) (simp_all add: tab)
  show "tree_ok ?m r"
    using tree_ok_frame [OF assms(1)] tree_ok_unique [OF assms(1)] tree_ok_entry [OF assms(1)] load
    by (intro tree_okI) (simp_all add: tab)
qed

text \<open>Installing an empty table at a free entry.\<close>

definition install :: "memory \<Rightarrow> memory \<Rightarrow> u64 \<Rightarrow> u64 list \<Rightarrow> u64 \<Rightarrow> u64 \<Rightarrow> u64 \<Rightarrow> bool" where
  "install m m' r p0 t0 i0 f \<longleftrightarrow>
     tree_ok m r \<and>
     (valid_path p0 \<and> length p0 < 3 \<and> table_at m r p0 = Some t0) \<and>
     i0 < 512 \<and>
     (next_table m t0 i0 = None \<and> \<not> bit (load64 m (t0 + 8 * i0)) 7) \<and>
     slots_kept m m' r t0 i0 \<and>
     (entry_frame (load64 m' (t0 + 8 * i0)) = f \<and> bit (load64 m' (t0 + 8 * i0)) 0 \<and>
       \<not> bit (load64 m' (t0 + 8 * i0)) 7) \<and>
     (frame_ok f \<and> f \<noteq> 0 \<and> f \<notin> table_frames m r) \<and>
     (\<forall>i < 512. load64 m' (f + 8 * i) = 0)"

lemma installD:
  assumes "install m m' r p0 t0 i0 f"
  shows install_tree: "tree_ok m r"
    and install_p0: "valid_path p0" "length p0 < 3" "table_at m r p0 = Some t0"
    and install_i0: "i0 < 512"
    and install_free: "next_table m t0 i0 = None" "\<not> bit (load64 m (t0 + 8 * i0)) 7"
    and install_kept: "slots_kept m m' r t0 i0"
    and install_e: "entry_frame (load64 m' (t0 + 8 * i0)) = f" "bit (load64 m' (t0 + 8 * i0)) 0"
      "\<not> bit (load64 m' (t0 + 8 * i0)) 7"
    and install_f: "frame_ok f" "f \<noteq> 0" "f \<notin> table_frames m r"
    and install_zero: "i < 512 \<Longrightarrow> load64 m' (f + 8 * i) = 0"
  using assms by (simp_all add: install_def)

lemma install_hole:
  assumes I: "install m m' r p0 t0 i0 f"
  shows "table_at m r (i0 # p0) = None"
  using install_p0 [OF I] install_free [OF I] by simp

lemma install_other:
  assumes I: "install m m' r p0 t0 i0 f"
  shows "valid_path q \<Longrightarrow> table_at m r q = Some t \<Longrightarrow> q \<noteq> p0 \<or> i \<noteq> i0 \<Longrightarrow> i < 512 \<Longrightarrow>
    load64 m' (t + 8 * i) = load64 m (t + 8 * i)"
  using slots_keptD [OF install_kept [OF I]] tree_ok_unique [OF install_tree [OF I] install_p0(1) [OF I] _ install_p0(3) [OF I]] by metis

lemma install_new_next:
  assumes I: "install m m' r p0 t0 i0 f"
  shows "i < 512 \<Longrightarrow> next_table m' f i = None"
  by (simp add: next_table_def install_zero [OF I] entry_frame_def)

lemma install_tables:
  assumes I: "install m m' r p0 t0 i0 f"
  shows "valid_path q \<Longrightarrow> table_at m' r q = (if q = i0 # p0 then Some f else table_at m r q)"
proof (induction q)
  case Nil
  then show ?case by simp
next
  case (Cons i q)
  then have q: "valid_path q" "i < 512" by (simp_all add: valid_path_Cons)
  note IH = Cons.IH [OF q(1)]
  consider "q = i0 # p0" | "q = p0" "i = i0" | "q \<noteq> i0 # p0" "q \<noteq> p0 \<or> i \<noteq> i0" by blast
  then show ?case
  proof cases
    case 1
    then show ?thesis using IH install_hole [OF I] install_new_next [OF I q(2)] by auto
  next
    case 2
    have "next_table m' t0 i0 = Some f" using install_e [OF I] install_f [OF I] by (simp add: next_table_def)
    with 2 show ?thesis using IH install_p0 [OF I] by simp
  next
    case 3
    then show ?thesis
      using IH next_table_cong [OF install_other [OF I q(1) _ 3(2) q(2)]] by (auto split: option.splits)
  qed
qed

lemma install_tree_ok':
  assumes I: "install m m' r p0 t0 i0 f"
  shows "tree_ok m' r"
proof (rule tree_okI)
  show "frame_ok g" if "valid_path p" "table_at m' r p = Some g" for p g
    using that install_tables [OF I that(1)] install_f [OF I] tree_ok_frame [OF install_tree [OF I]] by (auto split: if_splits)
  show "p = q" if "valid_path p" "valid_path q" "table_at m' r p = Some g" "table_at m' r q = Some g" for p q g
    using that install_tables [OF I that(1)] install_tables [OF I that(2)] install_f(3) [OF I] tree_ok_unique [OF install_tree [OF I] that(1,2)]
    by (auto split: if_splits dest: table_framesI)
  show "entry_ok (length p) (load64 m' (t + 8 * i))"
    if "valid_path p" "length p < 3" "table_at m' r p = Some t" "i < 512" for p t i
  proof (cases "p = i0 # p0")
    case True
    then have "t = f" using that install_tables [OF I that(1)] by simp
    then show ?thesis using install_zero [OF I that(4)] by (simp add: entry_ok_def entry_frame_def)
  next
    case False
    then have t: "table_at m r p = Some t" using that install_tables [OF I that(1)] by simp
    show ?thesis
    proof (cases "p = p0 \<and> i = i0")
      case True
      then show ?thesis using t install_p0 [OF I] install_e [OF I] install_f [OF I] by (simp add: entry_ok_def)
    next
      case False
      then show ?thesis
        using install_other [OF I that(1) t _ that(4)] tree_ok_entry [OF install_tree [OF I] that(1,2) t that(4)] by simp
    qed
  qed
qed

lemma install_valid_new:
  assumes I: "install m m' r p0 t0 i0 f"
  shows "valid_path (i0 # p0)"
  using install_p0 [OF I] install_i0 [OF I] by (simp add: valid_path_Cons)

lemma install_frames':
  assumes I: "install m m' r p0 t0 i0 f"
  shows "table_frames m' r = insert f (table_frames m r)"
proof (intro set_eqI iffI)
  fix g assume "g \<in> table_frames m' r"
  then obtain q where "valid_path q" "table_at m' r q = Some g" by (auto simp: table_frames_def)
  then show "g \<in> insert f (table_frames m r)"
    using install_tables [OF I, of q] by (auto intro: table_framesI split: if_splits simp del: table_at.simps)
next
  fix g assume "g \<in> insert f (table_frames m r)"
  then consider "g = f" | q where "valid_path q" "table_at m r q = Some g"
    by (auto simp: table_frames_def)
  then show "g \<in> table_frames m' r"
  proof cases
    case 1
    then show ?thesis using table_framesI [OF install_valid_new [OF I]] install_tables [OF I install_valid_new [OF I]] by simp
  next
    case 2
    then have "table_at m' r q = Some g" using install_tables [OF I, of q] install_hole [OF I] by (cases "q = i0 # p0") auto
    with 2 show ?thesis by (auto intro: table_framesI)
  qed
qed

lemma install_walk':
  assumes I: "install m m' r p0 t0 i0 f"
  shows "tree_walk m' r v = tree_walk m r v"
proof -
  have pt: "table_at m r (path_to_pt v) = (case table_at m r (path_to_pd v) of None \<Rightarrow> None
      | Some t \<Rightarrow> next_table m t (pd_idx (virtual_to_entries v)))"
    by (simp add: path_to_pt_def)
  consider "path_to_pd v = i0 # p0" | "path_to_pt v = i0 # p0"
    | "path_to_pd v \<noteq> i0 # p0" "path_to_pt v \<noteq> i0 # p0" by blast
  then show ?thesis
  proof cases
    case 1
    then have "path_to_pt v \<noteq> i0 # p0" by (simp add: path_to_pt_def)
    then have "table_at m' r (path_to_pd v) = Some f" "table_at m r (path_to_pd v) = None"
      "table_at m' r (path_to_pt v) = None"
      using install_hole [OF I] pt install_tables [OF I valid_paths(1), of v] install_tables [OF I valid_paths(2), of v] 1
      by (simp_all del: table_at.simps(2))
    then show ?thesis by (simp add: tree_walk_def install_zero [OF I])
  next
    case 2
    then have "path_to_pd v = p0" "pd_idx (virtual_to_entries v) = i0" by (simp_all add: path_to_pt_def)
    then have "table_at m' r (path_to_pd v) = Some t0" "table_at m r (path_to_pd v) = Some t0"
      "table_at m' r (path_to_pt v) = Some f" "table_at m r (path_to_pt v) = None"
      using install_hole [OF I] install_p0 [OF I] 2 install_tables [OF I valid_paths(1), of v] install_tables [OF I valid_paths(2), of v]
      by (simp_all del: table_at.simps(2))
    then show ?thesis
      using \<open>pd_idx (virtual_to_entries v) = i0\<close> install_free [OF I] install_e [OF I] by (simp add: tree_walk_def install_zero [OF I])
  next
    case 3
    have "path_to_pd v \<noteq> p0 \<or> pd_idx (virtual_to_entries v) \<noteq> i0"
      using 3 by (auto simp: path_to_pt_def)
    moreover have "path_to_pt v \<noteq> p0" using install_p0 [OF I] length_paths(2) [of v] by auto
    ultimately show ?thesis
      using 3 install_other [OF I valid_paths(1), of v] install_other [OF I valid_paths(2), of v]
      by (intro tree_walk_cong) (simp_all add: install_tables [OF I] del: table_at.simps)
  qed
qed

text \<open>Writing a leaf into a page table.\<close>

lemma leaf_tables:
  assumes "tree_ok m r" "valid_path p0" "length p0 = 3" "table_at m r p0 = Some t0"
    and kept: "slots_kept m m' r t0 i0" and "valid_path q"
  shows "table_at m' r q = table_at m r q"
  using assms(6)
proof (induction q)
  case (Cons i q)
  then have q: "valid_path q" "length q < 3" "i < 512" by (simp_all add: valid_path_Cons)
  have "next_table m' t i = next_table m t i" if "table_at m r q = Some t" for t
  proof -
    have "t \<noteq> t0" using tree_ok_unique [OF assms(1) q(1) assms(2) that] assms(3,4) q(2) by auto
    then show ?thesis using slots_keptD [OF kept q(1) that q(3)] by (intro next_table_cong) simp
  qed
  then show ?case using Cons.IH [OF q(1)] by (auto split: option.splits)
qed simp

lemma leaf_tree_ok:
  assumes "tree_ok m r" "valid_path p0" "length p0 = 3" "table_at m r p0 = Some t0"
    and kept: "slots_kept m m' r t0 i0"
  shows "tree_ok m' r"
proof -
  note tab = leaf_tables [OF assms]
  have "entry_ok (length p) (load64 m' (t + 8 * i))"
    if p: "valid_path p" "length p < 3" "table_at m r p = Some t" "i < 512" for p t i
  proof -
    have "t \<noteq> t0" using tree_ok_unique [OF assms(1) p(1) assms(2) p(3)] assms(3,4) p(2) by auto
    then show ?thesis
      using slots_keptD [OF kept p(1,3,4)] tree_ok_entry [OF assms(1) p] by simp
  qed
  then show ?thesis
    using tree_ok_frame [OF assms(1)] tree_ok_unique [OF assms(1)]
    by (intro tree_okI) (simp_all add: tab)
qed

lemma leaf_frames:
  assumes "tree_ok m r" "valid_path p0" "length p0 = 3" "table_at m r p0 = Some t0"
    and kept: "slots_kept m m' r t0 i0"
  shows "table_frames m' r = table_frames m r"
  using leaf_tables [OF assms] by (auto simp: table_frames_def)

lemma pd_not_large:
  "table_at m r (path_to_pd v) = Some pd \<Longrightarrow> table_at m r (path_to_pt v) = Some pt \<Longrightarrow>
   \<not> bit (load64 m (pd + 8 * pd_idx (virtual_to_entries v))) 7"
  by (auto simp: path_to_pt_def next_table_def Let_def split: if_splits)

lemma leaf_walk:
  assumes "tree_ok m r" "table_at m r (path_to_pt w) = Some t0" and i0: "i0 = pt_idx (virtual_to_entries w)"
    and kept: "slots_kept m m' r t0 i0" and e: "load64 m' (t0 + 8 * i0) = e"
  shows "tree_walk m' r v =
    (if virtual_to_entries v = virtual_to_entries w then (if bit e 0 then Page4K e else Unmapped)
     else tree_walk m r v)"
proof -
  note tab = leaf_tables [OF assms(1) valid_paths(2) length_paths(2) assms(2) kept]
  have pd: "load64 m' (t + 8 * pd_idx (virtual_to_entries v)) = load64 m (t + 8 * pd_idx (virtual_to_entries v))"
    if "table_at m r (path_to_pd v) = Some t" for t
  proof -
    have "t \<noteq> t0"
      using tree_ok_unique [OF assms(1) valid_paths(1) valid_paths(2) that] assms(2)
        length_paths [of v] length_paths [of w] by fastforce
    then show ?thesis using slots_keptD [OF kept valid_paths(1) that] by simp
  qed
  show ?thesis
  proof (cases "path_to_pt v = path_to_pt w \<and> pt_idx (virtual_to_entries v) = i0")
    case True
    then have same: "virtual_to_entries v = virtual_to_entries w"
      by (simp add: path_to_pt_def path_to_pd_def i0)
    obtain d where d: "table_at m r (path_to_pd v) = Some d"
      using assms(2) True by (cases "table_at m r (path_to_pd v)") (auto simp: path_to_pt_def)
    then have "\<not> bit (load64 m (d + 8 * pd_idx (virtual_to_entries v))) 7"
      using pd_not_large assms(2) True by metis
    then show ?thesis using same d pd [OF d] True assms(2) e by (simp add: tree_walk_def tab)
  next
    case False
    then have "virtual_to_entries v \<noteq> virtual_to_entries w"
      by (auto simp: path_to_pt_def path_to_pd_def i0)
    moreover have "load64 m' (t + 8 * pt_idx (virtual_to_entries v)) = load64 m (t + 8 * pt_idx (virtual_to_entries v))"
      if t: "table_at m r (path_to_pt v) = Some t" for t
    proof -
      have "t \<noteq> t0 \<or> pt_idx (virtual_to_entries v) \<noteq> i0"
        using False tree_ok_unique [OF assms(1) valid_paths(2) valid_paths(2) t] assms(2) by metis
      then show ?thesis using slots_keptD [OF kept valid_paths(2) t] by simp
    qed
    ultimately show ?thesis using tree_walk_cong [of m' r v m] tab pd by simp
  qed
qed

text \<open>Writing a large page, or nothing, into a page directory: the table that was there, if any, is
  no longer part of the tree.\<close>

definition large_leaf :: "memory \<Rightarrow> memory \<Rightarrow> u64 \<Rightarrow> u64 list \<Rightarrow> u64 \<Rightarrow> u64 \<Rightarrow> u64 \<Rightarrow> bool" where
  "large_leaf m m' r p0 t0 i0 e \<longleftrightarrow>
     tree_ok m r \<and>
     (valid_path p0 \<and> length p0 = 2 \<and> table_at m r p0 = Some t0) \<and>
     i0 < 512 \<and>
     slots_kept m m' r t0 i0 \<and>
     (load64 m' (t0 + 8 * i0) = e \<and> entry_ok 2 e \<and> (bit e 7 \<or> entry_frame e = 0))"

lemma large_leafD:
  assumes "large_leaf m m' r p0 t0 i0 e"
  shows large_leaf_tree: "tree_ok m r"
    and large_leaf_p0: "valid_path p0" "length p0 = 2" "table_at m r p0 = Some t0"
    and large_leaf_i0: "i0 < 512"
    and large_leaf_kept: "slots_kept m m' r t0 i0"
    and large_leaf_e: "load64 m' (t0 + 8 * i0) = e" "entry_ok 2 e" "bit e 7 \<or> entry_frame e = 0"
  using assms by (simp_all add: large_leaf_def)

lemma large_leaf_other:
  assumes I: "large_leaf m m' r p0 t0 i0 e"
  shows "valid_path q \<Longrightarrow> table_at m r q = Some t \<Longrightarrow> q \<noteq> p0 \<or> i \<noteq> i0 \<Longrightarrow> i < 512 \<Longrightarrow>
    load64 m' (t + 8 * i) = load64 m (t + 8 * i)"
  using slots_keptD [OF large_leaf_kept [OF I]] tree_ok_unique [OF large_leaf_tree [OF I] large_leaf_p0(1) [OF I] _ large_leaf_p0(3) [OF I]] by metis

lemma large_leaf_tables:
  assumes I: "large_leaf m m' r p0 t0 i0 e"
  shows "valid_path q \<Longrightarrow> table_at m' r q = (if q = i0 # p0 then None else table_at m r q)"
proof (induction q)
  case Nil
  then show ?case by simp
next
  case (Cons i q)
  then have q: "valid_path q" "i < 512" "q \<noteq> i0 # p0" using large_leaf_p0 [OF I] by (auto simp: valid_path_Cons)
  note IH = Cons.IH [OF q(1)]
  show ?case
  proof (cases "q = p0 \<and> i = i0")
    case True
    then show ?thesis using IH large_leaf_e [OF I] large_leaf_p0 [OF I] by (auto simp: next_table_def Let_def)
  next
    case False
    then show ?thesis
      using IH q next_table_cong [OF large_leaf_other [OF I q(1) _ _ q(2)]] by (auto split: option.splits)
  qed
qed

lemma large_leaf_tree_ok':
  assumes I: "large_leaf m m' r p0 t0 i0 e"
  shows "tree_ok m' r"
proof (rule tree_okI)
  show "frame_ok g" if "valid_path p" "table_at m' r p = Some g" for p g
    using that large_leaf_tables [OF I that(1)] tree_ok_frame [OF large_leaf_tree [OF I]] by (auto split: if_splits)
  show "p = q" if "valid_path p" "valid_path q" "table_at m' r p = Some g" "table_at m' r q = Some g" for p q g
    using that large_leaf_tables [OF I that(1)] large_leaf_tables [OF I that(2)] tree_ok_unique [OF large_leaf_tree [OF I] that(1,2)]
    by (auto split: if_splits)
  show "entry_ok (length p) (load64 m' (t + 8 * i))"
    if "valid_path p" "length p < 3" "table_at m' r p = Some t" "i < 512" for p t i
  proof (cases "p = p0 \<and> i = i0")
    case True
    then show ?thesis using that large_leaf_p0 [OF I] large_leaf_e [OF I] large_leaf_tables [OF I large_leaf_p0(1) [OF I]] by simp
  next
    case False
    have t: "table_at m r p = Some t" using that large_leaf_tables [OF I that(1)] by (auto split: if_splits)
    then show ?thesis
      using False large_leaf_other [OF I that(1) t _ that(4)] tree_ok_entry [OF large_leaf_tree [OF I] that(1,2) t that(4)] by simp
  qed
qed

lemma large_leaf_frames':
  assumes I: "large_leaf m m' r p0 t0 i0 e"
  shows "table_frames m' r \<subseteq> table_frames m r"
  by (auto simp: table_frames_def large_leaf_tables [OF I] simp del: table_at.simps split: if_splits)

lemma large_leaf_walk':
  assumes I: "large_leaf m m' r p0 t0 i0 e"
  shows "tree_walk m' r v =
    (if path_to_pt v = i0 # p0 then (if bit e 7 then Page2M e else Unmapped) else tree_walk m r v)"
proof (cases "path_to_pt v = i0 # p0")
  case True
  then have v: "path_to_pd v = p0" "pd_idx (virtual_to_entries v) = i0" by (simp_all add: path_to_pt_def)
  then have "table_at m' r (path_to_pd v) = Some t0" "table_at m' r (path_to_pt v) = None"
    using large_leaf_p0 [OF I] large_leaf_tables [OF I valid_paths(1), of v] large_leaf_tables [OF I valid_paths(2), of v] True
    by (simp_all del: table_at.simps(2))
  then show ?thesis using True v large_leaf_e [OF I] by (simp add: tree_walk_def)
next
  case False
  have "length (path_to_pd v) \<noteq> length (i0 # p0)" "length (path_to_pt v) \<noteq> length p0"
    using large_leaf_p0(2) [OF I] by simp_all
  then have "path_to_pt v \<noteq> p0" "path_to_pd v \<noteq> i0 # p0" by metis+
  moreover have "path_to_pd v \<noteq> p0 \<or> pd_idx (virtual_to_entries v) \<noteq> i0"
    using False by (auto simp: path_to_pt_def)
  ultimately show ?thesis
    using False large_leaf_other [OF I valid_paths(1), of v] large_leaf_other [OF I valid_paths(2), of v]
    by (simp, intro tree_walk_cong) (simp_all add: large_leaf_tables [OF I] del: table_at.simps)
qed

text \<open>The block of \<open>2 ^ b\<close> bytes that an address lies in, and two addresses with the same indices.\<close>

definition block_number :: "nat \<Rightarrow> u64 \<Rightarrow> u64" where
  "block_number b v = drop_bit b (take_bit 48 v)"

abbreviation page_number :: "u64 \<Rightarrow> u64" where
  "page_number \<equiv> block_number 12"

lemma same_path_iff: "path_to_pt v = path_to_pt w \<longleftrightarrow> block_number 21 v = block_number 21 w"
proof
  assume "path_to_pt v = path_to_pt w"
  then have eq: "drop_bit 39 v AND mask 9 = drop_bit 39 w AND mask 9"
    "drop_bit 30 v AND mask 9 = drop_bit 30 w AND mask 9"
    "drop_bit 21 v AND mask 9 = drop_bit 21 w AND mask 9"
    by (simp_all add: path_to_pt_def path_to_pd_def virtual_to_entries_def mask_eq_exp_minus_1)
  have chunk: "bit v (c + j) = bit w (c + j)" if "drop_bit c v AND mask 9 = drop_bit c w AND mask 9" "j < 9" for c j
  proof -
    have "bit (drop_bit c v AND mask 9) j = bit (drop_bit c w AND mask 9) j" using that by simp
    then show ?thesis using that(2) by (simp add: bit_simps)
  qed
  have "bit v k = bit w k" if "21 \<le> k" "k < 48" for k
  proof -
    consider "21 \<le> k" "k < 30" | "30 \<le> k" "k < 39" | "39 \<le> k" "k < 48"
      using \<open>21 \<le> k\<close> \<open>k < 48\<close> by linarith
    then show ?thesis
      using chunk [OF eq(1), of "k - 39"] chunk [OF eq(2), of "k - 30"] chunk [OF eq(3), of "k - 21"]
      by cases simp_all
  qed
  then show "block_number 21 v = block_number 21 w"
    unfolding block_number_def by (intro bit_word_eqI) (auto simp: bit_simps)
next
  assume "block_number 21 v = block_number 21 w"
  then have eq: "bit (block_number 21 v) k = bit (block_number 21 w) k" for k by simp
  have "bit v k = bit w k" if "21 \<le> k" "k < 48" for k
    using that eq [of "k - 21"] by (simp add: block_number_def bit_simps)
  then have "drop_bit c v AND mask 9 = drop_bit c w AND mask 9" if "21 \<le> c" "c \<le> 39" for c
    using that by (intro bit_word_eqI) (auto simp: bit_simps)
  from this [of 39] this [of 30] this [of 21] show "path_to_pt v = path_to_pt w"
    by (simp add: path_to_pt_def path_to_pd_def virtual_to_entries_def mask_eq_exp_minus_1)
qed

lemma entries_eq_iff: "virtual_to_entries v = virtual_to_entries w \<longleftrightarrow> page_number v = page_number w"
proof
  assume "virtual_to_entries v = virtual_to_entries w"
  then have eq: "drop_bit 39 v AND mask 9 = drop_bit 39 w AND mask 9"
    "drop_bit 30 v AND mask 9 = drop_bit 30 w AND mask 9"
    "drop_bit 21 v AND mask 9 = drop_bit 21 w AND mask 9"
    "drop_bit 12 v AND mask 9 = drop_bit 12 w AND mask 9"
    by (simp_all add: virtual_to_entries_def mask_eq_exp_minus_1)
  have chunk: "bit v (c + j) = bit w (c + j)" if "drop_bit c v AND mask 9 = drop_bit c w AND mask 9" "j < 9" for c j
  proof -
    have "bit (drop_bit c v AND mask 9) j = bit (drop_bit c w AND mask 9) j" using that by simp
    then show ?thesis using that(2) by (simp add: bit_simps)
  qed
  have "bit v k = bit w k" if "12 \<le> k" "k < 48" for k
  proof -
    consider "12 \<le> k" "k < 21" | "21 \<le> k" "k < 30" | "30 \<le> k" "k < 39" | "39 \<le> k" "k < 48"
      using \<open>12 \<le> k\<close> \<open>k < 48\<close> by linarith
    then show ?thesis
      using chunk [OF eq(1), of "k - 39"] chunk [OF eq(2), of "k - 30"] chunk [OF eq(3), of "k - 21"]
        chunk [OF eq(4), of "k - 12"] by cases simp_all
  qed
  then show "page_number v = page_number w"
    unfolding block_number_def by (intro bit_word_eqI) (auto simp: bit_simps)
next
  assume "page_number v = page_number w"
  then have eq: "bit (page_number v) k = bit (page_number w) k" for k by simp
  have "bit v k = bit w k" if "12 \<le> k" "k < 48" for k
    using that eq [of "k - 12"] by (simp add: block_number_def bit_simps)
  then have "drop_bit c v AND mask 9 = drop_bit c w AND mask 9" if "12 \<le> c" "c \<le> 39" for c
    using that by (intro bit_word_eqI) (auto simp: bit_simps)
  from this [of 39] this [of 30] this [of 21] this [of 12]
  show "virtual_to_entries v = virtual_to_entries w"
    by (simp add: virtual_to_entries_def mask_eq_exp_minus_1)
qed

end
