(* ===== verification/VmmMap.thy ===== *)
theory VmmMap
  imports VmmTree Pmm
begin

text \<open>
  What the operations of \<open>vmm.cpp\<close> do to the translation that the processor makes. The lemmas are
  proved for any page allocator that meets the interface \<open>page_allocator\<close>.
\<close>

unbundle bit_operations_syntax

section \<open>Pages and flags\<close>

lemma page_byte:
  assumes "aligned 12 t"
  shows "in_range x t 4096 \<longleftrightarrow> x div 4096 = t div 4096"
proof -
  obtain q where q: "unat t = 4096 * q" using assms by (auto simp: aligned_def)
  have q64: "4096 * q + 4096 \<le> 2 ^ 64"
  proof -
    have "4096 * q < 4096 * 2 ^ 52" using unat_u64_less [of t] q by simp
    then have "q < 2 ^ 52" using nat_mult_less_cancel1 by fastforce
    then have "q + 1 \<le> 2 ^ 52" by simp
    then have "4096 * (q + 1) \<le> 4096 * 2 ^ 52" by (rule mult_le_mono2)
    then show ?thesis by simp
  qed
  show ?thesis
  proof
    assume "in_range x t 4096"
    then have d: "unat (x - t) < 4096" by (simp add: in_range_def)
    have "unat x = unat ((x - t) + t)" by simp
    also have "\<dots> = unat (x - t) + unat t" using d q q64 by (intro unat_add_u64) simp
    finally show "x div 4096 = t div 4096" using d q by (simp add: word_unat_eq_iff unat_div)
  next
    assume "x div 4096 = t div 4096"
    then have "unat x div 4096 = q" using q by (simp add: word_unat_eq_iff unat_div)
    then have "unat t \<le> unat x" "unat x < unat t + 4096" using q by linarith+
    then show "in_range x t 4096" by (simp add: in_range_def unat_sub word_le_nat_alt)
  qed
qed

lemma slot_byte_page:
  assumes "aligned 12 t" "i < 512" "in_range x (t + 8 * i) 8"
  shows "x div 4096 = t div 4096"
proof -
  have i: "unat i < 512" using assms(2) by (simp add: word_less_nat_alt)
  have "unat (x - t) = unat ((x - (t + 8 * i)) + 8 * i)" by simp
  also have "\<dots> = unat (x - (t + 8 * i)) + unat (8 * i)"
    using i assms(3) by (intro unat_add_u64) (simp add: in_range_def unat_mult_u64)
  finally have "unat (x - t) < 4096" using i assms(3) by (simp add: in_range_def unat_mult_u64)
  then show ?thesis using page_byte [OF assms(1)] by (simp add: in_range_def)
qed

lemma page_div_inj: "aligned 12 t \<Longrightarrow> aligned 12 t' \<Longrightarrow> t div 4096 = t' div 4096 \<Longrightarrow> t = t'"
  by (auto simp: aligned_def word_unat_eq_iff unat_div elim!: dvdE)

lemma load64_memset_page:
  assumes "aligned 12 t" "aligned 12 q" "t \<noteq> q" "i < 512"
  shows "load64 (memset m q c 4096) (t + 8 * i) = load64 m (t + 8 * i)"
proof (rule load64_memset_outside)
  fix x assume "in_range x (t + 8 * i) 8"
  then have "x div 4096 = t div 4096" using assms by (intro slot_byte_page)
  then show "\<not> in_range x q (unat (4096 :: u64))"
    using page_byte [OF assms(2)] page_div_inj [OF assms(1,2)] assms(3) by auto
qed

text \<open>The permissions the kernel passes: any of the flags below \<open>VMM_LARGE\<close>.\<close>

definition perms_ok :: "u32 \<Rightarrow> bool" where
  "perms_ok perms \<longleftrightarrow> unat perms < 128"

lemma bit_flag_bits: "perms_ok f \<Longrightarrow> bit (flag_bits f) k \<longleftrightarrow> k < 7 \<and> bit f k"
proof -
  assume "perms_ok f"
  then have "take_bit 7 (unat f) = unat f" by (simp add: perms_ok_def take_bit_nat_eq_self)
  then have "take_bit 7 f = f" by (metis unsigned_take_bit_eq word_unat_eq_iff)
  then have hi: "\<not> bit f j" if "7 \<le> j" for j using that by (metis bit_take_bit_iff not_le)
  show ?thesis using hi [of k] hi [of 31] by (cases "7 \<le> k") (auto simp: flag_bits_def bit_simps min_def)
qed

lemma perms_ok_present: "perms_ok f \<Longrightarrow> perms_ok (f OR VMM_PRESENT)"
proof -
  assume f: "perms_ok f"
  have "unat (f OR VMM_PRESENT) = unat f OR 1" by (simp add: VMM_PRESENT_def unsigned_or_eq)
  also have "\<dots> = take_bit 7 (unat f OR 1)"
    using f by (simp add: perms_ok_def take_bit_nat_eq_self take_bit_or)
  also have "\<dots> < 2 ^ 7" by (rule take_bit_nat_less_exp)
  finally show ?thesis by (simp add: perms_ok_def)
qed

lemma unat_flag_bits: "perms_ok f \<Longrightarrow> unat (flag_bits f) < 128"
proof -
  assume f: "perms_ok f"
  then have "take_bit 7 (flag_bits f) = flag_bits f"
    by (intro bit_word_eqI) (auto simp: bit_simps bit_flag_bits)
  then have "unat (flag_bits f) = take_bit 7 (unat (flag_bits f))"
    by (metis unsigned_take_bit_eq)
  also have "\<dots> < 2 ^ 7" by (rule take_bit_nat_less_exp)
  finally show ?thesis by simp
qed

lemma bit_present [simp]: "bit (flag_bits VMM_PRESENT) k \<longleftrightarrow> k = 0"
  using bit_flag_bits [of VMM_PRESENT k] by (auto simp: perms_ok_def VMM_PRESENT_def bit_1_iff)

lemma table_entry:
  assumes "frame_ok f" "perms_ok perms"
  shows "entry_frame (f OR flag_bits (perms OR VMM_PRESENT)) = f"
    and "bit (f OR flag_bits (perms OR VMM_PRESENT)) 0"
    and "\<not> bit (f OR flag_bits (perms OR VMM_PRESENT)) 7"
proof -
  note p = perms_ok_present [OF assms(2)]
  show "entry_frame (f OR flag_bits (perms OR VMM_PRESENT)) = f"
    using assms(1) unat_flag_bits [OF p] by (intro entry_frame_flags) (simp_all add: frame_ok_def)
  show "bit (f OR flag_bits (perms OR VMM_PRESENT)) 0"
    using bit_flag_bits [OF p] by (simp add: bit_simps VMM_PRESENT_def)
  show "\<not> bit (f OR flag_bits (perms OR VMM_PRESENT)) 7"
    using bit_flag_bits [OF p] bit_aligned [of 12 f 7] assms(1) by (simp add: bit_simps frame_ok_def)
qed

lemma table_pointer_not_null: "frame_ok f \<Longrightarrow> f + virtual_physical_base \<noteq> 0"
proof -
  assume "frame_ok f"
  then have "unat (f + virtual_physical_base) = unat f + unat virtual_physical_base"
    by (intro unat_add_u64) (simp add: frame_ok_def mm_consts)
  then show ?thesis by (auto simp: mm_consts)
qed

section \<open>Ranges of pages\<close>

text \<open>\<open>steps b v w\<close>: how many blocks of \<open>2 ^ b\<close> bytes the block of \<open>w\<close> lies above that of \<open>v\<close>,
  counting modulo the \<open>2 ^ (48 - b)\<close> blocks that the tables can tell apart.\<close>

definition steps :: "nat \<Rightarrow> u64 \<Rightarrow> u64 \<Rightarrow> nat" where
  "steps b v w = unat (take_bit (48 - b) (block_number b w - block_number b v))"

lemma uint_block_number: "uint (block_number b v) = uint v div 2 ^ b mod 2 ^ (48 - b)"
proof -
  have "block_number b v = take_bit (48 - b) (drop_bit b v)"
    by (simp add: block_number_def drop_bit_take_bit)
  then have "uint (block_number b v) = take_bit (48 - b) (drop_bit b (uint v))"
    by (simp only: unsigned_take_bit_eq unsigned_drop_bit_eq) (simp add: drop_bit_take_bit)
  then show ?thesis by (simp only: take_bit_eq_mod drop_bit_eq_div)
qed

lemma uint_next_block:
  assumes "b < 48"
  shows "uint (v + 2 ^ b :: u64) div 2 ^ b mod 2 ^ (48 - b) = (uint v div 2 ^ b + 1) mod 2 ^ (48 - b)"
proof -
  have "(2 :: int) ^ b * 2 ^ (64 - b) = 2 ^ 64" using assms by (simp flip: power_add)
  moreover have "uint (2 ^ b :: u64) = 2 ^ b"
    using assms by (intro uint_2p) (simp add: word_neq_0_conv [symmetric])
  ultimately have "uint (v + 2 ^ b) = (uint v + 2 ^ b) mod (2 ^ b * 2 ^ (64 - b))"
    by (simp add: uint_word_ariths)
  also have "\<dots> div 2 ^ b = ((uint v + 2 ^ b) div 2 ^ b) mod 2 ^ (64 - b)"
    by (simp add: zmod_zmult2_eq)
  also have "(uint v + 2 ^ b) div 2 ^ b = uint v div 2 ^ b + 1" by (rule div_add_self2) simp
  finally have "uint (v + 2 ^ b) div 2 ^ b mod 2 ^ (48 - b)
      = (uint v div 2 ^ b + 1) mod 2 ^ (64 - b) mod 2 ^ (48 - b)" by simp
  moreover have "(2 :: int) ^ (48 - b) dvd 2 ^ (64 - b)" by (rule le_imp_power_dvd) simp
  ultimately show ?thesis by (simp add: mod_mod_cancel)
qed

lemma int_steps: "int (steps b v w) = (uint w div 2 ^ b - uint v div 2 ^ b) mod 2 ^ (48 - b)"
proof -
  have dvd: "(2 :: int) ^ (48 - b) dvd 2 ^ 64" by (rule le_imp_power_dvd) simp
  have "int (steps b v w) = take_bit (48 - b) (uint (block_number b w - block_number b v))"
    by (simp only: steps_def unsigned_take_bit_eq of_nat_take_bit uint_nat [symmetric])
  also have "\<dots> = uint (block_number b w - block_number b v) mod 2 ^ (48 - b)"
    by (rule take_bit_eq_mod)
  also have "\<dots> = (uint (block_number b w) - uint (block_number b v)) mod 2 ^ (48 - b)"
    using dvd by (simp add: uint_word_ariths mod_mod_cancel)
  also have "\<dots> = (uint w div 2 ^ b - uint v div 2 ^ b) mod 2 ^ (48 - b)"
    by (simp only: uint_block_number mod_diff_eq)
  finally show ?thesis .
qed

lemma mod_pred: "0 < N \<Longrightarrow> (d - 1) mod N = (if d mod N = 0 then N - 1 else d mod N - 1)" for d N :: int
proof -
  assume N: "0 < N"
  have eq: "(d - 1) mod N = (d mod N - 1) mod N" by (simp add: mod_diff_left_eq)
  show ?thesis
  proof (cases "d mod N = 0")
    case True
    then show ?thesis using eq N by (simp add: zmod_minus1)
  next
    case False
    then have "0 \<le> d mod N - 1" "d mod N - 1 < N"
      using N pos_mod_sign [of N d] pos_mod_bound [of N d] by linarith+
    then show ?thesis using eq False by (simp add: mod_pos_pos_trivial)
  qed
qed

lemma steps_next:
  assumes "b < 48"
  shows "steps b (v + 2 ^ b) w = (if steps b v w = 0 then 2 ^ (48 - b) - 1 else steps b v w - 1)"
proof -
  let ?d = "uint w div 2 ^ b - uint v div 2 ^ b" and ?N = "2 ^ (48 - b) :: int"
  have "int (steps b (v + 2 ^ b) w) = (uint w div 2 ^ b - uint (v + 2 ^ b) div 2 ^ b mod ?N) mod ?N"
    by (simp only: int_steps mod_diff_right_eq)
  also have "\<dots> = (uint w div 2 ^ b - (uint v div 2 ^ b + 1)) mod ?N"
    unfolding uint_next_block [OF assms] by (rule mod_diff_right_eq)
  also have "\<dots> = (?d - 1) mod ?N" by (rule arg_cong [where f = "\<lambda>x. x mod ?N"]) simp
  finally have "int (steps b (v + 2 ^ b) w) = (if int (steps b v w) = 0 then ?N - 1 else int (steps b v w) - 1)"
    by (simp only: mod_pred int_steps zero_less_power zero_less_numeral)
  moreover have "?N = int (2 ^ (48 - b))" by simp
  ultimately have eq: "int (steps b (v + 2 ^ b) w)
      = (if int (steps b v w) = 0 then int (2 ^ (48 - b)) - 1 else int (steps b v w) - 1)" by simp
  show ?thesis
  proof (cases "steps b v w = 0")
    case True
    then have "int (steps b (v + 2 ^ b) w) = int (2 ^ (48 - b)) - 1" using eq by simp
    then have "steps b (v + 2 ^ b) w = 2 ^ (48 - b) - 1" by linarith
    then show ?thesis using True by simp
  next
    case False
    then have "int (steps b (v + 2 ^ b) w) = int (steps b v w) - 1" using eq by simp
    then have "steps b (v + 2 ^ b) w = steps b v w - 1" using False by linarith
    then show ?thesis using False by simp
  qed
qed

lemma steps_0: "steps b v w = 0 \<longleftrightarrow> block_number b w = block_number b v"
proof -
  have "steps b v w = 0 \<longleftrightarrow> int (steps b v w) = 0" by simp
  also have "\<dots> \<longleftrightarrow> uint w div 2 ^ b mod 2 ^ (48 - b) = uint v div 2 ^ b mod 2 ^ (48 - b)"
    unfolding int_steps by (metis mod_eq_dvd_iff dvd_eq_mod_eq_0)
  also have "\<dots> \<longleftrightarrow> block_number b w = block_number b v"
    by (simp only: word_uint_eq_iff uint_block_number)
  finally show ?thesis .
qed

text \<open>The specification of the loops over pages: of the blocks at \<open>v\<close>, \<open>v + 2 ^ b\<close>, \dots, the
  first \<open>n\<close> are changed by \<open>F\<close>, which gets the number of the block in the range and what it was
  mapped to; every other address keeps its mapping.\<close>

definition edit_range ::
  "nat \<Rightarrow> u64 \<Rightarrow> nat \<Rightarrow> (nat \<Rightarrow> mapping \<Rightarrow> mapping) \<Rightarrow> (u64 \<Rightarrow> mapping) \<Rightarrow> u64 \<Rightarrow> mapping" where
  "edit_range b v n F W w = (if steps b v w < n then F (steps b v w) (W w) else W w)"

lemma edit_range_0 [simp]: "edit_range b v 0 F W = W"
  by (simp add: edit_range_def fun_eq_iff)

lemma edit_range_step:
  assumes "b < 48" "Suc n \<le> 2 ^ (48 - b)"
  shows "edit_range b v (Suc n) F W = edit_range b (v + 2 ^ b) n (\<lambda>k. F (Suc k))
      (\<lambda>w. if block_number b w = block_number b v then F 0 (W w) else W w)"
    (is "?l = ?r")
proof
  fix w
  show "?l w = ?r w"
    using assms steps_0 [of b v w]
    by (cases "steps b v w = 0") (auto simp: edit_range_def steps_next)
qed

lemma edit_range_add:
  assumes "b < 48" "i + n \<le> 2 ^ (48 - b)"
  shows "edit_range b v (i + n) F W
    = edit_range b (v + of_nat i * 2 ^ b) n (\<lambda>k. F (i + k)) (edit_range b v i F W)"
  using assms(2)
proof (induction i arbitrary: v F W)
  case (Suc i)
  then show ?case
    using edit_range_step [OF assms(1), of "i + n" v F W] edit_range_step [OF assms(1), of i v F W]
    by (simp add: algebra_simps)
qed simp

lemma edit_range_Suc:
  assumes "Suc n \<le> 2 ^ 36"
  shows "edit_range 12 v (Suc n) F W = edit_range 12 (v + 4096) n (\<lambda>k. F (Suc k))
      (\<lambda>w. if page_number w = page_number v then F 0 (W w) else W w)"
  using edit_range_step [of 12 n v F W] assms by simp

lemma edit_huge_Suc:
  assumes "Suc n \<le> 2 ^ 27"
  shows "edit_range 21 v (Suc n) F W = edit_range 21 (v + 0x200000) n (\<lambda>k. F (Suc k))
      (\<lambda>w. if block_number 21 w = block_number 21 v then F 0 (W w) else W w)"
  using edit_range_step [of 21 n v F W] assms by simp

text \<open>The entry that \<open>map_pages\<close> writes.\<close>

definition leaf_entry :: "u64 \<Rightarrow> u32 \<Rightarrow> u64" where
  "leaf_entry phys perms = phys OR flag_bits perms OR flag_bits VMM_PRESENT"

text \<open>The entry that \<open>map_huge_pages\<close> writes.\<close>

definition huge_entry :: "u64 \<Rightarrow> u32 \<Rightarrow> u64" where
  "huge_entry phys perms =
     phys OR flag_bits perms OR flag_bits VMM_PRESENT OR flag_bits VMM_LARGE"

lemma huge_entry_bits [simp]: "bit (huge_entry phys perms) 0" "bit (huge_entry phys perms) 7"
proof -
  have "bit (flag_bits VMM_LARGE) 7" by (simp add: flag_bits_def VMM_LARGE_def bit_simps)
  then show "bit (huge_entry phys perms) 7" by (simp add: huge_entry_def bit_simps)
  show "bit (huge_entry phys perms) 0" by (simp add: huge_entry_def bit_simps)
qed

lemma leaf_entry_present [simp]: "bit (leaf_entry phys perms) 0"
  by (simp add: leaf_entry_def bit_simps)

text \<open>What \<open>update_perms\<close> makes of a mapping.\<close>

definition with_perms :: "u32 \<Rightarrow> mapping \<Rightarrow> mapping" where
  "with_perms perms M = (case M of Page4K e \<Rightarrow> Page4K (leaf_entry (entry_frame e) perms) | M \<Rightarrow> M)"

section \<open>The invariant of an address space\<close>

text \<open>\<open>vmm_inv\<close> with the predicates of an allocator: the allocator is well formed, the tables
  under the root \<open>r\<close> form a tree, and each of them lies on a page that the allocator has handed out
  and that holds none of its records.\<close>

definition vmm_inv ::
  "('a machine_scheme \<Rightarrow> bool) \<Rightarrow> ('a machine_scheme \<Rightarrow> u64 \<Rightarrow> bool) \<Rightarrow> ('a machine_scheme \<Rightarrow> u64 \<Rightarrow> bool)
    \<Rightarrow> 'a machine_scheme \<Rightarrow> u64 \<Rightarrow> bool" where
  "vmm_inv ok used own s r \<longleftrightarrow>
     ok s \<and> tree_ok (ram s) r \<and>
     (\<forall>f \<in> table_frames (ram s) r. used s f \<and> (\<forall>x. x div 4096 = f div 4096 \<longrightarrow> \<not> own s x))"

context page_allocator
begin

abbreviation vinv :: "'a machine_scheme \<Rightarrow> u64 \<Rightarrow> bool" where
  "vinv \<equiv> vmm_inv wf used own"

lemma inv_tree: "vinv s r \<Longrightarrow> tree_ok (ram s) r"
  by (simp add: vmm_inv_def)

lemma inv_table:
  assumes "vinv s r" "valid_path p" "table_at (ram s) r p = Some t"
  shows "frame_ok t" "used s t" "\<And>x. x div 4096 = t div 4096 \<Longrightarrow> \<not> own s x"
  using assms tree_ok_frame [of "ram s" r p t] table_framesI [OF assms(2,3)]
  by (auto simp: vmm_inv_def)

text \<open>A store into a table leaves the allocator alone.\<close>

lemma store_table:
  assumes "vinv s r" "valid_path p" "table_at (ram s) r p = Some t" "i < 512"
  shows "wf (s\<lparr>ram := store64 (ram s) (t + 8 * i) e\<rparr>)"
    and "used (s\<lparr>ram := store64 (ram s) (t + 8 * i) e\<rparr>) = used s"
proof -
  have "store64 (ram s) (t + 8 * i) e x = ram s x" if "own s x" for x
    using inv_table [OF assms(1-3)] slot_byte_page [of t i x] assms(4) that
    by (intro store64_outside) (auto simp: frame_ok_def)
  then show "wf (s\<lparr>ram := store64 (ram s) (t + 8 * i) e\<rparr>)"
    "used (s\<lparr>ram := store64 (ram s) (t + 8 * i) e\<rparr>) = used s"
    using used_ram [of s] assms(1) by (simp_all add: vmm_inv_def)
qed

lemma store_table_alloc:
  assumes "vinv s r" "valid_path p" "table_at (ram s) r p = Some t" "i < 512" "can_alloc alloc n s"
  shows "can_alloc alloc n (s\<lparr>ram := store64 (ram s) (t + 8 * i) e\<rparr>)"
proof (rule can_alloc_ram)
  show "store64 (ram s) (t + 8 * i) e x = ram s x" if "own s x" for x
    using inv_table [OF assms(1-3)] slot_byte_page [of t i x] assms(4) that
    by (intro store64_outside) (auto simp: frame_ok_def)
qed (use assms in \<open>simp_all add: vmm_inv_def\<close>)

lemma inv_store:
  assumes "vinv s r" "valid_path p" "table_at (ram s) r p = Some t" "i < 512"
    and "tree_ok (store64 (ram s) (t + 8 * i) e) r"
    and "table_frames (store64 (ram s) (t + 8 * i) e) r \<subseteq> table_frames (ram s) r"
  shows "vinv (s\<lparr>ram := store64 (ram s) (t + 8 * i) e\<rparr>) r"
  using assms store_table [OF assms(1-4)] by (auto simp: vmm_inv_def own_ram)

text \<open>A byte that is handed out for something other than a table of the address space, or the
  allocator's records: the data of some client.\<close>

definition data_byte :: "'a machine_scheme \<Rightarrow> u64 \<Rightarrow> u64 \<Rightarrow> bool" where
  "data_byte s r x \<longleftrightarrow>
     used s x \<and> \<not> own s x \<and> (\<forall>f \<in> table_frames (ram s) r. f div 4096 \<noteq> x div 4096)"

text \<open>Pages stay in use, the allocator's records stay where they are, no page that was in use
  for something else becomes a table, and the clients' data is left alone.\<close>

definition grows :: "'a machine_scheme \<Rightarrow> 'a machine_scheme \<Rightarrow> u64 \<Rightarrow> bool" where
  "grows s s' r \<longleftrightarrow> (\<forall>x. used s x \<longrightarrow> used s' x) \<and> own s' = own s \<and>
     (\<forall>f. used s f \<longrightarrow> f \<in> table_frames (ram s') r \<longrightarrow> f \<in> table_frames (ram s) r) \<and>
     (\<forall>x. data_byte s r x \<longrightarrow> ram s' x = ram s x)"

lemma grows_refl: "grows s s r"
  by (simp add: grows_def)

lemma grows_data:
  assumes "grows s s' r" "data_byte s r x"
  shows "data_byte s' r x" "ram s' x = ram s x"
proof -
  have x: "used s x" "\<not> own s x" "\<And>f. f \<in> table_frames (ram s) r \<Longrightarrow> f div 4096 \<noteq> x div 4096"
    using assms(2) by (simp_all add: data_byte_def)
  have "f div 4096 \<noteq> x div 4096" if "f \<in> table_frames (ram s') r" for f
    using that x used_page [of f x s] assms(1) unfolding grows_def by blast
  then show "data_byte s' r x" using x assms(1) by (simp add: data_byte_def grows_def)
  show "ram s' x = ram s x" using assms by (simp add: grows_def)
qed

lemma grows_trans: "grows s s1 r \<Longrightarrow> grows s1 s2 r \<Longrightarrow> grows s s2 r"
  using grows_data(1) [of s s1 r] by (simp add: grows_def)

text \<open>The effect of \<open>get_or_alloc_ent\<close>: a table below \<open>p\<close> that was there or is new, and an
  unchanged translation; or the allocator has no page left.\<close>

definition extends :: "'a machine_scheme \<Rightarrow> 'a machine_scheme \<Rightarrow> u64 \<Rightarrow> bool" where
  "extends s s' r \<longleftrightarrow> vinv s' r \<and> grows s s' r \<and>
     (\<forall>q g. valid_path q \<longrightarrow> table_at (ram s) r q = Some g \<longrightarrow> table_at (ram s') r q = Some g) \<and>
     (\<forall>v. tree_walk (ram s') r v = tree_walk (ram s) r v)"

lemma extends_refl: "vinv s r \<Longrightarrow> extends s s r"
  by (simp add: extends_def grows_refl)

lemma extends_trans: "extends s s1 r \<Longrightarrow> extends s1 s2 r \<Longrightarrow> extends s s2 r"
  using grows_trans by (auto simp: extends_def)

lemma alloc_frame_ok: "wf s \<Longrightarrow> alloc s = Inr (q, s1) \<Longrightarrow> frame_ok q"
  using alloc_aligned by (simp add: frame_ok_def)

lemma alloc_not_table:
  assumes "vinv s r" "alloc s = Inr (q, s1)" "q \<noteq> 0"
  shows "q \<notin> table_frames (ram s) r"
  using assms alloc_fresh by (auto simp: vmm_inv_def)

lemma alloc_not_own:
  assumes "wf s" "alloc s = Inr (q, s1)" "q \<noteq> 0" "x div 4096 = q div 4096"
  shows "\<not> own s x"
  using alloc_fresh [OF assms(1-3)] own_used [OF assms(1), of x] used_page [OF assms(4), of s] by blast

text \<open>The memory after a new table was hung into an empty entry.\<close>

lemma new_table_memory:
  assumes vinv: "vinv s r" and p: "valid_path p" "length p < 3" "table_at (ram s) r p = Some t"
    and i: "i < 512" and hole: "entry_frame (load64 (ram s) (t + 8 * i)) = 0"
      "\<not> bit (load64 (ram s) (t + 8 * i)) 7"
    and perms: "perms_ok perms" and q: "alloc s = Inr (q, s1)" "q \<noteq> 0"
    and m: "m = memset (store64 (ram s1) (t + 8 * i) (q OR flag_bits (perms OR VMM_PRESENT))) q 0 4096"
  shows "install (ram s) m r p t i q"
proof -
  have wf: "wf s" using vinv by (simp add: vmm_inv_def)
  note t = inv_table [OF vinv p(1,3)]
  have fq: "frame_ok q" using alloc_frame_ok wf q by blast
  have nq: "q \<notin> table_frames (ram s) r" using alloc_not_table vinv q by blast
  have load: "load64 m (g + 8 * j) = load64 (store64 (ram s1) (t + 8 * i) (q OR flag_bits (perms OR VMM_PRESENT))) (g + 8 * j)"
    if "g \<in> table_frames (ram s) r" "j < 512" for g j
    using that nq fq tree_ok_frame [OF inv_tree [OF vinv]]
    by (auto simp: m frame_ok_def table_frames_def intro!: load64_memset_page)
  have "load64 m (g + 8 * j) = load64 (ram s) (g + 8 * j)"
    if g: "valid_path p'" "table_at (ram s) r p' = Some g" and j: "j < 512" "(g, j) \<noteq> (t, i)" for p' g j
  proof -
    note g' = inv_table [OF vinv g]
    have "load64 m (g + 8 * j) = load64 (ram s1) (g + 8 * j)"
      using load [OF table_framesI [OF g] j(1)] j t(1) g'(1) i
      by (auto simp: load64_store64_slot frame_ok_def)
    also have "\<dots> = load64 (ram s) (g + 8 * j)"
      using g' slot_byte_page [of g j] j(1) alloc_ram [OF wf q(1)]
      by (intro load64_cong) (auto simp: frame_ok_def)
    finally show ?thesis .
  qed
  then have "slots_kept (ram s) m r t i" by (auto simp: slots_kept_def)
  moreover have "load64 m (t + 8 * i) = q OR flag_bits (perms OR VMM_PRESENT)"
    using load [OF table_framesI [OF p(1,3)] i] by simp
  moreover have "load64 m (q + 8 * j) = 0" if "j < 512" for j
    using that fq by (simp add: m load64_memset_zero_inside frame_ok_def)
  moreover have "next_table (ram s) t i = None" using hole by (simp add: next_table_def)
  ultimately show ?thesis
    using inv_tree [OF vinv] p i hole(2) fq q(2) nq table_entry [OF fq perms] by (simp add: install_def)
qed

lemma get_or_alloc_ent_cases:
  assumes vinv: "vinv s r" and p: "valid_path p" "length p < 3" "table_at (ram s) r p = Some t"
    and i: "i < 512" and small: "\<not> bit (load64 (ram s) (t + 8 * i)) 7" and perms: "perms_ok perms"
  obtains (exhausted) s' where "get_or_alloc_ent alloc (t + virtual_physical_base) i perms s = Inr (0, s')"
      "\<not> can_alloc alloc 1 s" "table_at (ram s) r (i # p) = None"
  | (table) f s' where
      "get_or_alloc_ent alloc (t + virtual_physical_base) i perms s = Inr (f + virtual_physical_base, s')"
      "extends s s' r" "table_at (ram s') r (i # p) = Some f"
      "\<And>n. can_alloc alloc (Suc n) s \<Longrightarrow> can_alloc alloc n s'"
      "\<And>n. table_at (ram s) r (i # p) \<noteq> None \<Longrightarrow> can_alloc alloc n s \<Longrightarrow> can_alloc alloc n s'"
proof -
  have wf: "wf s" using vinv by (simp add: vmm_inv_def)
  note t = inv_table [OF vinv p(1,3)]
  note tp = table_pointer_not_null [OF t(1)]
  define e where "e = load64 (ram s) (t + 8 * i)"
  have ea: "ent (ram s) (t + virtual_physical_base) i AND address_mask = entry_frame e"
    by (simp add: e_def entry_frame_def)
  show ?thesis
  proof (cases "entry_frame e = 0")
    case False
    then have "table_at (ram s) r (i # p) = Some (entry_frame e)"
      using p(3) small by (simp add: next_table_def e_def)
    then show ?thesis
      using that(2) [of "entry_frame e" s] False tp ea vinv can_alloc_mono [of alloc "Suc _" s _, OF _ le_SucI [OF order_refl]]
      by (simp add: get_or_alloc_ent_def extends_refl del: table_at.simps)
  next
    case True
    have none: "table_at (ram s) r (i # p) = None" using True p(3) by (simp add: next_table_def e_def)
    obtain q s1 where q: "alloc s = Inr (q, s1)" using alloc_returns by blast
    show ?thesis
    proof (cases "q = 0")
      case True
      then show ?thesis
        using that(1) \<open>entry_frame e = 0\<close> q tp ea none
        by (simp add: get_or_alloc_ent_def can_alloc.simps del: table_at.simps)
    next
      case False
      define m where "m = memset (store64 (ram s1) (t + 8 * i) (q OR flag_bits (perms OR VMM_PRESENT))) q 0 4096"
      have inst: "install (ram s) m r p t i q"
        using new_table_memory [OF vinv p i _ small perms q False m_def] \<open>entry_frame e = 0\<close>
        by (simp add: e_def)
      have run: "get_or_alloc_ent alloc (t + virtual_physical_base) i perms s
          = Inr (q + virtual_physical_base, s1\<lparr>ram := m\<rparr>)"
        using \<open>entry_frame e = 0\<close> q tp ea False
        by (simp add: get_or_alloc_ent_def Let_def set_ent_direct m_def store64_twice)
      have keep: "m x = ram s1 x" if "own s1 x" for x
      proof -
        have x: "own s x" using that alloc_own [OF q] by simp
        have "\<not> in_range x q 4096"
          using alloc_not_own [OF wf q False] x page_byte [of q x] alloc_frame_ok [OF wf q]
          by (auto simp: frame_ok_def)
        moreover have "\<not> in_range x (t + 8 * i) 8"
          using t x slot_byte_page [of t i x] i by (auto simp: frame_ok_def)
        ultimately show ?thesis
          by (simp add: m_def memset_eq store64_outside in_range_def word_less_nat_alt)
      qed
      have s1: "wf (s1\<lparr>ram := m\<rparr>) \<and> used (s1\<lparr>ram := m\<rparr>) = used s1"
        using keep alloc_wf [OF wf q] by (intro used_ram)
      have "vinv (s1\<lparr>ram := m\<rparr>) r"
        using s1 vinv install_tree_ok' [OF inst] install_frames' [OF inst] alloc_keeps [OF wf q]
          alloc_marks [OF wf q False] alloc_own [OF q] alloc_not_own [OF wf q False]
        by (auto simp: vmm_inv_def own_ram)
      moreover have data: "m x = ram s x" if x: "data_byte s r x" for x
      proof -
        have "x div 4096 \<noteq> q div 4096"
          using x alloc_fresh [OF wf q False] used_page [of x q s] by (auto simp: data_byte_def)
        then have "\<not> in_range x q 4096"
          using page_byte [of q x] alloc_frame_ok [OF wf q] by (simp add: frame_ok_def)
        moreover have "\<not> in_range x (t + 8 * i) 8"
          using x t(1) table_framesI [OF p(1,3)] slot_byte_page [of t i x] i
          by (auto simp: data_byte_def frame_ok_def)
        ultimately show ?thesis
          using x alloc_ram [OF wf q]
          by (simp add: m_def memset_eq store64_outside in_range_def word_less_nat_alt data_byte_def)
      qed
      moreover have "grows s (s1\<lparr>ram := m\<rparr>) r"
        using s1 install_frames' [OF inst] alloc_keeps [OF wf q] alloc_fresh [OF wf q False] alloc_own [OF q] data
        by (auto simp: grows_def own_ram)
      moreover have "table_at m r (i # p) = Some q"
        using install_tables [OF inst install_valid_new [OF inst]] by simp
      moreover have "table_at m r p' = Some g" if "valid_path p'" "table_at (ram s) r p' = Some g" for p' g
        using install_tables [OF inst that(1)] that(2) install_hole [OF inst] by auto
      moreover have "can_alloc alloc n (s1\<lparr>ram := m\<rparr>)" if "can_alloc alloc (Suc n) s" for n
        using that q keep alloc_wf [OF wf q] by (intro can_alloc_ram) (simp_all add: can_alloc.simps)
      ultimately show ?thesis
        using that(2) [OF run] install_walk' [OF inst] none by (simp add: extends_def del: table_at.simps)
    qed
  qed
qed

text \<open>Entries above the page directory are never large; in the page directory they are when the
  walk ends there.\<close>

lemma upper_small:
  "vinv s r \<Longrightarrow> valid_path p \<Longrightarrow> length p < 2 \<Longrightarrow> table_at (ram s) r p = Some t \<Longrightarrow> i < 512 \<Longrightarrow>
   \<not> bit (load64 (ram s) (t + 8 * i)) 7"
  using tree_ok_entry [OF inv_tree, of s r p t i] by (auto simp: entry_ok_def split: if_splits)

lemma pd_small:
  assumes "table_at (ram s) r (path_to_pd v) = Some t" "\<And>e. tree_walk (ram s) r v \<noteq> Page2M e"
  shows "\<not> bit (load64 (ram s) (t + 8 * pd_idx (virtual_to_entries v))) 7"
  using assms(1) assms(2) [of "load64 (ram s) (t + 8 * pd_idx (virtual_to_entries v))"]
  by (auto simp: tree_walk_def Let_def split: if_splits)

text \<open>The two or three calls of \<open>get_or_alloc_ent\<close> with which the mapping loops descend.\<close>

lemma descend_pd_cases:
  assumes inv: "vinv s r" and perms: "perms_ok perms"
  obtains (exhausted)
      "\<And>k :: _ \<Rightarrow> (bool \<times> 'a machine_scheme) result.
        rbind (get_or_alloc_ent alloc (r + virtual_physical_base) (pml4_idx (virtual_to_entries v)) perms s) (\<lambda>(pdp, s1).
        rbind (get_or_alloc_ent alloc pdp (pdp_idx (virtual_to_entries v)) perms s1) k) = Inl NullDeref"
      "\<not> can_alloc alloc 2 s" "table_at (ram s) r (path_to_pd v) = None"
  | (null) s2 where
      "\<And>k :: _ \<Rightarrow> (bool \<times> 'a machine_scheme) result.
        rbind (get_or_alloc_ent alloc (r + virtual_physical_base) (pml4_idx (virtual_to_entries v)) perms s) (\<lambda>(pdp, s1).
        rbind (get_or_alloc_ent alloc pdp (pdp_idx (virtual_to_entries v)) perms s1) k) = k (0, s2)"
      "\<not> can_alloc alloc 2 s" "table_at (ram s) r (path_to_pd v) = None"
  | (table) f s2 where
      "\<And>k :: _ \<Rightarrow> (bool \<times> 'a machine_scheme) result.
        rbind (get_or_alloc_ent alloc (r + virtual_physical_base) (pml4_idx (virtual_to_entries v)) perms s) (\<lambda>(pdp, s1).
        rbind (get_or_alloc_ent alloc pdp (pdp_idx (virtual_to_entries v)) perms s1) k)
       = k (f + virtual_physical_base, s2)"
      "extends s s2 r" "table_at (ram s2) r (path_to_pd v) = Some f"
      "\<And>n. can_alloc alloc (n + 2) s \<Longrightarrow> can_alloc alloc n s2"
      "\<And>n. table_at (ram s) r (path_to_pd v) \<noteq> None \<Longrightarrow> can_alloc alloc n s \<Longrightarrow> can_alloc alloc n s2"
proof -
  define offs where "offs = virtual_to_entries v"
  have root: "table_at (ram s) r [] = Some r" by simp
  have small: "\<not> bit (load64 (ram s) (r + 8 * pml4_idx offs)) 7"
    by (rule upper_small [OF inv valid_path_Nil]) (simp_all add: offs_def)
  show ?thesis
  proof (cases rule: get_or_alloc_ent_cases [OF inv valid_path_Nil _ root _ small perms, case_names len idx exhausted table])
    case len
    then show ?case by simp
  next
    case idx
    then show ?case by (simp add: offs_def)
  next
    case (exhausted s')
    moreover have "\<not> can_alloc alloc 2 s" using exhausted(2) can_alloc_mono [of alloc 2 s 1] by auto
    moreover have "table_at (ram s) r (path_to_pd v) = None" using exhausted(3) by (simp add: path_to_pd_def offs_def)
    ultimately show ?thesis using that(1) by (auto simp: offs_def get_or_alloc_ent_def)
  next
    case (table f1 s1)
    note can1 = table(4,5)
    note ext1 = table(2)
    from table have inv1: "vinv s1 r" by (simp add: extends_def)
    have vp: "valid_path [pml4_idx offs]" by (simp add: valid_path_Cons offs_def)
    have small1: "\<not> bit (load64 (ram s1) (f1 + 8 * pdp_idx offs)) 7"
      by (rule upper_small [OF inv1 vp]) (use table in \<open>simp_all add: offs_def\<close>)
    show ?thesis
    proof (cases rule: get_or_alloc_ent_cases [OF inv1 vp _ table(3) _ small1 perms, case_names len idx exhausted table])
      case len
      then show ?case by simp
    next
      case idx
      then show ?case by (simp add: offs_def)
    next
      case (exhausted s2)
      moreover have "\<not> can_alloc alloc 2 s" using exhausted(2) table(4) [of 1] by (auto simp: numeral_2_eq_2)
      moreover have "table_at (ram s) r (path_to_pd v) = None"
        using ext1 exhausted(3) valid_paths(1) [of v]
        by (cases "table_at (ram s) r (path_to_pd v)") (auto simp: extends_def path_to_pd_def offs_def simp del: table_at.simps)
      ultimately show ?thesis using table(1) that(2) [of s2] by (auto simp: offs_def)
    next
      case (table f2 s2)
      have "can_alloc alloc n s2" if "table_at (ram s) r (path_to_pd v) \<noteq> None" "can_alloc alloc n s" for n
      proof -
        have "table_at (ram s1) r (path_to_pd v) \<noteq> None"
          using that(1) ext1 valid_paths(1) [of v] by (auto simp: extends_def simp del: table_at.simps)
        moreover have "table_at (ram s) r [pml4_idx offs] \<noteq> None"
          using that(1) by (auto simp: path_to_pd_def offs_def split: option.splits)
        ultimately show ?thesis
          using can1(2) table(5) that(2) by (simp add: path_to_pd_def offs_def del: table_at.simps)
      qed
      with table show ?thesis
        using \<open>get_or_alloc_ent alloc (r + virtual_physical_base) (pml4_idx offs) perms s = _\<close>
          extends_trans [OF \<open>extends s s1 r\<close>] that(3) [of f2 s2] can1
        by (simp add: offs_def path_to_pd_def del: table_at.simps)
    qed
  qed
qed

lemma put_null: "get_or_alloc_ent alloc 0 i perms s = Inl NullDeref" "put_ent 0 i v s = Inl NullDeref"
  by (simp_all add: get_or_alloc_ent_def put_ent_def)

text \<open>Writing a leaf into a page table.\<close>

lemma set_leaf:
  fixes e :: u64
  assumes inv: "vinv s r" and pt: "table_at (ram s) r (path_to_pt v) = Some f"
  defines "s' \<equiv> set_ent (f + virtual_physical_base) (pt_idx (virtual_to_entries v)) e s"
  shows set_leaf_inv: "vinv s' r"
    and set_leaf_walk: "tree_walk (ram s') r w = (if page_number w = page_number v
      then (if bit e 0 then Page4K e else Unmapped) else tree_walk (ram s) r w)"
    and set_leaf_grows: "grows s s' r"
    and set_leaf_alloc: "can_alloc alloc n s \<Longrightarrow> can_alloc alloc n s'"
    and set_leaf_tables: "valid_path q \<Longrightarrow> table_at (ram s') r q = table_at (ram s) r q"
proof -
  define i where "i = pt_idx (virtual_to_entries v)"
  have i: "i < 512" by (simp add: i_def)
  have s': "s' = s\<lparr>ram := store64 (ram s) (f + 8 * i) e\<rparr>"
    by (simp add: s'_def set_ent_direct i_def)
  have kept: "slots_kept (ram s) (ram s') r f i"
    using slots_kept_store [OF inv_tree [OF inv] valid_paths(2) pt i] by (simp add: s')
  note leaf = inv_tree [OF inv] valid_paths(2) length_paths(2) pt kept
  show "vinv s' r"
    using inv_store [OF inv valid_paths(2) pt i, of e] leaf_tree_ok [OF leaf] leaf_frames [OF leaf]
    by (simp add: s')
  show "tree_walk (ram s') r w = (if page_number w = page_number v
      then (if bit e 0 then Page4K e else Unmapped) else tree_walk (ram s) r w)"
    using leaf_walk [OF inv_tree [OF inv] pt i_def kept, of e w] by (simp add: s' entries_eq_iff)
  show "grows s s' r"
  proof -
    have "ram s' x = ram s x" if "data_byte s r x" for x
      using that table_framesI [OF valid_paths(2) pt] slot_byte_page [of f i x] i
        inv_table(1) [OF inv valid_paths(2) pt] unfolding s'
      by (auto simp: data_byte_def frame_ok_def intro!: store64_outside)
    then show ?thesis
      using store_table(2) [OF inv valid_paths(2) pt i] leaf_frames [OF leaf] by (simp add: grows_def s' own_ram)
  qed
  show "can_alloc alloc n s'" if "can_alloc alloc n s"
    using store_table_alloc [OF inv valid_paths(2) pt i that] by (simp add: s')
  show "table_at (ram s') r q = table_at (ram s) r q" if "valid_path q"
    using leaf_tables [OF leaf that] .
qed

text \<open>One round of \<open>map_pages\<close>.\<close>

lemma map_page_cases:
  assumes inv: "vinv s r" and perms: "perms_ok perms" and nl: "\<And>e. tree_walk (ram s) r v \<noteq> Page2M e"
  obtains (exhausted) "map_pages_n (Suc n) alloc r v phys perms s = Inl NullDeref" "\<not> can_alloc alloc 3 s"
  | (mapped) s' where
      "map_pages_n (Suc n) alloc r v phys perms s = map_pages_n n alloc r (v + 0x1000) (phys + 0x1000) perms s'"
      "vinv s' r"
      "\<And>w. tree_walk (ram s') r w = (if page_number w = page_number v
        then Page4K (leaf_entry phys perms) else tree_walk (ram s) r w)"
      "\<And>n. can_alloc alloc (n + 3) s \<Longrightarrow> can_alloc alloc n s'" "grows s s' r"
  using inv perms
proof (cases rule: descend_pd_cases [where v = v])
  case exhausted
  then show ?thesis using that(1) can_alloc_mono [of alloc 3 s 2] by (auto simp: Let_def)
next
  case (null s2)
  then show ?thesis using that(1) can_alloc_mono [of alloc 3 s 2] by (auto simp: Let_def put_null)
next
  case (table f2 s2)
  then have inv2: "vinv s2 r" and nl2: "\<And>e. tree_walk (ram s2) r v \<noteq> Page2M e"
    using nl by (simp_all add: extends_def)
  have small: "\<not> bit (load64 (ram s2) (f2 + 8 * pd_idx (virtual_to_entries v))) 7"
    using pd_small table(3) nl2 by blast
  show ?thesis
  proof (cases rule: get_or_alloc_ent_cases [OF inv2 valid_paths(1) _ table(3) _ small perms,
        case_names len idx exhausted table])
    case len
    then show ?case by simp
  next
    case idx
    then show ?case by simp
  next
    case (exhausted s3)
    moreover have "\<not> can_alloc alloc 3 s" using exhausted(2) table(4) [of 1] by (auto simp: numeral_3_eq_3)
    ultimately show ?thesis using table(1) that(1) by (auto simp: Let_def put_null)
  next
    case t3: (table f3 s3)
    have ext: "extends s s3 r" using extends_trans table(2) t3(2) by blast
    then have inv3: "vinv s3 r" by (simp add: extends_def)
    have pt: "table_at (ram s3) r (path_to_pt v) = Some f3"
      using t3(3) by (simp add: path_to_pt_def del: table_at.simps)
    have "map_pages_n (Suc n) alloc r v phys perms s = map_pages_n n alloc r (v + 0x1000) (phys + 0x1000) perms
        (set_ent (f3 + virtual_physical_base) (pt_idx (virtual_to_entries v)) (leaf_entry phys perms) s3)"
      using table(1) t3(1) table_pointer_not_null [OF inv_table(1) [OF inv3 valid_paths(2) pt]]
      by (simp add: Let_def put_ent_def leaf_entry_def)
    moreover have "can_alloc alloc n (set_ent (f3 + virtual_physical_base) (pt_idx (virtual_to_entries v))
        (leaf_entry phys perms) s3)" if "can_alloc alloc (n + 3) s" for n
      using set_leaf_alloc [OF inv3 pt] t3(4) table(4) [of "Suc n"] that by (simp add: numeral_3_eq_3)
    ultimately show ?thesis
      using that(2) set_leaf_inv [OF inv3 pt] set_leaf_walk [OF inv3 pt, of "leaf_entry phys perms"] ext
        grows_trans [OF _ set_leaf_grows [OF inv3 pt]]
      by (simp add: extends_def)
  qed
qed

lemma map_pages_n_correct:
  assumes "vinv s r" "perms_ok perms" "n \<le> 2 ^ 36"
    and "\<And>k e. k < n \<Longrightarrow> tree_walk (ram s) r (v + of_nat k * 4096) \<noteq> Page2M e"
  shows "(map_pages_n n alloc r v phys perms s = Inl NullDeref \<and> \<not> can_alloc alloc (3 * n) s) \<or>
    (\<exists>s'. map_pages_n n alloc r v phys perms s = Inr (True, s') \<and> vinv s' r \<and> grows s s' r \<and>
      tree_walk (ram s') r = edit_range 12 v n (\<lambda>k _. Page4K (leaf_entry (phys + of_nat k * 4096) perms))
        (tree_walk (ram s) r))"
  using assms
proof (induction n arbitrary: s v phys)
  case 0
  then show ?case by (simp add: grows_refl)
next
  case (Suc n)
  have first: "tree_walk (ram s) r v \<noteq> Page2M e" for e using Suc.prems(4) [of 0] by simp
  from Suc.prems(1,2) first show ?case
  proof (cases rule: map_page_cases [where n = n and phys = phys])
    case exhausted
    then show ?thesis using can_alloc_mono [of alloc "3 * Suc n" s 3] by auto
  next
    case (mapped s1)
    have can: "can_alloc alloc (3 * n) s1" if "can_alloc alloc (3 * Suc n) s"
      using that mapped(4) [of "3 * n"] by (simp add: add.commute)
    have nl: "tree_walk (ram s1) r (v + 4096 + of_nat k * 4096) \<noteq> Page2M e" if "k < n" for k e
      using Suc.prems(4) [of "Suc k"] that mapped(3) by (simp add: algebra_simps)
    have walk: "tree_walk (ram s1) r
        = (\<lambda>w. if page_number w = page_number v then Page4K (leaf_entry phys perms) else tree_walk (ram s) r w)"
      using mapped(3) by blast
    show ?thesis
      using Suc.IH [OF mapped(2) Suc.prems(2) _ nl, of "phys + 4096"] Suc.prems(3) walk can
        grows_trans [OF mapped(5)]
      unfolding mapped(1)
      by (auto simp: edit_range_Suc algebra_simps simp del: map_pages_n.simps cong: if_cong)
  qed
qed

text \<open>The lookups.\<close>

lemma get_or_null_ent_table:
  assumes "vinv s r" "valid_path p" "length p < 3" "table_at (ram s) r p = Some t" "i < 512"
    and "\<not> bit (load64 (ram s) (t + 8 * i)) 7"
  shows "get_or_null_ent (t + virtual_physical_base) i s
    = Inr (case table_at (ram s) r (i # p) of None \<Rightarrow> 0 | Some f \<Rightarrow> f + virtual_physical_base)"
  using assms table_pointer_not_null [OF inv_table(1) [OF assms(1,2,4)]]
  by (simp add: get_or_null_ent_def next_table_def entry_frame_def Let_def)

lemma find_pt_table:
  assumes inv: "vinv s r" and nl: "\<And>e. tree_walk (ram s) r v \<noteq> Page2M e"
  shows "find_pt r (virtual_to_entries v) s
    = Inr (case table_at (ram s) r (path_to_pt v) of None \<Rightarrow> 0 | Some f \<Rightarrow> f + virtual_physical_base)"
proof -
  let ?o = "virtual_to_entries v"
  have p1: "valid_path [pml4_idx ?o]" by (simp add: valid_path_Cons)
  have 1: "get_or_null_ent (r + virtual_physical_base) (pml4_idx ?o) s
      = Inr (case table_at (ram s) r [pml4_idx ?o] of None \<Rightarrow> 0 | Some f \<Rightarrow> f + virtual_physical_base)"
    by (rule get_or_null_ent_table [OF inv valid_path_Nil])
      (simp_all add: upper_small [OF inv valid_path_Nil])
  show ?thesis
  proof (cases "table_at (ram s) r [pml4_idx ?o]")
    case None
    then show ?thesis using 1 by (simp add: find_pt_def path_to_pt_def path_to_pd_def)
  next
    case (Some f1)
    have 2: "get_or_null_ent (f1 + virtual_physical_base) (pdp_idx ?o) s
        = Inr (case table_at (ram s) r (path_to_pd v) of None \<Rightarrow> 0 | Some f \<Rightarrow> f + virtual_physical_base)"
      unfolding path_to_pd_def
      by (rule get_or_null_ent_table [OF inv p1 _ Some]) (simp_all add: upper_small [OF inv p1 _ Some])
    have n1: "f1 + virtual_physical_base \<noteq> 0"
      using table_pointer_not_null [OF inv_table(1) [OF inv p1 Some]] .
    show ?thesis
    proof (cases "table_at (ram s) r (path_to_pd v)")
      case None
      then show ?thesis using 1 2 Some n1 by (simp add: find_pt_def path_to_pt_def)
    next
      case f2: (Some f2)
      have "get_or_null_ent (f2 + virtual_physical_base) (pd_idx ?o) s
          = Inr (case table_at (ram s) r (path_to_pt v) of None \<Rightarrow> 0 | Some f \<Rightarrow> f + virtual_physical_base)"
        unfolding path_to_pt_def
        by (rule get_or_null_ent_table [OF inv valid_paths(1) _ f2]) (simp_all add: pd_small [OF f2] nl)
      then show ?thesis
        using 1 2 Some n1 f2 table_pointer_not_null [OF inv_table(1) [OF inv valid_paths(1) f2]]
        by (simp add: find_pt_def del: table_at.simps)
    qed
  qed
qed

text \<open>\<open>unmap_pages\<close> stops at the first page that no page table covers.\<close>

lemma unmap_page_cases:
  assumes inv: "vinv s r" and nl: "\<And>e. tree_walk (ram s) r v \<noteq> Page2M e"
  obtains (missing) "table_at (ram s) r (path_to_pt v) = None"
      "unmap_pages_n (Suc n) r v s = Inr (False, s)"
  | (cleared) s' where "table_at (ram s) r (path_to_pt v) \<noteq> None"
      "unmap_pages_n (Suc n) r v s = unmap_pages_n n r (v + 0x1000) s'" "vinv s' r"
      "\<And>w. tree_walk (ram s') r w = (if page_number w = page_number v then Unmapped else tree_walk (ram s) r w)"
      "\<And>q. valid_path q \<Longrightarrow> table_at (ram s') r q = table_at (ram s) r q"
proof (cases "table_at (ram s) r (path_to_pt v)")
  case None
  then show ?thesis using that(1) find_pt_table [OF inv nl] by (simp add: Let_def)
next
  case (Some f)
  show ?thesis
  proof (rule that(2))
    show "unmap_pages_n (Suc n) r v s = unmap_pages_n n r (v + 0x1000)
        (set_ent (f + virtual_physical_base) (pt_idx (virtual_to_entries v)) 0 s)"
      using find_pt_table [OF inv nl] Some table_pointer_not_null [OF inv_table(1) [OF inv valid_paths(2) Some]]
      by (simp add: Let_def)
  qed (use Some set_leaf_inv [OF inv Some] set_leaf_walk [OF inv Some, of 0] set_leaf_tables [OF inv Some] in auto)
qed

lemma unmap_pages_n_correct:
  assumes "vinv s r" "n \<le> 2 ^ 36"
    and "\<And>k e. k < n \<Longrightarrow> tree_walk (ram s) r (v + of_nat k * 4096) \<noteq> Page2M e"
  shows "\<exists>j s'. j \<le> n \<and> unmap_pages_n n r v s = Inr (j = n, s') \<and> vinv s' r \<and>
    tree_walk (ram s') r = edit_range 12 v j (\<lambda>_ _. Unmapped) (tree_walk (ram s) r) \<and>
    (\<forall>k < j. table_at (ram s) r (path_to_pt (v + of_nat k * 4096)) \<noteq> None) \<and>
    (j < n \<longrightarrow> table_at (ram s) r (path_to_pt (v + of_nat j * 4096)) = None)"
  using assms
proof (induction n arbitrary: s v)
  case 0
  then show ?case by simp
next
  case (Suc n)
  have first: "tree_walk (ram s) r v \<noteq> Page2M e" for e using Suc.prems(3) [of 0] by simp
  from Suc.prems(1) first show ?case
  proof (cases rule: unmap_page_cases [where n = n])
    case missing
    then show ?thesis using Suc.prems(1) by (intro exI [of _ 0] exI [of _ s]) simp
  next
    case (cleared s1)
    have nl: "tree_walk (ram s1) r (v + 4096 + of_nat k * 4096) \<noteq> Page2M e" if "k < n" for k e
      using Suc.prems(3) [of "Suc k"] that cleared(4) by (simp add: algebra_simps)
    obtain j s' where j: "j \<le> n" "unmap_pages_n n r (v + 4096) s1 = Inr (j = n, s')" "vinv s' r"
      "tree_walk (ram s') r = edit_range 12 (v + 4096) j (\<lambda>_ _. Unmapped) (tree_walk (ram s1) r)"
      "\<And>k. k < j \<Longrightarrow> table_at (ram s1) r (path_to_pt (v + 4096 + of_nat k * 4096)) \<noteq> None"
      "j < n \<Longrightarrow> table_at (ram s1) r (path_to_pt (v + 4096 + of_nat j * 4096)) = None"
      using Suc.IH [OF cleared(3) _ nl] Suc.prems(2) by auto
    have walk: "tree_walk (ram s1) r
        = (\<lambda>w. if page_number w = page_number v then Unmapped else tree_walk (ram s) r w)"
      using cleared(4) by blast
    have "table_at (ram s) r (path_to_pt (v + of_nat k * 4096)) \<noteq> None" if "k < Suc j" for k
      using j(5) [of "k - 1"] that cleared(1) cleared(5) [OF valid_paths(2)]
      by (cases k) (simp_all add: algebra_simps)
    moreover have "table_at (ram s) r (path_to_pt (v + of_nat (Suc j) * 4096)) = None" if "j < n"
      using j(6) [OF that] cleared(5) [OF valid_paths(2)] by (simp add: algebra_simps)
    ultimately show ?thesis
      using j(1-4) cleared(2) Suc.prems(2) walk
      by (intro exI [of _ "Suc j"] exI [of _ s']) (simp add: edit_range_Suc del: unmap_pages_n.simps)
  qed
qed

lemma tree_walk_same_page:
  assumes "page_number w = page_number v"
  shows "tree_walk m r w = tree_walk m r v"
proof -
  have "virtual_to_entries w = virtual_to_entries v" using assms by (simp add: entries_eq_iff)
  moreover from this have "path_to_pd w = path_to_pd v" "path_to_pt w = path_to_pt v"
    by (simp_all add: path_to_pd_def path_to_pt_def)
  ultimately show ?thesis by (simp add: tree_walk_def Let_def cong: option.case_cong if_cong)
qed

text \<open>\<open>update_perms\<close> on mapped pages.\<close>

lemma mapped_leaf:
  assumes "tree_walk (ram s) r v = Page4K e"
  obtains f where "table_at (ram s) r (path_to_pt v) = Some f"
    "load64 (ram s) (f + 8 * pt_idx (virtual_to_entries v)) = e"
  using assms by (auto simp: tree_walk_def Let_def split: option.splits if_splits)

lemma update_perms_n_correct:
  assumes "vinv s r" "n \<le> 2 ^ 36"
    and "\<And>k. k < n \<Longrightarrow> \<exists>e. tree_walk (ram s) r (v + of_nat k * 4096) = Page4K e"
  shows "\<exists>s'. update_perms_n n r v perms s = Inr (True, s') \<and> vinv s' r \<and>
    tree_walk (ram s') r = edit_range 12 v n (\<lambda>_. with_perms perms) (tree_walk (ram s) r)"
  using assms
proof (induction n arbitrary: s v)
  case 0
  then show ?case by simp
next
  case (Suc n)
  obtain e where e: "tree_walk (ram s) r v = Page4K e" using Suc.prems(3) [of 0] by auto
  then obtain f where pt: "table_at (ram s) r (path_to_pt v) = Some f"
    "load64 (ram s) (f + 8 * pt_idx (virtual_to_entries v)) = e"
    by (rule mapped_leaf)
  define s1 where "s1 = set_ent (f + virtual_physical_base) (pt_idx (virtual_to_entries v))
    (leaf_entry (entry_frame e) perms) s"
  have inv1: "vinv s1 r" using set_leaf_inv [OF Suc.prems(1) pt(1)] by (simp add: s1_def)
  have same: "tree_walk (ram s) r w = Page4K e" if "page_number w = page_number v" for w
    using e tree_walk_same_page [OF that] by simp
  have walk: "tree_walk (ram s1) r = (\<lambda>w. if page_number w = page_number v
      then with_perms perms (tree_walk (ram s) r w) else tree_walk (ram s) r w)"
    using set_leaf_walk [OF Suc.prems(1) pt(1), of "leaf_entry (entry_frame e) perms"] same
    by (auto simp: s1_def with_perms_def)
  have next_ok: "\<exists>e. tree_walk (ram s1) r (v + 4096 + of_nat k * 4096) = Page4K e" if "k < n" for k
    using Suc.prems(3) [of "Suc k"] that same by (auto simp: walk with_perms_def algebra_simps)
  have "update_perms_n (Suc n) r v perms s = update_perms_n n r (v + 0x1000) perms s1"
    using find_pt_table [OF Suc.prems(1), of v] e pt
      table_pointer_not_null [OF inv_table(1) [OF Suc.prems(1) valid_paths(2) pt(1)]]
    by (simp add: Let_def s1_def leaf_entry_def entry_frame_def)
  then show ?case
    using Suc.IH [OF inv1 _ next_ok] Suc.prems(2) walk by (simp add: edit_range_Suc del: update_perms_n.simps)
qed

lemma get_entry_walk:
  assumes inv: "vinv s r" and nl: "\<And>e. tree_walk (ram s) r v \<noteq> Page2M e" and low: "v < 0xFFFF800000000000"
  shows "\<exists>e. get_entry r v s = Inr e \<and> tree_walk (ram s) r v = (if bit e 0 then Page4K e else Unmapped)"
proof -
  have "\<not> 0xFFFFFFFF80000000 \<le> v" "\<not> 0xFFFF800000000000 \<le> v"
    using low by (simp_all add: word_le_nat_alt word_less_nat_alt)
  then have run: "get_entry r v s = rbind (find_pt r (virtual_to_entries v) s) (\<lambda>pt_virt.
      if pt_virt = 0 then Inr 0 else Inr (ent (ram s) pt_virt (pt_idx (virtual_to_entries v))))"
    by (simp add: get_entry_def Let_def)
  show ?thesis
  proof (cases "table_at (ram s) r (path_to_pt v)")
    case None
    then have "tree_walk (ram s) r v = Unmapped"
      using pd_small [OF _ nl] by (auto simp: tree_walk_def Let_def split: option.splits)
    then show ?thesis using run None find_pt_table [OF inv nl] by simp
  next
    case (Some f)
    define e where "e = load64 (ram s) (f + 8 * pt_idx (virtual_to_entries v))"
    obtain d where d: "table_at (ram s) r (path_to_pd v) = Some d"
      using Some by (cases "table_at (ram s) r (path_to_pd v)") (auto simp: path_to_pt_def)
    have "get_entry r v s = Inr e"
      using run Some find_pt_table [OF inv nl] table_pointer_not_null [OF inv_table(1) [OF inv valid_paths(2) Some]]
      by (simp add: e_def)
    then show ?thesis using Some d pd_not_large [OF d Some] by (simp add: tree_walk_def e_def)
  qed
qed

text \<open>Pages of 2 MiB.\<close>

lemma set_huge:
  fixes e :: u64
  assumes inv: "vinv s r" and pd: "table_at (ram s) r (path_to_pd v) = Some f"
    and e: "entry_ok 2 e" "bit e 7 \<or> entry_frame e = 0"
  defines "s' \<equiv> set_ent (f + virtual_physical_base) (pd_idx (virtual_to_entries v)) e s"
  shows set_huge_inv: "vinv s' r"
    and set_huge_walk: "tree_walk (ram s') r w = (if block_number 21 w = block_number 21 v
      then (if bit e 7 then Page2M e else Unmapped) else tree_walk (ram s) r w)"
    and set_huge_table: "table_at (ram s') r (path_to_pd v) = Some f"
    and set_huge_alloc: "can_alloc alloc n s \<Longrightarrow> can_alloc alloc n s'"
    and set_huge_grows: "grows s s' r"
proof -
  define i where "i = pd_idx (virtual_to_entries v)"
  have i: "i < 512" by (simp add: i_def)
  have s': "s' = s\<lparr>ram := store64 (ram s) (f + 8 * i) e\<rparr>"
    by (simp add: s'_def set_ent_direct i_def)
  have leaf: "large_leaf (ram s) (ram s') r (path_to_pd v) f i e"
    using slots_kept_store [OF inv_tree [OF inv] valid_paths(1) pd i] inv_tree [OF inv] pd i e
    by (simp add: large_leaf_def s')
  show "vinv s' r"
    using inv_store [OF inv valid_paths(1) pd i, of e] large_leaf_tree_ok' [OF leaf] large_leaf_frames' [OF leaf]
    by (simp add: s')
  show "tree_walk (ram s') r w = (if block_number 21 w = block_number 21 v
      then (if bit e 7 then Page2M e else Unmapped) else tree_walk (ram s) r w)"
    using large_leaf_walk' [OF leaf, of w] same_path_iff [of w v] by (simp add: i_def path_to_pt_def)
  have "path_to_pd v \<noteq> i # path_to_pd v" by (metis not_Cons_self2)
  then show "table_at (ram s') r (path_to_pd v) = Some f"
    using large_leaf_tables [OF leaf valid_paths(1)] pd by simp
  show "can_alloc alloc n s'" if "can_alloc alloc n s"
    using store_table_alloc [OF inv valid_paths(1) pd i that] by (simp add: s')
  show "grows s s' r"
  proof -
    have "ram s' x = ram s x" if "data_byte s r x" for x
      using that table_framesI [OF valid_paths(1) pd] slot_byte_page [of f i x] i
        inv_table(1) [OF inv valid_paths(1) pd] unfolding s'
      by (auto simp: data_byte_def frame_ok_def intro!: store64_outside)
    then show ?thesis
      using store_table(2) [OF inv valid_paths(1) pd i] large_leaf_frames' [OF leaf]
      by (auto simp: grows_def s' own_ram)
  qed
qed

lemma map_huge_page_cases:
  assumes inv: "vinv s r" and perms: "perms_ok perms"
  obtains (exhausted) "map_huge_pages_n (Suc n) alloc r v phys perms s = Inl NullDeref" "\<not> can_alloc alloc 2 s"
      "table_at (ram s) r (path_to_pd v) = None"
  | (mapped) s' where
      "map_huge_pages_n (Suc n) alloc r v phys perms s
        = map_huge_pages_n n alloc r (v + 0x200000) (phys + 0x200000) perms s'"
      "vinv s' r"
      "\<And>w. tree_walk (ram s') r w = (if block_number 21 w = block_number 21 v
        then Page2M (huge_entry phys perms) else tree_walk (ram s) r w)"
      "\<And>n. can_alloc alloc (n + 2) s \<Longrightarrow> can_alloc alloc n s'"
      "\<And>n. table_at (ram s) r (path_to_pd v) \<noteq> None \<Longrightarrow> can_alloc alloc n s \<Longrightarrow> can_alloc alloc n s'"
      "table_at (ram s') r (path_to_pd v) \<noteq> None" "grows s s' r"
  using inv perms
proof (cases rule: descend_pd_cases [where v = v])
  case exhausted
  then show ?thesis using that(1) by (simp add: Let_def)
next
  case (null s2)
  then show ?thesis using that(1) by (simp add: Let_def put_null)
next
  case (table f s2)
  then have inv2: "vinv s2 r" by (simp add: extends_def)
  have ok: "entry_ok 2 (huge_entry phys perms)" by (simp add: entry_ok_def)
  have "map_huge_pages_n (Suc n) alloc r v phys perms s
      = map_huge_pages_n n alloc r (v + 0x200000) (phys + 0x200000) perms
        (set_ent (f + virtual_physical_base) (pd_idx (virtual_to_entries v)) (huge_entry phys perms) s2)"
    using table(1) table_pointer_not_null [OF inv_table(1) [OF inv2 valid_paths(1) table(3)]]
    by (simp add: Let_def put_ent_def huge_entry_def)
  then show ?thesis
    using that(2) set_huge_inv [OF inv2 table(3) ok] set_huge_walk [OF inv2 table(3) ok]
      set_huge_alloc [OF inv2 table(3) ok] set_huge_table [OF inv2 table(3) ok] table(2,4,5)
      grows_trans [OF _ set_huge_grows [OF inv2 table(3) ok]]
    by (simp add: extends_def)
qed

lemma map_huge_pages_n_correct:
  assumes "vinv s r" "perms_ok perms" "n \<le> 2 ^ 27"
  shows "(map_huge_pages_n n alloc r v phys perms s = Inl NullDeref \<and> \<not> can_alloc alloc (2 * n) s) \<or>
    (\<exists>s'. map_huge_pages_n n alloc r v phys perms s = Inr (True, s') \<and> vinv s' r \<and>
      tree_walk (ram s') r = edit_range 21 v n (\<lambda>k _. Page2M (huge_entry (phys + of_nat k * 0x200000) perms))
        (tree_walk (ram s) r))"
  using assms
proof (induction n arbitrary: s v phys)
  case 0
  then show ?case by simp
next
  case (Suc n)
  from Suc.prems(1,2) show ?case
  proof (cases rule: map_huge_page_cases [where n = n and phys = phys and v = v])
    case exhausted
    then show ?thesis using can_alloc_mono [of alloc "2 * Suc n" s 2] by auto
  next
    case (mapped s1)
    have can: "can_alloc alloc (2 * n) s1" if "can_alloc alloc (2 * Suc n) s"
      using that mapped(4) [of "2 * n"] by (simp add: add.commute)
    have walk: "tree_walk (ram s1) r = (\<lambda>w. if block_number 21 w = block_number 21 v
        then Page2M (huge_entry phys perms) else tree_walk (ram s) r w)"
      using mapped(3) by blast
    show ?thesis
      using Suc.IH [OF mapped(2) Suc.prems(2), of "v + 0x200000" "phys + 0x200000"] Suc.prems(3) walk can
      unfolding mapped(1)
      by (auto simp: edit_huge_Suc algebra_simps simp del: map_huge_pages_n.simps cong: if_cong)
  qed
qed

text \<open>Large pages of one page directory cost at most two tables.\<close>

lemma map_huge_pages_present:
  assumes "vinv s r" "perms_ok perms" "n \<le> 2 ^ 27" "can_alloc alloc j s"
    and "table_at (ram s) r (path_to_pd v) \<noteq> None"
    and "\<And>k. k < n \<Longrightarrow> path_to_pd (v + of_nat k * 0x200000) = path_to_pd v"
  shows "\<exists>s'. map_huge_pages_n n alloc r v phys perms s = Inr (True, s') \<and> vinv s' r \<and> can_alloc alloc j s' \<and>
      tree_walk (ram s') r = edit_range 21 v n (\<lambda>k _. Page2M (huge_entry (phys + of_nat k * 0x200000) perms))
        (tree_walk (ram s) r)"
  using assms
proof (induction n arbitrary: s v phys)
  case 0
  then show ?case by simp
next
  case (Suc n)
  from Suc.prems(1,2) show ?case
  proof (cases rule: map_huge_page_cases [where n = n and phys = phys and v = v])
    case exhausted
    then show ?thesis using Suc.prems(5) by simp
  next
    case (mapped s1)
    have walk: "tree_walk (ram s1) r = (\<lambda>w. if block_number 21 w = block_number 21 v
        then Page2M (huge_entry phys perms) else tree_walk (ram s) r w)"
      using mapped(3) by blast
    have path: "path_to_pd (v + 0x200000 + of_nat k * 0x200000) = path_to_pd v" if "k < n" for k
      using Suc.prems(6) [of "Suc k"] that by (simp add: algebra_simps)
    have table: "table_at (ram s1) r (path_to_pd (v + 0x200000)) \<noteq> None" if "n \<noteq> 0"
      using mapped(6) path [of 0] that by simp
    show ?thesis
    proof (cases "n = 0")
      case True
      then show ?thesis
        using mapped(1,2) mapped(5) [OF Suc.prems(5,4)] walk edit_huge_Suc [of 0 v] Suc.prems(3)
        by (simp del: map_huge_pages_n.simps(2) cong: if_cong)
    next
      case False
      have "path_to_pd (v + 0x200000 + of_nat k * 0x200000) = path_to_pd (v + 0x200000)" if "k < n" for k
        using path [OF that] path [of 0] False by simp
      then show ?thesis
        using Suc.IH [OF mapped(2) Suc.prems(2) _ mapped(5) [OF Suc.prems(5,4)] table [OF False],
            of "phys + 0x200000"] Suc.prems(3) walk
        unfolding mapped(1)
        by (auto simp: edit_huge_Suc algebra_simps simp del: map_huge_pages_n.simps cong: if_cong)
    qed
  qed
qed

lemma map_huge_pages_chunk:
  assumes "vinv s r" "perms_ok perms" "n \<le> 2 ^ 27" "can_alloc alloc (j + 2) s"
    and "\<And>k. k < n \<Longrightarrow> path_to_pd (v + of_nat k * 0x200000) = path_to_pd v"
  shows "\<exists>s'. map_huge_pages_n n alloc r v phys perms s = Inr (True, s') \<and> vinv s' r \<and> can_alloc alloc j s' \<and>
      tree_walk (ram s') r = edit_range 21 v n (\<lambda>k _. Page2M (huge_entry (phys + of_nat k * 0x200000) perms))
        (tree_walk (ram s) r)"
proof (cases n)
  case 0
  then show ?thesis using assms can_alloc_mono [of alloc "j + 2" s j] by simp
next
  case (Suc i)
  from assms(1,2) show ?thesis
  proof (cases rule: map_huge_page_cases [where n = i and phys = phys and v = v])
    case exhausted
    then show ?thesis using assms(4) can_alloc_mono [of alloc "j + 2" s 2] by simp
  next
    case (mapped s1)
    have walk: "tree_walk (ram s1) r = (\<lambda>w. if block_number 21 w = block_number 21 v
        then Page2M (huge_entry phys perms) else tree_walk (ram s) r w)"
      using mapped(3) by blast
    have path: "path_to_pd (v + 0x200000 + of_nat k * 0x200000) = path_to_pd v" if "k < i" for k
      using assms(5) [of "Suc k"] that Suc by (simp add: algebra_simps)
    show ?thesis
    proof (cases "i = 0")
      case True
      then show ?thesis
        using mapped(1,2) mapped(4) [OF assms(4)] walk edit_huge_Suc [of 0 v] Suc
        by (simp del: map_huge_pages_n.simps(2) cong: if_cong)
    next
      case False
      have table: "table_at (ram s1) r (path_to_pd (v + 0x200000)) \<noteq> None"
        using mapped(6) path [of 0] False by simp
      have "path_to_pd (v + 0x200000 + of_nat k * 0x200000) = path_to_pd (v + 0x200000)" if "k < i" for k
        using path [OF that] path [of 0] False by simp
      then show ?thesis
        using map_huge_pages_present [OF mapped(2) assms(2) _ mapped(4) [OF assms(4)] table,
            of i "phys + 0x200000"] assms(3) walk
        unfolding Suc mapped(1)
        by (auto simp: edit_huge_Suc algebra_simps simp del: map_huge_pages_n.simps cong: if_cong)
    qed
  qed
qed

lemma map_huge_pages_add:
  "map_huge_pages_n (a + b) alloc r v phys perms s =
     rbind (map_huge_pages_n a alloc r v phys perms s) (\<lambda>(_, s').
       map_huge_pages_n b alloc r (v + of_nat a * 0x200000) (phys + of_nat a * 0x200000) perms s')"
proof (induction a arbitrary: v phys s)
  case (Suc a)
  show ?case
    unfolding add_Suc map_huge_pages_n.simps Let_def rbind_assoc Suc.IH
    by (intro arg_cong2 [where f = rbind] refl ext)
      (auto simp: rbind_assoc split_def algebra_simps intro!: arg_cong2 [where f = rbind])
qed simp

lemma gigabyte_path:
  assumes "aligned 30 v" "k < 512"
  shows "path_to_pd (v + of_nat k * 0x200000) = path_to_pd v"
proof -
  obtain q where q: "unat v = 0x40000000 * q" using assms(1) by (auto simp: aligned_def)
  have "unat v < 2 ^ 64" using unat_u64_less [of v] by simp
  then have q64: "q < 2 ^ 34" unfolding q by simp
  have u: "unat (of_nat k * 0x200000 :: u64) = k * 0x200000"
    using assms(2) by (subst unat_mult_u64) (simp_all add: unat_of_nat)
  have "unat (v + of_nat k * 0x200000) = 0x40000000 * q + k * 0x200000"
    using q64 assms(2) by (subst unat_add_u64) (simp_all add: u q)
  then have "unat (v + of_nat k * 0x200000) div 0x40000000 = unat v div 0x40000000"
    using assms(2) q by simp
  then have eq: "drop_bit 30 (v + of_nat k * 0x200000) = drop_bit 30 v"
    by (simp add: word_unat_eq_iff unsigned_drop_bit_eq drop_bit_eq_div unat_div)
  moreover have "drop_bit 39 w = drop_bit 9 (drop_bit 30 w)" for w :: u64 by simp
  ultimately have "drop_bit 39 (v + of_nat k * 0x200000) = drop_bit 39 v" by metis
  then show ?thesis using eq by (simp add: path_to_pd_def virtual_to_entries_def)
qed

lemma map_gigabytes:
  assumes "vinv s r" "perms_ok perms" "512 * n \<le> 2 ^ 27" "can_alloc alloc (j + 2 * n) s" "aligned 30 v"
  shows "\<exists>s'. map_huge_pages_n (512 * n) alloc r v phys perms s = Inr (True, s') \<and> vinv s' r \<and>
      can_alloc alloc j s' \<and> tree_walk (ram s') r
        = edit_range 21 v (512 * n) (\<lambda>k _. Page2M (huge_entry (phys + of_nat k * 0x200000) perms))
            (tree_walk (ram s) r)"
  using assms
proof (induction n arbitrary: s v phys)
  case 0
  then show ?case by simp
next
  case (Suc n)
  have can: "can_alloc alloc ((j + 2 * n) + 2) s" using Suc.prems(4) by simp
  obtain s1 where s1: "map_huge_pages_n 512 alloc r v phys perms s = Inr (True, s1)" "vinv s1 r"
    "can_alloc alloc (j + 2 * n) s1" "tree_walk (ram s1) r
      = edit_range 21 v 512 (\<lambda>k _. Page2M (huge_entry (phys + of_nat k * 0x200000) perms)) (tree_walk (ram s) r)"
    using map_huge_pages_chunk [OF Suc.prems(1,2) _ can, of 512 v phys] gigabyte_path [OF Suc.prems(5)] by auto
  have al: "aligned 30 (v + of_nat 512 * 0x200000)"
    using Suc.prems(5) by (intro aligned_add) (simp_all add: aligned_def)
  obtain s2 where s2:
    "map_huge_pages_n (512 * n) alloc r (v + of_nat 512 * 0x200000) (phys + of_nat 512 * 0x200000) perms s1
       = Inr (True, s2)" "vinv s2 r" "can_alloc alloc j s2"
    "tree_walk (ram s2) r = edit_range 21 (v + of_nat 512 * 0x200000) (512 * n)
       (\<lambda>k _. Page2M (huge_entry (phys + of_nat 512 * 0x200000 + of_nat k * 0x200000) perms)) (tree_walk (ram s1) r)"
    using Suc.IH [OF s1(2) Suc.prems(2) _ s1(3) al, of "phys + of_nat 512 * 0x200000"] Suc.prems(3) by auto
  have "map_huge_pages_n (512 * Suc n) alloc r v phys perms s = Inr (True, s2)"
    unfolding mult_Suc_right map_huge_pages_add s1(1) using s2(1) by simp
  moreover have "edit_range 21 v (512 * Suc n) (\<lambda>k _. Page2M (huge_entry (phys + of_nat k * 0x200000) perms)) (tree_walk (ram s) r)
      = tree_walk (ram s2) r"
    using edit_range_add [of 21 512 "512 * n" v] Suc.prems(3)
    by (simp add: s2(4) s1(4) algebra_simps)
  ultimately show ?case using s2(2,3) by simp
qed

text \<open>The page-table code never moves the records of the allocator.\<close>

lemma get_or_alloc_ent_own: "get_or_alloc_ent alloc tab i perms s = Inr (p, s') \<Longrightarrow> own s' = own s"
  by (auto simp: get_or_alloc_ent_def rbind_eq_Inr Let_def set_ent_def own_ram dest: alloc_own split: if_splits)

lemma map_huge_pages_n_own: "map_huge_pages_n n alloc r v phys perms s = Inr (b, s') \<Longrightarrow> own s' = own s"
proof (induction n arbitrary: v phys s)
  case (Suc n)
  then show ?case
    by (auto simp: rbind_eq_Inr Let_def put_ent_def set_ent_def own_ram dest!: get_or_alloc_ent_own split: if_splits)
qed simp

text \<open>A fresh, cleared root maps nothing.\<close>

lemma fresh_root:
  assumes "wf s" "alloc s = Inr (p, s1)" "p \<noteq> 0"
  shows fresh_root_inv: "vinv (s1\<lparr>ram := memset (ram s1) p 0 4096\<rparr>) p"
    and fresh_root_walk: "tree_walk (memset (ram s1) p 0 4096) p v = Unmapped"
    and fresh_root_frames: "table_frames (memset (ram s1) p 0 4096) p = {p}"
proof -
  let ?m = "memset (ram s1) p 0 4096"
  have p: "frame_ok p" using alloc_frame_ok assms by blast
  have none: "table_at ?m p (i # q) = None" if "valid_path (i # q)" for i q
    using that
  proof (induction q arbitrary: i)
    case Nil
    then show ?case using p by (simp add: valid_path_Cons next_table_def load64_memset_zero_inside frame_ok_def entry_frame_def)
  next
    case (Cons j q)
    then have "table_at ?m p (j # q) = None" by (simp add: valid_path_Cons del: table_at.simps)
    then show ?case by simp
  qed
  have only: "q = [] \<and> f = p" if "valid_path q" "table_at ?m p q = Some f" for q f
    using that none by (cases q) auto
  have frames: "table_frames ?m p = {p}"
    using only table_framesI [OF valid_path_Nil, of ?m p p] by (auto simp: table_frames_def)
  have tree: "tree_ok ?m p"
  proof (rule tree_okI)
    show "frame_ok f" if "valid_path q" "table_at ?m p q = Some f" for q f
      using only [OF that] p by simp
    show "q = q'" if "valid_path q" "valid_path q'" "table_at ?m p q = Some f" "table_at ?m p q' = Some f" for q q' f
      using only [OF that(1,3)] only [OF that(2,4)] by simp
    show "entry_ok (length q) (load64 ?m (t + 8 * i))"
      if "valid_path q" "length q < 3" "table_at ?m p q = Some t" "i < 512" for q t i
      using only [OF that(1,3)] that(4) p
      by (simp add: load64_memset_zero_inside frame_ok_def entry_ok_def entry_frame_def)
  qed
  have keep: "?m x = ram s1 x" if "own s1 x" for x
    using that alloc_own [OF assms(2)] alloc_not_own [OF assms] page_byte [of p x] p
    by (auto simp: frame_ok_def memset_eq in_range_def word_less_nat_alt)
  have "wf (s1\<lparr>ram := ?m\<rparr>) \<and> used (s1\<lparr>ram := ?m\<rparr>) = used s1"
    using keep alloc_wf [OF assms(1,2)] by (intro used_ram)
  then show "vinv (s1\<lparr>ram := ?m\<rparr>) p"
    using tree frames alloc_marks [OF assms] alloc_not_own [OF assms] alloc_own [OF assms(2)]
    by (auto simp: vmm_inv_def own_ram)
  have "table_at ?m p (path_to_pd v) = None"
    using none valid_paths(1) [of v] by (simp add: path_to_pd_def del: table_at.simps)
  then show "tree_walk ?m p v = Unmapped" by (simp add: tree_walk_def)
  show "table_frames ?m p = {p}" by (rule frames)
qed

end

end
