(* ===== verification/VmmSafety.thy ===== *)
theory VmmSafety
  imports PmmSafety VmmMap
begin

text \<open>
  The properties of the virtual memory manager running on the physical memory manager: the
  lemmas of \<open>VmmMap\<close> through the interpretation \<open>pmm\<close> of the allocator interface, stated over
  the walk \<open>hw_walk\<close> of the processor.
\<close>

unbundle bit_operations_syntax

section \<open>The invariant with the physical memory manager\<close>

abbreviation space_ok :: "'a pmm_state_scheme \<Rightarrow> u64 \<Rightarrow> bool" where
  "space_ok \<equiv> vmm_inv pmm_wf pmm_used pmm_own"

lemma space_walk: "space_ok s r \<Longrightarrow> hw_walk (ram s) r v = tree_walk (ram s) r v"
  by (simp add: vmm_inv_def hw_walk_tree)

lemma space_walk_fun: "space_ok s r \<Longrightarrow> hw_walk (ram s) r = tree_walk (ram s) r"
  by (simp add: fun_eq_iff space_walk)

text \<open>Allocations from a manager whose first pages are taken and whose other pages, at most 32 of
  them, are free.\<close>

lemma pmm_alloc_prefix:
  fixes s :: "'a pmm_state_scheme"
  assumes wf: "pmm_wf s" and len: "8192 \<le> bitmap_len s" "bitmap_len s \<le> 8224" and j: "8192 \<le> j"
    and marks: "\<And>i. 8192 \<le> i \<Longrightarrow> i < bitmap_len s \<Longrightarrow> page_marked s i \<longleftrightarrow> i < j"
    and room: "unat j + unat c \<le> unat (bitmap_len s)" and c: "c \<noteq> 0"
  shows prefix_run: "pmm_alloc c s = Inr (j * page_size, pmm_take j c s)"
    and prefix_marks: "8192 \<le> i \<Longrightarrow> i < bitmap_len s \<Longrightarrow> page_marked (pmm_take j c s) i \<longleftrightarrow> i < j + c"
    and prefix_not_null: "j * page_size \<noteq> 0"
proof -
  have c0: "0 < unat c" using c by (simp add: unat_gt_0)
  have jl: "j < bitmap_len s" using room c0 by (simp add: word_less_nat_alt)
  have page: "unat (j + of_nat k) = unat j + k" "8192 \<le> j + of_nat k" "j + of_nat k < bitmap_len s"
    if "k < unat c" for k
  proof -
    have k: "unat (of_nat k :: u64) = k" using that unat_u64_less [of c] by (simp add: unat_of_nat)
    show u: "unat (j + of_nat k) = unat j + k"
      using that room k unat_u64_less [of "bitmap_len s"] by (subst unat_add_u64) simp_all
    show "8192 \<le> j + of_nat k" "j + of_nat k < bitmap_len s"
      using u j room that by (simp_all add: word_le_nat_alt word_less_nat_alt)
  qed
  have free: "bitmap_is_free (ram s) (bitmap s) j c"
    using marks page by (auto simp: bitmap_is_free_iff page_marked_def word_less_nat_alt)
  have taken: "\<not> bitmap_is_free (ram s) (bitmap s) i c" if "8192 \<le> i" "i < j" for i
    using marks [of i] that jl c0
    by (auto simp: bitmap_is_free_iff page_marked_def intro!: exI [of _ 0])
  show "pmm_alloc c s = Inr (j * page_size, pmm_take j c s)"
  proof -
    obtain p s' where run: "pmm_alloc c s = Inr (p, s')" using pmm_alloc_returns by blast
    from run show ?thesis
    proof (cases rule: pmm_alloc_cases)
      case exhausted
      then show ?thesis using free j jl by (simp add: first_page_eq)
    next
      case (found idx)
      have "\<not> idx < j" "\<not> j < idx" using found taken free j by (auto simp: first_page_eq)
      then show ?thesis using run found by simp
    qed
  qed
  show "j * page_size \<noteq> 0"
  proof -
    have "j * page_size div page_size = j" using page_div [OF jl wf] .
    then show ?thesis using j by (auto simp: word_le_nat_alt)
  qed
  show "page_marked (pmm_take j c s) i \<longleftrightarrow> i < j + c" if i: "8192 \<le> i" "i < bitmap_len s"
  proof -
    have slots: "slot q = slot i \<longleftrightarrow> q = i" if "8192 \<le> q" "q < bitmap_len s" for q
    proof -
      have range: "8192 \<le> unat i" "unat i < 8224" "8192 \<le> unat q" "unat q < 8224"
        using that i len(2) by (simp_all add: word_le_nat_alt word_less_nat_alt)
      then have "unat i mod 32 = unat i - 8192" "unat q mod 32 = unat q - 8192"
        by (simp_all add: mod_nat_eqI)
      then show ?thesis using range by (auto simp: slot_def word_unat_eq_iff unat_div)
    qed
    have sum: "unat (j + c) = unat j + unat c"
      using room unat_u64_less [of "bitmap_len s"] by (subst unat_add_u64) simp_all
    have "(\<exists>k < unat c. slot (j + of_nat k) = slot i) \<longleftrightarrow> (\<exists>k < unat c. unat i = unat j + k)"
      using slots page by (metis word_unat_eq_iff)
    also have "\<dots> \<longleftrightarrow> unat j \<le> unat i \<and> unat i < unat j + unat c"
      by (auto intro!: exI [of _ "unat i - unat j"])
    finally show ?thesis
      using marks [OF i] page_marked_take [OF pmm_wf_aligned [OF wf], of j c i] sum
      by (auto simp: word_less_nat_alt)
  qed
qed

lemma can_alloc_prefix:
  assumes "pmm_wf s" "8192 \<le> bitmap_len s" "bitmap_len s \<le> 8224" "8192 \<le> j"
    and "\<And>i. 8192 \<le> i \<Longrightarrow> i < bitmap_len s \<Longrightarrow> page_marked s i \<longleftrightarrow> i < j"
    and "unat j + n \<le> unat (bitmap_len s)"
  shows "can_alloc (pmm_alloc 1) n s"
  using assms
proof (induction n arbitrary: s j)
  case (Suc n)
  have room: "unat j + unat (1 :: u64) \<le> unat (bitmap_len s)" using Suc.prems(6) by simp
  note step = pmm_alloc_prefix [OF Suc.prems(1-5) room one_neq_zero]
  have u: "unat (j + 1) = unat j + 1"
    using word_Suc_le [of j "bitmap_len s"] Suc.prems(6) by (simp add: word_less_nat_alt)
  have "can_alloc (pmm_alloc 1) n (pmm_take j 1 s)"
  proof (rule Suc.IH [of _ "j + 1"])
    show "page_marked (pmm_take j 1 s) i \<longleftrightarrow> i < j + 1" if "8192 \<le> i" "i < bitmap_len (pmm_take j 1 s)" for i
      using step(2) [of i] that by simp
  qed (use Suc.prems u in \<open>auto simp: pmm_wf_take word_le_nat_alt\<close>)
  then show ?case using step(1,3) by (simp add: can_alloc.simps)
qed simp

lemma small_pmm_group:
  assumes "8192 \<le> i" "i < n" "n \<le> 8224"
  shows "page_marked small_pmm i \<longleftrightarrow> i < 8193"
proof -
  have i: "8192 \<le> i" "i < 8224" using assms by auto
  then have "unat i div 64 = 128" by (simp add: word_le_nat_alt word_less_nat_alt)
  then have off: "i div 64 = 128" by (simp add: word_unat_eq_iff unat_div)
  have "unat i mod 32 = unat i - 8192"
    using i by (simp add: word_le_nat_alt word_less_nat_alt mod_nat_eqI)
  then show ?thesis
    using i unfolding page_marked_def bit_read_iff off small_pmm_word
    by (auto simp: bit_1_iff word_le_nat_alt word_less_nat_alt word_unat_eq_iff
        dest!: spec [of _ "unat i - 8192"])
qed

text \<open>Concrete address spaces: an empty root on the first page that \<open>small_pmm\<close> hands out, and the
  same on a manager with a single free page.\<close>

definition small_root :: u64 where "small_root = 0x2001000"

definition tiny_pmm :: pmm_state where
  "tiny_pmm = small_pmm\<lparr>bitmap_len := 8194\<rparr>"

definition fresh_space :: "'a pmm_state_scheme \<Rightarrow> 'a pmm_state_scheme" where
  "fresh_space s0 = (case pmm_alloc 1 s0 of
     Inl _ \<Rightarrow> s0
   | Inr (p, s) \<Rightarrow> s\<lparr>ram := memset (ram s) p 0 4096\<rparr>)"

lemma small_root_neq_0 [simp]: "small_root \<noteq> 0"
  by (simp add: small_root_def)

lemma aligned_small_root [simp]: "aligned 12 small_root"
  by (simp add: small_root_def aligned_def)

lemma tiny_pmm_wf: "pmm_wf tiny_pmm"
proof (rule pmm_wf_marked_bitmap)
  show "page_marked tiny_pmm (first_page + of_nat k)"
    if "k < unat (bitmap_pages (bitmap_len tiny_pmm))" for k
    using that small_pmm_marked [of 8192]
    by (simp add: first_page_eq small_pmm_def tiny_pmm_def bitmap_pages_def mm_consts page_marked_def)
qed (simp_all add: small_pmm_def tiny_pmm_def bitmap_fits_def)

lemma fresh_space_ok:
  assumes "pmm_wf s0" "returned (pmm_alloc 1 s0) = Some small_root"
  shows "space_ok (fresh_space s0) small_root"
    and "hw_walk (ram (fresh_space s0)) small_root v = Unmapped"
proof -
  obtain s where s: "pmm_alloc 1 s0 = Inr (small_root, s)" using assms(2) by (auto simp: returned_eq_Some)
  then have f: "fresh_space s0 = s\<lparr>ram := memset (ram s) small_root 0 4096\<rparr>" by (simp add: fresh_space_def)
  show ok: "space_ok (fresh_space s0) small_root"
    using pmm.fresh_root_inv [OF assms(1) s] by (simp add: f)
  show "hw_walk (ram (fresh_space s0)) small_root v = Unmapped"
    using space_walk [OF ok] pmm.fresh_root_walk [OF assms(1) s] by (simp add: f)
qed

lemma fresh_space_no_table:
  assumes "pmm_wf s0" "returned (pmm_alloc 1 s0) = Some small_root"
  shows "table_at (ram (fresh_space s0)) small_root (path_to_pt v) = None"
proof -
  obtain s where s: "pmm_alloc 1 s0 = Inr (small_root, s)" using assms(2) by (auto simp: returned_eq_Some)
  then have "load64 (ram (fresh_space s0)) (small_root + 8 * pml4_idx (virtual_to_entries v)) = 0"
    by (simp add: fresh_space_def load64_memset_zero_inside)
  then show ?thesis by (simp add: path_to_pt_def path_to_pd_def next_table_def entry_frame_def)
qed

text \<open>Clearing the root leaves the records of the manager alone.\<close>

lemma fresh_space_keeps:
  assumes "pmm_wf s0" "pmm_alloc 1 s0 = Inr (small_root, s)" "pmm_own s x"
  shows "memset (ram s) small_root 0 4096 x = ram s x"
proof -
  have "pmm_own s0 x" using assms(3) pmm.alloc_own [OF assms(2)] by simp
  then have "x div 4096 \<noteq> small_root div 4096"
    using pmm.alloc_not_own [OF assms(1,2)] by auto
  then have "\<not> in_range x small_root 4096" using page_byte [of small_root x] by simp
  then show ?thesis by (simp add: memset_eq in_range_def word_less_nat_alt)
qed

lemma fresh_space_can_alloc:
  assumes "pmm_wf s0" "returned (pmm_alloc 1 s0) = Some small_root" "can_alloc (pmm_alloc 1) (Suc n) s0"
  shows "can_alloc (pmm_alloc 1) n (fresh_space s0)"
proof -
  obtain s where s: "pmm_alloc 1 s0 = Inr (small_root, s)" using assms(2) by (auto simp: returned_eq_Some)
  have "can_alloc (pmm_alloc 1) n s" using assms(3) s by (simp add: can_alloc.simps)
  then show ?thesis
    using fresh_space_keeps [OF assms(1) s] pmm.alloc_wf [OF assms(1) s] s
    by (simp add: fresh_space_def pmm.can_alloc_ram)
qed

lemma small_root_first:
  "returned (pmm_alloc 1 small_pmm) = Some small_root" "returned (pmm_alloc 1 tiny_pmm) = Some small_root"
  unfolding small_root_def by code_simp+

abbreviation small_space :: pmm_state where
  "small_space \<equiv> fresh_space small_pmm"

lemmas small_space_ok = fresh_space_ok(1) [OF small_pmm_wf small_root_first(1)]
lemmas small_space_unmapped = fresh_space_ok(2) [OF small_pmm_wf small_root_first(1)]
lemmas tiny_space_ok = fresh_space_ok(1) [OF tiny_pmm_wf small_root_first(2)]

lemma small_space_can_alloc: "can_alloc (pmm_alloc 1) 6 small_space"
proof (rule fresh_space_can_alloc [OF small_pmm_wf small_root_first(1)])
  have len: "bitmap_len small_pmm = 8200" by (simp add: small_pmm_def)
  show "can_alloc (pmm_alloc 1) (Suc 6) small_pmm"
    by (rule can_alloc_prefix [OF small_pmm_wf, of 8193])
      (auto simp: len small_pmm_marked word_le_nat_alt word_less_nat_alt word_unat_eq_iff)
qed

lemma tiny_space_exhausted: "pmm_alloc 1 (fresh_space tiny_pmm) = Inr (0, fresh_space tiny_pmm)"
proof -
  have "returned (rbind (pmm_alloc 1 tiny_pmm) (\<lambda>(p, s). pmm_alloc 1 s)) = Some 0" by code_simp
  then obtain s s1 where s: "pmm_alloc 1 tiny_pmm = Inr (small_root, s)" "pmm_alloc 1 s = Inr (0, s1)"
    using small_root_first(2) by (auto simp: returned_eq_Some)
  then have "\<exists>m'. pmm_alloc 1 (s\<lparr>ram := memset (ram s) small_root 0 4096\<rparr>) = Inr (0, s1\<lparr>ram := m'\<rparr>)"
    using pmm.alloc_local [OF pmm.alloc_wf [OF tiny_pmm_wf s(1)] fresh_space_keeps [OF tiny_pmm_wf s(1)] s(2)]
    by blast
  then obtain t where "pmm_alloc 1 (fresh_space tiny_pmm) = Inr (0, t)"
    using s(1) by (auto simp: fresh_space_def)
  then show ?thesis using pmm.alloc_null tiny_space_ok by (auto simp: vmm_inv_def)
qed

section \<open>Mapping\<close>

lemma map_pages_correct:
  fixes s :: "'a pmm_state_scheme"
  assumes "space_ok s r" "perms_ok perms" "unat count \<le> 2 ^ 36"
    and "\<And>k e. k < unat count \<Longrightarrow> hw_walk (ram s) r (virt + of_nat k * 4096) \<noteq> Page2M e"
  shows "(map_pages (pmm_alloc 1) r virt phys count perms s = Inl NullDeref \<and>
        \<not> can_alloc (pmm_alloc 1) (3 * unat count) s) \<or>
    (\<exists>s'. map_pages (pmm_alloc 1) r virt phys count perms s = Inr (True, s') \<and> space_ok s' r \<and>
      pmm.grows s s' r \<and>
      hw_walk (ram s') r = edit_range 12 virt (unat count)
        (\<lambda>k _. Page4K (leaf_entry (phys + of_nat k * 4096) perms)) (hw_walk (ram s) r))"
proof -
  have nl: "\<And>k e. k < unat count \<Longrightarrow> tree_walk (ram s) r (virt + of_nat k * 4096) \<noteq> Page2M e"
    using assms(4) by (simp add: space_walk [OF assms(1)])
  have eq: "hw_walk (ram t) r = tree_walk (ram t) r" if "space_ok t r" for t :: "'a pmm_state_scheme"
    using space_walk [OF that] by blast
  show ?thesis
    using pmm.map_pages_n_correct [OF assms(1-3) nl, of phys] eq assms(1)
    by (auto simp: map_pages_def)
qed

text \<open>C6: mapping \<open>count\<close> pages with enough free pages for the tables succeeds; afterwards the
  processor translates the pages at \<open>virt\<close>, one after the other, to the frames at \<open>phys\<close> with the
  given permissions, every other address translates as before, and the invariant holds again. The
  pages must not lie under a large page.\<close>

theorem map_pages_translates:
  fixes s :: "'a pmm_state_scheme"
  assumes "space_ok s r" and "perms_ok perms" and "unat count \<le> 2 ^ 36"
    and "\<And>k e. k < unat count \<Longrightarrow> hw_walk (ram s) r (virt + of_nat k * 4096) \<noteq> Page2M e"
    and "can_alloc (pmm_alloc 1) (3 * unat count) s"
  shows "\<exists>s'. map_pages (pmm_alloc 1) r virt phys count perms s = Inr (True, s') \<and> space_ok s' r \<and>
    hw_walk (ram s') r = edit_range 12 virt (unat count)
      (\<lambda>k _. Page4K (leaf_entry (phys + of_nat k * 4096) perms)) (hw_walk (ram s) r)"
  using map_pages_correct [OF assms(1-4)] assms(5) by auto

theorem map_pages_translates_witness:
  "\<exists>s'. map_pages (pmm_alloc 1) small_root 0x400000 0x9000000 2 7 small_space = Inr (True, s') \<and>
     hw_walk (ram s') small_root 0x401234 = Page4K 0x9001007"
proof -
  have "unat (2 :: u64) = 2" by simp
  then obtain s' where s': "map_pages (pmm_alloc 1) small_root 0x400000 0x9000000 2 7 small_space = Inr (True, s')"
    "hw_walk (ram s') small_root = edit_range 12 0x400000 2
      (\<lambda>k _. Page4K (leaf_entry (0x9000000 + of_nat k * 4096) 7)) (hw_walk (ram small_space) small_root)"
    using map_pages_translates [OF small_space_ok, where perms = 7 and count = 2 and virt = "0x400000" and phys = "0x9000000"] small_space_unmapped
      small_space_can_alloc by (auto simp: perms_ok_def)
  moreover have "steps 12 0x400000 0x401234 = 1" by code_simp
  moreover have "leaf_entry (0x9000000 + 4096) 7 = 0x9001007" by code_simp
  ultimately show ?thesis by (simp add: edit_range_def)
qed

lemma map_pages_n_true: "map_pages_n n alloc r virt phys perms s = Inr (b, s') \<Longrightarrow> b"
  by (induction n arbitrary: virt phys s) (auto simp: Let_def rbind_eq_Inr)

text \<open>C7: \<open>map_pages\<close> never returns false, for no state and no arguments. When the first level has
  no table for the address and the physical memory manager no page left, it stores through a null
  table pointer instead of reporting the failure.\<close>

theorem map_pages_out_of_memory:
  fixes s :: "'a pmm_state_scheme"
  assumes "space_ok s r" and "pmm_alloc 1 s = Inr (0, s)" and "count \<noteq> 0"
    and "entry_frame (load64 (ram s) (r + 8 * hw_index 3 virt)) = 0"
  shows "map_pages (pmm_alloc 1) r virt phys count perms s = Inl NullDeref \<and>
    (\<forall>n (t :: 'a pmm_state_scheme) t'. map_pages (pmm_alloc 1) r virt phys n perms t \<noteq> Inr (False, t'))"
proof -
  obtain n where n: "unat count = Suc n" using assms(3) by (cases "unat count") (auto simp: unat_eq_zero)
  have "r + virtual_physical_base \<noteq> 0"
    using pmm.inv_table(1) [OF assms(1) valid_path_Nil, of r] by (intro table_pointer_not_null) simp
  then have "get_or_alloc_ent (pmm_alloc 1) (r + virtual_physical_base) (pml4_idx (virtual_to_entries virt)) perms s
      = Inr (0, set_ent (r + virtual_physical_base) (pml4_idx (virtual_to_entries virt)) 0 s)"
    using assms(2,4) by (simp add: get_or_alloc_ent_def entry_frame_def hw_index_entries)
  then have "map_pages (pmm_alloc 1) r virt phys count perms s = Inl NullDeref"
    by (simp add: map_pages_def n Let_def pmm.put_null)
  then show ?thesis using map_pages_n_true by (auto simp: map_pages_def)
qed

theorem map_pages_out_of_memory_witness:
  "map_pages (pmm_alloc 1) small_root 0x400000 0x9000000 1 7 (fresh_space tiny_pmm) = Inl NullDeref"
proof -
  have "entry_frame (load64 (ram (fresh_space tiny_pmm)) (small_root + 8 * hw_index 3 0x400000)) = 0"
  proof -
    obtain s where s: "pmm_alloc 1 tiny_pmm = Inr (small_root, s)"
      using small_root_first(2) by (auto simp: returned_eq_Some)
    show ?thesis
      using load64_memset_zero_inside [of small_root "hw_index 3 0x400000" "ram s"] s
      by (simp add: fresh_space_def hw_index_entries entry_frame_def)
  qed
  from map_pages_out_of_memory [OF tiny_space_ok tiny_space_exhausted _ this] show ?thesis by simp
qed

section \<open>Unmapping, permissions and lookup\<close>

text \<open>C8: \<open>unmap_pages\<close> always returns. It unmaps the pages in order and stops at the first one
  that no page table covers; its result is true exactly when it went through all of them, and no
  other address changes.\<close>

theorem unmap_pages_prefix:
  fixes s :: "'a pmm_state_scheme"
  assumes "space_ok s r" and "unat count \<le> 2 ^ 36"
    and "\<And>k e. k < unat count \<Longrightarrow> hw_walk (ram s) r (virt + of_nat k * 4096) \<noteq> Page2M e"
  shows "\<exists>j s'. j \<le> unat count \<and> unmap_pages r virt count s = Inr (j = unat count, s') \<and> space_ok s' r \<and>
    hw_walk (ram s') r = edit_range 12 virt j (\<lambda>_ _. Unmapped) (hw_walk (ram s) r) \<and>
    (\<forall>k < j. table_at (ram s) r (path_to_pt (virt + of_nat k * 4096)) \<noteq> None) \<and>
    (j < unat count \<longrightarrow> table_at (ram s) r (path_to_pt (virt + of_nat j * 4096)) = None)"
proof -
  have nl: "\<And>k e. k < unat count \<Longrightarrow> tree_walk (ram s) r (virt + of_nat k * 4096) \<noteq> Page2M e"
    using assms(3) by (simp add: space_walk [OF assms(1)])
  show ?thesis
    using pmm.unmap_pages_n_correct [OF assms(1,2) nl]
    unfolding unmap_pages_def space_walk_fun [OF assms(1)] by (metis space_walk_fun)
qed

theorem unmap_pages_prefix_witness:
  "\<exists>s'. unmap_pages small_root 0x400000 1 small_space = Inr (False, s')"
  using unmap_pages_prefix [OF small_space_ok, of 1 "0x400000"] small_space_unmapped
    fresh_space_no_table [OF small_pmm_wf small_root_first(1), of "0x400000"]
  by (auto simp: less_Suc_eq)

text \<open>On mapped pages \<open>update_perms\<close> succeeds, keeps every frame and replaces the flags.\<close>

theorem update_perms_keeps_frames:
  fixes s :: "'a pmm_state_scheme"
  assumes "space_ok s r" and "unat count \<le> 2 ^ 36"
    and "\<And>k. k < unat count \<Longrightarrow> \<exists>e. hw_walk (ram s) r (virt + of_nat k * 4096) = Page4K e"
  shows "\<exists>s'. update_perms r virt count perms s = Inr (True, s') \<and> space_ok s' r \<and>
    hw_walk (ram s') r = edit_range 12 virt (unat count) (\<lambda>_. with_perms perms) (hw_walk (ram s) r)"
proof -
  have mapped: "\<And>k. k < unat count \<Longrightarrow> \<exists>e. tree_walk (ram s) r (virt + of_nat k * 4096) = Page4K e"
    using assms(3) by (simp add: space_walk [OF assms(1)])
  obtain s' where "update_perms_n (unat count) r virt perms s = Inr (True, s')" "space_ok s' r"
    "tree_walk (ram s') r = edit_range 12 virt (unat count) (\<lambda>_. with_perms perms) (tree_walk (ram s) r)"
    using pmm.update_perms_n_correct [OF assms(1,2) mapped, of perms] by auto
  then show ?thesis by (simp add: update_perms_def space_walk_fun assms(1))
qed

text \<open>The mapped space of the witnesses: one page at \<open>0x400000\<close>.\<close>

lemma small_mapped:
  obtains s where "map_pages (pmm_alloc 1) small_root 0x400000 0x9000000 1 7 small_space = Inr (True, s)"
    "space_ok s small_root" "hw_walk (ram s) small_root 0x400000 = Page4K 0x9000007"
proof -
  have "can_alloc (pmm_alloc 1) (3 * unat (1 :: u64)) small_space"
    by (rule can_alloc_mono [OF small_space_can_alloc]) simp
  then obtain s where s: "map_pages (pmm_alloc 1) small_root 0x400000 0x9000000 1 7 small_space = Inr (True, s)"
    "space_ok s small_root" "hw_walk (ram s) small_root = edit_range 12 0x400000 (unat (1 :: u64))
      (\<lambda>k _. Page4K (leaf_entry (0x9000000 + of_nat k * 4096) 7)) (hw_walk (ram small_space) small_root)"
    using map_pages_correct [OF small_space_ok, where perms = 7 and count = 1 and virt = "0x400000"
        and phys = "0x9000000"] small_space_unmapped
    by (auto simp: perms_ok_def simp del: can_alloc.simps)
  have "steps 12 0x400000 0x400000 = 0" by (simp add: steps_0)
  moreover have "leaf_entry 0x9000000 7 = 0x9000007" by code_simp
  ultimately show ?thesis using s that by (simp add: edit_range_def)
qed

theorem update_perms_keeps_frames_witness:
  "\<exists>(s :: pmm_state) s'. update_perms small_root 0x400000 1 3 s = Inr (True, s') \<and>
     hw_walk (ram s') small_root 0x400000 = Page4K 0x9000003"
proof -
  obtain s :: pmm_state where
    s: "space_ok s small_root" "hw_walk (ram s) small_root 0x400000 = Page4K 0x9000007"
    by (rule small_mapped)
  have "with_perms 3 (Page4K 0x9000007) = Page4K 0x9000003" by code_simp
  moreover have "steps 12 0x400000 0x400000 = 0" by (simp add: steps_0)
  moreover obtain s' where "update_perms small_root 0x400000 1 3 s = Inr (True, s')"
    "hw_walk (ram s') small_root = edit_range 12 0x400000 1 (\<lambda>_. with_perms 3) (hw_walk (ram s) small_root)"
    using update_perms_keeps_frames [OF s(1), of 1 "0x400000" 3] s(2) by auto
  ultimately have "update_perms small_root 0x400000 1 3 s = Inr (True, s') \<and>
      hw_walk (ram s') small_root 0x400000 = Page4K 0x9000003"
    using s(2) by (simp add: edit_range_def)
  then show ?thesis by blast
qed

text \<open>Below the direct map, \<open>get_entry\<close> returns the raw entry with which the processor's walk
  ends, or an entry that is not present when the address is not mapped.\<close>

theorem get_entry_agrees_with_walk:
  fixes s :: "'a pmm_state_scheme"
  assumes "space_ok s r" and "\<And>e. hw_walk (ram s) r virt \<noteq> Page2M e" and "virt < 0xFFFF800000000000"
  shows "\<exists>e. get_entry r virt s = Inr e \<and> hw_walk (ram s) r virt = (if bit e 0 then Page4K e else Unmapped)"
  using pmm.get_entry_walk [OF assms(1) _ assms(3)] assms(2) by (simp add: space_walk [OF assms(1)])

theorem get_entry_agrees_with_walk_witness:
  "\<exists>s :: pmm_state. get_entry small_root 0x400000 s = Inr 0x9000007"
proof -
  obtain s :: pmm_state where
    s: "space_ok s small_root" "hw_walk (ram s) small_root 0x400000 = Page4K 0x9000007"
    by (rule small_mapped)
  have "\<exists>e. get_entry small_root 0x400000 s = Inr e \<and>
      hw_walk (ram s) small_root 0x400000 = (if bit e 0 then Page4K e else Unmapped)"
    by (rule get_entry_agrees_with_walk [OF s(1)]) (simp_all add: s(2))
  then show ?thesis using s(2) by (auto split: if_splits)
qed

section \<open>New address spaces\<close>

lemma new_address_space_room:
  fixes s :: "'a pmm_state_scheme"
  assumes "pmm_wf s" and "can_alloc (pmm_alloc 1) (j + 11) s"
  shows "\<exists>p s'. new_address_space (pmm_alloc 1) s = Inr (p, s') \<and> space_ok s' p \<and>
    can_alloc (pmm_alloc 1) j s' \<and> hw_walk (ram s') p =
      edit_range 21 virtual_physical_base 2048 (\<lambda>k _. Page2M (huge_entry (of_nat k * 0x200000) 3))
        (edit_range 21 virtual_kernel_base 64 (\<lambda>k _. Page2M (huge_entry (of_nat k * 0x200000) 3))
          (\<lambda>_. Unmapped))"
proof -
  have "j + 11 = Suc ((j + 8) + 2)" by simp
  with assms(2) have "can_alloc (pmm_alloc 1) (Suc ((j + 8) + 2)) s" by (simp only:)
  then obtain p s1 where p: "pmm_alloc 1 s = Inr (p, s1)" "p \<noteq> 0" "can_alloc (pmm_alloc 1) ((j + 8) + 2) s1"
    unfolding can_alloc.simps by (auto split: sum.splits)
  define s2 where "s2 = s1\<lparr>ram := memset (ram s1) p 0 4096\<rparr>"
  have inv2: "space_ok s2 p" using pmm.fresh_root_inv [OF assms(1) p(1,2)] by (simp add: s2_def)
  have walk2: "tree_walk (ram s2) p = (\<lambda>_. Unmapped)"
    using pmm.fresh_root_walk [OF assms(1) p(1,2)] by (auto simp: s2_def)
  have "memset (ram s1) p 0 4096 x = ram s1 x" if "pmm_own s1 x" for x
  proof -
    have "pmm_own s x" using that pmm.alloc_own [OF p(1)] by simp
    then have "\<not> in_range x p 4096"
      using pmm.alloc_not_own [OF assms(1) p(1,2)] page_byte [of p x] pmm.alloc_aligned [OF assms(1) p(1)] by auto
    then show ?thesis by (simp add: memset_eq in_range_def word_less_nat_alt)
  qed
  then have can2: "can_alloc (pmm_alloc 1) ((j + 8) + 2) s2"
    using p(3) pmm.alloc_wf [OF assms(1) p(1)] unfolding s2_def by (intro pmm.can_alloc_ram)
  have ok3: "perms_ok 3" by (simp add: perms_ok_def)
  have low: "path_to_pd (virtual_kernel_base + of_nat k * 0x200000) = path_to_pd virtual_kernel_base"
    if "k < 64" for k
    using that by (intro pmm.gigabyte_path) (simp_all add: aligned_def mm_consts)
  obtain s3 where s3: "map_huge_pages_n 64 (pmm_alloc 1) p virtual_kernel_base 0 3 s2 = Inr (True, s3)"
    "space_ok s3 p" "can_alloc (pmm_alloc 1) (j + 8) s3" "tree_walk (ram s3) p
      = edit_range 21 virtual_kernel_base 64 (\<lambda>k _. Page2M (huge_entry (0 + of_nat k * 0x200000) 3)) (tree_walk (ram s2) p)"
    using pmm.map_huge_pages_chunk [OF inv2 ok3 _ can2 low, where phys = 0 and n = 64] by auto
  have can3: "can_alloc (pmm_alloc 1) (j + 2 * 4) s3" using s3(3) by (simp add: add.commute)
  obtain s4 where s4: "map_huge_pages_n (512 * 4) (pmm_alloc 1) p virtual_physical_base 0 3 s3 = Inr (True, s4)"
    "space_ok s4 p" "can_alloc (pmm_alloc 1) j s4" "tree_walk (ram s4) p = edit_range 21 virtual_physical_base (512 * 4)
      (\<lambda>k _. Page2M (huge_entry (0 + of_nat k * 0x200000) 3)) (tree_walk (ram s3) p)"
    using pmm.map_gigabytes [OF s3(2) ok3 _ can3, of virtual_physical_base 0]
    by (auto simp: aligned_def mm_consts)
  have "new_address_space (pmm_alloc 1) s = Inr (p, s4)"
  proof -
    have lits: "0xFFFFFFFF80000000 = virtual_kernel_base" "0xFFFF800000000000 = virtual_physical_base"
      by (simp_all add: mm_consts)
    show ?thesis
      using p(1) s3(1) s4(1) unfolding new_address_space_def lits
      by (simp add: map_huge_pages_def Let_def s2_def)
  qed
  moreover have "hw_walk (ram s4) p =
      edit_range 21 virtual_physical_base 2048 (\<lambda>k _. Page2M (huge_entry (of_nat k * 0x200000) 3))
        (edit_range 21 virtual_kernel_base 64 (\<lambda>k _. Page2M (huge_entry (of_nat k * 0x200000) 3))
          (\<lambda>_. Unmapped))"
    unfolding space_walk_fun [OF s4(2)] s4(4) s3(4) walk2 by simp
  ultimately show ?thesis using s4(2,3) by blast
qed

lemma new_address_space_full:
  fixes s :: "'a pmm_state_scheme"
  assumes "pmm_wf s" and "can_alloc (pmm_alloc 1) 11 s"
  shows "\<exists>p s'. new_address_space (pmm_alloc 1) s = Inr (p, s') \<and> space_ok s' p \<and>
    hw_walk (ram s') p =
      edit_range 21 virtual_physical_base 2048 (\<lambda>k _. Page2M (huge_entry (of_nat k * 0x200000) 3))
        (edit_range 21 virtual_kernel_base 64 (\<lambda>k _. Page2M (huge_entry (of_nat k * 0x200000) 3))
          (\<lambda>_. Unmapped))"
  using new_address_space_room [of s 0] assms by auto

text \<open>C9: with eleven pages left, \<open>new_address_space\<close> succeeds: the new root maps the first
  128 MiB of memory at \<open>virtual_kernel_base\<close> and the first 4 GiB at \<open>virtual_physical_base\<close>, in
  large writable pages, and nothing else.\<close>

theorem new_address_space_maps:
  fixes s :: "'a pmm_state_scheme"
  assumes "pmm_wf s" and "can_alloc (pmm_alloc 1) 11 s"
  shows "\<exists>p s'. new_address_space (pmm_alloc 1) s = Inr (p, s') \<and> space_ok s' p \<and>
    hw_walk (ram s') p =
      edit_range 21 virtual_physical_base 2048 (\<lambda>k _. Page2M (huge_entry (of_nat k * 0x200000) 3))
        (edit_range 21 virtual_kernel_base 64 (\<lambda>k _. Page2M (huge_entry (of_nat k * 0x200000) 3))
          (\<lambda>_. Unmapped))"
  by (rule new_address_space_full [OF assms])

text \<open>A manager with seventeen free pages, for the witness.\<close>

definition medium_pmm :: pmm_state where
  "medium_pmm = small_pmm\<lparr>bitmap_len := 8210\<rparr>"

lemma medium_pmm_marked: "8192 \<le> i \<Longrightarrow> i < 8210 \<Longrightarrow> page_marked medium_pmm i \<longleftrightarrow> i < 8193"
  using small_pmm_group [of i 8210] by (simp add: page_marked_def medium_pmm_def)

lemma medium_pmm_wf: "pmm_wf medium_pmm"
proof (rule pmm_wf_marked_bitmap)
  show "page_marked medium_pmm (first_page + of_nat k)"
    if "k < unat (bitmap_pages (bitmap_len medium_pmm))" for k
    using that medium_pmm_marked [of 8192]
    by (simp add: first_page_eq small_pmm_def medium_pmm_def bitmap_pages_def mm_consts)
qed (simp_all add: small_pmm_def medium_pmm_def bitmap_fits_def)

lemma medium_pmm_can_alloc: "can_alloc (pmm_alloc 1) 11 medium_pmm"
proof -
  have len: "bitmap_len medium_pmm = 8210" by (simp add: medium_pmm_def)
  show ?thesis
    by (rule can_alloc_prefix [OF medium_pmm_wf, of 8193]) (simp_all add: len medium_pmm_marked)
qed

theorem new_address_space_maps_witness:
  "\<exists>p s'. new_address_space (pmm_alloc 1) medium_pmm = Inr (p, s') \<and>
     hw_walk (ram s') p 0x400000 = Unmapped"
proof -
  obtain p s' where run: "new_address_space (pmm_alloc 1) medium_pmm = Inr (p, s')"
    "hw_walk (ram s') p =
      edit_range 21 virtual_physical_base 2048 (\<lambda>k _. Page2M (huge_entry (of_nat k * 0x200000) 3))
        (edit_range 21 virtual_kernel_base 64 (\<lambda>k _. Page2M (huge_entry (of_nat k * 0x200000) 3))
          (\<lambda>_. Unmapped))"
    using new_address_space_maps [OF medium_pmm_wf medium_pmm_can_alloc] by blast
  have "\<not> steps 21 virtual_physical_base 0x400000 < 2048" "\<not> steps 21 virtual_kernel_base 0x400000 < 64"
    using int_steps [of 21 virtual_physical_base "0x400000"] int_steps [of 21 virtual_kernel_base "0x400000"]
    by (simp_all add: mm_consts)
  then have "hw_walk (ram s') p 0x400000 = Unmapped" by (simp add: run(2) edit_range_def)
  with run(1) show ?thesis by blast
qed

section \<open>The direct map\<close>

lemma direct_steps:
  assumes "unat x < 2 ^ 47"
  shows "steps 21 virtual_physical_base (x + virtual_physical_base) = unat x div 2 ^ 21"
    and "unat x < 0x7FFF80000000 \<Longrightarrow> 64 \<le> steps 21 virtual_kernel_base (x + virtual_physical_base)"
proof -
  have "unat (x + virtual_physical_base) = unat x + unat virtual_physical_base"
    using assms by (intro unat_add_u64) (simp add: mm_consts)
  then have "uint (x + virtual_physical_base) = uint x + uint virtual_physical_base"
    by (simp only: uint_nat of_nat_add)
  moreover have "uint virtual_physical_base = 0xFFFF800000000000" by (simp add: mm_consts)
  ultimately have u: "uint (x + virtual_physical_base) = uint x + 0xFFFF800000000000" by simp
  have ux: "uint x = int (unat x)" by (rule uint_nat)
  have x: "0 \<le> uint x" "uint x < 2 ^ 47" using assms unfolding ux by (simp, metis of_nat_less_numeral_power_cancel_iff)
  have q: "0 \<le> uint x div 2 ^ 21" using x(1) by (simp add: pos_imp_zdiv_nonneg_iff)
  have d: "uint (x + virtual_physical_base) div 2 ^ 21 = uint x div 2 ^ 21 + 0x7FFFC000000"
  proof -
    have "uint x + 0xFFFF800000000000 = uint x + 0x7FFFC000000 * 2 ^ 21" by simp
    then show ?thesis unfolding u by (simp only: div_mult_self1 power_not_zero zero_neq_numeral not_False_eq_True)
  qed
  have "int (steps 21 virtual_physical_base (x + virtual_physical_base)) = uint x div 2 ^ 21 mod 2 ^ 27"
    unfolding int_steps d by (simp add: mm_consts)
  also have "\<dots> = uint x div 2 ^ 21" using x q by (intro mod_pos_pos_trivial) auto
  also have "\<dots> = int (unat x div 2 ^ 21)" by (simp add: zdiv_int)
  finally show "steps 21 virtual_physical_base (x + virtual_physical_base) = unat x div 2 ^ 21"
    by (simp only: of_nat_eq_iff)
  assume "unat x < 0x7FFF80000000"
  then have "uint x \<le> 0x7FFF80000000 - 1" unfolding ux by linarith
  then have "uint x div 2 ^ 21 \<le> (0x7FFF80000000 - 1) div 2 ^ 21" by (rule zdiv_mono1) simp
  then have x': "uint x div 2 ^ 21 < 0x3FFFC00" by simp
  have "int (steps 21 virtual_kernel_base (x + virtual_physical_base)) = (uint x div 2 ^ 21 - 0x3FFFC00) mod 2 ^ 27"
    unfolding int_steps d by (simp add: mm_consts)
  also have "\<dots> = (uint x div 2 ^ 21 - 0x3FFFC00 + 2 ^ 27) mod 2 ^ 27"
    by (rule mod_add_self2 [symmetric])
  also have "\<dots> = uint x div 2 ^ 21 - 0x3FFFC00 + 2 ^ 27" using x q x' by (intro mod_pos_pos_trivial) auto
  finally show "64 \<le> steps 21 virtual_kernel_base (x + virtual_physical_base)" using q by simp
qed

lemma large_translate:
  assumes "unat x < 2 ^ 47" "take_bit 21 v = take_bit 21 x"
    and "hw_walk m r v = Page2M (huge_entry (of_nat (unat x div 2 ^ 21) * 0x200000) 3)"
  shows "hw_translate m r v = Some x"
proof -
  have frame: "of_nat (unat x div 2 ^ 21) * 0x200000 = push_bit 21 (drop_bit 21 x)"
  proof -
    have "of_nat (unat x div 2 ^ 21) = drop_bit 21 x"
    proof -
      have "unat (drop_bit 21 x) = unat x div 2 ^ 21" by (simp add: drop_bit_eq_div unat_div)
      then show ?thesis by (metis word_of_nat_eq_iff word_unat_eq_iff of_nat_unat ucast_id)
    qed
    then show ?thesis by (simp add: push_bit_eq_mult)
  qed
  have fl: "huge_entry f 3 = f OR 0x83" for f
    by (simp add: huge_entry_def flag_bits_def VMM_PRESENT_def VMM_LARGE_def)
  have low: "v AND 0x1FFFFF = take_bit 21 x"
    using assms(2) by (simp add: take_bit_eq_mask mask_eq_exp_minus_1)
  have mask: "(0x000FFFFFFFE00000 :: u64) = push_bit 21 (mask 31)" by (simp add: mask_eq_exp_minus_1)
  have "((push_bit 21 (drop_bit 21 x) OR 0x83) AND 0x000FFFFFFFE00000) OR take_bit 21 x = x"
  proof (rule bit_word_eqI)
    fix k assume "k < LENGTH(64)"
    show "bit (((push_bit 21 (drop_bit 21 x) OR 0x83) AND 0x000FFFFFFFE00000) OR take_bit 21 x) k = bit x k"
      using bit_small [of x 47 k] bit_small [of "0x83" 8 k] assms(1)
      by (cases "21 \<le> k"; cases "k < 52") (auto simp: mask bit_simps)
  qed
  moreover have "hw_walk m r v = Page2M (push_bit 21 (drop_bit 21 x) OR 0x83)"
    using assms(3) unfolding frame fl .
  ultimately show ?thesis by (simp add: hw_translate_def low)
qed

lemma take_bit_21_add:
  assumes "unat b mod 2 ^ 21 = 0"
  shows "take_bit 21 (x + b) = take_bit 21 (x :: u64)"
proof -
  have "unat (x + b) mod 2 ^ 21 = (unat x + unat b) mod 2 ^ 64 mod 2 ^ 21" by (simp only: unat_word_ariths len_of_numeral_defs) simp
  also have "\<dots> = (unat x + unat b) mod 2 ^ 21" by (rule mod_mod_cancel) (rule le_imp_power_dvd, simp)
  also have "\<dots> = unat x mod 2 ^ 21" using assms by (metis add.right_neutral mod_add_right_eq)
  finally show ?thesis by (simp add: word_unat_eq_iff unat_mod take_bit_eq_mod)
qed

lemma direct_translate:
  assumes "unat x < 2 ^ 47" "hw_walk m r (x + virtual_physical_base)
    = Page2M (huge_entry (of_nat (unat x div 2 ^ 21) * 0x200000) 3)"
  shows "hw_translate m r (x + virtual_physical_base) = Some x"
  by (rule large_translate [OF assms(1) take_bit_21_add assms(2)]) (simp add: mm_consts)

text \<open>The addresses of the kernel window.\<close>

lemma kernel_steps:
  assumes "unat x < 2 ^ 31"
  shows "2048 \<le> steps 21 virtual_physical_base (x + virtual_kernel_base)"
    and "steps 21 virtual_kernel_base (x + virtual_kernel_base) = unat x div 2 ^ 21"
proof -
  have eq: "x + virtual_kernel_base = (x + 0x7FFF80000000) + virtual_physical_base" by (simp add: mm_consts)
  have y: "unat (x + 0x7FFF80000000) = unat x + 0x3FFFC00 * 2 ^ 21" using assms by (subst unat_add_u64) simp_all
  have "steps 21 virtual_physical_base (x + virtual_kernel_base) = unat x div 2 ^ 21 + 0x3FFFC00"
    unfolding eq using direct_steps(1) [of "x + 0x7FFF80000000"] assms unfolding y by simp
  then show "2048 \<le> steps 21 virtual_physical_base (x + virtual_kernel_base)" by simp
  have "unat (x + virtual_kernel_base) = unat x + 0x7FFFFFFFC00 * 2 ^ 21"
    using assms by (subst unat_add_u64) (simp_all add: mm_consts)
  then have "unat (x + virtual_kernel_base) div 2 ^ 21 = unat x div 2 ^ 21 + 0x7FFFFFFFC00" by simp
  then have d: "uint (x + virtual_kernel_base) div 2 ^ 21 = int (unat x div 2 ^ 21) + 0x7FFFFFFFC00"
    unfolding uint_nat by (metis (no_types, lifting) of_nat_add of_nat_numeral zdiv_int of_nat_power)
  have "unat x div 2 ^ 21 < 2 ^ 27" using assms by simp
  then have "int (unat x div 2 ^ 21) mod 2 ^ 27 = int (unat x div 2 ^ 21)" by (intro mod_pos_pos_trivial) auto
  then have "int (steps 21 virtual_kernel_base (x + virtual_kernel_base)) = int (unat x div 2 ^ 21)"
    unfolding int_steps d by (simp add: mm_consts)
  then show "steps 21 virtual_kernel_base (x + virtual_kernel_base) = unat x div 2 ^ 21" by (simp only: of_nat_eq_iff)
qed

text \<open>In a new address space every physical address below 4 GiB is reached at its offset from
  \<open>virtual_physical_base\<close>, which is what the kernel's table and bitmap accesses rely on; the
  addresses from 4 GiB up have no translation there, although the physical memory manager also
  hands out pages above 4 GiB.\<close>

theorem direct_map_covers_4G:
  fixes s :: "'a pmm_state_scheme"
  assumes "pmm_wf s" and "can_alloc (pmm_alloc 1) 11 s" and "unat x < 0x7FFF80000000"
  shows "\<exists>p s'. new_address_space (pmm_alloc 1) s = Inr (p, s') \<and>
    hw_translate (ram s') p (x + virtual_physical_base) = (if unat x < 2 ^ 32 then Some x else None)"
proof -
  obtain p s' where run: "new_address_space (pmm_alloc 1) s = Inr (p, s')"
    "hw_walk (ram s') p =
      edit_range 21 virtual_physical_base 2048 (\<lambda>k _. Page2M (huge_entry (of_nat k * 0x200000) 3))
        (edit_range 21 virtual_kernel_base 64 (\<lambda>k _. Page2M (huge_entry (of_nat k * 0x200000) 3))
          (\<lambda>_. Unmapped))"
    using new_address_space_full [OF assms(1,2)] by blast
  have small: "unat x < 2 ^ 47" using assms(3) by simp
  note st = direct_steps(1) [OF small] direct_steps(2) [OF small assms(3)]
  have "hw_translate (ram s') p (x + virtual_physical_base) = (if unat x < 2 ^ 32 then Some x else None)"
  proof (cases "unat x < 2 ^ 32")
    case True
    then have "unat x div 2 ^ 21 < 2048" by simp
    then have "hw_walk (ram s') p (x + virtual_physical_base)
        = Page2M (huge_entry (of_nat (unat x div 2 ^ 21) * 0x200000) 3)"
      by (simp add: run(2) edit_range_def st)
    then show ?thesis using direct_translate [OF small] True by simp
  next
    case False
    then have "hw_walk (ram s') p (x + virtual_physical_base) = Unmapped"
      using st(2) by (simp add: run(2) edit_range_def st(1))
    then show ?thesis using False by (simp add: hw_translate_def)
  qed
  with run(1) show ?thesis by blast
qed

theorem direct_map_covers_4G_witness:
  "\<exists>p s'. new_address_space (pmm_alloc 1) medium_pmm = Inr (p, s') \<and>
     hw_translate (ram s') p (0x100000000 + virtual_physical_base) = None"
  using direct_map_covers_4G [OF medium_pmm_wf medium_pmm_can_alloc, of "0x100000000"] by simp

section \<open>Two ways to lose a mapping\<close>

lemma large_page_entries:
  fixes s :: "'a pmm_state_scheme"
  assumes "space_ok s r" and "hw_walk (ram s) r virt = Page2M e"
  obtains pdp pd where "r \<in> table_frames (ram s) r" "pdp \<in> table_frames (ram s) r" "pd \<in> table_frames (ram s) r"
    "frame_ok r" "frame_ok pdp" "frame_ok pd" "pdp \<noteq> 0" "pd \<noteq> 0"
    "ent (ram s) (r + virtual_physical_base) (pml4_idx (virtual_to_entries virt)) AND address_mask = pdp"
    "ent (ram s) (pdp + virtual_physical_base) (pdp_idx (virtual_to_entries virt)) AND address_mask = pd"
    "ent (ram s) (pd + virtual_physical_base) (pd_idx (virtual_to_entries virt)) = e"
proof -
  let ?o = "virtual_to_entries virt"
  have tree: "tree_ok (ram s) r" using pmm.inv_tree [OF assms(1)] .
  have "tree_walk (ram s) r virt = Page2M e" using assms(2) by (simp add: space_walk [OF assms(1)])
  then obtain pd where pd: "table_at (ram s) r (path_to_pd virt) = Some pd"
    "load64 (ram s) (pd + 8 * pd_idx ?o) = e"
    by (auto simp: tree_walk_def Let_def split: option.splits if_splits)
  obtain pdp where pdp: "table_at (ram s) r [pml4_idx ?o] = Some pdp"
    using pd(1) by (auto simp: path_to_pd_def split: option.splits)
  have p: "valid_path [pml4_idx ?o]" by (simp add: valid_path_Cons)
  have top: "table_at (ram s) r [] = Some r" by simp
  show thesis
  proof (rule that [of pdp pd])
    show "r \<in> table_frames (ram s) r" "pdp \<in> table_frames (ram s) r" "pd \<in> table_frames (ram s) r"
      unfolding table_frames_def using valid_path_Nil top p pdp valid_paths(1) pd(1) by blast+
    show "frame_ok r" "frame_ok pdp" "frame_ok pd"
      using tree_ok_frame [OF tree valid_path_Nil top] tree_ok_frame [OF tree p pdp] tree_ok_frame [OF tree valid_paths(1) pd(1)] .
    show "pdp \<noteq> 0" "ent (ram s) (r + virtual_physical_base) (pml4_idx ?o) AND address_mask = pdp"
      using pdp by (auto simp: next_table_def entry_frame_def Let_def split: if_splits)
    show "pd \<noteq> 0" "ent (ram s) (pdp + virtual_physical_base) (pdp_idx ?o) AND address_mask = pd"
      using pd(1) pdp by (auto simp: path_to_pd_def next_table_def entry_frame_def Let_def split: if_splits)
    show "ent (ram s) (pd + virtual_physical_base) (pd_idx ?o) = e" using pd(2) by simp
  qed
qed

lemma map_under_large_page_run:
  fixes s :: "'a pmm_state_scheme"
  assumes "space_ok s r" and "hw_walk (ram s) r virt = Page2M e" and "frame_ok (entry_frame e)"
    and "entry_frame e \<noteq> 0" and "entry_frame e \<notin> table_frames (ram s) r"
    and m: "m = store64 (ram s) (entry_frame e + 8 * hw_index 0 virt) (leaf_entry phys perms)"
  shows "map_pages (pmm_alloc 1) r virt phys 1 perms s = Inr (True, s\<lparr>ram := m\<rparr>)"
    and "hw_walk m r = hw_walk (ram s) r"
proof -
  let ?o = "virtual_to_entries virt" and ?f = "entry_frame e"
  have tree: "tree_ok (ram s) r" using pmm.inv_tree [OF assms(1)] .
  obtain pdp pd where t: "frame_ok r" "frame_ok pdp" "frame_ok pd" "pdp \<noteq> 0" "pd \<noteq> 0"
    "ent (ram s) (r + virtual_physical_base) (pml4_idx ?o) AND address_mask = pdp"
    "ent (ram s) (pdp + virtual_physical_base) (pdp_idx ?o) AND address_mask = pd"
    "ent (ram s) (pd + virtual_physical_base) (pd_idx ?o) = e"
    by (rule large_page_entries [OF assms(1,2)]) (rule that)
  have "get_or_alloc_ent (pmm_alloc 1) (r + virtual_physical_base) (pml4_idx ?o) perms s
      = Inr (pdp + virtual_physical_base, s)"
    and "get_or_alloc_ent (pmm_alloc 1) (pdp + virtual_physical_base) (pdp_idx ?o) perms s
      = Inr (pd + virtual_physical_base, s)"
    and "get_or_alloc_ent (pmm_alloc 1) (pd + virtual_physical_base) (pd_idx ?o) perms s
      = Inr (?f + virtual_physical_base, s)"
    using t(4,5) assms(4) table_pointer_not_null [OF t(1)] table_pointer_not_null [OF t(2)] table_pointer_not_null [OF t(3)]
    unfolding get_or_alloc_ent_def t(6-8) entry_frame_def by (simp_all add: Let_def)
  note 1 = this
  have m': "m = store64 (ram s) (?f + 8 * pt_idx ?o) (leaf_entry phys perms)" by (simp add: m hw_index_entries)
  show "map_pages (pmm_alloc 1) r virt phys 1 perms s = Inr (True, s\<lparr>ram := m\<rparr>)"
    using 1 table_pointer_not_null [OF assms(3)]
    by (simp add: map_pages_def Let_def put_ent_def set_ent_direct m' leaf_entry_def)
  have al: "aligned 12 ?f" by simp
  note out = outside_walk [OF tree al assms(5) entries_less(4)] outside_tree_ok [OF tree al assms(5) entries_less(4)]
  have "hw_walk m r v = hw_walk (ram s) r v" for v
    using out hw_walk_tree [of m r v] hw_walk_tree [OF tree, of v] by (simp add: m')
  then show "hw_walk m r = hw_walk (ram s) r" by blast
qed

lemma map_under_large_page:
  fixes s :: "'a pmm_state_scheme"
  assumes "space_ok s r" and "hw_walk (ram s) r virt = Page2M e" and "frame_ok (entry_frame e)"
    and "entry_frame e \<noteq> 0" and "entry_frame e \<notin> table_frames (ram s) r"
  shows "\<exists>s'. map_pages (pmm_alloc 1) r virt phys 1 perms s = Inr (True, s') \<and>
    load64 (ram s') (entry_frame e + 8 * hw_index 0 virt) = leaf_entry phys perms \<and>
    hw_walk (ram s') r = hw_walk (ram s) r"
  using map_under_large_page_run [OF assms refl, of phys perms] by simp

text \<open>Mapping a page that lies under a large page does not map it. \<open>get_or_alloc_ent\<close> takes
  the frame of the large page for a page table: the new entry is written into the memory that the
  large page shows, \<open>map_pages\<close> returns true, and every translation stays what it was.\<close>

theorem map_under_large_page_writes_memory:
  fixes s :: "'a pmm_state_scheme"
  assumes "space_ok s r" and "hw_walk (ram s) r virt = Page2M e" and "frame_ok (entry_frame e)"
    and "entry_frame e \<noteq> 0" and "entry_frame e \<notin> table_frames (ram s) r"
  shows "\<exists>s'. map_pages (pmm_alloc 1) r virt phys 1 perms s = Inr (True, s') \<and>
    load64 (ram s') (entry_frame e + 8 * hw_index 0 virt) = leaf_entry phys perms \<and>
    hw_walk (ram s') r = hw_walk (ram s) r"
  using assms by (rule map_under_large_page)

text \<open>For the witness, the large page shows the memory that holds the allocator's own bitmap.\<close>

lemma own_not_table: "space_ok s r \<Longrightarrow> pmm_own s f \<Longrightarrow> f \<notin> table_frames (ram s) r"
  by (auto simp: vmm_inv_def)

theorem map_under_large_page_writes_memory_witness:
  "\<exists>(s :: pmm_state) s'. map_pages (pmm_alloc 1) small_root 0x40001000 0x9000000 1 7 s = Inr (True, s') \<and>
     load64 (ram s') (0x2000000 + 8) = 0x9000007"
proof -
  have ok3: "perms_ok 3" by (simp add: perms_ok_def)
  have "can_alloc (pmm_alloc 1) (2 * 1) small_space"
    by (rule can_alloc_mono [OF small_space_can_alloc]) simp
  then obtain s where s: "map_huge_pages_n 1 (pmm_alloc 1) small_root 0x40000000 0x2000000 3 small_space = Inr (True, s)"
    "space_ok s small_root" "tree_walk (ram s) small_root = edit_range 21 0x40000000 1
      (\<lambda>k _. Page2M (huge_entry (0x2000000 + of_nat k * 0x200000) 3)) (tree_walk (ram small_space) small_root)"
    using pmm.map_huge_pages_n_correct [OF small_space_ok ok3, of 1 "0x40000000" "0x2000000"] by auto
  have "block_number 21 0x40001000 = block_number 21 0x40000000" by code_simp
  then have "steps 21 0x40000000 0x40001000 = 0" by (simp add: steps_0)
  then have walk: "hw_walk (ram s) small_root 0x40001000 = Page2M (huge_entry 0x2000000 3)"
    using s(3) by (simp add: space_walk [OF s(2)] edit_range_def)
  have f: "entry_frame (huge_entry 0x2000000 3) = 0x2000000" by code_simp
  obtain s0 where "pmm_alloc 1 small_pmm = Inr (small_root, s0)"
    using small_root_first(1) by (auto simp: returned_eq_Some)
  then have "pmm_own small_space = pmm_own small_pmm"
    using pmm.alloc_own [of small_pmm] by (simp add: fresh_space_def pmm.own_ram)
  then have "pmm_own s 0x2000000"
    using pmm.map_huge_pages_n_own [OF s(1)]
    by (simp add: pmm_own_def small_pmm_def phys_of_def mm_consts in_range_def bitmap_bytes_def)
  then have free: "(0x2000000 :: u64) \<notin> table_frames (ram s) small_root"
    by (rule own_not_table [OF s(2)])
  have "\<exists>s'. map_pages (pmm_alloc 1) small_root 0x40001000 0x9000000 1 7 s = Inr (True, s') \<and>
      load64 (ram s') (entry_frame (huge_entry 0x2000000 3) + 8 * hw_index 0 0x40001000) = leaf_entry 0x9000000 7 \<and>
      hw_walk (ram s') small_root = hw_walk (ram s) small_root"
    by (rule map_under_large_page_writes_memory [OF s(2) walk])
      (simp_all add: f free frame_ok_def aligned_def)
  moreover have "hw_index 0 0x40001000 = 1" "leaf_entry 0x9000000 7 = 0x9000007" by code_simp+
  ultimately show ?thesis unfolding f by auto
qed

text \<open>Changing the permissions of a page that was just unmapped maps it to physical page 0.\<close>

theorem update_after_unmap_maps_page_zero:
  fixes s :: "'a pmm_state_scheme"
  assumes "space_ok s r" and "hw_walk (ram s) r virt = Page4K e"
  shows "\<exists>s1 s2. unmap_pages r virt 1 s = Inr (True, s1) \<and> hw_walk (ram s1) r virt = Unmapped \<and>
    update_perms r virt 1 perms s1 = Inr (True, s2) \<and> hw_walk (ram s2) r virt = Page4K (leaf_entry 0 perms)"
proof -
  let ?i = "pt_idx (virtual_to_entries virt)"
  have w: "tree_walk (ram s) r virt = Page4K e" using assms(2) by (simp add: space_walk [OF assms(1)])
  then obtain f where pt: "table_at (ram s) r (path_to_pt virt) = Some f"
    using pmm.mapped_leaf by blast
  define s1 where "s1 = set_ent (f + virtual_physical_base) ?i 0 s"
  define s2 where "s2 = set_ent (f + virtual_physical_base) ?i (leaf_entry 0 perms) s1"
  have ptr: "f + virtual_physical_base \<noteq> 0"
    using table_pointer_not_null [OF pmm.inv_table(1) [OF assms(1) valid_paths(2) pt]] .
  have inv1: "space_ok s1 r" using pmm.set_leaf_inv [OF assms(1) pt] by (simp add: s1_def)
  have pt1: "table_at (ram s1) r (path_to_pt virt) = Some f"
    using pmm.set_leaf_tables [OF assms(1) pt valid_paths(2)] pt by (simp add: s1_def)
  have w1: "tree_walk (ram s1) r virt = Unmapped"
    using pmm.set_leaf_walk [OF assms(1) pt, of 0 virt] by (simp add: s1_def)
  have inv2: "space_ok s2 r" using pmm.set_leaf_inv [OF inv1 pt1] by (simp add: s2_def)
  have w2: "tree_walk (ram s2) r virt = Page4K (leaf_entry 0 perms)"
    using pmm.set_leaf_walk [OF inv1 pt1, of "leaf_entry 0 perms" virt] by (simp add: s2_def)
  have zero: "load64 (ram s1) (f + 8 * ?i) = 0" by (simp add: s1_def set_ent_direct)
  have "unmap_pages r virt 1 s = Inr (True, s1)"
    using pmm.find_pt_table [OF assms(1), of virt] w pt ptr
    by (simp add: unmap_pages_def Let_def s1_def)
  moreover have "update_perms r virt 1 perms s1 = Inr (True, s2)"
    using pmm.find_pt_table [OF inv1, of virt] w1 pt1 ptr zero
    by (simp add: update_perms_def Let_def s2_def leaf_entry_def)
  ultimately show ?thesis using w1 w2 space_walk [OF inv1] space_walk [OF inv2] by auto
qed

theorem update_after_unmap_maps_page_zero_witness:
  "\<exists>(s1 :: pmm_state) s2. update_perms small_root 0x400000 1 3 s1 = Inr (True, s2) \<and>
     hw_walk (ram s2) small_root 0x400000 = Page4K 3"
proof -
  obtain s :: pmm_state where
    s: "space_ok s small_root" "hw_walk (ram s) small_root 0x400000 = Page4K 0x9000007"
    by (rule small_mapped)
  have "leaf_entry 0 3 = 3" by (simp add: leaf_entry_def flag_bits_def VMM_PRESENT_def)
  then show ?thesis using update_after_unmap_maps_page_zero [OF s, of 3] by auto
qed

section \<open>Indices\<close>

text \<open>\<open>entries_to_virtual\<close> gives back the page of the address that \<open>virtual_to_entries\<close> took
  apart, with bits 63 to 48 cleared: for an address of the upper half the result is not the
  canonical address.\<close>

theorem entries_roundtrip:
  "entries_to_virtual (virtual_to_entries v) = v AND 0x0000FFFFFFFFF000"
proof (rule bit_word_eqI)
  fix k assume "k < LENGTH(64)"
  have c: "(0x0000FFFFFFFFF000 :: u64) = push_bit 12 (mask 36)" "(0x1ff :: u64) = mask 9"
    by (simp_all add: mask_eq_exp_minus_1)
  consider "k < 12" | "12 \<le> k" "k < 21" | "21 \<le> k" "k < 30" | "30 \<le> k" "k < 39" | "39 \<le> k" "k < 48" | "48 \<le> k"
    by linarith
  then show "bit (entries_to_virtual (virtual_to_entries v)) k = bit (v AND 0x0000FFFFFFFFF000) k"
    unfolding entries_to_virtual_def virtual_to_entries_def c using \<open>k < LENGTH(64)\<close>
    by cases (auto simp: bit_simps)
qed

end
