(* ===== verification/Tlb.thy ===== *)
theory Tlb
  imports VmmSafety
begin

text \<open>
  The translation cache of the processor and \<open>update_mapping\<close>, the last function of \<open>vmm.cpp\<close>. The cache
  holds results of earlier walks; the processor fills it and forgets from it whenever it likes, and the code
  reaches it only through \<open>invlpg\<close> and through \<open>cr3\<close>. What the
  processor remembers of the inner levels of the tables is left out.
\<close>

unbundle bit_operations_syntax

section \<open>The cache\<close>

type_synonym tlb = "u64 \<rightharpoonup> mapping"

text \<open>One step of the processor, in an address space that stays the same: a page that is mapped enters the
  cache, or a page leaves it.\<close>

inductive tlb_step :: "memory \<Rightarrow> u64 \<Rightarrow> tlb \<Rightarrow> tlb \<Rightarrow> bool" for m r where
  fill: "hw_walk m r v \<noteq> Unmapped \<Longrightarrow> tlb_step m r c (c(page_number v \<mapsto> hw_walk m r v))"
| forget: "tlb_step m r c (c(p := None))"

inductive_cases tlb_stepE: "tlb_step m r c c'"

text \<open>What loading \<open>cr3\<close> leaves: no entry of the kernel is global.\<close>

definition tlb_flushed :: tlb where
  "tlb_flushed = Map.empty"

text \<open>The entries that translate an address: \<open>invlpg\<close> drops them, whatever the size of their page.\<close>

definition tlb_covers :: "u64 \<Rightarrow> u64 \<Rightarrow> mapping \<Rightarrow> bool" where
  "tlb_covers ptr p M \<longleftrightarrow>
     (let k = (case M of Page1G e \<Rightarrow> 18 | Page2M e \<Rightarrow> 9 | M \<Rightarrow> 0) in drop_bit k p = drop_bit k (page_number ptr))"

definition update_mapping :: "u64 \<Rightarrow> tlb \<Rightarrow> tlb" where
  "update_mapping ptr c = (\<lambda>p. case c p of None \<Rightarrow> None | Some M \<Rightarrow> if tlb_covers ptr p M then None else Some M)"

text \<open>A cache that shows what a walk would find now.\<close>

definition tlb_ok :: "memory \<Rightarrow> u64 \<Rightarrow> tlb \<Rightarrow> bool" where
  "tlb_ok m r c \<longleftrightarrow> (\<forall>v M. c (page_number v) = Some M \<longrightarrow> M \<noteq> Unmapped \<and> hw_walk m r v = M)"

section \<open>The cache and the tables\<close>

lemma hw_walk_page:
  assumes "page_number v = page_number w"
  shows "hw_walk m r v = hw_walk m r w"
proof -
  have "virtual_to_entries v = virtual_to_entries w" using assms by (simp only: entries_eq_iff)
  then have "hw_index 3 v = hw_index 3 w" "hw_index 2 v = hw_index 2 w" "hw_index 1 v = hw_index 1 w" "hw_index 0 v = hw_index 0 w"
    by (simp_all add: hw_index_entries)
  then show ?thesis by (simp only: hw_walk_def)
qed

lemma page_at_steps: "steps 12 v w = n \<Longrightarrow> page_number (v + of_nat n * 4096) = page_number w"
proof (induction n arbitrary: v)
  case 0
  then show ?case by (simp add: steps_0)
next
  case (Suc n)
  then have "steps 12 (v + 2 ^ 12) w = n" using steps_next [of 12 v w] by simp
  from Suc.IH [OF this] show ?case by (simp add: algebra_simps)
qed

lemma tlb_okD: "tlb_ok m r c \<Longrightarrow> c (page_number v) = Some M \<Longrightarrow> M \<noteq> Unmapped \<and> hw_walk m r v = M"
  by (simp add: tlb_ok_def)

lemma tlb_ok_flushed [simp]: "tlb_ok m r tlb_flushed"
  by (simp add: tlb_ok_def tlb_flushed_def)

lemma tlb_step_ok: "tlb_step m r c c' \<Longrightarrow> tlb_ok m r c \<Longrightarrow> tlb_ok m r c'"
  by (elim tlb_stepE) (auto simp: tlb_ok_def split: if_splits dest: hw_walk_page)

text \<open>As long as the tables stay as they are, every cache that the processor can reach from an empty one
  shows the tables.\<close>

lemma tlb_reachable_ok: "(tlb_step m r)\<^sup>*\<^sup>* c c' \<Longrightarrow> tlb_ok m r c \<Longrightarrow> tlb_ok m r c'"
  by (induction rule: rtranclp_induct) (auto intro: tlb_step_ok)

text \<open>Mapping a page that was not mapped needs no invalidation, since the cache never holds one.\<close>

lemma tlb_ok_mono:
  assumes "tlb_ok m r c" "\<And>v. hw_walk m r v \<noteq> Unmapped \<Longrightarrow> hw_walk m' r v = hw_walk m r v"
  shows "tlb_ok m' r c"
  using assms by (fastforce simp: tlb_ok_def)

lemma map_pages_keeps_tlb:
  fixes s :: "'a pmm_state_scheme"
  assumes "space_ok s r" "perms_ok perms" "unat count \<le> 2 ^ 36"
    and "\<And>k. k < unat count \<Longrightarrow> hw_walk (ram s) r (virt + of_nat k * 4096) = Unmapped"
    and "map_pages (pmm_alloc 1) r virt phys count perms s = Inr (b, s')" "tlb_ok (ram s) r c"
  shows "tlb_ok (ram s') r c"
proof (rule tlb_ok_mono [OF assms(6)])
  fix v assume v: "hw_walk (ram s) r v \<noteq> Unmapped"
  have "hw_walk (ram s') r = edit_range 12 virt (unat count)
      (\<lambda>k _. Page4K (leaf_entry (phys + of_nat k * 4096) perms)) (hw_walk (ram s) r)"
    using map_pages_correct [OF assms(1-3), of virt phys] assms(4,5) by auto
  moreover have "\<not> steps 12 virt v < unat count"
    using v assms(4) hw_walk_page [OF page_at_steps [OF refl]] by metis
  ultimately show "hw_walk (ram s') r v = hw_walk (ram s) r v" by (simp add: edit_range_def)
qed

text \<open>A change of one page is safe when \<open>update_mapping\<close> follows it.\<close>

lemma update_mapping_ok:
  assumes "tlb_ok m r c" "\<And>w. page_number w \<noteq> page_number v \<Longrightarrow> hw_walk m' r w = hw_walk m r w"
  shows "tlb_ok m' r (update_mapping v c)"
  unfolding tlb_ok_def
proof (intro allI impI)
  fix w M assume "update_mapping v c (page_number w) = Some M"
  then have "c (page_number w) = Some M" "\<not> tlb_covers v (page_number w) M"
    by (auto simp: update_mapping_def split: option.splits if_splits)
  moreover from this(2) have "page_number w \<noteq> page_number v" by (auto simp: tlb_covers_def)
  ultimately show "M \<noteq> Unmapped \<and> hw_walk m' r w = M" using assms by (auto simp: tlb_ok_def)
qed

lemma unmap_one_page:
  fixes s :: "'a pmm_state_scheme"
  assumes "space_ok s r" "hw_walk (ram s) r v = Page4K e"
  obtains s' where "unmap_pages r v 1 s = Inr (True, s')" "space_ok s' r"
    "\<And>w. hw_walk (ram s') r w = (if page_number w = page_number v then Unmapped else hw_walk (ram s) r w)"
proof -
  have w: "tree_walk (ram s) r v = Page4K e" using assms(2) by (simp add: space_walk [OF assms(1)])
  then obtain f where pt: "table_at (ram s) r (path_to_pt v) = Some f"
    using pmm.mapped_leaf by blast
  have nl: "tree_walk (ram s) r (v + of_nat k * 4096) \<noteq> Page2M x" if "k < 1" for k x using w that by simp
  obtain j s' where j: "j \<le> 1" "unmap_pages_n 1 r v s = Inr (j = 1, s')" "space_ok s' r"
    "tree_walk (ram s') r = edit_range 12 v j (\<lambda>_ _. Unmapped) (tree_walk (ram s) r)"
    "j < 1 \<longrightarrow> table_at (ram s) r (path_to_pt (v + of_nat j * 4096)) = None"
    using pmm.unmap_pages_n_correct [OF assms(1) _ nl, of 1] by fastforce
  have "j = 1" using j(1,5) pt by (cases j) simp_all
  note j = j [unfolded this]
  have "hw_walk (ram s') r w = (if page_number w = page_number v then Unmapped else hw_walk (ram s) r w)" for w
    unfolding space_walk [OF assms(1)] space_walk [OF j(3)] j(4) by (simp add: edit_range_def steps_0)
  moreover have "unmap_pages r v 1 s = Inr (True, s')" using j(2) by (simp only: unmap_pages_def unsigned_1 simp_thms)
  ultimately show thesis by (intro that [OF _ j(3)])
qed

text \<open>\<open>unmap_pages\<close> is not enough to take a page away. The processor can hold the page in its cache
  while it is mapped, and then it still translates it to the old frame after \<open>unmap_pages\<close> has returned
  true, whatever the tables say. \<open>update_mapping\<close> repairs every cache, but nothing in the kernel calls it.\<close>

theorem unmapped_page_stays_visible:
  fixes s :: "'a pmm_state_scheme"
  assumes "space_ok s r" "hw_walk (ram s) r v = Page4K e"
  shows "\<exists>s'. unmap_pages r v 1 s = Inr (True, s') \<and> hw_walk (ram s') r v = Unmapped \<and>
    (\<exists>c. (tlb_step (ram s) r)\<^sup>*\<^sup>* tlb_flushed c \<and> c (page_number v) = Some (Page4K e)) \<and>
    (\<forall>c. (tlb_step (ram s) r)\<^sup>*\<^sup>* tlb_flushed c \<longrightarrow> tlb_ok (ram s') r (update_mapping v c))"
proof -
  obtain s' where s': "unmap_pages r v 1 s = Inr (True, s')" "space_ok s' r"
    "\<And>w. hw_walk (ram s') r w = (if page_number w = page_number v then Unmapped else hw_walk (ram s) r w)"
    by (rule unmap_one_page [OF assms]) (rule that)
  have "tlb_step (ram s) r tlb_flushed (tlb_flushed(page_number v \<mapsto> hw_walk (ram s) r v))"
    using assms(2) by (intro fill) simp
  moreover have "(tlb_flushed(page_number v \<mapsto> hw_walk (ram s) r v)) (page_number v) = Some (Page4K e)"
    by (simp add: assms(2))
  ultimately have "\<exists>c. (tlb_step (ram s) r)\<^sup>*\<^sup>* tlb_flushed c \<and> c (page_number v) = Some (Page4K e)"
    by (blast intro: r_into_rtranclp)
  moreover have "tlb_ok (ram s') r (update_mapping v c)" if "(tlb_step (ram s) r)\<^sup>*\<^sup>* tlb_flushed c" for c
    by (rule update_mapping_ok [OF tlb_reachable_ok [OF that tlb_ok_flushed]]) (simp add: s'(3))
  ultimately show ?thesis using s'(1,3) by auto
qed

theorem unmapped_page_stays_visible_witness:
  "\<exists>(s :: pmm_state) s' c. unmap_pages small_root 0x400000 1 s = Inr (True, s') \<and>
     (tlb_step (ram s) small_root)\<^sup>*\<^sup>* tlb_flushed c \<and> c 0x400 = Some (Page4K 0x9000007) \<and>
     hw_walk (ram s') small_root 0x400000 = Unmapped"
proof -
  obtain s :: pmm_state where s: "space_ok s small_root" "hw_walk (ram s) small_root 0x400000 = Page4K 0x9000007"
    by (rule small_mapped)
  have "page_number 0x400000 = 0x400" by code_simp
  with unmapped_page_stays_visible [OF s] show ?thesis by auto
qed

end
