(* ===== verification/VirtualMemory.thy ===== *)
theory VirtualMemory
  imports VmmSafety
begin

text \<open>
  Loads and stores of the kernel through the page tables that \<open>cr3\<close> names, and the context
  operations of \<open>hardware/mm/vmm.cpp\<close>: \<open>Vmm::init\<close>, \<open>set_context\<close>, \<open>get_current_context\<close> and the four
  functions that save the context behind \<open>kernel_pml4\<close>.
\<close>

unbundle bit_operations_syntax

section \<open>State\<close>

text \<open>The global \<open>kernel_pml4\<close> of \<open>vmm.cpp\<close> and the control register \<open>cr3\<close>. The linker's symbol of that name is
  the first quadword of the table that \<open>main.asm\<close> builds for the switch to long mode: the assignment in
  \<open>Vmm::init\<close> replaces that entry, the identity map of the start-up code, and \<open>cr3\<close> leaves the table
  at once. The variable is therefore a field of its own.\<close>

record vmm_state = pmm_state +
  kernel_pml4 :: u64
  cr3 :: u64

section \<open>Loads and stores at virtual addresses\<close>

text \<open>A byte access goes to the physical address the processor's walk gives, or faults. An access
  of several bytes is made byte by byte.\<close>

definition virt_load8 :: "u64 \<Rightarrow> 'a vmm_state_scheme \<Rightarrow> u8 result" where
  "virt_load8 v s =
     (case hw_translate (ram s) (cr3 s) v of None \<Rightarrow> Inl PageFault | Some p \<Rightarrow> Inr (ram s p))"

definition virt_store8 :: "u64 \<Rightarrow> u8 \<Rightarrow> 'a vmm_state_scheme \<Rightarrow> 'a vmm_state_scheme result" where
  "virt_store8 v b s =
     (case hw_translate (ram s) (cr3 s) v of
        None \<Rightarrow> Inl PageFault
      | Some p \<Rightarrow> Inr (s\<lparr>ram := (ram s)(p := b)\<rparr>))"

primrec virt_load_n :: "nat \<Rightarrow> u64 \<Rightarrow> 'a vmm_state_scheme \<Rightarrow> u64 result" where
  "virt_load_n 0 v s = Inr 0"
| "virt_load_n (Suc n) v s =
     rbind (virt_load8 v s) (\<lambda>b.
     rbind (virt_load_n n (v + 1) s) (\<lambda>w. Inr (ucast b OR push_bit 8 w)))"

primrec virt_store_list :: "u8 list \<Rightarrow> u64 \<Rightarrow> 'a vmm_state_scheme \<Rightarrow> 'a vmm_state_scheme result" where
  "virt_store_list [] v s = Inr s"
| "virt_store_list (b # bs) v s = rbind (virt_store8 v b s) (virt_store_list bs (v + 1))"

primrec le_bytes :: "nat \<Rightarrow> u64 \<Rightarrow> u8 list" where
  "le_bytes 0 w = []"
| "le_bytes (Suc n) w = ucast w # le_bytes n (drop_bit 8 w)"

definition virt_load64 :: "u64 \<Rightarrow> 'a vmm_state_scheme \<Rightarrow> u64 result" where
  "virt_load64 v s = virt_load_n 8 v s"

definition virt_store64 :: "u64 \<Rightarrow> u64 \<Rightarrow> 'a vmm_state_scheme \<Rightarrow> 'a vmm_state_scheme result" where
  "virt_store64 v w s = virt_store_list (le_bytes 8 w) v s"

section \<open>Contexts\<close>

definition set_context :: "u64 \<Rightarrow> 'a vmm_state_scheme \<Rightarrow> 'a vmm_state_scheme" where
  "set_context ctx s = s\<lparr>cr3 := ctx\<rparr>"

definition get_current_context :: "'a vmm_state_scheme \<Rightarrow> u64" where
  "get_current_context s = cr3 s"

definition vmm_init :: "'a vmm_state_scheme \<Rightarrow> 'a vmm_state_scheme result" where
  "vmm_init s =
     rbind (new_address_space (pmm_alloc 1) s) (\<lambda>(p, s1).
       let s2 = s1\<lparr>kernel_pml4 := p\<rparr> in Inr (set_context (kernel_pml4 s2) s2))"

definition get_ctx_ptr :: "'a vmm_state_scheme \<Rightarrow> u64" where
  "get_ctx_ptr s = kernel_pml4 s"

definition save_context :: "'a vmm_state_scheme \<Rightarrow> 'a vmm_state_scheme result" where
  "save_context s = virt_store64 (get_ctx_ptr s) (get_current_context s) s"

definition get_saved_context :: "'a vmm_state_scheme \<Rightarrow> u64 result" where
  "get_saved_context s = virt_load64 (get_ctx_ptr s) s"

definition restore_context :: "'a vmm_state_scheme \<Rightarrow> 'a vmm_state_scheme result" where
  "restore_context s =
     (let ctx = get_ctx_ptr s
      in rbind (virt_load64 ctx s) (\<lambda>c. virt_store64 ctx 0 (set_context c s)))"

definition drop_context :: "'a vmm_state_scheme \<Rightarrow> 'a vmm_state_scheme result" where
  "drop_context s = virt_store64 (get_ctx_ptr s) 0 s"

section \<open>Stores into data pages\<close>

text \<open>A change of memory that leaves the tables and the allocator's records alone changes no
  translation and keeps the invariant.\<close>

abbreviation pmm_data :: "'a pmm_state_scheme \<Rightarrow> u64 \<Rightarrow> u64 \<Rightarrow> bool" where
  "pmm_data \<equiv> page_allocator.data_byte pmm_used pmm_own"

lemma tables_unchanged:
  assumes "tree_ok m r"
    and keep: "\<And>f x. f \<in> table_frames m r \<Longrightarrow> x div 4096 = f div 4096 \<Longrightarrow> m' x = m x"
  shows tables_unchanged_at: "valid_path q \<Longrightarrow> table_at m' r q = table_at m r q"
    and tables_unchanged_walk: "tree_walk m' r v = tree_walk m r v"
    and tables_unchanged_ok: "tree_ok m' r"
    and tables_unchanged_frames: "table_frames m' r = table_frames m r"
proof -
  have load: "load64 m' (t + 8 * i) = load64 m (t + 8 * i)"
    if "valid_path q" "table_at m r q = Some t" "i < 512" for q t i
    using keep [OF table_framesI [OF that(1,2)]] tree_ok_frame [OF assms(1) that(1,2)]
      slot_byte_page [of t i] that(3) by (intro load64_cong) (auto simp: frame_ok_def)
  show tab: "table_at m' r q = table_at m r q" if "valid_path q" for q
    using that
  proof (induction q)
    case (Cons i q)
    then have "valid_path q" "i < 512" by (simp_all add: valid_path_Cons)
    then show ?case using Cons.IH load by (auto split: option.splits intro!: next_table_cong)
  qed simp
  show "tree_walk m' r v = tree_walk m r v"
    using load [OF valid_paths(1)] load [OF valid_paths(2)] by (intro tree_walk_cong) (simp_all add: tab)
  show "tree_ok m' r"
    using tree_ok_frame [OF assms(1)] tree_ok_unique [OF assms(1)] tree_ok_entry [OF assms(1)] load
    by (intro tree_okI) (simp_all add: tab)
  show "table_frames m' r = table_frames m r"
    by (auto simp: table_frames_def tab)
qed

lemma data_store:
  fixes s :: "'a pmm_state_scheme"
  assumes inv: "space_ok s r" and keep: "\<And>x. \<not> pmm_data s r x \<Longrightarrow> m x = ram s x"
  shows data_store_ok: "space_ok (s\<lparr>ram := m\<rparr>) r"
    and data_store_walk: "hw_walk m r = hw_walk (ram s) r"
    and data_store_data: "pmm_data (s\<lparr>ram := m\<rparr>) r = pmm_data s r"
    and data_store_used: "pmm_used (s\<lparr>ram := m\<rparr>) = pmm_used s"
proof -
  have tree: "tree_ok (ram s) r" using inv by (simp add: vmm_inv_def)
  have tab: "m x = ram s x" if "f \<in> table_frames (ram s) r" "x div 4096 = f div 4096" for f x
    using that keep [of x] by (fastforce simp: pmm.data_byte_def)
  have own: "m x = ram s x" if "pmm_own s x" for x
    using that keep [of x] by (auto simp: pmm.data_byte_def)
  note same = tables_unchanged [OF tree tab]
  have wf: "pmm_wf (s\<lparr>ram := m\<rparr>) \<and> pmm_used (s\<lparr>ram := m\<rparr>) = pmm_used s"
    using own inv by (intro pmm.used_ram) (simp_all add: vmm_inv_def)
  then show ok: "space_ok (s\<lparr>ram := m\<rparr>) r"
    using inv same by (simp add: vmm_inv_def pmm.own_ram)
  show "hw_walk m r = hw_walk (ram s) r"
    using same(2) hw_walk_tree [OF tree] hw_walk_tree [OF same(3)] by auto
  show "pmm_data (s\<lparr>ram := m\<rparr>) r = pmm_data s r"
    using wf same(4) by (simp add: fun_eq_iff pmm.data_byte_def pmm.own_ram)
  show "pmm_used (s\<lparr>ram := m\<rparr>) = pmm_used s" using wf by blast
qed

text \<open>\<open>maps_to s v n f\<close>: the \<open>n\<close> virtual bytes at \<open>v\<close> are mapped to the bytes \<open>f 0\<close>, \<open>f 1\<close>, \dots\<close>

definition maps_to :: "'a vmm_state_scheme \<Rightarrow> u64 \<Rightarrow> nat \<Rightarrow> (nat \<Rightarrow> u64) \<Rightarrow> bool" where
  "maps_to s v n f \<longleftrightarrow> (\<forall>i < n. hw_translate (ram s) (cr3 s) (v + of_nat i) = Some (f i))"

lemma maps_to_Suc:
  "maps_to s v (Suc n) f \<longleftrightarrow>
     hw_translate (ram s) (cr3 s) v = Some (f 0) \<and> maps_to s (v + 1) n (\<lambda>i. f (Suc i))"
  by (auto simp: maps_to_def All_less_Suc2 ac_simps)

lemma maps_to_offset: "maps_to s v n f \<Longrightarrow> k + j \<le> n \<Longrightarrow> maps_to s (v + of_nat k) j (\<lambda>i. f (k + i))"
  unfolding maps_to_def by (metis add.assoc add_strict_left_mono less_le_trans of_nat_add)

lemma hw_translate_walk: "hw_walk m' r = hw_walk m r \<Longrightarrow> hw_translate m' r = hw_translate m r"
  by (simp add: hw_translate_def fun_eq_iff)

lemma maps_to_cong: "hw_walk (ram s') (cr3 s') = hw_walk (ram s) (cr3 s) \<Longrightarrow> maps_to s' v n f = maps_to s v n f"
  by (simp add: maps_to_def hw_translate_def)

lemma virt_store_list_data:
  fixes s :: "'a vmm_state_scheme"
  assumes "space_ok s (cr3 s)" "maps_to s v (length bs) f"
    and "\<And>i. i < length bs \<Longrightarrow> pmm_data s (cr3 s) (f i)" "inj_on f {..<length bs}"
  shows "\<exists>m. virt_store_list bs v s = Inr (s\<lparr>ram := m\<rparr>) \<and> (\<forall>i < length bs. m (f i) = bs ! i) \<and>
    (\<forall>x. x \<notin> f ` {..<length bs} \<longrightarrow> m x = ram s x)"
  using assms
proof (induction bs arbitrary: s v f)
  case (Cons b bs)
  define s1 where "s1 = s\<lparr>ram := (ram s)(f 0 := b)\<rparr>"
  have tr: "hw_translate (ram s) (cr3 s) v = Some (f 0)" and rest: "maps_to s (v + 1) (length bs) (\<lambda>i. f (Suc i))"
    using Cons.prems(2) by (simp_all add: maps_to_Suc)
  have "((ram s)(f 0 := b)) x = ram s x" if "\<not> pmm_data s (cr3 s) x" for x
    using that Cons.prems(3) [of 0] by auto
  note st = data_store [of s "cr3 s" "(ram s)(f 0 := b)", OF Cons.prems(1) this, folded s1_def]
  have c: "cr3 s1 = cr3 s" by (simp add: s1_def)
  have "\<exists>m. virt_store_list bs (v + 1) s1 = Inr (s1\<lparr>ram := m\<rparr>) \<and> (\<forall>i < length bs. m (f (Suc i)) = bs ! i) \<and>
    (\<forall>x. x \<notin> (\<lambda>i. f (Suc i)) ` {..<length bs} \<longrightarrow> m x = ram s1 x)"
  proof (rule Cons.IH)
    show "space_ok s1 (cr3 s1)" using st(1) c by simp
    show "maps_to s1 (v + 1) (length bs) (\<lambda>i. f (Suc i))"
      using rest st(2) maps_to_cong [of s1 s] by (simp add: s1_def)
    show "pmm_data s1 (cr3 s1) (f (Suc i))" if "i < length bs" for i
      using that st(3) Cons.prems(3) [of "Suc i"] c by simp
    show "inj_on (\<lambda>i. f (Suc i)) {..<length bs}"
      using Cons.prems(4) by (auto simp: inj_on_def)
  qed
  then obtain m where m: "virt_store_list bs (v + 1) s1 = Inr (s1\<lparr>ram := m\<rparr>)"
    "\<And>i. i < length bs \<Longrightarrow> m (f (Suc i)) = bs ! i"
    "\<And>x. x \<notin> (\<lambda>i. f (Suc i)) ` {..<length bs} \<Longrightarrow> m x = ram s1 x" by blast
  have f0: "f 0 \<notin> (\<lambda>i. f (Suc i)) ` {..<length bs}"
    using Cons.prems(4) by (auto simp: inj_on_def)
  have im: "f ` {..<Suc (length bs)} = insert (f 0) ((\<lambda>i. f (Suc i)) ` {..<length bs})"
    by (auto simp: lessThan_Suc_eq_insert_0 image_image)
  have "virt_store_list (b # bs) v s = Inr (s\<lparr>ram := m\<rparr>)"
    using m(1) tr by (simp add: virt_store8_def s1_def)
  moreover have "m (f i) = (b # bs) ! i" if "i < length (b # bs)" for i
    using that m(2) m(3) [OF f0] by (cases i) (auto simp: s1_def)
  moreover have "m x = ram s x" if "x \<notin> f ` {..<length (b # bs)}" for x
    using that m(3) [of x] by (simp add: im s1_def)
  ultimately show ?case by blast
next
  case Nil
  then show ?case by (intro exI [of _ "ram s"]) simp
qed

text \<open>What a multi-byte load returns.\<close>

lemma length_le_bytes [simp]: "length (le_bytes n w) = n"
  by (induction n arbitrary: w) simp_all

lemma virt_load_n_bytes:
  assumes "maps_to s v n f" "\<And>i. i < n \<Longrightarrow> ram s (f i) = le_bytes n w ! i" "n \<le> 8"
  shows "virt_load_n n v s = Inr (take_bit (8 * n) w)"
  using assms
proof (induction n arbitrary: v f w)
  case (Suc n)
  have "ram s (f (Suc i)) = le_bytes n (drop_bit 8 w) ! i" if "i < n" for i
    using Suc.prems(2) [of "Suc i"] that by simp
  then have "virt_load_n n (v + 1) s = Inr (take_bit (8 * n) (drop_bit 8 w))"
    using Suc.prems(1,3) by (intro Suc.IH [of _ "\<lambda>i. f (Suc i)"]) (simp_all add: maps_to_Suc)
  moreover have "virt_load8 v s = Inr (ucast w)"
    using Suc.prems(1) Suc.prems(2) [of 0] by (simp add: virt_load8_def maps_to_Suc)
  moreover have "ucast (ucast w :: u8) OR push_bit 8 (take_bit (8 * n) (drop_bit 8 w)) = take_bit (8 * Suc n) w"
    using Suc.prems(3) by (intro bit_word_eqI) (auto simp: bit_simps)
  ultimately show ?case by simp
qed simp

text \<open>An 8-byte store into data, and the load that reads it back.\<close>

lemma virt_store64_data:
  fixes s :: "'a vmm_state_scheme"
  assumes "space_ok s (cr3 s)" "maps_to s v 8 f"
    and "\<And>i. i < 8 \<Longrightarrow> pmm_data s (cr3 s) (f i)" "inj_on f {..<8}"
  obtains m where "virt_store64 v w s = Inr (s\<lparr>ram := m\<rparr>)"
    "\<And>i. i < 8 \<Longrightarrow> m (f i) = le_bytes 8 w ! i" "\<And>x. x \<notin> f ` {..<8} \<Longrightarrow> m x = ram s x"
    "\<And>x. \<not> pmm_data s (cr3 s) x \<Longrightarrow> m x = ram s x"
proof -
  have "\<exists>m. virt_store_list (le_bytes 8 w) v s = Inr (s\<lparr>ram := m\<rparr>) \<and>
      (\<forall>i < length (le_bytes 8 w). m (f i) = le_bytes 8 w ! i) \<and>
      (\<forall>x. x \<notin> f ` {..<length (le_bytes 8 w)} \<longrightarrow> m x = ram s x)"
    using assms by (intro virt_store_list_data) simp_all
  then obtain m where m: "virt_store64 v w s = Inr (s\<lparr>ram := m\<rparr>)"
    "\<And>i. i < 8 \<Longrightarrow> m (f i) = le_bytes 8 w ! i" "\<And>x. x \<notin> f ` {..<8} \<Longrightarrow> m x = ram s x"
    by (auto simp: virt_store64_def)
  have "m x = ram s x" if "\<not> pmm_data s (cr3 s) x" for x
    using that assms(3) by (intro m(3)) auto
  with m that show thesis by blast
qed

lemma virt_load64_bytes:
  assumes "maps_to s v 8 f" "\<And>i. i < 8 \<Longrightarrow> ram s (f i) = le_bytes 8 w ! i"
  shows "virt_load64 v s = Inr w"
  using virt_load_n_bytes [OF assms order_refl] by (simp add: virt_load64_def take_bit_word_eq_self)

section \<open>The kernel's address space\<close>

text \<open>The lower half lies in neither of the two windows of a new address space.\<close>

lemma low_steps:
  assumes "unat v < 2 ^ 47"
  shows "2048 \<le> steps 21 virtual_physical_base v" "64 \<le> steps 21 virtual_kernel_base v"
proof -
  have uv: "uint v = int (unat v)" by (rule uint_nat)
  have "uint v < 2 ^ 47" using assms unfolding uv by (metis of_nat_less_numeral_power_cancel_iff)
  then have "uint v \<le> 2 ^ 47 - 1" by simp
  then have "uint v div 2 ^ 21 \<le> (2 ^ 47 - 1) div 2 ^ 21" by (rule zdiv_mono1) simp
  then have hi: "uint v div 2 ^ 21 < 2 ^ 26" by simp
  have lo: "0 \<le> uint v div 2 ^ 21" by (simp add: pos_imp_zdiv_nonneg_iff)
  have "int (steps 21 virtual_physical_base v) = (uint v div 2 ^ 21 + 2 ^ 26 + (- 0xFFFF9) * 2 ^ 27 + 2 ^ 27 * 0) mod 2 ^ 27"
    unfolding int_steps by (simp add: mm_consts mod_eq_dvd_iff)
  also have "\<dots> = (uint v div 2 ^ 21 + 2 ^ 26) mod 2 ^ 27" by (simp add: mod_eq_dvd_iff)
  also have "\<dots> = uint v div 2 ^ 21 + 2 ^ 26" using hi lo by (intro mod_pos_pos_trivial) auto
  finally show "2048 \<le> steps 21 virtual_physical_base v" using lo by simp
  have "int (steps 21 virtual_kernel_base v) = (uint v div 2 ^ 21 + 0x400) mod 2 ^ 27"
    unfolding int_steps by (simp add: mm_consts mod_eq_dvd_iff)
  also have "\<dots> = uint v div 2 ^ 21 + 0x400" using hi lo by (intro mod_pos_pos_trivial) auto
  finally show "64 \<le> steps 21 virtual_kernel_base v" using lo by simp
qed

text \<open>What \<open>Vmm::init\<close> leaves: a fresh kernel address space in \<open>cr3\<close>, with nothing mapped in the lower
  half.\<close>

lemma pmm_alloc_eq:
  "pmm_alloc c s = (case find_free (ram s) (bitmap s) c 1 (bitmap_len s) first_page of
        None \<Rightarrow> Inl Diverges
      | Some None \<Rightarrow> Inr (0, s)
      | Some (Some idx) \<Rightarrow> Inr (idx * page_size, pmm_take idx c s))"
  by (auto simp: pmm_alloc_def pmm_alloc_aligned_def pmm_max_idx_def first_page_def pmm_take_def
      Let_def split: option.split)

lemma can_alloc_same:
  fixes s :: "'a pmm_state_scheme" and t :: "'b pmm_state_scheme"
  assumes "ram s = ram t" "bitmap s = bitmap t" "bitmap_len s = bitmap_len t"
  shows "can_alloc (pmm_alloc 1) n s \<longleftrightarrow> can_alloc (pmm_alloc 1) n t"
  using assms
proof (induction n arbitrary: s t)
  case (Suc n)
  have "can_alloc (pmm_alloc 1) n (pmm_take idx 1 s) \<longleftrightarrow> can_alloc (pmm_alloc 1) n (pmm_take idx 1 t)" for idx
    using Suc.prems by (intro Suc.IH) simp_all
  then show ?case using Suc.prems 
    by (simp add: can_alloc.simps pmm_alloc_eq [of 1 s] pmm_alloc_eq [of 1 t] split: option.split)
qed simp

lemma space_ok_same:
  fixes s :: "'a pmm_state_scheme" and t :: "'b pmm_state_scheme"
  assumes "ram s = ram t" "bitmap s = bitmap t" "bitmap_len s = bitmap_len t"
  shows "space_ok s r \<longleftrightarrow> space_ok t r" "pmm_own s = pmm_own t" "pmm_used s = pmm_used t"
proof -
  show own: "pmm_own s = pmm_own t" using assms by (intro ext) (simp add: pmm_own_def)
  show used: "pmm_used s = pmm_used t" using assms by (intro ext) (simp add: pmm_used_def page_marked_def)
  show "space_ok s r \<longleftrightarrow> space_ok t r" using assms by (simp add: vmm_inv_def pmm_wf_def own used)
qed

lemma vmm_init_room:
  fixes s :: "'a vmm_state_scheme"
  assumes "pmm_wf s" and "can_alloc (pmm_alloc 1) (j + 11) s"
  obtains s' where "vmm_init s = Inr s'" "space_ok s' (cr3 s')" "kernel_pml4 s' = cr3 s'"
    "can_alloc (pmm_alloc 1) j s'"
    "hw_walk (ram s') (cr3 s') =
      edit_range 21 virtual_physical_base 2048 (\<lambda>k _. Page2M (huge_entry (of_nat k * 0x200000) 3))
        (edit_range 21 virtual_kernel_base 64 (\<lambda>k _. Page2M (huge_entry (of_nat k * 0x200000) 3))
          (\<lambda>_. Unmapped))"
proof -
  obtain p s1 where run: "new_address_space (pmm_alloc 1) s = Inr (p, s1)" "space_ok s1 p"
    "can_alloc (pmm_alloc 1) j s1"
    "hw_walk (ram s1) p =
      edit_range 21 virtual_physical_base 2048 (\<lambda>k _. Page2M (huge_entry (of_nat k * 0x200000) 3))
        (edit_range 21 virtual_kernel_base 64 (\<lambda>k _. Page2M (huge_entry (of_nat k * 0x200000) 3))
          (\<lambda>_. Unmapped))"
    using new_address_space_room [OF assms] by blast
  define s' where "s' = s1\<lparr>kernel_pml4 := p, cr3 := p\<rparr>"
  have "vmm_init s = Inr s'" using run(1) by (simp add: vmm_init_def set_context_def s'_def)
  moreover have "space_ok s' (cr3 s')"
    using run(2) space_ok_same(1) [of s' s1 p] by (simp add: s'_def)
  moreover have "can_alloc (pmm_alloc 1) j s'"
    using run(3) by (subst can_alloc_same [of s' s1]) (simp_all add: s'_def)
  ultimately show thesis using that [of s'] run(4) by (simp add: s'_def)
qed

lemma vmm_init_space:
  fixes s :: "'a vmm_state_scheme"
  assumes "pmm_wf s" and "can_alloc (pmm_alloc 1) 11 s"
  obtains s' where "vmm_init s = Inr s'" "space_ok s' (cr3 s')" "kernel_pml4 s' = cr3 s'"
    "\<And>v. unat v < 2 ^ 47 \<Longrightarrow> hw_walk (ram s') (cr3 s') v = Unmapped"
proof (rule vmm_init_room [of s 0])
  fix s'
  assume run: "vmm_init s = Inr s'" "space_ok s' (cr3 s')" "kernel_pml4 s' = cr3 s'"
    and walk: "hw_walk (ram s') (cr3 s') =
      edit_range 21 virtual_physical_base 2048 (\<lambda>k _. Page2M (huge_entry (of_nat k * 0x200000) 3))
        (edit_range 21 virtual_kernel_base 64 (\<lambda>k _. Page2M (huge_entry (of_nat k * 0x200000) 3))
          (\<lambda>_. Unmapped))"
  have "hw_walk (ram s') (cr3 s') v = Unmapped" if "unat v < 2 ^ 47" for v
    using low_steps [OF that] by (simp add: walk edit_range_def)
  then show thesis using that run by blast
qed (use assms in simp_all)

lemma unmapped_faults:
  assumes "hw_walk (ram s) (cr3 s) v = Unmapped"
  shows "virt_load64 v s = Inl PageFault" "virt_store64 v w s = Inl PageFault"
  using assms
  by (simp_all add: virt_load64_def virt_store64_def virt_load8_def virt_store8_def hw_translate_def
      eval_nat_numeral)

text \<open>The manager of \<open>medium_pmm\<close> on a processor that has not loaded an address space.\<close>

definition boot_state :: vmm_state where
  "boot_state = pmm_state.extend medium_pmm \<lparr>kernel_pml4 = 0, cr3 = 0\<rparr>"

lemma boot_state_fields [simp]:
  "ram boot_state = ram medium_pmm" "bitmap boot_state = bitmap medium_pmm"
  "bitmap_len boot_state = bitmap_len medium_pmm"
  by (simp_all add: boot_state_def pmm_state.defs)

lemma boot_state_wf: "pmm_wf boot_state"
  using medium_pmm_wf by (simp add: pmm_wf_def pmm_own_def pmm_used_def page_marked_def)

lemma boot_state_can_alloc: "can_alloc (pmm_alloc 1) 11 boot_state"
proof -
  have "page_marked boot_state i = page_marked medium_pmm i" for i by (simp add: page_marked_def)
  moreover have "bitmap_len medium_pmm = 8210" by (simp add: medium_pmm_def)
  ultimately show ?thesis
    by (intro can_alloc_prefix [OF boot_state_wf, of 8193]) (simp_all add: medium_pmm_marked)
qed

text \<open>C10: after \<open>Vmm::init\<close> the context functions cannot be used: \<open>get_ctx_ptr\<close> returns the physical
  address of the kernel's root table as a virtual one, and the new address space does not map it,
  so saving, reading, restoring and dropping the context all fault.\<close>

theorem context_operations_fault:
  fixes s :: "'a vmm_state_scheme"
  assumes "pmm_wf s" and "can_alloc (pmm_alloc 1) 11 s"
  shows "\<exists>s'. vmm_init s = Inr s' \<and> get_current_context s' = kernel_pml4 s' \<and> space_ok s' (cr3 s') \<and>
    save_context s' = Inl PageFault \<and> get_saved_context s' = Inl PageFault \<and>
    restore_context s' = Inl PageFault \<and> drop_context s' = Inl PageFault"
proof -
  obtain s' where s': "vmm_init s = Inr s'" "space_ok s' (cr3 s')" "kernel_pml4 s' = cr3 s'"
    "\<And>v. unat v < 2 ^ 47 \<Longrightarrow> hw_walk (ram s') (cr3 s') v = Unmapped"
    using vmm_init_space [OF assms] by metis
  have "frame_ok (cr3 s')"
    using tree_ok_frame [OF pmm.inv_tree [OF s'(2)] valid_path_Nil] by simp
  then have "hw_walk (ram s') (cr3 s') (kernel_pml4 s') = Unmapped" using s'(3,4) by (simp add: frame_ok_def)
  note unmapped_faults [OF this]
  then show ?thesis
    using s'(1-3)
    by (simp add: get_current_context_def save_context_def get_saved_context_def restore_context_def
        drop_context_def get_ctx_ptr_def)
qed

theorem context_operations_fault_witness:
  "\<exists>s'. vmm_init boot_state = Inr s' \<and> save_context s' = Inl PageFault"
  using context_operations_fault [OF boot_state_wf boot_state_can_alloc] by blast

end
