(* ===== verification/Spinlock.thy ===== *)
theory Spinlock
  imports Prelude
begin

text \<open>
  The spinlock, \<open>lib/spinlock.cpp\<close>, over the two atomic operations of \<open>hardware/cpu/cpu.cpp\<close>. One
  processor alone runs the retry loop as a partial function; several processors share the lock word
  in a step relation, in which one \<open>lock bts\<close> is one step.
\<close>

unbundle bit_operations_syntax

section \<open>The atomic operations\<close>

text \<open>\<open>lock bts $0\<close>: the old bit 0 goes to the carry flag and the bit is set; \<open>lock btr $0\<close> clears it.\<close>

definition bts0 :: "u32 \<Rightarrow> bool \<times> u32" where
  "bts0 w = (bit w 0, w OR 1)"

definition btr0 :: "u32 \<Rightarrow> u32" where
  "btr0 w = w AND NOT 1"

text \<open>The loop of \<open>Cpu::atomic_set\<close> when no other processor writes the word; \<open>None\<close> when it spins
  for ever.\<close>

partial_function (option) atomic_set :: "u32 \<Rightarrow> u32 option" where
  "atomic_set w = (let (carry, w') = bts0 w in if carry then atomic_set w' else Some w')"

declare atomic_set.simps [code]

definition atomic_unset :: "u32 \<Rightarrow> u32" where
  "atomic_unset w = btr0 w"

definition spinlock_lock :: "u32 \<Rightarrow> u32 result" where
  "spinlock_lock locked = (case atomic_set locked of None \<Rightarrow> Inl Deadlock | Some w \<Rightarrow> Inr w)"

definition spinlock_release :: "u32 \<Rightarrow> u32" where
  "spinlock_release locked = atomic_unset locked"

definition spinlock_destroy :: "u32 \<Rightarrow> u32" where
  "spinlock_destroy locked = spinlock_release locked"

section \<open>One processor\<close>

lemma bit_or_1 [simp]: "bit (w OR 1 :: u32) 0"
  by (simp add: bit_simps)

lemma bit_btr0 [simp]: "\<not> bit (btr0 w) 0"
  by (simp add: btr0_def bit_simps)

lemma atomic_set_held:
  assumes "atomic_set w = Some w'"
  shows "\<not> bit w 0 \<and> w' = w OR 1"
proof (rule atomic_set.raw_induct [where P = "\<lambda>w w'. \<not> bit w 0 \<and> w' = w OR 1", OF _ assms])
  fix f w w'
  assume IH: "\<And>w w'. f w = Some w' \<Longrightarrow> \<not> bit w 0 \<and> w' = w OR 1"
    and eq: "(let (carry, w') = bts0 w in if carry then f w' else Some w') = Some w'"
  show "\<not> bit w 0 \<and> w' = w OR 1"
    using eq IH [of "w OR 1" w'] by (cases "bit w 0") (simp_all add: bts0_def)
qed

lemma atomic_set_eq: "atomic_set w = (if bit w 0 then None else Some (w OR 1))"
proof (cases "bit w 0")
  case True
  then show ?thesis using atomic_set_held [of w] by (cases "atomic_set w") auto
next
  case False
  then show ?thesis by (subst atomic_set.simps) (simp add: bts0_def)
qed

lemma spinlock_lock_eq: "spinlock_lock w = (if bit w 0 then Inl Deadlock else Inr (w OR 1))"
  by (simp add: spinlock_lock_def atomic_set_eq)


lemma spinlock_release_lock: "\<not> bit w 0 \<Longrightarrow> spinlock_release (w OR 1) = w"
  unfolding spinlock_release_def atomic_unset_def btr0_def
  by (rule bit_word_eqI) (auto simp: bit_simps intro: gr0I)

section \<open>Several processors\<close>

text \<open>Where a processor stands: outside the section that the lock guards, in the retry loop of
  \<open>lock()\<close>, or between \<open>lock()\<close> and \<open>release()\<close>.\<close>

datatype cpu_position = Outside | Spinning | Inside

record lock_system =
  lock_word :: u32
  position :: "nat \<Rightarrow> cpu_position"

inductive lock_step :: "lock_system \<Rightarrow> lock_system \<Rightarrow> bool" where
  call_lock: "position s i = Outside \<Longrightarrow> lock_step s (s\<lparr>position := (position s)(i := Spinning)\<rparr>)"
| retry: "position s i = Spinning \<Longrightarrow> bts0 (lock_word s) = (True, w) \<Longrightarrow>
    lock_step s (s\<lparr>lock_word := w\<rparr>)"
| acquire: "position s i = Spinning \<Longrightarrow> bts0 (lock_word s) = (False, w) \<Longrightarrow>
    lock_step s (s\<lparr>lock_word := w, position := (position s)(i := Inside)\<rparr>)"
| release: "position s i = Inside \<Longrightarrow>
    lock_step s (s\<lparr>lock_word := spinlock_release (lock_word s), position := (position s)(i := Outside)\<rparr>)"

inductive_cases lock_stepE: "lock_step s t"

text \<open>The lock starts released, with every processor outside.\<close>

inductive lock_reach :: "lock_system \<Rightarrow> bool" where
  start: "lock_reach \<lparr>lock_word = 0, position = \<lambda>_. Outside\<rparr>"
| step: "lock_reach s \<Longrightarrow> lock_step s t \<Longrightarrow> lock_reach t"

text \<open>The bit says whether some processor is inside, and at most one is.\<close>

definition lock_inv :: "lock_system \<Rightarrow> bool" where
  "lock_inv s \<longleftrightarrow> (bit (lock_word s) 0 \<longleftrightarrow> (\<exists>i. position s i = Inside)) \<and>
     (\<forall>i j. position s i = Inside \<longrightarrow> position s j = Inside \<longrightarrow> i = j)"

lemma lock_step_inv: "lock_step s t \<Longrightarrow> lock_inv s \<Longrightarrow> lock_inv t"
proof (induction rule: lock_step.induct)
  case (call_lock s i)
  then have "((position s)(i := Spinning)) j = Inside \<longleftrightarrow> position s j = Inside" for j by auto
  then show ?case using call_lock by (simp add: lock_inv_def del: fun_upd_apply)
next
  case (retry s i w)
  then show ?case by (auto simp: lock_inv_def bts0_def)
next
  case (acquire s i w)
  then show ?case by (auto simp: lock_inv_def bts0_def)
next
  case (release s i)
  then show ?case by (auto simp: lock_inv_def spinlock_release_def atomic_unset_def)
qed

lemma lock_reach_inv: "lock_reach s \<Longrightarrow> lock_inv s"
proof (induction rule: lock_reach.induct)
  case start
  show ?case by (simp add: lock_inv_def)
next
  case (step s t)
  then show ?case by (blast intro: lock_step_inv)
qed

text \<open>Only the processor that is inside gives the lock back: a step of another one leaves it inside.\<close>

lemma lock_not_stolen:
  assumes "lock_reach s" "lock_step s t" "position s i = Inside"
  shows "position t i = Inside \<or> position t i = Outside \<and> \<not> bit (lock_word t) 0"
  using assms(2,3) lock_reach_inv [OF assms(1)]
  by (elim lock_stepE) (auto simp: lock_inv_def spinlock_release_def atomic_unset_def)

text \<open>C14: for any number of processors and any interleaving of their steps, at most one of them is
  between \<open>lock()\<close> and \<open>release()\<close>, and the lock's bit is set exactly while one is.\<close>

theorem spinlock_mutual_exclusion:
  assumes "lock_reach s"
  shows "(\<forall>i j. position s i = Inside \<and> position s j = Inside \<longrightarrow> i = j) \<and>
    (bit (lock_word s) 0 = (\<exists>i. position s i = Inside))"
  using lock_reach_inv [OF assms] by (auto simp: lock_inv_def)

lemma lock_reach_one_inside:
  "lock_reach \<lparr>lock_word = 1, position = (\<lambda>_. Outside)(0 := Inside)\<rparr>"
proof -
  let ?s = "\<lparr>lock_word = 0, position = (\<lambda>_. Outside)(0 := Spinning)\<rparr>"
  have "lock_reach ?s"
    using lock_reach.step [OF lock_reach.start lock_step.call_lock [where i = 0]] by simp
  moreover have "lock_step ?s \<lparr>lock_word = 1, position = (\<lambda>_. Outside)(0 := Inside)\<rparr>"
    using lock_step.acquire [of ?s 0 1] by (simp add: bts0_def)
  ultimately show ?thesis by (rule lock_reach.step)
qed

theorem spinlock_mutual_exclusion_witness:
  "bit (lock_word \<lparr>lock_word = 1, position = (\<lambda>_. Outside)(0 := Inside)\<rparr>) 0"
  using spinlock_mutual_exclusion [OF lock_reach_one_inside] by auto

text \<open>No processor waits in vain: in every reachable state a spinning processor can get the lock
  after at most one release by whoever holds it, and when the lock is free its next attempt
  succeeds.\<close>

theorem spinlock_progress:
  assumes "lock_reach s" and "position s i = Spinning"
  shows "\<exists>t u. (t = s \<or> lock_step s t) \<and> lock_step t u \<and> lock_reach u \<and> position u i = Inside"
proof -
  have inv: "lock_inv s" using assms(1) by (rule lock_reach_inv)
  have free: "\<exists>u. lock_step t u \<and> lock_reach u \<and> position u i = Inside"
    if "lock_reach t" "\<not> bit (lock_word t) 0" "position t i = Spinning" for t
  proof -
    have "lock_step t (t\<lparr>lock_word := lock_word t OR 1, position := (position t)(i := Inside)\<rparr>)"
      using that by (intro lock_step.acquire) (simp_all add: bts0_def)
    with lock_reach.step [OF that(1) this] show ?thesis by fastforce
  qed
  show ?thesis
  proof (cases "bit (lock_word s) 0")
    case False
    then show ?thesis using free assms by blast
  next
    case True
    then obtain j where j: "position s j = Inside" using inv by (auto simp: lock_inv_def)
    let ?t = "s\<lparr>lock_word := spinlock_release (lock_word s), position := (position s)(j := Outside)\<rparr>"
    have "lock_step s ?t" using j by (rule lock_step.release)
    moreover have "position ?t i = Spinning" using assms(2) j by auto
    moreover have "\<not> bit (lock_word ?t) 0" by (simp add: spinlock_release_def atomic_unset_def)
    ultimately show ?thesis using free [OF lock_reach.step [OF assms(1)]] by blast
  qed
qed

theorem spinlock_progress_witness:
  "\<exists>t u. lock_step t u \<and> position u (1 :: nat) = Inside"
proof -
  let ?s = "\<lparr>lock_word = 1, position = (\<lambda>_. Outside)(0 := Inside)\<rparr>"
  have "lock_step ?s (?s\<lparr>position := (position ?s)(1 := Spinning)\<rparr>)"
    by (rule lock_step.call_lock) simp
  from spinlock_progress [OF lock_reach.step [OF lock_reach_one_inside this], of 1]
  show ?thesis by auto
qed

end
