(* ===== verification/KernelHeap.thy ===== *)
theory KernelHeap
  imports VirtualMemory Spinlock
begin

text \<open>
  The kernel heap, \<open>hardware/mm/mm.cpp\<close>: \<open>malloc\<close>, \<open>calloc\<close>, \<open>realloc\<close> and \<open>free\<close>. The heap grows
  upwards in virtual memory from \<open>top\<close>; each block gets physical pages of its own, which are mapped
  in the current address space, and a header of two quadwords in front of it.
\<close>

unbundle bit_operations_syntax

section \<open>State and operations\<close>

text \<open>The statics \<open>mm_lock\<close> and \<open>top\<close>.\<close>

record heap_state = vmm_state +
  mm_lock :: u32
  heap_top :: u64

definition heap_lock :: "'a heap_state_scheme \<Rightarrow> 'a heap_state_scheme result" where
  "heap_lock s = rbind (spinlock_lock (mm_lock s)) (\<lambda>w. Inr (s\<lparr>mm_lock := w\<rparr>))"

definition heap_release :: "'a heap_state_scheme \<Rightarrow> 'a heap_state_scheme" where
  "heap_release s = s\<lparr>mm_lock := spinlock_release (mm_lock s)\<rparr>"

text \<open>The size of a block with its header, and its number of pages.\<close>

definition block_bytes :: "u64 \<Rightarrow> u64" where
  "block_bytes bytes = ((bytes + 7) div 8) * 8 + 16"

definition block_pages :: "u64 \<Rightarrow> u64" where
  "block_pages bytes = (bytes + page_size - 1) div page_size + 1"

definition malloc :: "u64 \<Rightarrow> 'a heap_state_scheme \<Rightarrow> (u64 \<times> 'a heap_state_scheme) result" where
  "malloc n s =
     rbind (heap_lock s) (\<lambda>s0.
       let bytes = block_bytes n;
           pages = block_pages bytes;
           out = heap_top s0
       in rbind (pmm_alloc pages s0) (\<lambda>(p, s1).
            if p = 0 then Inr (0, heap_release s1)
            else
              rbind (map_pages (pmm_alloc 1) (get_current_context s1) (heap_top s1) p pages
                       (VMM_PRESENT OR VMM_WRITE) s1) (\<lambda>(b, s2).
              let s3 = s2\<lparr>heap_top := heap_top s2 + page_size * pages\<rparr>;
                  out' = out + (pages * page_size - bytes)
              in rbind (virt_store64 out' (bytes - 16) s3) (\<lambda>s4.
                 rbind (virt_store64 (out' + 8) pages s4) (\<lambda>s5.
                   Inr (out' + 16, heap_release s5))))))"

text \<open>The calls of \<open>memset\<close> and \<open>memcpy\<close> on heap addresses: the loops of \<open>mm.cpp\<close> through the page
  tables.\<close>

primrec virt_memset_n :: "nat \<Rightarrow> u64 \<Rightarrow> u8 \<Rightarrow> 'a vmm_state_scheme \<Rightarrow> 'a vmm_state_scheme result" where
  "virt_memset_n 0 p fill s = Inr s"
| "virt_memset_n (Suc n) p fill s = rbind (virt_store8 p fill s) (virt_memset_n n (p + 1) fill)"

primrec virt_memcpy_n :: "nat \<Rightarrow> u64 \<Rightarrow> u64 \<Rightarrow> 'a vmm_state_scheme \<Rightarrow> 'a vmm_state_scheme result" where
  "virt_memcpy_n 0 d src s = Inr s"
| "virt_memcpy_n (Suc n) d src s =
     rbind (virt_load8 src s) (\<lambda>b.
     rbind (virt_store8 d b s) (virt_memcpy_n n (d + 1) (src + 1)))"

definition calloc :: "u64 \<Rightarrow> 'a heap_state_scheme \<Rightarrow> (u64 \<times> 'a heap_state_scheme) result" where
  "calloc blocks s =
     rbind (malloc blocks s) (\<lambda>(out, s1).
     rbind (virt_memset_n (unat blocks) out 0 s1) (\<lambda>s2. Inr (out, s2)))"

definition heap_free :: "u64 \<Rightarrow> 'a heap_state_scheme \<Rightarrow> (bool \<times> 'a heap_state_scheme) result" where
  "heap_free memory s =
     rbind (heap_lock s) (\<lambda>s1.
       let size = (memory - 16) + 16;
           pages = (size + page_size - 1) div page_size + 1;
           start = memory AND NOT (page_size - 1)
       in if pages \<noteq> memory - 8 then Inr (False, s1)
          else
            rbind (get_entry (get_current_context s1) start s1) (\<lambda>p.
            rbind (unmap_pages (get_current_context s1) start pages s1) (\<lambda>(b, s2).
              Inr (True, heap_release (pmm_free p pages s2)))))"

definition realloc :: "u64 \<Rightarrow> u64 \<Rightarrow> 'a heap_state_scheme \<Rightarrow> (u64 \<times> 'a heap_state_scheme) result" where
  "realloc old n s =
     rbind (malloc n s) (\<lambda>(newm, s1).
       if old \<noteq> 0 then
         rbind (heap_lock s1) (\<lambda>s2.
           let size = old - 16;
               s3 = heap_release s2
           in rbind (virt_memcpy_n (unat size) newm old s3) (\<lambda>s4.
              rbind (heap_free old s4) (\<lambda>(b, s5). Inr (newm, s5))))
       else Inr (newm, s1))"

section \<open>What the operations leave alone\<close>

text \<open>A part of the state that neither the allocator nor a store changes is the same after
  mapping.\<close>

lemma get_or_alloc_ent_frame:
  assumes "\<forall>s p s'. alloc s = Inr (p, s') \<longrightarrow> g s' = g s" "\<And>s m. g (s\<lparr>ram := m\<rparr>) = g s"
    and "get_or_alloc_ent alloc tab i perms s = Inr (p, s')"
  shows "g s' = g s"
  using assms(3) assms(1)
  by (auto simp: get_or_alloc_ent_def set_ent_def Let_def rbind_eq_Inr assms(2) split: if_splits)

lemma map_pages_n_frame:
  assumes "\<forall>s p s'. alloc s = Inr (p, s') \<longrightarrow> g s' = g s" "\<And>s m. g (s\<lparr>ram := m\<rparr>) = g s"
    and "map_pages_n n alloc r v phys perms s = Inr (b, s')"
  shows "g s' = g s"
  using assms(3)
proof (induction n arbitrary: v phys s)
  case (Suc n)
  note frame = get_or_alloc_ent_frame [of alloc g, OF assms(1,2)]
  from Suc.prems obtain t1 s1 t2 s2 t3 s3 s4 where
    "get_or_alloc_ent alloc (r + virtual_physical_base) (pml4_idx (virtual_to_entries v)) perms s = Inr (t1, s1)"
    "get_or_alloc_ent alloc t1 (pdp_idx (virtual_to_entries v)) perms s1 = Inr (t2, s2)"
    "get_or_alloc_ent alloc t2 (pd_idx (virtual_to_entries v)) perms s2 = Inr (t3, s3)"
    "put_ent t3 (pt_idx (virtual_to_entries v)) (phys OR flag_bits perms OR flag_bits VMM_PRESENT) s3 = Inr s4"
    "map_pages_n n alloc r (v + 0x1000) (phys + 0x1000) perms s4 = Inr (b, s')"
    by (auto simp: Let_def rbind_eq_Inr)
  then have "g s1 = g s" "g s2 = g s1" "g s3 = g s2" "g s' = g s4"
    using frame Suc.IH by blast+
  moreover have "g s4 = g s3"
    using \<open>put_ent t3 _ _ s3 = Inr s4\<close> assms(2) by (auto simp: put_ent_def set_ent_def split: if_splits)
  ultimately show ?case by simp
qed simp

lemma pmm_alloc_frame:
  fixes s :: "'a heap_state_scheme"
  assumes "pmm_alloc c s = Inr (p, s')"
  shows "cr3 s' = cr3 s" "mm_lock s' = mm_lock s" "heap_top s' = heap_top s" "kernel_pml4 s' = kernel_pml4 s"
  using assms by (cases rule: pmm_alloc_cases, auto simp: pmm_take_def)+

lemma map_pages_frame:
  fixes s :: "'a heap_state_scheme"
  assumes "map_pages (pmm_alloc 1) r v phys count perms s = Inr (b, s')"
  shows "cr3 s' = cr3 s" "mm_lock s' = mm_lock s" "heap_top s' = heap_top s"
proof -
  note run = assms [unfolded map_pages_def]
  show "cr3 s' = cr3 s" by (rule map_pages_n_frame [OF _ _ run]) (simp_all add: pmm_alloc_frame)
  show "mm_lock s' = mm_lock s" by (rule map_pages_n_frame [OF _ _ run]) (simp_all add: pmm_alloc_frame)
  show "heap_top s' = heap_top s" by (rule map_pages_n_frame [OF _ _ run]) (simp_all add: pmm_alloc_frame)
qed

lemma virt_store_list_frame:
  assumes "\<And>s m. g (s\<lparr>ram := m\<rparr>) = g s" "virt_store_list bs v s = Inr s'"
  shows "g s' = g s"
  using assms(2)
proof (induction bs arbitrary: v s)
  case (Cons b bs)
  then obtain s1 where s1: "virt_store8 v b s = Inr s1" "virt_store_list bs (v + 1) s1 = Inr s'"
    by (auto simp: rbind_eq_Inr)
  have "g s1 = g s" using s1(1) assms(1) by (auto simp: virt_store8_def split: option.splits)
  then show ?case using Cons.IH [OF s1(2)] by simp
qed simp

lemma virt_memset_list: "virt_memset_n n v b s = virt_store_list (replicate n b) v s"
  by (induction n arbitrary: v s) (simp_all add: rbind_def split: sum.split)

lemma calloc_frame:
  assumes alloc: "\<And>c s p s'. pmm_alloc c s = Inr (p, s') \<Longrightarrow> g s' = g s" and ram: "\<And>s m. g (s\<lparr>ram := m\<rparr>) = g s"
    and lock: "\<And>s w. g (s\<lparr>mm_lock := w\<rparr>) = g s" and top: "\<And>s w. g (s\<lparr>heap_top := w\<rparr>) = g s"
  shows malloc_frame: "malloc n s = Inr (a, s') \<Longrightarrow> g s' = g s" and "calloc n s = Inr (a, s') \<Longrightarrow> g s' = g s"
proof -
  have store: "virt_store64 v w s = Inr s' \<Longrightarrow> g s' = g s" for v w s s'
    unfolding virt_store64_def by (rule virt_store_list_frame [of g, OF ram])
  have map: "map_pages (pmm_alloc 1) r v p c perms s = Inr (b, s') \<Longrightarrow> g s' = g s" for r v p c perms s b s'
    unfolding map_pages_def by (rule map_pages_n_frame [of "pmm_alloc 1" g, OF _ ram]) (auto dest: alloc)
  show m: "malloc n s = Inr (a, s') \<Longrightarrow> g s' = g s" for n s a s'
    by (auto simp: malloc_def heap_lock_def heap_release_def Let_def rbind_eq_Inr lock top split: if_splits
        dest!: store map alloc)
  assume "calloc n s = Inr (a, s')"
  then obtain s1 where "malloc n s = Inr (a, s1)" "virt_memset_n (unat n) a 0 s1 = Inr s'"
    by (auto simp: calloc_def rbind_eq_Inr)
  then show "g s' = g s"
    using m virt_store_list_frame [of g, OF ram] by (metis virt_memset_list)
qed

section \<open>Blocks of physical pages\<close>

text \<open>Byte \<open>i\<close> of a block at \<open>p\<close> lies in page \<open>i div 4096\<close> of the block.\<close>

lemma block_byte_page:
  assumes "aligned 12 p" "unat p + n \<le> 2 ^ 64" "i < n"
  shows "unat (p + of_nat i) = unat p + i"
    and "(p + of_nat i) div 4096 = p div 4096 + of_nat (i div 4096)"
proof -
  have i: "unat (of_nat i :: u64) = i" using assms by (simp add: unat_of_nat)
  then show u: "unat (p + of_nat i) = unat p + i" using assms by (subst unat_add_u64) simp_all
  obtain q where q: "unat p = 4096 * q" using assms(1) by (auto simp: aligned_def)
  have "i div 4096 < 2 ^ 64" "q + i div 4096 < 2 ^ 64" using assms(2,3) q by simp_all
  then have "unat (p div 4096 + of_nat (i div 4096)) = q + i div 4096"
    by (subst unat_add_u64) (simp_all add: unat_div q unat_of_nat)
  moreover have "unat ((p + of_nat i) div 4096) = q + i div 4096" by (simp add: unat_div u q)
  ultimately show "(p + of_nat i) div 4096 = p div 4096 + of_nat (i div 4096)"
    by (simp add: word_unat_eq_iff)
qed

lemma pmm_alloc_block:
  fixes s :: "'a pmm_state_scheme"
  assumes wf: "pmm_wf s" and run: "pmm_alloc c s = Inr (p, s')" and p: "p \<noteq> 0"
    and fits: "unat p div 4096 + unat c \<le> unat (bitmap_len s)"
  shows block_wf: "pmm_wf s'" and block_own: "pmm_own s' = pmm_own s"
    and block_keeps: "pmm_used s x \<Longrightarrow> pmm_used s' x"
    and block_aligned: "aligned 12 p" and block_bound: "unat p + 4096 * unat c \<le> 2 ^ 44"
    and block_fresh: "i < 4096 * unat c \<Longrightarrow> \<not> pmm_used s (p + of_nat i) \<and> pmm_used s' (p + of_nat i)"
    and block_ram: "\<not> pmm_own s x \<Longrightarrow> ram s' x = ram s x"
proof -
  obtain idx where idx: "idx < bitmap_len s" "p = idx * page_size" "s' = pmm_take idx c s"
    "bitmap_is_free (ram s) (bitmap s) idx c"
    using run p by (cases rule: pmm_alloc_cases) blast+
  note marked = page_marked_take [OF pmm_wf_aligned [OF wf], of idx c]
  show "pmm_wf s'" "pmm_own s' = pmm_own s" "pmm_used s x \<Longrightarrow> pmm_used s' x"
    using marked by (auto simp: idx(3) pmm_wf_take [OF wf] pmm_own_def fun_eq_iff pmm_used_def)
  have len: "unat (bitmap_len s) < 2 ^ 32" using wf by (simp add: pmm_wf_def)
  have up: "unat p = unat idx * 4096" using unat_page [OF idx(1) wf] idx(2) by simp
  show al: "aligned 12 p" by (simp add: idx(2) mm_consts)
  show bound: "unat p + 4096 * unat c \<le> 2 ^ 44" using fits len up by simp
  have page: "unat (idx + of_nat k) = unat idx + k" "idx + of_nat k < bitmap_len s" if "k < unat c" for k
  proof -
    have k: "unat (of_nat k :: u64) = k" using that unat_u64_less [of c] by (simp add: unat_of_nat)
    show u: "unat (idx + of_nat k) = unat idx + k"
      using that fits len up k by (subst unat_add_u64) simp_all
    show "idx + of_nat k < bitmap_len s" using that fits up u by (simp add: word_less_nat_alt)
  qed
  show "\<not> pmm_used s (p + of_nat i) \<and> pmm_used s' (p + of_nat i)" if i: "i < 4096 * unat c"
  proof -
    have "(p + of_nat i) div 4096 = idx + of_nat (i div 4096)"
      using block_byte_page(2) [OF al _ i] bound page_div [OF idx(1) wf] idx(2) by (simp add: mm_consts)
    moreover have k: "i div 4096 < unat c" using i by (simp add: div_less_iff_less_mult mult.commute)
    ultimately show ?thesis
      using page [OF k] idx(4) marked [of "idx + of_nat (i div 4096)"]
      by (auto simp: pmm_used_def page_size_def idx(3) bitmap_is_free_iff page_marked_def)
  qed
  show "ram s' x = ram s x" if "\<not> pmm_own s x"
  proof -
    have "\<not> in_range x (bitmap_slot (bitmap s) ((idx + of_nat k) div 64)) 8" if "k < unat c" for k
      using slot_bytes_own [OF page(2) [OF that]] \<open>\<not> pmm_own s x\<close> by blast
    then show ?thesis by (simp add: idx(3) bit_write_def bit_write_n_outside)
  qed
qed

text \<open>Taking a block keeps the address space and makes the block's bytes data.\<close>

lemma pmm_alloc_space:
  fixes s :: "'a pmm_state_scheme"
  assumes inv: "space_ok s r" and run: "pmm_alloc c s = Inr (p, s')" and p: "p \<noteq> 0"
    and fits: "unat p div 4096 + unat c \<le> unat (bitmap_len s)"
  shows block_space: "space_ok s' r" and block_walk: "hw_walk (ram s') r = hw_walk (ram s) r"
    and block_data: "i < 4096 * unat c \<Longrightarrow> pmm_data s' r (p + of_nat i) \<and> \<not> pmm_used s (p + of_nat i)"
    and block_keeps_data: "pmm_data s r x \<Longrightarrow> pmm_data s' r x \<and> ram s' x = ram s x"
proof -
  have wf: "pmm_wf s" and tree: "tree_ok (ram s) r" using inv by (simp_all add: vmm_inv_def)
  note block = pmm_alloc_block [OF wf run p fits]
  have "ram s' x = ram s x" if "f \<in> table_frames (ram s) r" "x div 4096 = f div 4096" for f x
    using that inv block(7) by (auto simp: vmm_inv_def)
  note same = tables_unchanged [OF tree this]
  show "space_ok s' r"
    using inv same block(1-3) by (auto simp: vmm_inv_def)
  show "hw_walk (ram s') r = hw_walk (ram s) r"
    using same(2) hw_walk_tree [OF tree] hw_walk_tree [OF same(3)] by auto
  show "pmm_data s' r (p + of_nat i) \<and> \<not> pmm_used s (p + of_nat i)" if "i < 4096 * unat c"
  proof -
    have "f div 4096 \<noteq> (p + of_nat i) div 4096" if "f \<in> table_frames (ram s) r" for f
      using that inv block(6) [OF \<open>i < _\<close>] pmm.used_page [of f "p + of_nat i" s] by (auto simp: vmm_inv_def)
    moreover have "\<not> pmm_own s (p + of_nat i)"
      using block(6) [OF that] pmm.own_used [OF wf] by blast
    ultimately show ?thesis using block(2) block(6) [OF that] same(4) by (simp add: pmm.data_byte_def)
  qed
  show "pmm_data s' r x \<and> ram s' x = ram s x" if "pmm_data s r x"
    using that block(2,3,7) same(4) by (simp add: pmm.data_byte_def)
qed

section \<open>Mapping a block\<close>

text \<open>After mapping \<open>c\<close> pages at \<open>v\<close> to the block at \<open>p\<close>, byte \<open>i\<close> of the range is byte \<open>i\<close> of the
  block.\<close>

lemma steps_in_range:
  assumes "aligned 12 v" "unat v + 4096 * n \<le> 2 ^ 47" "unat w < 2 ^ 47"
  shows "steps 12 v w < n \<longleftrightarrow> unat v \<le> unat w \<and> unat w < unat v + 4096 * n"
    and "i < 4096 * n \<Longrightarrow> steps 12 v (v + of_nat i) = i div 4096"
proof -
  have st: "int (steps 12 v w) = (int (unat w div 4096) - int (unat v div 4096)) mod 2 ^ 36" for w
    unfolding int_steps uint_nat [of w] uint_nat [of v] by (simp add: zdiv_int)
  obtain q where q: "unat v = 4096 * q" using assms(1) by (auto simp: aligned_def)
  have b: "q < 2 ^ 36" "q + n \<le> 2 ^ 35" "unat w div 4096 < 2 ^ 35"
    using assms q by (simp_all add: div_less_iff_less_mult)
  show "steps 12 v w < n \<longleftrightarrow> unat v \<le> unat w \<and> unat w < unat v + 4096 * n"
  proof (cases "unat v \<le> unat w")
    case True
    then have "q \<le> unat w div 4096" using q by simp
    then have "int (steps 12 v w) = int (unat w div 4096) - int q"
      unfolding st q using b by (subst mod_pos_pos_trivial) auto
    then have "steps 12 v w = unat w div 4096 - q" using \<open>q \<le> _\<close> by linarith
    then show ?thesis using True q by (auto simp: less_diff_conv2 div_less_iff_less_mult \<open>q \<le> _\<close> algebra_simps)
  next
    case False
    then have lt: "unat w div 4096 < q" using q by (simp add: div_less_iff_less_mult)
    have "int (steps 12 v w) = (int (unat w div 4096) - int q + 2 ^ 36) mod 2 ^ 36"
      unfolding st q by simp
    also have "\<dots> = int (unat w div 4096) - int q + 2 ^ 36"
      using lt b by (subst mod_pos_pos_trivial) auto
    finally have "\<not> steps 12 v w < n" using b by simp
    with False show ?thesis by simp
  qed
  show "steps 12 v (v + of_nat i) = i div 4096" if "i < 4096 * n"
  proof -
    have "unat (v + of_nat i) = unat v + i"
      using block_byte_page(1) [OF assms(1) _ that] assms(2) by simp
    then have "unat (v + of_nat i) div 4096 = q + i div 4096" by (simp add: q)
    moreover have "i div 4096 < 2 ^ 36" using that assms(2) by simp
    ultimately have "int (steps 12 v (v + of_nat i)) = int (i div 4096)"
      unfolding st q by simp
    then show ?thesis by (simp only: of_nat_eq_iff)
  qed
qed

lemma leaf_translate:
  assumes "aligned 12 p" "aligned 12 v" "unat p + n \<le> 2 ^ 47" "i < n" "unat v + n \<le> 2 ^ 64" "perms_ok perms"
    and "hw_walk m r (v + of_nat i) = Page4K (leaf_entry (p + of_nat (i div 4096) * 4096) perms)"
  shows "hw_translate m r (v + of_nat i) = Some (p + of_nat i)"
proof -
  define f where "f = p + of_nat (i div 4096) * (4096 :: u64)"
  have i: "unat (of_nat i :: u64) = i" "i < 2 ^ 47" using assms(3,4) by (simp_all add: unat_of_nat)
  have split: "i = 4096 * (i div 4096) + i mod 4096" by simp
  have k: "unat (of_nat (i div 4096) * 4096 :: u64) = 4096 * (i div 4096)"
    using i(2) by (simp add: unat_mult_u64 unat_of_nat)
  have uf: "unat f = unat p + 4096 * (i div 4096)"
    using k assms(3,4) split unfolding f_def by (subst unat_add_u64) simp_all
  have al: "aligned 12 f" unfolding f_def by (intro aligned_add assms(1)) simp_all
  have flags: "unat (flag_bits perms OR flag_bits VMM_PRESENT) < 4096"
  proof -
    have "flag_bits perms OR flag_bits VMM_PRESENT = flag_bits (perms OR VMM_PRESENT)"
      by (rule bit_word_eqI) (auto simp: flag_bits_def bit_simps)
    then show ?thesis using unat_flag_bits [OF perms_ok_present [OF assms(6)]] by simp
  qed
  have e: "entry_frame (leaf_entry f perms) = f"
    using entry_frame_flags [OF al _ flags] uf assms(3,4) split by (simp add: leaf_entry_def or.assoc)
  then have hw: "hw_frame (leaf_entry f perms) = f"
    using uf assms(3,4) split by (subst hw_frame_entry_frame) simp_all
  have low: "(v + of_nat i) AND 0xFFF = of_nat (i mod 4096)"
  proof -
    have "unat (v + of_nat i) = unat v + i" using i assms(4,5) by (subst unat_add_u64) simp_all
    then have "unat (v + of_nat i) mod 4096 = i mod 4096"
      using assms(2) by (auto simp: aligned_def elim!: dvdE)
    then have "(v + of_nat i) mod 4096 = of_nat (i mod 4096)"
      by (simp add: word_unat_eq_iff unat_mod unat_of_nat)
    moreover have "(v + of_nat i) AND 0xFFF = (v + of_nat i) mod 4096"
      using take_bit_eq_mask [of 12 "v + of_nat i"] take_bit_eq_mod [of 12 "v + of_nat i"]
      by (simp add: mask_eq_exp_minus_1)
    ultimately show ?thesis by simp
  qed
  have "f OR of_nat (i mod 4096) = f + of_nat (i mod 4096)"
  proof (rule disjunctive_add [symmetric])
    have "unat (of_nat (i mod 4096) :: u64) < 2 ^ 12" by (simp add: unat_of_nat)
    then show "\<not> bit f k \<or> \<not> bit (of_nat (i mod 4096) :: u64) k" for k
      using bit_aligned [OF al, of k] bit_small [of "of_nat (i mod 4096)" 12 k] by (cases "k < 12") auto
  qed
  also have "\<dots> = p + of_nat i"
  proof -
    have "(of_nat i :: u64) = of_nat (i div 4096) * 4096 + of_nat (i mod 4096)"
      by (subst split, simp only: of_nat_add of_nat_mult of_nat_numeral mult.commute)
    then show ?thesis by (simp add: f_def)
  qed
  finally show ?thesis using assms(7) low hw by (simp add: hw_translate_def f_def)
qed

text \<open>The permissions of the kernel's data.\<close>

lemma heap_perms: "perms_ok (VMM_PRESENT OR VMM_WRITE)"
  by (simp add: perms_ok_def VMM_PRESENT_def VMM_WRITE_def)

end
