(* ===== verification/HeapSafety.thy ===== *)
theory HeapSafety
  imports KernelHeap
begin

text \<open>
  The properties of the kernel heap: the invariant that ties the heap's virtual range to the
  physical pages behind it, what \<open>malloc\<close> and \<open>calloc\<close> return, that blocks never alias, and what
  \<open>free\<close> does instead of releasing.
\<close>

unbundle bit_operations_syntax

section \<open>The lock does not matter to the lower layers\<close>

lemma lower_mm_lock [simp]:
  fixes s :: "'a heap_state_scheme"
  shows "pmm_wf (s\<lparr>mm_lock := w\<rparr>) = pmm_wf s" "pmm_used (s\<lparr>mm_lock := w\<rparr>) = pmm_used s"
    "pmm_own (s\<lparr>mm_lock := w\<rparr>) = pmm_own s" "space_ok (s\<lparr>mm_lock := w\<rparr>) r = space_ok s r"
    "pmm_data (s\<lparr>mm_lock := w\<rparr>) r = pmm_data s r"
proof -
  show own: "pmm_own (s\<lparr>mm_lock := w\<rparr>) = pmm_own s" by (simp add: pmm_own_def fun_eq_iff)
  show used: "pmm_used (s\<lparr>mm_lock := w\<rparr>) = pmm_used s"
    by (simp add: pmm_used_def page_marked_def fun_eq_iff)
  show wf: "pmm_wf (s\<lparr>mm_lock := w\<rparr>) = pmm_wf s" by (simp add: pmm_wf_def own used)
  show "space_ok (s\<lparr>mm_lock := w\<rparr>) r = space_ok s r" by (simp add: vmm_inv_def wf own used)
  show "pmm_data (s\<lparr>mm_lock := w\<rparr>) r = pmm_data s r" by (simp add: pmm.data_byte_def fun_eq_iff own used)
qed

lemma lower_heap_top [simp]:
  fixes s :: "'a heap_state_scheme"
  shows "space_ok (s\<lparr>heap_top := w\<rparr>) r = space_ok s r"
    "pmm_data (s\<lparr>heap_top := w\<rparr>) r = pmm_data s r"
proof -
  have own: "pmm_own (s\<lparr>heap_top := w\<rparr>) = pmm_own s" by (simp add: pmm_own_def fun_eq_iff)
  have used: "pmm_used (s\<lparr>heap_top := w\<rparr>) = pmm_used s"
    by (simp add: pmm_used_def page_marked_def fun_eq_iff)
  have wf: "pmm_wf (s\<lparr>heap_top := w\<rparr>) = pmm_wf s" by (simp add: pmm_wf_def own used)
  show "space_ok (s\<lparr>heap_top := w\<rparr>) r = space_ok s r" by (simp add: vmm_inv_def wf own used)
  show "pmm_data (s\<lparr>heap_top := w\<rparr>) r = pmm_data s r" by (simp add: pmm.data_byte_def fun_eq_iff own used)
qed

lemma pmm_alloc_mm_lock:
  fixes s :: "'a heap_state_scheme"
  assumes "pmm_alloc c s = Inr (p, s')"
  shows "pmm_alloc c (s\<lparr>mm_lock := w\<rparr>) = Inr (p, s'\<lparr>mm_lock := w\<rparr>)"
  using assms
  by (auto simp: pmm_alloc_def pmm_alloc_aligned_def pmm_max_idx_def Let_def split: option.splits)

lemma can_alloc_mm_lock [simp]:
  fixes s :: "'a heap_state_scheme"
  shows "can_alloc (pmm_alloc 1) n (s\<lparr>mm_lock := w\<rparr>) = can_alloc (pmm_alloc 1) n s"
proof (induction n arbitrary: s)
  case (Suc n)
  obtain p s' where run: "pmm_alloc 1 s = Inr (p, s')" using pmm_alloc_returns by blast
  then show ?case using Suc.IH pmm_alloc_mm_lock [OF run, of w] by (simp add: can_alloc.simps)
qed simp

section \<open>The invariant\<close>

text \<open>The heap's virtual range, from \<open>memory_base\<close> to \<open>top\<close>, is mapped without aliasing to data bytes;
  no large page lies in the lower half, and the lock is free between calls.\<close>

definition heap_addr :: "'a heap_state_scheme \<Rightarrow> u64 \<Rightarrow> bool" where
  "heap_addr s v \<longleftrightarrow> memory_base \<le> v \<and> v < heap_top s"

definition heap_map :: "'a heap_state_scheme \<Rightarrow> u64 \<Rightarrow> u64 option" where
  "heap_map s v = hw_translate (ram s) (cr3 s) v"

definition heap_inv :: "'a heap_state_scheme \<Rightarrow> bool" where
  "heap_inv s \<longleftrightarrow> space_ok s (cr3 s) \<and> aligned 12 (heap_top s) \<and> memory_base \<le> heap_top s \<and>
     unat (heap_top s) \<le> 2 ^ 46 \<and> \<not> bit (mm_lock s) 0 \<and>
     (\<forall>v e. unat v < 2 ^ 47 \<longrightarrow> hw_walk (ram s) (cr3 s) v \<noteq> Page2M e) \<and>
     (\<forall>v. heap_addr s v \<longrightarrow> (\<exists>x. heap_map s v = Some x \<and> pmm_data s (cr3 s) x)) \<and>
     (\<forall>v w. heap_addr s v \<longrightarrow> heap_addr s w \<longrightarrow> heap_map s v = heap_map s w \<longrightarrow> v = w)"

lemma heap_invD:
  assumes "heap_inv s"
  shows "space_ok s (cr3 s)" "aligned 12 (heap_top s)" "memory_base \<le> heap_top s"
    "unat (heap_top s) \<le> 2 ^ 46" "\<not> bit (mm_lock s) 0"
    "unat v < 2 ^ 47 \<Longrightarrow> hw_walk (ram s) (cr3 s) v \<noteq> Page2M e"
    "heap_addr s v \<Longrightarrow> \<exists>x. heap_map s v = Some x \<and> pmm_data s (cr3 s) x"
    "heap_addr s v \<Longrightarrow> heap_addr s w \<Longrightarrow> heap_map s v = heap_map s w \<Longrightarrow> v = w"
  using assms by (simp_all add: heap_inv_def)

section \<open>Sizes\<close>

lemma unat_block_bytes: "unat n < 2 ^ 48 \<Longrightarrow> unat (block_bytes n) = 8 * ((unat n + 7) div 8) + 16"
proof -
  assume n: "unat n < 2 ^ 48"
  have 1: "unat (n + 7) = unat n + 7" using n by (subst unat_add_u64) simp_all
  have 2: "unat ((n + 7) div 8 * 8) = 8 * ((unat n + 7) div 8)"
    using n by (subst unat_mult_u64) (simp_all add: unat_div 1)
  show ?thesis unfolding block_bytes_def using n by (subst unat_add_u64) (simp_all add: 2)
qed

lemma unat_block_pages: "unat b < 2 ^ 49 \<Longrightarrow> unat (block_pages b) = (unat b + 4095) div 4096 + 1"
proof -
  assume b: "unat b < 2 ^ 49"
  have 0: "b + page_size - 1 = b + 4095" by (simp add: mm_consts)
  have 1: "unat (b + 4095) = unat b + 4095" using b by (subst unat_add_u64) simp_all
  show ?thesis
    unfolding block_pages_def 0 using b
    by (subst unat_add_u64) (simp_all add: unat_div 1 mm_consts)
qed

text \<open>Where a block of \<open>n\<close> bytes sits in its pages: \<open>gap\<close> bytes, the header, the block to the end.\<close>

definition block_gap :: "u64 \<Rightarrow> nat" where
  "block_gap n = 4096 * unat (block_pages (block_bytes n)) - unat (block_bytes n)"

lemma block_layout:
  assumes "unat n < 2 ^ 48"
  shows "block_gap n + unat (block_bytes n) = 4096 * unat (block_pages (block_bytes n))"
    and "unat n + 16 \<le> unat (block_bytes n)" and "unat (block_bytes n) < unat n + 24"
    and "4096 * unat (block_pages (block_bytes n)) < 2 ^ 49"
    and "block_pages (block_bytes n) * page_size - block_bytes n = of_nat (block_gap n)"
proof -
  define b where "b = unat (block_bytes n)"
  have b: "b = 8 * ((unat n + 7) div 8) + 16" using unat_block_bytes [OF assms] by (simp add: b_def)
  show small: "unat n + 16 \<le> unat (block_bytes n)" "unat (block_bytes n) < unat n + 24"
    unfolding b_def [symmetric] b by presburger+
  have bs: "b < 2 ^ 49" using small(2) assms unfolding b_def by simp
  have pg: "unat (block_pages (block_bytes n)) = (b + 4095) div 4096 + 1"
    using unat_block_pages bs by (simp add: b_def)
  show le: "block_gap n + unat (block_bytes n) = 4096 * unat (block_pages (block_bytes n))"
  proof -
    have "x < 4096 * (x div 4096 + 1)" for x :: nat by (simp add: dividend_less_times_div)
    from this [of "b + 4095"] show ?thesis unfolding block_gap_def b_def [symmetric] pg by simp
  qed
  show lim: "4096 * unat (block_pages (block_bytes n)) < 2 ^ 49"
    using small(2) assms unfolding pg b_def [symmetric] by simp
  have mul: "unat (block_pages (block_bytes n) * page_size) = 4096 * unat (block_pages (block_bytes n))"
    using lim by (subst unat_mult_u64) (simp_all add: mm_consts)
  have "unat (block_pages (block_bytes n) * page_size - block_bytes n) = block_gap n"
    using le by (simp add: unat_sub_if' mul block_gap_def)
  then show "block_pages (block_bytes n) * page_size - block_bytes n = of_nat (block_gap n)"
    by (metis of_nat_unat ucast_id)
qed

section \<open>malloc\<close>

text \<open>Two quadwords stored one after the other into data, and read back.\<close>

lemma write_header:
  fixes s :: "'a vmm_state_scheme"
  assumes inv: "space_ok s (cr3 s)" and map: "maps_to s v 16 f"
    and data: "\<And>i. i < 16 \<Longrightarrow> pmm_data s (cr3 s) (f i)" and inj: "inj_on f {..<16}"
  obtains m where "rbind (virt_store64 v a s) (virt_store64 (v + 8) b) = Inr (s\<lparr>ram := m\<rparr>)"
    "\<And>x. x \<notin> f ` {..<16} \<Longrightarrow> m x = ram s x"
    "virt_load64 v (s\<lparr>ram := m\<rparr>) = Inr a" "virt_load64 (v + 8) (s\<lparr>ram := m\<rparr>) = Inr b"
proof -
  define g where "g = (\<lambda>i. f (8 + i))"
  have lo: "maps_to s v 8 f" and hi: "maps_to s (v + 8) 8 g"
    using maps_to_offset [OF map, of 0 8] maps_to_offset [OF map, of 8 8] by (simp_all add: g_def)
  have lo_data: "pmm_data s (cr3 s) (f i)" if "i < 8" for i using data that by simp
  have hi_data: "pmm_data s (cr3 s) (g i)" if "i < 8" for i using data that by (simp add: g_def)
  have lo_inj: "inj_on f {..<8}" using inj by (rule inj_on_subset) auto
  have inj': "f i = f j \<longleftrightarrow> i = j" if "i < 16" "j < 16" for i j
    using inj_on_eq_iff [OF inj, of i j] that by simp
  have hi_inj: "inj_on g {..<8}" by (auto simp: inj_on_def g_def inj')
  have apart: "f i \<notin> g ` {..<8}" if "i < 8" for i
    using that by (auto simp: g_def inj')
  obtain m1 where m1: "virt_store64 v a s = Inr (s\<lparr>ram := m1\<rparr>)"
    "\<And>i. i < 8 \<Longrightarrow> m1 (f i) = le_bytes 8 a ! i" "\<And>x. x \<notin> f ` {..<8} \<Longrightarrow> m1 x = ram s x"
    "\<And>x. \<not> pmm_data s (cr3 s) x \<Longrightarrow> m1 x = ram s x"
    using virt_store64_data [OF inv lo lo_data lo_inj] by metis
  let ?s1 = "s\<lparr>ram := m1\<rparr>"
  note st1 = data_store [OF inv m1(4)]
  have inv1: "space_ok ?s1 (cr3 ?s1)" using st1(1) by simp
  have hi1: "maps_to ?s1 (v + 8) 8 g" using hi st1(2) maps_to_cong [of ?s1 s] by simp
  have data1: "pmm_data ?s1 (cr3 ?s1) (g i)" if "i < 8" for i using hi_data [OF that] st1(3) by simp
  obtain m2 where m2: "virt_store64 (v + 8) b ?s1 = Inr (s\<lparr>ram := m2\<rparr>)"
    "\<And>i. i < 8 \<Longrightarrow> m2 (g i) = le_bytes 8 b ! i" "\<And>x. x \<notin> g ` {..<8} \<Longrightarrow> m2 x = m1 x"
    "\<And>x. \<not> pmm_data ?s1 (cr3 ?s1) x \<Longrightarrow> m2 x = m1 x"
    by (rule virt_store64_data [OF inv1 hi1 data1 hi_inj, of b]) (assumption, simp)
  have walk2: "hw_walk m2 (cr3 s) = hw_walk (ram s) (cr3 s)"
    using data_store_walk [OF inv1, of m2] m2(4) st1(2) by simp
  let ?s2 = "s\<lparr>ram := m2\<rparr>"
  have lo2: "maps_to ?s2 v 8 f" and hi2: "maps_to ?s2 (v + 8) 8 g"
    using lo hi walk2 maps_to_cong [of ?s2 s] by simp_all
  have "rbind (virt_store64 v a s) (virt_store64 (v + 8) b) = Inr ?s2" using m1(1) m2(1) by simp
  moreover have "m2 x = ram s x" if "x \<notin> f ` {..<16}" for x
  proof -
    have "x \<notin> f ` {..<8}" "x \<notin> g ` {..<8}" using that by (auto simp: g_def)
    then show ?thesis using m1(3) m2(3) by simp
  qed
  moreover have "virt_load64 v ?s2 = Inr a"
    using virt_load64_bytes [OF lo2] m2(3) apart m1(2) by simp
  moreover have "virt_load64 (v + 8) ?s2 = Inr b"
    using virt_load64_bytes [OF hi2] m2(2) by simp
  ultimately show thesis using that by blast
qed

text \<open>The pages of a block are mapped one after the other above the heap.\<close>

lemma heap_addr_no_wrap: "heap_inv s \<Longrightarrow> n \<le> 2 ^ 46 \<Longrightarrow> i < n \<Longrightarrow> unat (heap_top s + of_nat i) = unat (heap_top s) + i"
  using heap_invD(2,4) [of s] by (intro block_byte_page(1)) simp_all

lemma map_heap_pages:
  fixes s :: "'a heap_state_scheme"
  assumes inv: "heap_inv s" and run: "pmm_alloc c s = Inr (p, s1)" and p: "p \<noteq> 0"
    and fits: "unat p div 4096 + unat c \<le> unat (bitmap_len s)"
    and can: "can_alloc (pmm_alloc 1) (3 * unat c) s1" and room: "unat (heap_top s) + 4096 * unat c \<le> 2 ^ 46"
  obtains s2 where
    "map_pages (pmm_alloc 1) (cr3 s) (heap_top s) p c (VMM_PRESENT OR VMM_WRITE) (s1\<lparr>mm_lock := w\<rparr>) = Inr (True, s2)"
    "space_ok s2 (cr3 s2)" "cr3 s2 = cr3 s" "mm_lock s2 = w" "heap_top s2 = heap_top s"
    "\<And>v. hw_walk (ram s2) (cr3 s2) v = (if steps 12 (heap_top s) v < unat c
      then Page4K (leaf_entry (p + of_nat (steps 12 (heap_top s) v) * 4096) (VMM_PRESENT OR VMM_WRITE))
      else hw_walk (ram s) (cr3 s) v)"
    "\<And>x. pmm_data s (cr3 s) x \<Longrightarrow> pmm_data s2 (cr3 s) x \<and> ram s2 x = ram s x"
    "\<And>i. i < 4096 * unat c \<Longrightarrow> pmm_data s2 (cr3 s) (p + of_nat i) \<and> \<not> pmm_data s (cr3 s) (p + of_nat i)"
proof -
  note h = heap_invD [OF inv]
  note block = pmm_alloc_space [OF h(1) run p fits] pmm_alloc_frame [OF run]
  let ?t = "s1\<lparr>mm_lock := w\<rparr>"
  have t: "space_ok ?t (cr3 s)" using block(1) by simp
  have low: "hw_walk (ram ?t) (cr3 s) (heap_top s + of_nat k * 4096) \<noteq> Page2M e" if "k < unat c" for k e
  proof -
    have "unat (heap_top s + of_nat (4096 * k)) = unat (heap_top s) + 4096 * k"
      using that room by (intro heap_addr_no_wrap [OF inv, of "4096 * unat c"]) simp_all
    then have "unat (heap_top s + of_nat (4096 * k)) < 2 ^ 47" using that room by simp
    from h(6) [OF this] show ?thesis by (simp add: block(2) mult.commute)
  qed
  have "can_alloc (pmm_alloc 1) (3 * unat c) ?t" using can by simp
  then obtain s2 where s2: "map_pages (pmm_alloc 1) (cr3 s) (heap_top s) p c (VMM_PRESENT OR VMM_WRITE) ?t = Inr (True, s2)"
    "space_ok s2 (cr3 s)" "pmm.grows ?t s2 (cr3 s)" "hw_walk (ram s2) (cr3 s) = edit_range 12 (heap_top s) (unat c)
      (\<lambda>k _. Page4K (leaf_entry (p + of_nat k * 4096) (VMM_PRESENT OR VMM_WRITE))) (hw_walk (ram ?t) (cr3 s))"
    using map_pages_correct [OF t heap_perms _ low, where phys = p and count = c] room by auto
  have "pmm_data s2 (cr3 s) x \<and> ram s2 x = ram s x" if "pmm_data s (cr3 s) x" for x
    using pmm.grows_data [OF s2(3), of x] block(4) [OF that] by simp
  moreover have "pmm_data s2 (cr3 s) (p + of_nat i) \<and> \<not> pmm_data s (cr3 s) (p + of_nat i)"
    if "i < 4096 * unat c" for i
    using pmm.grows_data(1) [OF s2(3), of "p + of_nat i"] block(3) [OF that] by (simp add: pmm.data_byte_def)
  ultimately show thesis
    using that [OF s2(1)] s2(2,4) map_pages_frame [OF s2(1)] block(2,5-7) by (simp add: edit_range_def)
qed

text \<open>A state that differs from a good heap by one more block at its top is a good heap.\<close>

definition heap_extended :: "'a heap_state_scheme \<Rightarrow> 'a heap_state_scheme \<Rightarrow> u64 \<Rightarrow> u64 \<Rightarrow> bool" where
  "heap_extended s s' p c \<longleftrightarrow> space_ok s' (cr3 s) \<and> cr3 s' = cr3 s \<and> \<not> bit (mm_lock s') 0 \<and>
     heap_top s' = heap_top s + of_nat (4096 * unat c) \<and>
     (\<forall>v. hw_walk (ram s') (cr3 s) v = (if steps 12 (heap_top s) v < unat c
       then Page4K (leaf_entry (p + of_nat (steps 12 (heap_top s) v) * 4096) (VMM_PRESENT OR VMM_WRITE))
       else hw_walk (ram s) (cr3 s) v)) \<and>
     (\<forall>x. pmm_data s (cr3 s) x \<longrightarrow> pmm_data s' (cr3 s) x \<and> ram s' x = ram s x) \<and>
     (\<forall>i < 4096 * unat c. pmm_data s' (cr3 s) (p + of_nat i) \<and> \<not> pmm_data s (cr3 s) (p + of_nat i))"

lemma heap_extended_inv:
  assumes inv: "heap_inv s" and ext: "heap_extended s s' p c"
    and al: "aligned 12 p" and bound: "unat p + 4096 * unat c \<le> 2 ^ 44"
    and room: "unat (heap_top s) + 4096 * unat c \<le> 2 ^ 46"
  shows extended_inv: "heap_inv s'"
    and extended_new: "i < 4096 * unat c \<Longrightarrow> heap_map s' (heap_top s + of_nat i) = Some (p + of_nat i)"
    and extended_old: "heap_addr s v \<Longrightarrow> heap_map s' v = heap_map s v"
proof -
  note h = heap_invD [OF inv]
  have e: "space_ok s' (cr3 s)" "cr3 s' = cr3 s" "\<not> bit (mm_lock s') 0"
    "heap_top s' = heap_top s + of_nat (4096 * unat c)"
    "\<And>v. hw_walk (ram s') (cr3 s) v = (if steps 12 (heap_top s) v < unat c
       then Page4K (leaf_entry (p + of_nat (steps 12 (heap_top s) v) * 4096) (VMM_PRESENT OR VMM_WRITE))
       else hw_walk (ram s) (cr3 s) v)"
    "\<And>x. pmm_data s (cr3 s) x \<Longrightarrow> pmm_data s' (cr3 s) x"
    "\<And>i. i < 4096 * unat c \<Longrightarrow> pmm_data s' (cr3 s) (p + of_nat i) \<and> \<not> pmm_data s (cr3 s) (p + of_nat i)"
    using ext by (simp_all add: heap_extended_def)
  define n where "n = 4096 * unat c"
  have n1: "n \<le> 2 ^ 46" using room by (simp add: n_def)
  then have n: "n \<le> 2 ^ 46" "unat (of_nat n :: u64) = n" by (simp_all add: unat_of_nat)
  have st: "steps 12 (heap_top s) v < unat c \<longleftrightarrow> unat (heap_top s) \<le> unat v \<and> unat v < unat (heap_top s) + n"
    if "unat v < 2 ^ 47" for v
    using steps_in_range(1) [OF h(2) _ that, of "unat c"] room by (simp add: n_def)
  have top': "unat (heap_top s') = unat (heap_top s) + n"
    using room n(2) unfolding e(4) n_def [symmetric] by (subst unat_add_u64) (simp_all add: n_def)
  show new: "heap_map s' (heap_top s + of_nat i) = Some (p + of_nat i)" if i: "i < 4096 * unat c" for i
  proof -
    have k: "steps 12 (heap_top s) (heap_top s + of_nat i) = i div 4096"
      using steps_in_range(2) [OF h(2) _ _ i, of 0] room by simp
    have "hw_walk (ram s') (cr3 s) (heap_top s + of_nat i)
        = Page4K (leaf_entry (p + of_nat (i div 4096) * 4096) (VMM_PRESENT OR VMM_WRITE))"
      using i by (simp add: e(5) k div_less_iff_less_mult mult.commute)
    then show ?thesis
      using leaf_translate [OF al h(2) _ i _ heap_perms] bound room by (simp add: heap_map_def e(2))
  qed
  show old: "heap_map s' v = heap_map s v" if v: "heap_addr s v" for v
  proof -
    have "unat v < unat (heap_top s)" using v by (simp add: heap_addr_def word_less_nat_alt)
    then have "\<not> steps 12 (heap_top s) v < unat c" using st [of v] h(4) by simp
    then show ?thesis by (simp add: heap_map_def hw_translate_def e(2,5))
  qed
  have cases: "heap_addr s v \<or> (\<exists>i < 4096 * unat c. v = heap_top s + of_nat i)" if v: "heap_addr s' v" for v
  proof (cases "v < heap_top s")
    case True
    then show ?thesis using v by (simp add: heap_addr_def)
  next
    case False
    then have "unat (heap_top s) \<le> unat v" "unat v < unat (heap_top s) + n"
      using v top' by (simp_all add: heap_addr_def word_less_nat_alt)
    then have "unat (v - heap_top s) < n" by (simp add: unat_sub word_le_nat_alt)
    moreover have "v = heap_top s + of_nat (unat (v - heap_top s))" by simp
    ultimately show ?thesis unfolding n_def by blast
  qed
  have data: "\<exists>x. heap_map s' v = Some x \<and> pmm_data s' (cr3 s) x \<and> (pmm_data s (cr3 s) x \<longleftrightarrow> heap_addr s v)"
    if "heap_addr s' v" for v
    using cases [OF that]
  proof
    assume v: "heap_addr s v"
    then show ?thesis using old [OF v] h(7) [OF v] e(6) by auto
  next
    assume "\<exists>i < 4096 * unat c. v = heap_top s + of_nat i"
    then obtain i where i: "i < 4096 * unat c" "v = heap_top s + of_nat i" by blast
    have "unat v = unat (heap_top s) + i" using heap_addr_no_wrap [OF inv n(1)] i by (simp add: n_def)
    then have "\<not> heap_addr s v" by (simp add: heap_addr_def word_less_nat_alt)
    then show ?thesis using new [OF i(1)] e(7) [OF i(1)] i(2) by auto
  qed
  have inj: "v = w" if v: "heap_addr s' v" and w: "heap_addr s' w" and eq: "heap_map s' v = heap_map s' w" for v w
  proof (cases "heap_addr s v")
    case True
    then have "heap_addr s w" using data [OF v] data [OF w] eq by auto
    then show ?thesis using True eq old h(8) by simp
  next
    case False
    then have "\<not> heap_addr s w" using data [OF v] data [OF w] eq by auto
    then obtain i j where ij: "i < n" "v = heap_top s + of_nat i" "j < n" "w = heap_top s + of_nat j"
      using False cases [OF v] cases [OF w] by (auto simp: n_def)
    then have "p + of_nat i = p + of_nat j" using eq new by (simp add: n_def)
    then show ?thesis using ij by simp
  qed
  have "hw_walk (ram s') (cr3 s) v \<noteq> Page2M x" if "unat v < 2 ^ 47" for v x
    using h(6) [OF that] by (simp add: e(5))
  moreover have "aligned 12 (heap_top s')"
  proof -
    have "aligned 12 (of_nat (4096 * unat c) :: u64)" using aligned_page_mult [of c] by (simp add: mult.commute)
    then show ?thesis unfolding e(4) by (intro aligned_add h(2)) simp_all
  qed
  moreover have "unat (heap_top s') \<le> 2 ^ 46" "memory_base \<le> heap_top s'"
    using room top' h(3) by (simp_all add: n_def word_le_nat_alt)
  moreover have "\<forall>v. heap_addr s' v \<longrightarrow> (\<exists>x. heap_map s' v = Some x \<and> pmm_data s' (cr3 s) x)"
    using data by blast
  moreover have "\<forall>v w. heap_addr s' v \<longrightarrow> heap_addr s' w \<longrightarrow> heap_map s' v = heap_map s' w \<longrightarrow> v = w"
    using inj by blast
  ultimately show "heap_inv s'" using e(1-3) by (simp add: heap_inv_def)
qed

lemma mm_release_clears [simp]: "\<not> bit (mm_lock (heap_release s)) 0"
  by (simp add: heap_release_def spinlock_release_def atomic_unset_def)

lemma heap_release_frame [simp]:
  "ram (heap_release s) = ram s" "cr3 (heap_release s) = cr3 s" "heap_top (heap_release s) = heap_top s"
  "space_ok (heap_release s) r = space_ok s r" "pmm_data (heap_release s) r = pmm_data s r"
  by (simp_all add: heap_release_def)

lemma virt_load64_frame: "ram s' = ram s \<Longrightarrow> cr3 s' = cr3 s \<Longrightarrow> virt_load64 v s' = virt_load64 v s"
proof -
  assume "ram s' = ram s" "cr3 s' = cr3 s"
  then have "virt_load8 v s' = virt_load8 v s" for v by (simp add: virt_load8_def cong: option.case_cong)
  then have "virt_load_n n v s' = virt_load_n n v s" for n by (induction n arbitrary: v) simp_all
  then show ?thesis by (simp add: virt_load64_def)
qed

lemma malloc_block:
  fixes s :: "'a heap_state_scheme"
  assumes c: "c = block_pages (block_bytes n)" and inv: "heap_inv s" and n: "unat n < 2 ^ 48"
    and run: "pmm_alloc c s = Inr (p, s1)" and p: "p \<noteq> 0"
    and fits: "unat p div 4096 + unat c \<le> unat (bitmap_len s)"
    and can: "can_alloc (pmm_alloc 1) (3 * unat c) s1" and room: "unat (heap_top s) + 4096 * unat c \<le> 2 ^ 46"
  obtains s' where "malloc n s = Inr (heap_top s + of_nat (block_gap n) + 16, s')" "heap_inv s'"
    "heap_extended s s' p c"
    "virt_load64 (heap_top s + of_nat (block_gap n)) s' = Inr (block_bytes n - 16)"
    "virt_load64 (heap_top s + of_nat (block_gap n) + 8) s' = Inr c"
proof -
  note h = heap_invD [OF inv]
  note blk = pmm_alloc_block [OF _ run p fits]
  have wf: "pmm_wf s" using h(1) by (simp add: vmm_inv_def)
  define w where "w = mm_lock s OR 1"
  obtain s2 where s2:
    "map_pages (pmm_alloc 1) (cr3 s) (heap_top s) p c (VMM_PRESENT OR VMM_WRITE) (s1\<lparr>mm_lock := w\<rparr>) = Inr (True, s2)"
    "space_ok s2 (cr3 s2)" "cr3 s2 = cr3 s" "mm_lock s2 = w" "heap_top s2 = heap_top s"
    "\<And>v. hw_walk (ram s2) (cr3 s2) v = (if steps 12 (heap_top s) v < unat c
      then Page4K (leaf_entry (p + of_nat (steps 12 (heap_top s) v) * 4096) (VMM_PRESENT OR VMM_WRITE))
      else hw_walk (ram s) (cr3 s) v)"
    "\<And>x. pmm_data s (cr3 s) x \<Longrightarrow> pmm_data s2 (cr3 s) x \<and> ram s2 x = ram s x"
    "\<And>i. i < 4096 * unat c \<Longrightarrow> pmm_data s2 (cr3 s) (p + of_nat i) \<and> \<not> pmm_data s (cr3 s) (p + of_nat i)"
    using map_heap_pages [OF inv run p fits can room, of w] by blast
  define s3 where "s3 = s2\<lparr>heap_top := heap_top s2 + page_size * c\<rparr>"
  have top3: "heap_top s3 = heap_top s + of_nat (4096 * unat c)" by (simp add: s3_def s2(5) mm_consts)
  have ext3: "heap_extended s (heap_release s3) p c"
    using s2 top3 by (simp add: heap_extended_def s3_def)
  note al = blk(4) [OF wf] and bound = blk(5) [OF wf]
  note e3 = heap_extended_inv [OF inv ext3 al bound room]
  define g where "g = block_gap n"
  define v where "v = heap_top s + of_nat g"
  define f where "f = (\<lambda>i. p + of_nat (g + i) :: u64)"
  have lay: "g + unat (block_bytes n) = 4096 * unat c" "unat n + 16 \<le> unat (block_bytes n)"
    "c * page_size - block_bytes n = of_nat g"
    using block_layout [OF n] by (simp_all add: c g_def)
  have map: "maps_to s3 v 16 f"
    unfolding maps_to_def
  proof (intro allI impI)
    fix i assume "i < (16 :: nat)"
    then have "g + i < 4096 * unat c" using lay by simp
    from e3(2) [OF this] show "hw_translate (ram s3) (cr3 s3) (v + of_nat i) = Some (f i)"
      by (simp add: heap_map_def v_def f_def add.assoc)
  qed
  have fdata: "pmm_data s3 (cr3 s3) (f i) \<and> \<not> pmm_data s (cr3 s) (f i)" if "i < 16" for i
    using s2(8) [of "g + i"] lay that by (simp add: s3_def f_def s2(3))
  have "inj_on f {..<16}"
  proof (rule inj_onI)
    fix i j assume ij: "i \<in> {..<16}" "j \<in> {..<16}" "f i = f j"
    then have "(of_nat i :: u64) = of_nat j" by (simp add: f_def)
    then show "i = j" using ij by (simp add: word_of_nat_eq_iff take_bit_nat_eq_self)
  qed
  then obtain m where m: "rbind (virt_store64 v (block_bytes n - 16) s3) (virt_store64 (v + 8) c) = Inr (s3\<lparr>ram := m\<rparr>)"
    "\<And>x. x \<notin> f ` {..<16} \<Longrightarrow> m x = ram s3 x"
    "virt_load64 v (s3\<lparr>ram := m\<rparr>) = Inr (block_bytes n - 16)" "virt_load64 (v + 8) (s3\<lparr>ram := m\<rparr>) = Inr c"
    using write_header [of s3 v f "block_bytes n - 16" c] map fdata s2(2) by (auto simp: s3_def)
  define s' where "s' = heap_release (s3\<lparr>ram := m\<rparr>)"
  have keep: "m x = ram s3 x" if "\<not> pmm_data s3 (cr3 s3) x \<or> pmm_data s (cr3 s) x" for x
    using that fdata by (intro m(2)) auto
  have "m x = ram s3 x" if "\<not> pmm_data s3 (cr3 s3) x" for x using keep that by blast
  then have st: "space_ok (s3\<lparr>ram := m\<rparr>) (cr3 s3)" "hw_walk m (cr3 s3) = hw_walk (ram s3) (cr3 s3)"
    "pmm_data (s3\<lparr>ram := m\<rparr>) (cr3 s3) = pmm_data s3 (cr3 s3)"
    using data_store [of s3 "cr3 s3" m] s2(2) by (simp_all add: s3_def)
  have ext: "heap_extended s s' p c"
    using ext3 st keep top3 s2(3) by (simp add: heap_extended_def s'_def s3_def)
  have lock: "heap_lock s = Inr (s\<lparr>mm_lock := w\<rparr>)"
    using h(5) by (simp add: heap_lock_def spinlock_lock_eq w_def)
  have hdr: "rbind (virt_store64 v (block_bytes n - 16) s3) (\<lambda>s4. rbind (virt_store64 (v + 8) c s4) k)
      = k (s3\<lparr>ram := m\<rparr>)" for k :: "_ \<Rightarrow> (u64 \<times> 'a heap_state_scheme) result"
    using m(1) rbind_assoc [of "virt_store64 v (block_bytes n - 16) s3" "virt_store64 (v + 8) c" k] by simp
  have s3_eq: "s2\<lparr>heap_top := heap_top s + page_size * c\<rparr> = s3" by (simp add: s3_def s2(5))
  have "malloc n s = Inr (v + 16, s')"
    using p lay(3) hdr s2(1,5) pmm_alloc_frame [OF run]
    by (simp add: malloc_def lock Let_def c [symmetric] pmm_alloc_mm_lock [OF run] get_current_context_def
        s3_eq v_def [symmetric] s'_def)
  moreover have "virt_load64 v s' = Inr (block_bytes n - 16)" "virt_load64 (v + 8) s' = Inr c"
    using m(3,4) virt_load64_frame [of s' "s3\<lparr>ram := m\<rparr>"] by (simp_all add: s'_def)
  ultimately show thesis
    using that ext heap_extended_inv(1) [OF inv ext al bound room] by (simp add: v_def g_def)
qed

section \<open>The heap as a map from addresses to bytes\<close>

text \<open>The abstract view of the heap: the bytes from \<open>memory_base\<close> to \<open>top\<close>, with no mention of frames
  and tables.\<close>

definition heap_bytes :: "'a heap_state_scheme \<Rightarrow> u64 \<rightharpoonup> u8" where
  "heap_bytes s v = (if heap_addr s v then map_option (ram s) (heap_map s v) else None)"

lemma heap_bytes_load:
  assumes "heap_inv s" "heap_addr s v"
  shows "virt_load8 v s = Inr (the (heap_bytes s v))"
  using heap_invD(7) [OF assms] assms(2) by (auto simp: virt_load8_def heap_bytes_def heap_map_def)

lemma dom_heap_bytes: "heap_inv s \<Longrightarrow> dom (heap_bytes s) = {v. heap_addr s v}"
  using heap_invD(7) [of s] by (force simp: heap_bytes_def split: if_splits)

lemma heap_store_refines:
  fixes s :: "'a heap_state_scheme"
  assumes inv: "heap_inv s" and v: "heap_addr s v"
  obtains m where "virt_store8 v b s = Inr (s\<lparr>ram := m\<rparr>)" "heap_inv (s\<lparr>ram := m\<rparr>)"
    "heap_bytes (s\<lparr>ram := m\<rparr>) = (heap_bytes s)(v \<mapsto> b)"
proof -
  note h = heap_invD [OF inv]
  obtain x where x: "heap_map s v = Some x" "pmm_data s (cr3 s) x" using h(7) [OF v] by blast
  define m where "m = (ram s)(x := b)"
  let ?s = "s\<lparr>ram := m\<rparr>"
  have "m y = ram s y" if "\<not> pmm_data s (cr3 s) y" for y using that x(2) by (auto simp: m_def)
  note st = data_store [OF h(1) this]
  have addr: "heap_addr ?s = heap_addr s" by (simp add: heap_addr_def fun_eq_iff)
  have mp: "heap_map ?s = heap_map s"
    using st(2) by (simp add: heap_map_def hw_translate_def fun_eq_iff)
  have "heap_inv ?s"
    using inv st(1-3) unfolding heap_inv_def addr mp by simp
  moreover have "heap_bytes ?s = (heap_bytes s)(v \<mapsto> b)"
  proof
    fix w
    have bytes: "heap_bytes ?s w = (if heap_addr s w then map_option m (heap_map s w) else None)"
      by (simp add: heap_bytes_def addr mp)
    show "heap_bytes ?s w = ((heap_bytes s)(v \<mapsto> b)) w"
    proof (cases "heap_addr s w \<and> w \<noteq> v")
      case True
      then obtain y where "heap_map s w = Some y" using h(7) by blast
      moreover have "heap_map s w \<noteq> heap_map s v" using True v h(8) by blast
      ultimately show ?thesis using True x(1) unfolding bytes by (simp add: heap_bytes_def m_def)
    next
      case False
      then consider "w = v" | "\<not> heap_addr s w" "w \<noteq> v" using v by blast
      then show ?thesis using v x(1) unfolding bytes by cases (simp_all add: heap_bytes_def m_def)
    qed
  qed
  moreover have "virt_store8 v b s = Inr ?s" using x(1) by (simp add: virt_store8_def heap_map_def m_def)
  ultimately show thesis using that by blast
qed

text \<open>What \<open>malloc\<close> does to the abstract heap.\<close>

lemma heap_extended_bytes:
  assumes inv: "heap_inv s" and ext: "heap_extended s s' p c"
    and al: "aligned 12 p" and bound: "unat p + 4096 * unat c \<le> 2 ^ 44"
    and room: "unat (heap_top s) + 4096 * unat c \<le> 2 ^ 46"
  shows "heap_bytes s \<subseteq>\<^sub>m heap_bytes s'" and "unat (heap_top s') = unat (heap_top s) + 4096 * unat c"
proof -
  define k where "k = 4096 * unat c"
  have k: "k \<le> 2 ^ 46" using room by (simp add: k_def)
  then have "unat (of_nat k :: u64) = k" by (simp add: unat_of_nat)
  then show top': "unat (heap_top s') = unat (heap_top s) + 4096 * unat c"
    using ext room unfolding heap_extended_def k_def [symmetric]
    by (simp add: unat_add_u64)
  show "heap_bytes s \<subseteq>\<^sub>m heap_bytes s'"
    unfolding map_le_def
  proof
    fix v assume "v \<in> dom (heap_bytes s)"
    then have v: "heap_addr s v" by (simp add: dom_heap_bytes [OF inv])
    then obtain x where x: "heap_map s v = Some x" "pmm_data s (cr3 s) x" using heap_invD(7) [OF inv] by blast
    have "heap_addr s' v" using v top' by (simp add: heap_addr_def word_less_nat_alt)
    moreover have "ram s' x = ram s x" using ext x(2) by (simp add: heap_extended_def)
    ultimately show "heap_bytes s v = heap_bytes s' v"
      using v x(1) extended_old [OF inv ext al bound room v] by (simp add: heap_bytes_def)
  qed
qed

text \<open>The conditions under which a request of \<open>n\<close> bytes succeeds, with its pages at \<open>p\<close>: a run of free
  pages inside the bitmap, pages for the tables, and room in the lower half.\<close>

definition malloc_room :: "'a heap_state_scheme \<Rightarrow> u64 \<Rightarrow> u64 \<Rightarrow> bool" where
  "malloc_room s n p \<longleftrightarrow>
     (let c = block_pages (block_bytes n)
      in heap_inv s \<and> unat n < 2 ^ 48 \<and> p \<noteq> 0 \<and> unat p div 4096 + unat c \<le> unat (bitmap_len s) \<and>
         unat (heap_top s) + 4096 * unat c \<le> 2 ^ 46 \<and>
         (\<exists>s1. pmm_alloc c s = Inr (p, s1) \<and> can_alloc (pmm_alloc 1) (3 * unat c) s1))"

lemma malloc_room_block:
  fixes s :: "'a heap_state_scheme"
  assumes "malloc_room s n p"
  obtains a s' where "malloc n s = Inr (a, s')" "heap_inv s'" "cr3 s' = cr3 s" "heap_bytes s \<subseteq>\<^sub>m heap_bytes s'"
    "unat (heap_top s) + 16 \<le> unat a" "unat a + unat n \<le> unat (heap_top s')"
    "virt_load64 (a - 16) s' = Inr (block_bytes n - 16)"
    "virt_load64 (a - 8) s' = Inr (block_pages (block_bytes n))"
proof -
  define c where "c = block_pages (block_bytes n)"
  obtain s1 where r: "heap_inv s" "unat n < 2 ^ 48" "p \<noteq> 0" "unat p div 4096 + unat c \<le> unat (bitmap_len s)"
    "unat (heap_top s) + 4096 * unat c \<le> 2 ^ 46" "pmm_alloc c s = Inr (p, s1)"
    "can_alloc (pmm_alloc 1) (3 * unat c) s1"
    using assms by (auto simp: malloc_room_def Let_def c_def)
  have wf: "pmm_wf s" using heap_invD(1) [OF r(1)] by (simp add: vmm_inv_def)
  note blk = block_aligned [OF wf r(6,3,4)] block_bound [OF wf r(6,3,4)]
  obtain s' where s': "malloc n s = Inr (heap_top s + of_nat (block_gap n) + 16, s')" "heap_inv s'"
    "heap_extended s s' p c"
    "virt_load64 (heap_top s + of_nat (block_gap n)) s' = Inr (block_bytes n - 16)"
    "virt_load64 (heap_top s + of_nat (block_gap n) + 8) s' = Inr c"
    by (rule malloc_block [OF c_def r(1,2,6,3,4,7,5)])
  note bytes = heap_extended_bytes [OF r(1) s'(3) blk r(5)]
  define a where "a = heap_top s + of_nat (block_gap n) + 16"
  have lay: "block_gap n + unat (block_bytes n) = 4096 * unat c" "unat n + 16 \<le> unat (block_bytes n)"
    using block_layout [OF r(2)] by (simp_all add: c_def)
  have n46: "4096 * unat c \<le> 2 ^ 46" using r(5) by simp
  have "unat (heap_top s + of_nat (block_gap n + 15)) = unat (heap_top s) + (block_gap n + 15)"
    using lay by (intro heap_addr_no_wrap [OF r(1) n46]) simp
  moreover have a15: "a = heap_top s + of_nat (block_gap n + 15) + 1" by (simp add: a_def)
  ultimately have ua: "unat a = unat (heap_top s) + block_gap n + 16"
    using r(5) lay unfolding a15 by (subst unat_add_u64) simp_all
  show thesis
  proof (rule that [of a s'])
    show "unat (heap_top s) + 16 \<le> unat a" "unat a + unat n \<le> unat (heap_top s')"
      using ua lay bytes(2) by simp_all
    show "cr3 s' = cr3 s" using s'(3) by (simp add: heap_extended_def)
    have "a - 8 = heap_top s + of_nat (block_gap n) + 8" by (simp add: a_def)
    then show "virt_load64 (a - 8) s' = Inr (block_pages (block_bytes n))" by (simp only: s'(5) c_def [symmetric])
  qed (use s' bytes in \<open>simp_all add: a_def c_def\<close>)
qed

text \<open>Clearing a range of the heap.\<close>

lemma virt_memset_heap:
  fixes s :: "'a heap_state_scheme"
  assumes "heap_inv s" "\<And>i. i < n \<Longrightarrow> heap_addr s (v + of_nat i)" "n < 2 ^ 64"
  shows "\<exists>m. virt_memset_n n v b s = Inr (s\<lparr>ram := m\<rparr>) \<and> heap_inv (s\<lparr>ram := m\<rparr>) \<and>
    heap_bytes (s\<lparr>ram := m\<rparr>) = (\<lambda>w. if in_range w v n then Some b else heap_bytes s w)"
  using assms
proof (induction n arbitrary: s v)
  case 0
  then show ?case by (intro exI [of _ "ram s"]) simp
next
  case (Suc n)
  obtain m where m: "virt_store8 v b s = Inr (s\<lparr>ram := m\<rparr>)" "heap_inv (s\<lparr>ram := m\<rparr>)"
    "heap_bytes (s\<lparr>ram := m\<rparr>) = (heap_bytes s)(v \<mapsto> b)"
    using heap_store_refines [OF Suc.prems(1)] Suc.prems(2) [of 0] by auto
  have "heap_addr (s\<lparr>ram := m\<rparr>) (v + 1 + of_nat i)" if "i < n" for i
    using Suc.prems(2) [of "Suc i"] that by (simp add: heap_addr_def ac_simps)
  from Suc.IH [OF m(2) this] Suc.prems(3) obtain m' where m':
    "virt_memset_n n (v + 1) b (s\<lparr>ram := m\<rparr>) = Inr (s\<lparr>ram := m'\<rparr>)" "heap_inv (s\<lparr>ram := m'\<rparr>)"
    "heap_bytes (s\<lparr>ram := m'\<rparr>)
      = (\<lambda>w. if in_range w (v + 1) n then Some b else heap_bytes (s\<lparr>ram := m\<rparr>) w)"
    by auto
  have "heap_bytes (s\<lparr>ram := m'\<rparr>) = (\<lambda>w. if in_range w v (Suc n) then Some b else heap_bytes s w)"
    unfolding m'(3) m(3) using Suc.prems(3) by (auto simp: in_range_Suc)
  with m(1) m'(1,2) show ?case by auto
qed

text \<open>A heap for the witnesses: 28 pages of physical memory, the first one for the bitmap and the second
  for an empty root table.\<close>

definition demo_boot :: heap_state where
  "demo_boot = \<lparr>ram = ram small_pmm, bitmap = bitmap small_pmm, free_pages = 0, total_pages = 0,
     bitmap_len = 8220, kernel_pml4 = small_root, cr3 = small_root, mm_lock = 0, heap_top = memory_base\<rparr>"

definition demo_heap :: heap_state where
  "demo_heap = fresh_space demo_boot"

lemma demo_boot_fields [simp]:
  "bitmap_len demo_boot = 8220" "cr3 demo_boot = small_root" "mm_lock demo_boot = 0"
  "heap_top demo_boot = memory_base"
  by (simp_all add: demo_boot_def)

lemma demo_boot_marked: "8192 \<le> i \<Longrightarrow> i < 8220 \<Longrightarrow> page_marked demo_boot i \<longleftrightarrow> i < 8193"
  using small_pmm_group [of i 8220] by (simp add: page_marked_def demo_boot_def)

lemma demo_boot_wf: "pmm_wf demo_boot"
proof (rule pmm_wf_marked_bitmap)
  show "page_marked demo_boot (first_page + of_nat k)"
    if "k < unat (bitmap_pages (bitmap_len demo_boot))" for k
    using that demo_boot_marked [of 8192] by (simp add: first_page_eq bitmap_pages_def mm_consts)
qed (simp_all add: demo_boot_def small_pmm_def bitmap_fits_def)

lemma demo_boot_root: "pmm_alloc 1 demo_boot = Inr (small_root, pmm_take 8193 1 demo_boot)"
  using prefix_run [OF demo_boot_wf, of 8193 1] demo_boot_marked by (simp add: mm_consts small_root_def)

lemma demo_heap_eq: "demo_heap = (pmm_take 8193 1 demo_boot)
    \<lparr>ram := memset (ram (pmm_take 8193 1 demo_boot)) small_root 0 4096\<rparr>"
  by (simp add: demo_heap_def fresh_space_def demo_boot_root)

lemma demo_heap_fields [simp]:
  "bitmap_len demo_heap = 8220" "cr3 demo_heap = small_root" "mm_lock demo_heap = 0"
  "heap_top demo_heap = memory_base"
  by (simp_all add: demo_heap_eq pmm_take_def)

lemma demo_heap_space:
  "space_ok demo_heap small_root" "hw_walk (ram demo_heap) small_root v = Unmapped"
proof -
  have "returned (pmm_alloc 1 demo_boot) = Some small_root" by (simp add: demo_boot_root returned_def)
  from fresh_space_ok [OF demo_boot_wf this] show
    "space_ok demo_heap small_root" "hw_walk (ram demo_heap) small_root v = Unmapped"
    by (simp_all add: demo_heap_def)
qed

lemma demo_heap_inv: "heap_inv demo_heap"
proof -
  have "\<not> heap_addr demo_heap v" for v by (auto simp: heap_addr_def)
  then show ?thesis using demo_heap_space by (simp add: heap_inv_def mm_consts aligned_def)
qed

lemma demo_heap_marked: "8192 \<le> i \<Longrightarrow> i < 8220 \<Longrightarrow> page_marked demo_heap i \<longleftrightarrow> i < 8194"
proof -
  assume i: "8192 \<le> i" "i < 8220"
  have "page_marked demo_heap i = page_marked (pmm_take 8193 1 demo_boot) i"
    unfolding demo_heap_eq using fresh_space_keeps [OF demo_boot_wf demo_boot_root] i
    by (intro page_marked_cong) simp_all
  also have "\<dots> \<longleftrightarrow> i < 8193 + 1"
    using prefix_marks [OF demo_boot_wf, of 8193 1 i] demo_boot_marked i by simp
  finally show ?thesis by simp
qed

lemma demo_room:
  assumes c: "block_pages (block_bytes n) = 2" and n: "unat n < 2 ^ 48"
  shows "malloc_room demo_heap n 0x2002000"
proof -
  have wf: "pmm_wf demo_heap" using demo_heap_space(1) by (simp add: vmm_inv_def)
  note first = pmm_alloc_prefix [OF wf, of 8194 2]
  have run: "pmm_alloc 2 demo_heap = Inr (0x2002000, pmm_take 8194 2 demo_heap)"
    using first(1) demo_heap_marked by (simp add: mm_consts)
  have "page_marked (pmm_take 8194 2 demo_heap) i \<longleftrightarrow> i < 8196" if "8192 \<le> i" "i < 8220" for i
    using first(2) [of i] demo_heap_marked that by simp
  then have "can_alloc (pmm_alloc 1) 6 (pmm_take 8194 2 demo_heap)"
    using pmm_wf_take [OF wf] by (intro can_alloc_prefix [of _ 8196]) simp_all
  then show ?thesis using run demo_heap_inv n by (simp add: malloc_room_def Let_def c mm_consts)
qed

lemma demo_heap_room: "malloc_room demo_heap 8 0x2002000"
proof (rule demo_room)
  show "block_pages (block_bytes 8) = 2" by code_simp
qed simp

section \<open>Properties of allocation\<close>

text \<open>C15: a request that finds its pages returns a block above everything allocated before: the
  block and its header lie between the old and the new end of the heap, the header holds the rounded
  size and the number of pages, every byte of the older blocks keeps its value, and the invariant
  holds again.\<close>

theorem malloc_returns_fresh_block:
  fixes s :: "'a heap_state_scheme"
  assumes "malloc_room s n p"
  shows "\<exists>a s'. malloc n s = Inr (a, s') \<and> heap_inv s' \<and> heap_bytes s \<subseteq>\<^sub>m heap_bytes s' \<and>
    unat (heap_top s) + 16 \<le> unat a \<and> unat a + unat n \<le> unat (heap_top s') \<and>
    virt_load64 (a - 16) s' = Inr (block_bytes n - 16) \<and>
    virt_load64 (a - 8) s' = Inr (block_pages (block_bytes n))"
  using malloc_room_block [OF assms] by metis

theorem malloc_returns_fresh_block_witness:
  "\<exists>a s'. malloc 8 demo_heap = Inr (a, s') \<and> heap_inv s' \<and> virt_load64 (a - 16) s' = Inr 8"
proof -
  have "block_bytes 8 - 16 = 8" by code_simp
  then show ?thesis using malloc_returns_fresh_block [OF demo_heap_room] by metis
qed

text \<open>On the heap, virtual memory behaves like an array of bytes: a store at a heap address
  changes the byte at that address and at no other, although it goes through the page tables, and
  keeps the invariant; a load returns the last byte stored.\<close>

theorem heap_store_load:
  fixes s :: "'a heap_state_scheme"
  assumes "heap_inv s" and "heap_addr s v"
  shows "\<exists>s'. virt_store8 v b s = Inr s' \<and> heap_inv s' \<and> heap_bytes s' = (heap_bytes s)(v \<mapsto> b) \<and>
    virt_load8 v s' = Inr b"
proof -
  obtain m where m: "virt_store8 v b s = Inr (s\<lparr>ram := m\<rparr>)" "heap_inv (s\<lparr>ram := m\<rparr>)"
    "heap_bytes (s\<lparr>ram := m\<rparr>) = (heap_bytes s)(v \<mapsto> b)"
    using heap_store_refines [OF assms] by metis
  have "heap_addr (s\<lparr>ram := m\<rparr>) v" using assms(2) by (simp add: heap_addr_def)
  from heap_bytes_load [OF m(2) this] m show ?thesis by auto
qed

text \<open>The demo heap after a first block of eight bytes.\<close>

lemma demo_block:
  obtains a and s :: heap_state where "malloc 8 demo_heap = Inr (a, s)" "heap_inv s" "heap_addr s a"
proof -
  obtain a s where a: "malloc 8 demo_heap = Inr (a, s)" "heap_inv s"
    "unat (heap_top demo_heap) + 16 \<le> unat a" "unat a + unat (8 :: u64) \<le> unat (heap_top s)"
    using malloc_room_block [OF demo_heap_room] by metis
  then have "heap_addr s a" by (simp add: heap_addr_def word_le_nat_alt word_less_nat_alt)
  with a(1,2) show thesis by (rule that)
qed

theorem heap_store_load_witness:
  "\<exists>(s :: heap_state) a s'. virt_store8 a 42 s = Inr s' \<and> virt_load8 a s' = Inr 42"
proof -
  obtain a and s :: heap_state where "heap_inv s" "heap_addr s a" by (rule demo_block)
  from heap_store_load [OF this] show ?thesis by blast
qed

lemma calloc_block:
  fixes s :: "'a heap_state_scheme"
  assumes "malloc_room s n p"
  shows "\<exists>a s'. calloc n s = Inr (a, s') \<and> heap_inv s' \<and> heap_bytes s \<subseteq>\<^sub>m heap_bytes s' \<and>
    unat (heap_top s) + 16 \<le> unat a \<and> unat a + unat n \<le> unat (heap_top s') \<and>
    (\<forall>i < unat n. heap_bytes s' (a + of_nat i) = Some 0)"
proof -
  obtain a s1 where a: "malloc n s = Inr (a, s1)" "heap_inv s1" "heap_bytes s \<subseteq>\<^sub>m heap_bytes s1"
    "unat (heap_top s) + 16 \<le> unat a" "unat a + unat n \<le> unat (heap_top s1)"
    using malloc_room_block [OF assms] by metis
  have lim: "unat (heap_top s1) \<le> 2 ^ 46" using heap_invD(4) [OF a(2)] .
  have ui: "unat (a + of_nat i) = unat a + i" if "i < unat n" for i
    using that a(5) lim by (subst unat_add_u64) (simp_all add: unat_of_nat)
  have base: "unat memory_base \<le> unat (heap_top s)"
    using assms heap_invD(3) [of s] by (simp add: malloc_room_def Let_def word_le_nat_alt)
  have "heap_addr s1 (a + of_nat i)" if "i < unat n" for i
    using that ui [OF that] a(4,5) base by (simp add: heap_addr_def word_le_nat_alt word_less_nat_alt)
  then obtain m where m: "virt_memset_n (unat n) a 0 s1 = Inr (s1\<lparr>ram := m\<rparr>)" "heap_inv (s1\<lparr>ram := m\<rparr>)"
    "heap_bytes (s1\<lparr>ram := m\<rparr>) = (\<lambda>w. if in_range w a (unat n) then Some 0 else heap_bytes s1 w)"
    using virt_memset_heap [OF a(2), of "unat n" a 0] unat_u64_less [of n] by auto
  have "\<not> in_range w a (unat n)" if "heap_addr s w" for w
  proof
    assume "in_range w a (unat n)"
    then have "unat (w - a) < unat n" by (simp add: in_range_def)
    from ui [OF this] have "unat a \<le> unat w" by simp
    then show False using that a(4) by (simp add: heap_addr_def word_less_nat_alt)
  qed
  then have "heap_bytes s \<subseteq>\<^sub>m heap_bytes (s1\<lparr>ram := m\<rparr>)"
    using a(3) by (auto simp: map_le_def m(3) heap_bytes_def split: if_splits)
  moreover have "heap_bytes (s1\<lparr>ram := m\<rparr>) (a + of_nat i) = Some 0" if "i < unat n" for i
    using that unat_u64_less [of n] by (simp add: m(3) in_range_def unat_of_nat)
  ultimately show ?thesis using a(1,4,5) m(1,2) by (auto simp: calloc_def)
qed

text \<open>\<open>calloc\<close> returns a block whose bytes all read zero, and leaves the older blocks alone.\<close>

theorem calloc_returns_zeroes:
  fixes s :: "'a heap_state_scheme"
  assumes "malloc_room s n p"
  shows "\<exists>a s'. calloc n s = Inr (a, s') \<and> heap_inv s' \<and> heap_bytes s \<subseteq>\<^sub>m heap_bytes s' \<and>
    unat (heap_top s) + 16 \<le> unat a \<and> (\<forall>i < unat n. heap_bytes s' (a + of_nat i) = Some 0)"
  using calloc_block [OF assms] by blast

theorem calloc_returns_zeroes_witness:
  "\<exists>a s'. calloc 8 demo_heap = Inr (a, s') \<and> heap_bytes s' (a + of_nat 7) = Some 0"
proof -
  obtain a s' where "calloc 8 demo_heap = Inr (a, s')" "\<forall>i < unat (8 :: u64). heap_bytes s' (a + of_nat i) = Some 0"
    using calloc_returns_zeroes [OF demo_heap_room] by blast
  from this(1) spec [OF this(2), of 7] show ?thesis by auto
qed

section \<open>Failures\<close>

text \<open>When no run of pages is free, \<open>malloc\<close> returns null with the lock released and nothing
  changed; \<open>calloc\<close> then clears the block at address 0, which faults unless page 0 is mapped.\<close>

theorem malloc_exhausted_returns_null:
  fixes s :: "'a heap_state_scheme"
  assumes "\<not> bit (mm_lock s) 0" and "pmm_alloc (block_pages (block_bytes n)) s = Inr (0, s)"
  shows "malloc n s = Inr (0, s) \<and>
    (n \<noteq> 0 \<and> hw_walk (ram s) (cr3 s) 0 = Unmapped \<longrightarrow> calloc n s = Inl PageFault)"
proof -
  have lock: "heap_lock s = Inr (s\<lparr>mm_lock := mm_lock s OR 1\<rparr>)"
    using assms(1) by (simp add: heap_lock_def spinlock_lock_eq)
  have "malloc n s = Inr (0, s)"
    using pmm_alloc_mm_lock [OF assms(2), of "mm_lock s OR 1"] spinlock_release_lock [OF assms(1)]
    by (simp add: malloc_def lock Let_def heap_release_def)
  moreover have "calloc n s = Inl PageFault" if "n \<noteq> 0" "hw_walk (ram s) (cr3 s) 0 = Unmapped"
  proof -
    have "unat n \<noteq> 0" using that(1) by (simp add: unat_eq_zero)
    then obtain k where "unat n = Suc k" using not0_implies_Suc by blast
    then show ?thesis
      using that(2) calculation by (simp add: calloc_def virt_store8_def hw_translate_def)
  qed
  ultimately show ?thesis by blast
qed

theorem malloc_exhausted_returns_null_witness:
  "malloc 8 (demo_heap\<lparr>bitmap_len := 8192\<rparr>) = Inr (0, demo_heap\<lparr>bitmap_len := 8192\<rparr>) \<and>
   calloc 8 (demo_heap\<lparr>bitmap_len := 8192\<rparr>) = Inl PageFault"
proof -
  let ?s = "demo_heap\<lparr>bitmap_len := 8192\<rparr>"
  have "pmm_alloc (block_pages (block_bytes 8)) ?s = Inr (0, ?s)"
    by (subst pmm_alloc_def, subst pmm_alloc_aligned_def, subst find_free.simps)
      (simp add: pmm_max_idx_def mm_consts)
  from malloc_exhausted_returns_null [OF _ this] show ?thesis using demo_heap_space(2) by simp
qed

text \<open>A request within seven bytes of \<open>2 ^ 64\<close> wraps around to nothing: \<open>malloc\<close> answers it
  exactly as it answers a request of zero bytes.\<close>

theorem malloc_size_wraps:
  fixes s :: "'a heap_state_scheme"
  assumes "2 ^ 64 - 7 \<le> unat n"
  shows "malloc n s = malloc 0 s"
proof -
  define k where "k = 2 ^ 64 - unat n"
  have "0 < k" "k \<le> 7" using assms unat_u64_less [of n] by (simp_all add: k_def)
  have "n + of_nat k = 0"
  proof -
    have "of_nat (unat n + k) = (of_nat (2 ^ 64) :: u64)"
      using unat_u64_less [of n] by (simp add: k_def)
    then show ?thesis by simp
  qed
  then have n: "n = - of_nat k" by (simp add: eq_neg_iff_add_eq_0)
  have "k \<in> {1, 2, 3, 4, 5, 6, 7}" using \<open>0 < k\<close> \<open>k \<le> 7\<close> by auto
  then have "block_bytes n = block_bytes 0"
    unfolding n block_bytes_def by auto
  then show ?thesis by (simp add: malloc_def)
qed

theorem malloc_size_wraps_witness: "malloc 0xFFFFFFFFFFFFFFFF demo_heap = malloc 0 demo_heap"
  using malloc_size_wraps [of "0xFFFFFFFFFFFFFFFF" demo_heap] by simp

lemma heap_lock_held: "bit (mm_lock s) 0 \<Longrightarrow> heap_lock s = Inl Deadlock"
  by (simp add: heap_lock_def spinlock_lock_eq)

lemma held_deadlocks:
  assumes "bit (mm_lock s) 0"
  shows "malloc n s = Inl Deadlock" "calloc n s = Inl Deadlock" "heap_free q s = Inl Deadlock"
    "realloc q n s = Inl Deadlock"
  using heap_lock_held [OF assms] by (simp_all add: malloc_def calloc_def heap_free_def realloc_def)

text \<open>The test of \<open>free\<close> compares a page count with an address.\<close>

lemma free_test:
  assumes "memory \<noteq> 10"
  shows "(memory + page_size - 1) div page_size + 1 \<noteq> memory - 8"
proof
  assume eq: "(memory + page_size - 1) div page_size + 1 = memory - 8"
  define q where "q = (memory + 4095) div 4096"
  have q: "unat q = unat (memory + 4095) div 4096" by (simp add: q_def unat_div)
  have "q = (memory + page_size - 1) div page_size" by (simp add: q_def mm_consts add.commute)
  then have "q + 1 = memory - 8" using eq by simp
  then have "memory = q + 1 + 8" by simp
  then have m: "memory = q + 9" by (simp add: add.assoc)
  have bound: "unat q < 2 ^ 52" using q unat_u64_less [of "memory + 4095"] by simp
  then have um: "unat memory = unat q + 9" unfolding m by (subst unat_add_u64) simp_all
  have "unat (memory + 4095) = unat q + 4104"
    using bound um by (subst unat_add_u64) simp_all
  then have fixed: "unat q = (unat q + 4104) div 4096" using q by simp
  have "unat q = 1"
  proof -
    have "4096 * unat q \<le> unat q + 4104"
      using div_times_less_eq_dividend [of "unat q + 4104" 4096] unfolding fixed [symmetric] by simp
    moreover have "1 \<le> unat q" by (subst fixed) simp
    ultimately show ?thesis by linarith
  qed
  then have "memory = 10" using um by (simp add: word_unat_eq_iff)
  then show False using assms by simp
qed

lemma heap_free_returns:
  assumes "\<not> bit (mm_lock s) 0" and "memory \<noteq> 10"
  shows "heap_free memory s = Inr (False, s\<lparr>mm_lock := mm_lock s OR 1\<rparr>)"
  using free_test [OF assms(2)] assms(1)
  by (simp add: heap_free_def heap_lock_def spinlock_lock_eq Let_def)

text \<open>C17: \<open>free\<close> never releases anything. For every address but 10 it returns false without giving
  the lock back, so the next call of \<open>malloc\<close>, \<open>calloc\<close>, \<open>realloc\<close> or \<open>free\<close> spins for ever.\<close>

theorem free_keeps_the_lock:
  fixes s :: "'a heap_state_scheme"
  assumes "\<not> bit (mm_lock s) 0" and "memory \<noteq> 10"
  shows "\<exists>s'. heap_free memory s = Inr (False, s') \<and> s' = s\<lparr>mm_lock := mm_lock s OR 1\<rparr> \<and>
    malloc n s' = Inl Deadlock \<and> calloc n s' = Inl Deadlock \<and> realloc q n s' = Inl Deadlock \<and>
    heap_free q s' = Inl Deadlock"
  using heap_free_returns [OF assms] held_deadlocks [of "s\<lparr>mm_lock := mm_lock s OR 1\<rparr>"] by simp

theorem free_keeps_the_lock_witness:
  "\<exists>a s s'. malloc 8 demo_heap = Inr (a, s) \<and> heap_free a s = Inr (False, s') \<and> malloc 8 s' = Inl Deadlock"
proof -
  obtain a s where a: "malloc 8 demo_heap = Inr (a, s)" "heap_inv s" "heap_addr s a" by (rule demo_block)
  have "\<not> bit (mm_lock s) 0" "a \<noteq> 10" using heap_invD(5) [OF a(2)] a(3) by (auto simp: heap_addr_def mm_consts)
  from free_keeps_the_lock [OF this, of 8] a(1) show ?thesis by blast
qed

text \<open>\<open>realloc\<close> of an existing block ends by calling \<open>free\<close>: when it returns at all, the lock
  stays taken and the heap is dead.\<close>

theorem realloc_kills_the_heap:
  fixes s :: "'a heap_state_scheme"
  assumes "realloc old n s = Inr (p, s')" and "old \<noteq> 0" and "old \<noteq> 10"
  shows "bit (mm_lock s') 0 \<and> malloc k s' = Inl Deadlock \<and> heap_free q s' = Inl Deadlock"
proof -
  obtain s1 where "heap_free old s1 = Inr (False, s') \<or> heap_free old s1 = Inr (True, s')"
    using assms(1,2) by (auto simp: realloc_def rbind_eq_Inr Let_def) (metis (full_types))
  then have "bit (mm_lock s') 0"
    using free_test [OF assms(3)] by (auto simp: heap_free_def heap_lock_def spinlock_lock_eq rbind_eq_Inr Let_def
        split: if_splits)
  then show ?thesis using held_deadlocks by blast
qed

theorem realloc_kills_the_heap_witness:
  "\<exists>p s'. realloc 16 8 demo_heap = Inr (p, s') \<and> malloc 8 s' = Inl Deadlock"
proof -
  obtain a s where a: "malloc 8 demo_heap = Inr (a, s)" "heap_inv s" by (rule demo_block)
  have lock: "\<not> bit (mm_lock s) 0" using heap_invD(5) [OF a(2)] .
  have "\<exists>s'. realloc 16 8 demo_heap = Inr (a, s')"
    using lock free_test [of 16]
    by (simp add: realloc_def a(1) heap_lock_def heap_release_def heap_free_def spinlock_lock_eq
        spinlock_release_lock Let_def)
  then obtain s' where r: "realloc 16 8 demo_heap = Inr (a, s')" by blast
  from realloc_kills_the_heap [OF r] r show ?thesis by auto
qed

end
