(* ===== verification/HeapBlocks.thy ===== *)
theory HeapBlocks
  imports HeapSafety
begin

text \<open>
  The kernel heap as its clients see it. A client calls \<open>malloc\<close> and \<open>calloc\<close> and stores bytes into the
  blocks it got; the abstract state is the list of those blocks with their contents. Every run of these
  operations on the model of \<open>mm.cpp\<close> is a run of the abstract list.
\<close>

section \<open>Blocks\<close>

text \<open>A block is its address and its bytes, the newest block first. A byte that was never stored is \<open>None\<close>:
  \<open>malloc\<close> promises nothing about it.\<close>

type_synonym blocks = "(u64 \<times> u8 option list) list"

text \<open>The blocks lie between two addresses, each one with a header of 16 bytes above all the older ones.\<close>

primrec blocks_apart :: "nat \<Rightarrow> nat \<Rightarrow> blocks \<Rightarrow> bool" where
  "blocks_apart lo hi [] \<longleftrightarrow> lo \<le> hi"
| "blocks_apart lo hi (blk # bs) \<longleftrightarrow>
     unat (fst blk) + length (snd blk) \<le> hi \<and> 16 \<le> unat (fst blk) \<and> blocks_apart lo (unat (fst blk) - 16) bs"

lemma blocks_apart_mono: "blocks_apart lo hi bs \<Longrightarrow> hi \<le> hi' \<Longrightarrow> blocks_apart lo hi' bs"
  by (cases bs) auto

lemma blocks_apart_update:
  "blocks_apart lo hi bs \<Longrightarrow> j < length bs \<Longrightarrow> blocks_apart lo hi (bs[j := (fst (bs ! j), (snd (bs ! j))[i := x])])"
  by (induction bs arbitrary: hi j) (auto simp: nth_Cons' split: nat.split)

lemma blocks_apart_bounds:
  "blocks_apart lo hi bs \<Longrightarrow> j < length bs \<Longrightarrow>
     lo + 16 \<le> unat (fst (bs ! j)) \<and> unat (fst (bs ! j)) + length (snd (bs ! j)) \<le> hi"
proof (induction bs arbitrary: hi j)
  case (Cons blk bs)
  have low: "lo \<le> unat (fst blk) - 16"
    using Cons.prems(1) Cons.IH [of "unat (fst blk) - 16" 0] by (cases bs) auto
  show ?case
  proof (cases j)
    case 0
    then show ?thesis using Cons.prems(1) low by (simp add: le_diff_conv2)
  next
    case (Suc k)
    then have "k < length bs" "blocks_apart lo (unat (fst blk) - 16) bs" using Cons.prems by simp_all
    note IH = Cons.IH [OF this(2,1)]
    moreover have "unat (fst blk) - 16 \<le> hi" using Cons.prems(1) by (intro le_trans [OF diff_le_self]) simp
    ultimately show ?thesis unfolding Suc nth_Cons_Suc by (meson order_trans)
  qed
qed simp

lemma blocks_apart_order:
  "blocks_apart lo hi bs \<Longrightarrow> j < k \<Longrightarrow> k < length bs \<Longrightarrow>
     unat (fst (bs ! k)) + length (snd (bs ! k)) + 16 \<le> unat (fst (bs ! j))"
proof (induction bs arbitrary: hi j k)
  case (Cons blk bs)
  then obtain k' where k: "k = Suc k'" by (cases k) auto
  show ?case
  proof (cases j)
    case 0
    then show ?thesis using Cons.prems blocks_apart_bounds [of lo "unat (fst blk) - 16" bs k'] k
      by (simp add: le_diff_conv2)
  next
    case (Suc j')
    then show ?thesis using Cons.prems Cons.IH [of "unat (fst blk) - 16" j' k'] k by simp
  qed
qed simp

text \<open>So no two bytes of the blocks share an address.\<close>

lemma blocks_byte_address:
  assumes "blocks_apart lo hi bs" "hi \<le> 2 ^ 46" "j < length bs" "i < length (snd (bs ! j))"
  shows "unat (fst (bs ! j) + of_nat i) = unat (fst (bs ! j)) + i"
  using assms(2,4) blocks_apart_bounds [OF assms(1,3)] by (subst unat_add_u64) (simp_all add: unat_of_nat)

lemma blocks_distinct:
  assumes "blocks_apart lo hi bs" "hi \<le> 2 ^ 46" and j: "j < length bs" "i < length (snd (bs ! j))"
    and k: "k < length bs" "i' < length (snd (bs ! k))" and eq: "fst (bs ! j) + of_nat i = fst (bs ! k) + of_nat i'"
  shows "j = k \<and> i = i'"
proof -
  have sum: "unat (fst (bs ! j)) + i = unat (fst (bs ! k)) + i'"
    using blocks_byte_address [OF assms(1,2) j] blocks_byte_address [OF assms(1,2) k] eq by simp
  have "\<not> j < k" using blocks_apart_order [OF assms(1) _ k(1)] k(2) sum by fastforce
  moreover have "\<not> k < j" using blocks_apart_order [OF assms(1) _ j(1)] j(2) sum by fastforce
  ultimately show ?thesis using sum by (simp add: linorder_neq_iff)
qed

section \<open>Runs\<close>

text \<open>What a client does: requests, answered with a block or refused for want of pages, and stores into
  byte \<open>i\<close> of block \<open>j\<close>.\<close>

datatype heap_op = Malloc u64 | Calloc u64 | Put nat nat u8

inductive heap_step ::
  "'a heap_state_scheme \<times> blocks \<Rightarrow> heap_op \<Rightarrow> 'a heap_state_scheme \<times> blocks \<Rightarrow> bool" where
  malloc_got: "malloc_room s n p \<Longrightarrow> malloc n s = Inr (a, s') \<Longrightarrow>
    heap_step (s, bs) (Malloc n) (s', (a, replicate (unat n) None) # bs)"
| malloc_refused: "pmm_alloc (block_pages (block_bytes n)) s = Inr (0, s1) \<Longrightarrow> malloc n s = Inr (0, s') \<Longrightarrow>
    heap_step (s, bs) (Malloc n) (s', bs)"
| calloc_got: "malloc_room s n p \<Longrightarrow> calloc n s = Inr (a, s') \<Longrightarrow>
    heap_step (s, bs) (Calloc n) (s', (a, replicate (unat n) (Some 0)) # bs)"
| put: "j < length bs \<Longrightarrow> i < length (snd (bs ! j)) \<Longrightarrow> virt_store8 (fst (bs ! j) + of_nat i) b s = Inr s' \<Longrightarrow>
    heap_step (s, bs) (Put j i b) (s', bs[j := (fst (bs ! j), (snd (bs ! j))[i := Some b])])"

inductive_cases heap_stepE: "heap_step c op c'"

definition heap_runs :: "'a heap_state_scheme \<times> blocks \<Rightarrow> 'a heap_state_scheme \<times> blocks \<Rightarrow> bool" where
  "heap_runs = (\<lambda>c c'. \<exists>op. heap_step c op c')\<^sup>*\<^sup>*"

text \<open>The requests that \<open>mm.cpp\<close> answers: for \<open>calloc\<close> there must be pages, since it clears the block at
  address 0 otherwise.\<close>

fun heap_allows :: "heap_op \<Rightarrow> 'a heap_state_scheme \<Rightarrow> blocks \<Rightarrow> bool" where
  "heap_allows (Malloc n) s bs \<longleftrightarrow>
     (\<exists>p. malloc_room s n p) \<or> (\<exists>s1. pmm_alloc (block_pages (block_bytes n)) s = Inr (0, s1))"
| "heap_allows (Calloc n) s bs \<longleftrightarrow> (\<exists>p. malloc_room s n p)"
| "heap_allows (Put j i b) s bs \<longleftrightarrow> j < length bs \<and> i < length (snd (bs ! j))"

text \<open>The abstract list describes the heap: the invariant holds, the blocks are apart, and every byte that
  was stored is there.\<close>

definition represents :: "u64 \<Rightarrow> 'a heap_state_scheme \<times> blocks \<Rightarrow> bool" where
  "represents start c \<longleftrightarrow>
     (let (s, bs) = c
      in heap_inv s \<and> memory_base \<le> start \<and> blocks_apart (unat start) (unat (heap_top s)) bs \<and>
         (\<forall>j < length bs. \<forall>i < length (snd (bs ! j)). \<exists>b. heap_bytes s (fst (bs ! j) + of_nat i) = Some b \<and>
            (\<forall>x. snd (bs ! j) ! i = Some x \<longrightarrow> b = x)))"

lemma represents_start: "heap_inv s \<Longrightarrow> represents (heap_top s) (s, [])"
  using heap_invD(3) [of s] by (simp add: represents_def)

lemma representsD:
  assumes "represents start (s, bs)"
  shows "heap_inv s" "memory_base \<le> start" "blocks_apart (unat start) (unat (heap_top s)) bs" "unat (heap_top s) \<le> 2 ^ 46"
    and "j < length bs \<Longrightarrow> i < length (snd (bs ! j)) \<Longrightarrow>
      \<exists>b. heap_bytes s (fst (bs ! j) + of_nat i) = Some b \<and> (\<forall>x. snd (bs ! j) ! i = Some x \<longrightarrow> b = x)"
  using assms heap_invD(4) [of s] by (simp_all add: represents_def)

section \<open>Every step is a step of the list\<close>

text \<open>A block at the top of a larger heap.\<close>

lemma represents_block:
  assumes old: "represents start (s, bs)" and "heap_inv s'" "heap_bytes s \<subseteq>\<^sub>m heap_bytes s'"
    and a: "unat (heap_top s) + 16 \<le> unat a" "unat a + length cs \<le> unat (heap_top s')"
    and new: "\<And>i. i < length cs \<Longrightarrow> \<exists>b. heap_bytes s' (a + of_nat i) = Some b \<and> (\<forall>x. cs ! i = Some x \<longrightarrow> b = x)"
  shows "represents start (s', (a, cs) # bs)"
proof -
  note r = representsD [OF old]
  have "blocks_apart (unat start) (unat a - 16) bs"
    using a(1) by (intro blocks_apart_mono [OF r(3)]) simp
  then have "blocks_apart (unat start) (unat (heap_top s')) ((a, cs) # bs)" using a by simp
  moreover have "\<exists>b. heap_bytes s' (fst (bs ! j) + of_nat i) = Some b \<and> (\<forall>x. snd (bs ! j) ! i = Some x \<longrightarrow> b = x)"
    if ji: "j < length bs" "i < length (snd (bs ! j))" for j i
  proof -
    obtain b where b: "heap_bytes s (fst (bs ! j) + of_nat i) = Some b" "\<forall>x. snd (bs ! j) ! i = Some x \<longrightarrow> b = x"
      using r(5) [OF ji] by blast
    have "heap_bytes s' (fst (bs ! j) + of_nat i) = Some b"
      using assms(3) b(1) by (auto simp: map_le_def dom_def)
    with b(2) show ?thesis by blast
  qed
  ultimately show ?thesis using assms(2) r(2) new by (auto simp: represents_def nth_Cons' less_Suc_eq_0_disj)
qed

lemma heap_bytes_dom: "heap_inv s \<Longrightarrow> memory_base \<le> v \<Longrightarrow> v < heap_top s \<Longrightarrow> \<exists>b. heap_bytes s v = Some b"
  using dom_heap_bytes [of s] by (auto simp: heap_addr_def)

text \<open>A request of \<open>malloc\<close> or \<open>calloc\<close>.\<close>

lemma malloc_represents:
  assumes rep: "represents start (s, bs)" and room: "malloc_room s n p" and run: "malloc n s = Inr (a, s')"
  shows "represents start (s', (a, replicate (unat n) None) # bs)"
proof -
  have m: "heap_inv s'" "heap_bytes s \<subseteq>\<^sub>m heap_bytes s'" "unat (heap_top s) + 16 \<le> unat a"
    "unat a + unat n \<le> unat (heap_top s')"
    using malloc_room_block [OF room] run by auto
  note lim = heap_invD(4) [OF m(1)]
  have "\<exists>b. heap_bytes s' (a + of_nat i) = Some b" if i: "i < unat n" for i
  proof (rule heap_bytes_dom [OF m(1)])
    have u: "unat (a + of_nat i) = unat a + i" using i m(4) lim by (subst unat_add_u64) (simp_all add: unat_of_nat)
    have "unat memory_base \<le> unat (heap_top s)"
      using heap_invD(3) [OF representsD(1) [OF rep]] by (simp add: word_le_nat_alt)
    then show "memory_base \<le> a + of_nat i" "a + of_nat i < heap_top s'"
      using u i m(3,4) by (simp_all add: word_le_nat_alt word_less_nat_alt)
  qed
  then show ?thesis using m by (intro represents_block [OF rep]) simp_all
qed

lemma calloc_represents:
  assumes rep: "represents start (s, bs)" and room: "malloc_room s n p" and run: "calloc n s = Inr (a, s')"
  shows "represents start (s', (a, replicate (unat n) (Some 0)) # bs)"
  using calloc_block [OF room] run by (intro represents_block [OF rep]) auto

text \<open>A refused request changes nothing.\<close>

lemma refused_represents:
  fixes s :: "'a heap_state_scheme"
  assumes rep: "represents start (s, bs)" and none: "pmm_alloc (block_pages (block_bytes n)) s = Inr (0, s1)"
  shows "malloc n s = Inr (0, s)"
proof -
  note h = heap_invD [OF representsD(1) [OF rep]]
  have wf: "pmm_wf s" using h(1) by (simp add: vmm_inv_def)
  have "s1 = s"
    using none
  proof (cases rule: pmm_alloc_cases)
    case (found idx)
    then have "idx = 0" using page_div [OF found(2) wf] by simp
    then show ?thesis using found(1) by (simp add: first_page_eq)
  qed
  with none have "pmm_alloc (block_pages (block_bytes n)) s = Inr (0, s)" by simp
  from pmm_alloc_mm_lock [OF this, of "mm_lock s OR 1"] show ?thesis
    using h(5) spinlock_release_lock [OF h(5)]
    by (simp add: malloc_def heap_lock_def spinlock_lock_eq Let_def heap_release_def)
qed

lemma put_represents:
  fixes s :: "'a heap_state_scheme"
  assumes rep: "represents start (s, bs)" and j: "j < length bs" "i < length (snd (bs ! j))"
  obtains s' where "virt_store8 (fst (bs ! j) + of_nat i) b s = Inr s'"
    "represents start (s', bs[j := (fst (bs ! j), (snd (bs ! j))[i := Some b])])"
proof -
  note r = representsD [OF rep]
  let ?v = "fst (bs ! j) + of_nat i" and ?bs = "bs[j := (fst (bs ! j), (snd (bs ! j))[i := Some b])]"
  have "heap_addr s ?v" using r(5) [OF j] by (auto simp: heap_bytes_def split: if_splits)
  from heap_store_refines [OF r(1) this] obtain m where m: "virt_store8 ?v b s = Inr (s\<lparr>ram := m\<rparr>)"
    "heap_inv (s\<lparr>ram := m\<rparr>)" "heap_bytes (s\<lparr>ram := m\<rparr>) = (heap_bytes s)(?v \<mapsto> b)" by metis
  have "\<exists>c. heap_bytes (s\<lparr>ram := m\<rparr>) (fst (?bs ! k) + of_nat i') = Some c \<and> (\<forall>x. snd (?bs ! k) ! i' = Some x \<longrightarrow> c = x)"
    if k: "k < length ?bs" "i' < length (snd (?bs ! k))" for k i'
  proof -
    have k': "k < length bs" "i' < length (snd (bs ! k))" "fst (?bs ! k) = fst (bs ! k)"
      using k by (cases "k = j"; simp)+
    show ?thesis
    proof (cases "k = j \<and> i' = i")
      case True
      then show ?thesis using j by (simp add: m(3))
    next
      case False
      then have "fst (bs ! k) + of_nat i' \<noteq> ?v" using blocks_distinct [OF r(3,4) k'(1,2) j] by blast
      moreover have "snd (?bs ! k) ! i' = snd (bs ! k) ! i'" using False k'(1) by (cases "k = j") simp_all
      ultimately show ?thesis using r(5) [OF k'(1,2)] k'(3) by (simp add: m(3))
    qed
  qed
  then have "represents start (s\<lparr>ram := m\<rparr>, ?bs)"
    using m(2) r(2) blocks_apart_update [OF r(3) j(1), of i "Some b"] by (simp add: represents_def)
  with m(1) show thesis by (rule that)
qed

lemma heap_step_represents:
  assumes "heap_step c op c'" "represents start c"
  shows "represents start c'"
  using assms
proof (induction rule: heap_step.induct)
  case (malloc_got s n p a s' bs)
  then show ?case by (intro malloc_represents)
next
  case (malloc_refused n s s1 s' bs)
  then show ?case using refused_represents by fastforce
next
  case (calloc_got s n p a s' bs)
  then show ?case by (intro calloc_represents)
next
  case (put j bs i b s s')
  obtain s2 where "virt_store8 (fst (bs ! j) + of_nat i) b s = Inr s2"
    "represents start (s2, bs[j := (fst (bs ! j), (snd (bs ! j))[i := Some b])])"
    by (rule put_represents [OF put.prems put.hyps(1,2), of b])
  with put.hyps(3) show ?case by simp
qed

lemma heap_runs_represents: "heap_runs c c' \<Longrightarrow> represents start c \<Longrightarrow> represents start c'"
  unfolding heap_runs_def by (induction rule: rtranclp_induct) (auto intro: heap_step_represents)

text \<open>No request that is allowed gets stuck.\<close>

lemma heap_step_exists:
  assumes "represents start (s, bs)" "heap_allows op s bs"
  shows "\<exists>c'. heap_step (s, bs) op c'"
proof (cases op)
  case (Malloc n)
  with assms(2) consider p where "malloc_room s n p" | s1 where "pmm_alloc (block_pages (block_bytes n)) s = Inr (0, s1)"
    by auto
  then show ?thesis
  proof cases
    case 1
    then show ?thesis using malloc_room_block [OF 1] heap_step.malloc_got [OF 1] by (metis Malloc)
  next
    case 2
    then show ?thesis using refused_represents [OF assms(1) 2] heap_step.malloc_refused [OF 2] by (metis Malloc)
  qed
next
  case (Calloc n)
  with assms(2) obtain p where p: "malloc_room s n p" by auto
  then show ?thesis using calloc_block [OF p] heap_step.calloc_got [OF p] Calloc by metis
next
  case (Put j i b)
  with assms(2) have "j < length bs" "i < length (snd (bs ! j))" by simp_all
  then show ?thesis using put_represents [OF assms(1)] heap_step.put Put by metis
qed

section \<open>Properties\<close>

text \<open>C16: the heap behaves like a list of arrays. After any run of \<open>malloc\<close>, \<open>calloc\<close> and stores into the
  blocks they returned, the blocks lie above the old end of the heap, each with its header apart from all
  others; a load at any byte of any block succeeds, and returns what was last stored there, or the zero
  of \<open>calloc\<close>, although every access goes through the page tables and every request changes them. And
  the run can go on: every further request that finds its pages is answered, or refused with null when
  there are none, and every store into a block succeeds. \<open>free\<close> and \<open>realloc\<close> are not among the operations,
  since no request is answered after them.\<close>

theorem heap_implements_blocks:
  fixes s :: "'a heap_state_scheme"
  assumes "heap_inv start" and "heap_runs (start, []) (s, bs)"
  shows "heap_inv s \<and> blocks_apart (unat (heap_top start)) (unat (heap_top s)) bs \<and>
    (\<forall>j < length bs. \<forall>i < length (snd (bs ! j)). \<exists>b. virt_load8 (fst (bs ! j) + of_nat i) s = Inr b \<and>
       (\<forall>x. snd (bs ! j) ! i = Some x \<longrightarrow> b = x)) \<and>
    (\<forall>op. heap_allows op s bs \<longrightarrow> (\<exists>c'. heap_step (s, bs) op c'))"
proof -
  have rep: "represents (heap_top start) (s, bs)"
    by (rule heap_runs_represents [OF assms(2) represents_start [OF assms(1)]])
  note r = representsD [OF rep]
  have "\<exists>b. virt_load8 (fst (bs ! j) + of_nat i) s = Inr b \<and> (\<forall>x. snd (bs ! j) ! i = Some x \<longrightarrow> b = x)"
    if ji: "j < length bs" "i < length (snd (bs ! j))" for j i
  proof -
    obtain b where b: "heap_bytes s (fst (bs ! j) + of_nat i) = Some b" "\<forall>x. snd (bs ! j) ! i = Some x \<longrightarrow> b = x"
      using r(5) [OF ji] by blast
    then have "heap_addr s (fst (bs ! j) + of_nat i)" by (auto simp: heap_bytes_def split: if_splits)
    from heap_bytes_load [OF r(1) this] b show ?thesis by simp
  qed
  then show ?thesis using r(1,3) heap_step_exists [OF rep] by blast
qed

text \<open>A cleared block of eight bytes on the demo heap, with one byte stored into it.\<close>

theorem heap_implements_blocks_witness:
  "\<exists>a (s :: heap_state). heap_runs (demo_heap, []) (s, [(a, [Some 0, Some 42, Some 0, Some 0, Some 0, Some 0, Some 0, Some 0])]) \<and>
     virt_load8 (a + 1) s = Inr 42 \<and> virt_load8 (a + 7) s = Inr 0"
proof -
  obtain a s1 where "calloc 8 demo_heap = Inr (a, s1)" using calloc_block [OF demo_heap_room] by blast
  then have "heap_step (demo_heap, []) (Calloc 8) (s1, [(a, replicate (unat (8 :: u64)) (Some 0))])"
    by (rule heap_step.calloc_got [OF demo_heap_room])
  then have one: "heap_step (demo_heap, []) (Calloc 8) (s1, [(a, replicate 8 (Some 0))])" by simp
  have rep1: "represents memory_base (s1, [(a, replicate 8 (Some 0))])"
    using heap_step_represents [OF one] represents_start [OF demo_heap_inv] by simp
  obtain s2 where s2: "virt_store8 (a + of_nat 1) 42 s1 = Inr s2" using put_represents [OF rep1, of 0 1 42] by auto
  let ?bs = "[(a, (replicate 8 (Some 0))[1 := Some (42 :: u8)])]"
  have "heap_step (s1, [(a, replicate 8 (Some 0))]) (Put 0 1 42) (s2, ?bs)"
    using heap_step.put [of 0 "[(a, replicate 8 (Some 0))]" 1 42 s1 s2] s2 by simp
  with one have run: "heap_runs (demo_heap, []) (s2, ?bs)"
    unfolding heap_runs_def by (blast intro: rtranclp.rtrancl_into_rtrancl)
  have "(replicate 8 (Some 0))[1 := Some (42 :: u8)] = [Some 0, Some 42, Some 0, Some 0, Some 0, Some 0, Some 0, Some 0]"
    by (simp add: numeral_eq_Suc)
  then have run': "heap_runs (demo_heap, []) (s2, [(a, [Some 0, Some 42, Some 0, Some 0, Some 0, Some 0, Some 0, Some 0])])"
    using run by (simp only:)
  have loads: "\<exists>b. virt_load8 (a + of_nat i) s2 = Inr b \<and>
      (\<forall>x. [Some 0, Some 42, Some 0, Some 0, Some 0, Some 0, Some 0, Some 0] ! i = Some x \<longrightarrow> b = x)" if "i < 8" for i
    using heap_implements_blocks [OF demo_heap_inv run'] that by simp
  have "virt_load8 (a + 1) s2 = Inr 42" "virt_load8 (a + 7) s2 = Inr 0" using loads [of 1] loads [of 7] by auto
  with run' show ?thesis by blast
qed

end
