(* ===== verification/LinkedList.thy ===== *)
theory LinkedList
  imports Prelude
begin

text \<open>
  The intrusive list of \<open>lib/linked_list.hpp\<close>: the nodes are a store of links reached by address, the
  allocator behind \<open>calloc\<close> and \<open>free\<close> is a parameter with its own state.  Each operation is one
  definition; the pointer loops are partial functions, and a loop that follows a cycle is the
  fault \<open>Diverges\<close>.
\<close>

section \<open>State and operations\<close>

text \<open>\<open>NodeLink\<close>.\<close>

record 'a node_link =
  link_data :: 'a
  link_next :: u64
  link_index :: u32

text \<open>The state an operation sees: the allocator's, the nodes that exist, and the member \<open>list\<close>.\<close>

record ('a, 'h) list_state =
  heap :: 'h
  links :: "u64 \<rightharpoonup> 'a node_link"
  list_head :: u64

definition get_link :: "('a, 'h) list_state \<Rightarrow> u64 \<Rightarrow> 'a node_link result" where
  "get_link s p =
     (if p = 0 then Inl NullDeref else case links s p of None \<Rightarrow> Inl PageFault | Some l \<Rightarrow> Inr l)"

definition set_link ::
  "u64 \<Rightarrow> ('a node_link \<Rightarrow> 'a node_link) \<Rightarrow> ('a, 'h) list_state \<Rightarrow> ('a, 'h) list_state result" where
  "set_link p f s = rbind (get_link s p) (\<lambda>l. Inr (s\<lparr>links := (links s)(p \<mapsto> f l)\<rparr>))"

text \<open>\<open>(Link* )calloc(sizeof(Link))\<close> and \<open>free(node)\<close>; a node that was freed is no longer an object.\<close>

definition new_link ::
  "('h \<Rightarrow> (u64 \<times> 'h) result) \<Rightarrow> ('a::zero, 'h) list_state \<Rightarrow> (u64 \<times> ('a, 'h) list_state) result" where
  "new_link new s =
     rbind (new (heap s)) (\<lambda>(p, h).
       Inr (p, s\<lparr>heap := h,
                 links := (links s)(p \<mapsto> \<lparr>link_data = 0, link_next = 0, link_index = 0\<rparr>)\<rparr>))"

definition free_link ::
  "(u64 \<Rightarrow> 'h \<Rightarrow> (bool \<times> 'h) result) \<Rightarrow> u64 \<Rightarrow> ('a, 'h) list_state \<Rightarrow> ('a, 'h) list_state result" where
  "free_link del p s =
     rbind (del p (heap s)) (\<lambda>(b, h). Inr (s\<lparr>heap := h, links := (links s)(p := None)\<rparr>))"

partial_function (option) find_from ::
  "('a, 'h) list_state \<Rightarrow> u64 \<Rightarrow> u32 \<Rightarrow> u64 result option" where
  "find_from s temp idx =
     (if temp = 0 then Some (Inr 0)
      else case get_link s temp of
          Inl e \<Rightarrow> Some (Inl e)
        | Inr l \<Rightarrow> if link_index l \<noteq> idx then find_from s (link_next l) idx else Some (Inr temp))"

definition list_find :: "u32 \<Rightarrow> ('a, 'h) list_state \<Rightarrow> u64 result" where
  "list_find idx s = loop_result (find_from s (list_head s) idx)"

text \<open>\<open>operator[]\<close>: the address of the node's first member, or null.\<close>

definition list_get :: "u32 \<Rightarrow> ('a, 'h) list_state \<Rightarrow> u64 result" where
  "list_get idx s = rbind (list_find idx s) (\<lambda>node. Inr (if node \<noteq> 0 then node else 0))"

partial_function (option) update_from ::
  "u64 \<Rightarrow> u32 \<Rightarrow> ('a, 'h) list_state \<Rightarrow> ('a, 'h) list_state result option" where
  "update_from cur idx s =
     (if cur = 0 then Some (Inr s)
      else case get_link s cur of
          Inl e \<Rightarrow> Some (Inl e)
        | Inr l \<Rightarrow> update_from (link_next l) (idx + 1)
                    (s\<lparr>links := (links s)(cur \<mapsto> l\<lparr>link_index := idx\<rparr>)\<rparr>))"

definition update_indices :: "('a, 'h) list_state \<Rightarrow> ('a, 'h) list_state result" where
  "update_indices s = (if list_head s = 0 then Inr s else loop_result (update_from (list_head s) 0 s))"

definition push ::
  "('h \<Rightarrow> (u64 \<times> 'h) result) \<Rightarrow> 'a::zero \<Rightarrow> ('a, 'h) list_state \<Rightarrow> ('a, 'h) list_state result" where
  "push new v s =
     rbind (new_link new s) (\<lambda>(node, s1).
     rbind (set_link node (\<lambda>l. l\<lparr>link_data := v\<rparr>) s1) (\<lambda>s2.
     rbind (set_link node (\<lambda>l. l\<lparr>link_next := list_head s2\<rparr>) s2) (\<lambda>s3.
       update_indices (s3\<lparr>list_head := node\<rparr>))))"

partial_function (option) last_from :: "('a, 'h) list_state \<Rightarrow> u64 \<Rightarrow> u64 result option" where
  "last_from s prev =
     (case get_link s prev of
          Inl e \<Rightarrow> Some (Inl e)
        | Inr l \<Rightarrow> if link_next l \<noteq> 0 then last_from s (link_next l) else Some (Inr prev))"

definition push_back ::
  "('h \<Rightarrow> (u64 \<times> 'h) result) \<Rightarrow> 'a::zero \<Rightarrow> ('a, 'h) list_state \<Rightarrow> ('a, 'h) list_state result" where
  "push_back new v s =
     rbind (new_link new s) (\<lambda>(node, s1).
     rbind (set_link node (\<lambda>l. l\<lparr>link_data := v\<rparr>) s1) (\<lambda>s2.
     rbind (set_link node (\<lambda>l. l\<lparr>link_next := 0\<rparr>) s2) (\<lambda>s3.
       if list_head s3 = 0 then update_indices (s3\<lparr>list_head := node\<rparr>)
       else rbind (loop_result (last_from s3 (list_head s3))) (\<lambda>last.
            rbind (set_link last (\<lambda>l. l\<lparr>link_next := node\<rparr>) s3) update_indices))))"

text \<open>The search loop shared by \<open>insert_before\<close>, \<open>insert_after\<close> and \<open>pop(int)\<close>: the node before the
  one with this index (\<open>last\<close>), and that node or null.  Before the first step \<open>last\<close> is uninitialised in the
  code, which never reads it then; it is 0 here.\<close>

partial_function (option) search_from ::
  "('a, 'h) list_state \<Rightarrow> u64 \<Rightarrow> u64 \<Rightarrow> u32 \<Rightarrow> (u64 \<times> u64) result option" where
  "search_from s prev node idx =
     (if node = 0 then Some (Inr (prev, 0))
      else case get_link s node of
          Inl e \<Rightarrow> Some (Inl e)
        | Inr l \<Rightarrow> if link_index l = idx then Some (Inr (prev, node))
                  else search_from s node (link_next l) idx)"

definition list_search :: "u32 \<Rightarrow> ('a, 'h) list_state \<Rightarrow> (u64 \<times> u64) result" where
  "list_search idx s = loop_result (search_from s 0 (list_head s) idx)"

definition insert_before ::
  "('h \<Rightarrow> (u64 \<times> 'h) result) \<Rightarrow> (u64 \<Rightarrow> 'h \<Rightarrow> (bool \<times> 'h) result) \<Rightarrow> u32 \<Rightarrow> 'a::zero \<Rightarrow>
   ('a, 'h) list_state \<Rightarrow> (bool \<times> ('a, 'h) list_state) result" where
  "insert_before new del idx v s =
     rbind (new_link new s) (\<lambda>(res, s1).
     rbind (list_search idx s1) (\<lambda>(last, node).
       if node \<noteq> 0 then
         if node = list_head s1 then
           rbind (push new v s1) (\<lambda>s2.
           rbind (free_link del res s2) (\<lambda>s3. Inr (True, s3)))
         else
           rbind (set_link res (\<lambda>l. l\<lparr>link_data := v\<rparr>) s1) (\<lambda>s2.
           rbind (set_link last (\<lambda>l. l\<lparr>link_next := res\<rparr>) s2) (\<lambda>s3.
           rbind (set_link res (\<lambda>l. l\<lparr>link_next := node\<rparr>) s3) (\<lambda>s4.
           rbind (update_indices s4) (\<lambda>s5. Inr (True, s5)))))
       else rbind (free_link del res s1) (\<lambda>s2. Inr (False, s2))))"

definition insert_after ::
  "('h \<Rightarrow> (u64 \<times> 'h) result) \<Rightarrow> (u64 \<Rightarrow> 'h \<Rightarrow> (bool \<times> 'h) result) \<Rightarrow> u32 \<Rightarrow> 'a::zero \<Rightarrow>
   ('a, 'h) list_state \<Rightarrow> (bool \<times> ('a, 'h) list_state) result" where
  "insert_after new del idx v s =
     rbind (new_link new s) (\<lambda>(res, s1).
     rbind (list_search idx s1) (\<lambda>(_, node).
       if node \<noteq> 0 then
         rbind (get_link s1 node) (\<lambda>l.
         if link_next l = 0 then
           rbind (push_back new v s1) (\<lambda>s2.
           rbind (free_link del res s2) (\<lambda>s3.
           rbind (free_link del res s3) (\<lambda>s4. Inr (False, s4))))
         else
           rbind (set_link res (\<lambda>l. l\<lparr>link_data := v\<rparr>) s1) (\<lambda>s2.
           rbind (get_link s2 node) (\<lambda>l2.
           rbind (set_link node (\<lambda>l. l\<lparr>link_next := res\<rparr>) s2) (\<lambda>s3.
           rbind (set_link res (\<lambda>l. l\<lparr>link_next := link_next l2\<rparr>) s3) (\<lambda>s4.
           rbind (update_indices s4) (\<lambda>s5. Inr (True, s5)))))))
       else rbind (free_link del res s1) (\<lambda>s2. Inr (False, s2))))"

definition pop ::
  "(u64 \<Rightarrow> 'h \<Rightarrow> (bool \<times> 'h) result) \<Rightarrow> ('a, 'h) list_state \<Rightarrow> (bool \<times> ('a, 'h) list_state) result" where
  "pop del s =
     (if list_head s = 0 then Inr (False, s)
      else rbind (get_link s (list_head s)) (\<lambda>l.
           rbind (free_link del (list_head s) (s\<lparr>list_head := link_next l\<rparr>)) (\<lambda>s1.
           rbind (update_indices s1) (\<lambda>s2. Inr (True, s2)))))"

definition pop_at ::
  "(u64 \<Rightarrow> 'h \<Rightarrow> (bool \<times> 'h) result) \<Rightarrow> u32 \<Rightarrow> ('a, 'h) list_state \<Rightarrow>
   (bool \<times> ('a, 'h) list_state) result" where
  "pop_at del idx s =
     (if list_head s = 0 then Inr (False, s)
      else rbind (list_search idx s) (\<lambda>(last, node).
        if node \<noteq> 0 then
          if node = list_head s then Inr (False, s)
          else
            rbind (get_link s (list_head s)) (\<lambda>first.
            rbind
              (if node = link_next first then free_link del last (s\<lparr>list_head := node\<rparr>)
               else
                 rbind (get_link s last) (\<lambda>l.
                 rbind (list_find (link_index l - 1) s) (\<lambda>q.
                 rbind (set_link q (\<lambda>l. l\<lparr>link_next := node\<rparr>) s) (free_link del last))))
              (\<lambda>s1. rbind (update_indices s1) (\<lambda>s2. Inr (True, s2))))
        else Inr (False, s)))"

partial_function (option) before_last ::
  "('a, 'h) list_state \<Rightarrow> u64 \<Rightarrow> u64 \<Rightarrow> (u64 \<times> u64) result option" where
  "before_last s prev node =
     (case get_link s node of
          Inl e \<Rightarrow> Some (Inl e)
        | Inr l \<Rightarrow> if link_next l \<noteq> 0 then before_last s node (link_next l) else Some (Inr (prev, node)))"

definition pop_back ::
  "(u64 \<Rightarrow> 'h \<Rightarrow> (bool \<times> 'h) result) \<Rightarrow> ('a, 'h) list_state \<Rightarrow> (bool \<times> ('a, 'h) list_state) result" where
  "pop_back del s =
     (if list_head s = 0 then Inr (False, s)
      else rbind (get_link s (list_head s)) (\<lambda>l.
        if link_next l = 0 then
          rbind (free_link del (list_head s) (s\<lparr>list_head := 0\<rparr>)) (\<lambda>s1. Inr (True, s1))
        else
          rbind (loop_result (before_last s 0 (list_head s))) (\<lambda>(last, node).
          rbind (set_link last (\<lambda>l. l\<lparr>link_next := 0\<rparr>) s) (\<lambda>s1.
          rbind (free_link del node s1) (\<lambda>s2. Inr (True, s2))))))"

partial_function (option) clear_from ::
  "(u64 \<Rightarrow> 'h \<Rightarrow> (bool \<times> 'h) result) \<Rightarrow> ('a, 'h) list_state \<Rightarrow> ('a, 'h) list_state result option" where
  "clear_from del s =
     (if list_head s = 0 then Some (Inr s)
      else case pop_back del s of
          Inl e \<Rightarrow> Some (Inl e)
        | Inr r \<Rightarrow> clear_from del (snd r))"

text \<open>\<open>clear\<close>, which is also the destructor.\<close>

definition list_clear ::
  "(u64 \<Rightarrow> 'h \<Rightarrow> (bool \<times> 'h) result) \<Rightarrow> ('a, 'h) list_state \<Rightarrow> ('a, 'h) list_state result" where
  "list_clear del s = (if list_head s = 0 then Inr s else loop_result (clear_from del s))"

definition list_new :: "'h \<Rightarrow> ('a, 'h) list_state" where
  "list_new h = \<lparr>heap = h, links = Map.empty, list_head = 0\<rparr>"

declare find_from.simps [code] update_from.simps [code] last_from.simps [code]
  search_from.simps [code] before_last.simps [code] clear_from.simps [code]

section \<open>Paths\<close>

text \<open>\<open>path L p ps r\<close>: following \<open>next\<close> from \<open>p\<close> one meets the nodes \<open>ps\<close> and arrives at \<open>r\<close>.\<close>

primrec path :: "(u64 \<rightharpoonup> 'a node_link) \<Rightarrow> u64 \<Rightarrow> u64 list \<Rightarrow> u64 \<Rightarrow> bool" where
  "path L p [] r \<longleftrightarrow> p = r"
| "path L p (q # qs) r \<longleftrightarrow>
     p = q \<and> q \<noteq> 0 \<and> (case L q of None \<Rightarrow> False | Some l \<Rightarrow> path L (link_next l) qs r)"

lemma path_append: "path L p (ps @ qs) r \<longleftrightarrow> (\<exists>m. path L p ps m \<and> path L m qs r)"
  by (induction ps arbitrary: p) (auto split: option.splits)

lemma path_cong:
  "(\<And>q. q \<in> set ps \<Longrightarrow> map_option link_next (L' q) = map_option link_next (L q)) \<Longrightarrow>
   path L' p ps r = path L p ps r"
proof (induction ps arbitrary: p)
  case (Cons q ps)
  then have "map_option link_next (L' q) = map_option link_next (L q)" "\<And>p. path L' p ps r = path L p ps r"
    by simp_all
  then show ?case by (cases "L q"; cases "L' q") simp_all
qed simp

lemma path_upd [simp]: "q \<notin> set ps \<Longrightarrow> path (L(q := x)) p ps r = path L p ps r"
  by (rule path_cong) auto

lemma path_nodes: "path L p ps r \<Longrightarrow> q \<in> set ps \<Longrightarrow> q \<noteq> 0 \<and> (\<exists>l. L q = Some l)"
  by (induction ps arbitrary: p) (auto split: option.splits)

lemma path_zero: "path L p ps r \<Longrightarrow> 0 \<notin> set ps"
  using path_nodes by blast

lemma path_from_0: "path L 0 ps r \<longleftrightarrow> ps = [] \<and> r = 0"
  by (cases ps) auto

lemma path_unique: "path L p ps 0 \<Longrightarrow> path L p qs 0 \<Longrightarrow> ps = qs"
proof (induction ps arbitrary: p qs)
  case Nil
  then show ?case by (cases qs) auto
next
  case (Cons q ps)
  then show ?case by (cases qs) (auto split: option.splits)
qed

lemma path_distinct: "path L p ps 0 \<Longrightarrow> distinct ps"
proof (induction ps arbitrary: p)
  case (Cons q ps)
  then obtain l where l: "L q = Some l" "path L (link_next l) ps 0" by (auto split: option.splits)
  have "q \<notin> set ps"
  proof
    assume "q \<in> set ps"
    then obtain as bs where "ps = as @ q # bs" by (meson split_list)
    then have "path L q (q # bs) 0" using l(2) by (auto simp: path_append)
    moreover have "path L q (q # ps) 0" using Cons.prems by simp
    ultimately have "q # bs = q # ps" by (rule path_unique)
    then show False using \<open>ps = as @ q # bs\<close> by simp
  qed
  then show ?case using Cons.IH l(2) by simp
qed simp

text \<open>The node at a position, and what a change of its \<open>next\<close> does.\<close>

lemma path_split_at:
  assumes "path L p ps r" "i < length ps"
  shows "path L p (take i ps) (ps ! i)" and "path L (ps ! i) (drop i ps) r"
    and "\<exists>l. L (ps ! i) = Some l \<and> path L (link_next l) (drop (Suc i) ps) r"
proof -
  have "path L p (take i ps @ ps ! i # drop (Suc i) ps) r"
    using assms by (simp add: id_take_nth_drop [symmetric])
  then show "path L p (take i ps) (ps ! i)" "path L (ps ! i) (drop i ps) r"
    "\<exists>l. L (ps ! i) = Some l \<and> path L (link_next l) (drop (Suc i) ps) r"
    using assms(2) by (auto simp: path_append Cons_nth_drop_Suc [symmetric] split: option.splits)
qed

section \<open>The list a state holds\<close>

definition node_values :: "(u64 \<rightharpoonup> 'a node_link) \<Rightarrow> u64 list \<Rightarrow> 'a option list" where
  "node_values L ps = map (\<lambda>q. map_option link_data (L q)) ps"

definition numbered :: "(u64 \<rightharpoonup> 'a node_link) \<Rightarrow> nat \<Rightarrow> u64 list \<Rightarrow> bool" where
  "numbered L k ps \<longleftrightarrow> (\<forall>i < length ps. map_option link_index (L (ps ! i)) = Some (of_nat (k + i)))"

text \<open>\<open>list_at s ps xs\<close>: the object holds the values \<open>xs\<close>, in the nodes \<open>ps\<close>, numbered from 0.\<close>

definition list_linked :: "('a, 'h) list_state \<Rightarrow> u64 list \<Rightarrow> 'a list \<Rightarrow> bool" where
  "list_linked s ps xs \<longleftrightarrow> path (links s) (list_head s) ps 0 \<and> node_values (links s) ps = map Some xs"

definition list_at :: "('a, 'h) list_state \<Rightarrow> u64 list \<Rightarrow> 'a list \<Rightarrow> bool" where
  "list_at s ps xs \<longleftrightarrow> list_linked s ps xs \<and> numbered (links s) 0 ps"

lemma node_values_upd [simp]: "q \<notin> set ps \<Longrightarrow> node_values (L(q := x)) ps = node_values L ps"
  by (auto simp: node_values_def)

lemma node_values_simps [simp]:
  "node_values L [] = []" "node_values L (q # ps) = map_option link_data (L q) # node_values L ps"
  "node_values L (ps @ qs) = node_values L ps @ node_values L qs"
  "node_values L (take i ps) = take i (node_values L ps)"
  "node_values L (drop i ps) = drop i (node_values L ps)"
  by (simp_all add: node_values_def take_map drop_map)

lemma length_node_values [simp]: "length (node_values L ps) = length ps"
  by (simp add: node_values_def)

lemma numbered_upd [simp]: "q \<notin> set ps \<Longrightarrow> numbered (L(q := x)) k ps = numbered L k ps"
  by (auto simp: numbered_def)

lemma numbered_Cons:
  "numbered L k (q # ps) \<longleftrightarrow> map_option link_index (L q) = Some (of_nat k) \<and> numbered L (Suc k) ps"
  by (auto simp: numbered_def All_less_Suc2)

lemma list_linkedD:
  assumes "list_linked s ps xs"
  shows "path (links s) (list_head s) ps 0" "node_values (links s) ps = map Some xs"
    "length ps = length xs" "distinct ps" "0 \<notin> set ps" "list_head s = (if ps = [] then 0 else hd ps)"
    "list_head s = 0 \<longleftrightarrow> ps = []"
proof -
  show p: "path (links s) (list_head s) ps 0" and v: "node_values (links s) ps = map Some xs"
    using assms by (simp_all add: list_linked_def)
  show "length ps = length xs" using arg_cong [OF v, of length] by simp
  show "distinct ps" "0 \<notin> set ps" using path_distinct [OF p] path_zero [OF p] by simp_all
  show "list_head s = (if ps = [] then 0 else hd ps)" "list_head s = 0 \<longleftrightarrow> ps = []"
    using p by (cases ps; auto)+
qed

lemma list_at_linked: "list_at s ps xs \<Longrightarrow> list_linked s ps xs"
  by (simp add: list_at_def)

lemmas list_atD = list_linkedD [OF list_at_linked]

lemma list_at_heap [simp]:
  "list_at (s\<lparr>heap := h\<rparr>) ps xs = list_at s ps xs" "list_linked (s\<lparr>heap := h\<rparr>) ps xs = list_linked s ps xs"
  by (simp_all add: list_at_def list_linked_def)

text \<open>A list object that was just constructed holds the empty list.\<close>

lemma list_new_empty [simp]: "list_at (list_new h) [] []"
  by (simp add: list_at_def list_linked_def list_new_def numbered_def)

section \<open>The loops\<close>

lemma get_link_path [simp]: "q \<noteq> 0 \<Longrightarrow> links s q = Some l \<Longrightarrow> get_link s q = Inr l"
  by (simp add: get_link_def)

lemma set_link_path [simp]:
  "q \<noteq> 0 \<Longrightarrow> links s q = Some l \<Longrightarrow> set_link q f s = Inr (s\<lparr>links := (links s)(q \<mapsto> f l)\<rparr>)"
  by (simp add: set_link_def)

text \<open>What \<open>update\<close> writes.\<close>

primrec renumber :: "(u64 \<rightharpoonup> 'a node_link) \<Rightarrow> nat \<Rightarrow> u64 list \<Rightarrow> (u64 \<rightharpoonup> 'a node_link)" where
  "renumber L k [] = L"
| "renumber L k (q # qs) =
     renumber (L(q := map_option (\<lambda>l. l\<lparr>link_index := of_nat k\<rparr>) (L q))) (Suc k) qs"

lemma renumber_other: "q \<notin> set ps \<Longrightarrow> renumber L k ps q = L q"
  by (induction ps arbitrary: L k) simp_all

lemma renumber_keeps:
  "map_option link_next (renumber L k ps q) = map_option link_next (L q)"
  "map_option link_data (renumber L k ps q) = map_option link_data (L q)"
  by (induction ps arbitrary: L k) (auto simp: option.map_comp comp_def)

lemma renumber_path [simp]: "path (renumber L k ps) p qs r = path L p qs r"
  by (rule path_cong) (rule renumber_keeps)

lemma renumber_values [simp]: "node_values (renumber L k ps) qs = node_values L qs"
  by (simp add: node_values_def renumber_keeps)

lemma renumber_numbered:
  "distinct ps \<Longrightarrow> set ps \<subseteq> dom L \<Longrightarrow> numbered (renumber L k ps) k ps"
proof (induction ps arbitrary: L k)
  case (Cons q ps)
  then show ?case by (auto simp: numbered_Cons renumber_other intro!: Cons.IH)
qed (simp add: numbered_def)

lemma update_from_path:
  "path (links s) p ps 0 \<Longrightarrow>
   update_from p (of_nat k) s = Some (Inr (s\<lparr>links := renumber (links s) k ps\<rparr>))"
proof (induction ps arbitrary: p k s)
  case Nil
  then show ?case by (simp add: update_from.simps)
next
  case (Cons q ps)
  then obtain l where l: "p = q" "q \<noteq> 0" "links s q = Some l" "path (links s) (link_next l) ps 0"
    by (auto split: option.splits)
  let ?s = "s\<lparr>links := (links s)(q \<mapsto> l\<lparr>link_index := of_nat k\<rparr>)\<rparr>"
  have "q \<notin> set ps" using path_distinct [OF Cons.prems] by simp
  then have "path (links ?s) (link_next l) ps 0" using l(4) by simp
  from Cons.IH [OF this, of "Suc k"] show ?case
    using l by (subst update_from.simps) (simp add: add.commute fun_upd_def)
qed

lemma update_indices_linked:
  assumes "list_linked s ps xs"
  shows "update_indices s = Inr (s\<lparr>links := renumber (links s) 0 ps\<rparr>)"
    and "list_at (s\<lparr>links := renumber (links s) 0 ps\<rparr>) ps xs"
proof -
  note l = list_linkedD [OF assms]
  show "update_indices s = Inr (s\<lparr>links := renumber (links s) 0 ps\<rparr>)"
    using update_from_path [OF l(1), of 0] l(1)
    by (auto simp: update_indices_def path_from_0)
  have "set ps \<subseteq> dom (links s)" using path_nodes [OF l(1)] by auto
  then show "list_at (s\<lparr>links := renumber (links s) 0 ps\<rparr>) ps xs"
    using assms l(4) by (simp add: list_at_def list_linked_def renumber_numbered)
qed

lemma update_indices_ok:
  assumes "list_linked s ps xs"
  obtains s' where "update_indices s = Inr s'" "list_at s' ps xs" "heap s' = heap s"
  using update_indices_linked [OF assms] by (auto intro: that)

text \<open>\<open>find\<close> and the search loop stop at the node with the number.\<close>

lemma search_from_path:
  assumes "path (links s) p ps 0" "numbered (links s) k ps" "k + length ps \<le> 2 ^ 32" "j < 2 ^ 32" "k \<le> j"
  shows "search_from s prev p (of_nat j) =
     Some (Inr (if j < k + length ps then ((prev # ps) ! (j - k), ps ! (j - k)) else ((last (prev # ps)), 0)))"
  using assms
proof (induction ps arbitrary: p k prev)
  case Nil
  then show ?case by (simp add: search_from.simps)
next
  case (Cons q ps)
  then obtain l where l: "p = q" "q \<noteq> 0" "links s q = Some l" "path (links s) (link_next l) ps 0"
    "link_index l = of_nat k" "numbered (links s) (Suc k) ps"
    by (auto simp: numbered_Cons split: option.splits)
  show ?case
  proof (cases "j = k")
    case True
    then show ?thesis using l by (subst search_from.simps) simp
  next
    case False
    have "(of_nat k :: u32) \<noteq> of_nat j"
    proof
      assume "(of_nat k :: u32) = of_nat j"
      then have "unat (of_nat k :: u32) = unat (of_nat j :: u32)" by simp
      then show False using False Cons.prems(3,4) by (simp add: unat_of_nat)
    qed
    then have "search_from s prev p (of_nat j) = search_from s q (link_next l) (of_nat j)"
      using l by (subst search_from.simps) simp
    also have "\<dots> = Some (Inr (if j < Suc k + length ps then ((q # ps) ! (j - Suc k), ps ! (j - Suc k))
        else (last (q # ps), 0)))"
      using Cons.prems False by (intro Cons.IH l) simp_all
    also have "\<dots> = Some (Inr (if j < k + length (q # ps) then ((prev # q # ps) ! (j - k), (q # ps) ! (j - k))
        else (last (prev # q # ps), 0)))"
      using False Cons.prems(5) by (auto simp: nth_Cons' Suc_diff_Suc)
    finally show ?thesis .
  qed
qed

lemma find_from_search:
  "path (links s) p ps 0 \<Longrightarrow> find_from s p idx = map_option (map_sum id snd) (search_from s prev p idx)"
proof (induction ps arbitrary: p prev)
  case Nil
  then show ?case by (simp add: find_from.simps search_from.simps)
next
  case (Cons q ps)
  then obtain l where l: "p = q" "q \<noteq> 0" "links s q = Some l" "path (links s) (link_next l) ps 0"
    by (auto split: option.splits)
  show ?case
    using Cons.IH [OF l(4), of q] l by (subst find_from.simps, subst search_from.simps) (simp add: id_def)
qed

text \<open>A number is found, or it is past the end.\<close>

lemma list_search_at:
  assumes "list_at s ps xs" "length xs \<le> 2 ^ 32" "j < 2 ^ 32"
  shows "list_search (of_nat j) s =
      Inr (if j < length xs then ((0 # ps) ! j, ps ! j) else (last (0 # ps), 0))"
    and "list_find (of_nat j) s = Inr (if j < length xs then ps ! j else 0)"
proof -
  note l = list_atD [OF assms(1)]
  have n: "numbered (links s) 0 ps" using assms(1) by (simp add: list_at_def)
  have eq: "search_from s 0 (list_head s) (of_nat j) =
      Some (Inr (if j < length xs then ((0 # ps) ! j, ps ! j) else (last (0 # ps), 0)))"
    using search_from_path [OF l(1) n, of j 0] assms(2,3) l(3) by simp
  then show "list_search (of_nat j) s =
      Inr (if j < length xs then ((0 # ps) ! j, ps ! j) else (last (0 # ps), 0))"
    by (simp add: list_search_def)
  show "list_find (of_nat j) s = Inr (if j < length xs then ps ! j else 0)"
    using find_from_search [OF l(1), of "of_nat j" 0] eq by (simp add: list_find_def)
qed

lemma last_from_path: "path (links s) p ps 0 \<Longrightarrow> ps \<noteq> [] \<Longrightarrow> last_from s p = Some (Inr (last ps))"
proof (induction ps arbitrary: p)
  case (Cons q ps)
  then obtain l where l: "p = q" "q \<noteq> 0" "links s q = Some l" "path (links s) (link_next l) ps 0"
    by (auto split: option.splits)
  show ?case
    using Cons.IH [OF l(4)] l by (cases ps; subst last_from.simps) (auto simp: path_from_0)
qed simp

lemma before_last_path:
  "path (links s) p ps 0 \<Longrightarrow> ps \<noteq> [] \<Longrightarrow> before_last s prev p = Some (Inr (last (prev # butlast ps), last ps))"
proof (induction ps arbitrary: p prev)
  case (Cons q ps)
  then obtain l where l: "p = q" "q \<noteq> 0" "links s q = Some l" "path (links s) (link_next l) ps 0"
    by (auto split: option.splits)
  show ?case
    using Cons.IH [OF l(4)] l by (cases ps; subst before_last.simps) (auto simp: path_from_0)
qed simp

section \<open>The operations on the list a state holds\<close>

text \<open>A node outside the list does not matter.\<close>

lemma list_linked_other: "q \<notin> set ps \<Longrightarrow> list_linked (s\<lparr>links := (links s)(q := x)\<rparr>) ps xs = list_linked s ps xs"
  by (simp add: list_linked_def)

lemma list_at_other: "q \<notin> set ps \<Longrightarrow> list_at (s\<lparr>links := (links s)(q := x)\<rparr>) ps xs = list_at s ps xs"
  by (simp add: list_at_def list_linked_other)

lemma new_link_run:
  "new (heap s) = Inr (p, h) \<Longrightarrow> new_link new s =
     Inr (p, s\<lparr>heap := h, links := (links s)(p \<mapsto> \<lparr>link_data = 0, link_next = 0, link_index = 0\<rparr>)\<rparr>)"
  by (simp add: new_link_def)

lemma new_link_at:
  assumes "new (heap s) = Inr (p, h)" "p \<notin> set ps" "list_at s ps xs"
  obtains s1 where "new_link new s = Inr (p, s1)" "list_at s1 ps xs" "heap s1 = h"
    "links s1 = (links s)(p \<mapsto> \<lparr>link_data = 0, link_next = 0, link_index = 0\<rparr>)" "list_head s1 = list_head s"
proof -
  let ?s = "s\<lparr>heap := h, links := (links s)(p \<mapsto> \<lparr>link_data = 0, link_next = 0, link_index = 0\<rparr>)\<rparr>"
  have "list_at ?s ps xs"
    using assms(2,3) by (simp add: list_at_def list_linked_def)
  with new_link_run [of new s p h, OF assms(1)] show thesis by (intro that [of ?s]) simp_all
qed

lemma free_link_at:
  assumes "del p (heap s) = Inr (b, h)" "p \<notin> set ps" "list_at s ps xs"
  obtains s1 where "free_link del p s = Inr s1" "list_at s1 ps xs" "heap s1 = h"
proof -
  let ?s = "s\<lparr>heap := h, links := (links s)(p := None)\<rparr>"
  have "list_at ?s ps xs" using assms(2,3) by (simp add: list_at_def list_linked_def)
  with assms(1) show thesis by (intro that [of ?s]) (simp_all add: free_link_def)
qed

lemma push_at:
  assumes l: "list_at s ps xs" and new: "new (heap s) = Inr (p, h)" "p \<noteq> 0" "p \<notin> set ps"
  obtains s' where "push new v s = Inr s'" "list_at s' (p # ps) (v # xs)" "heap s' = h"
proof -
  let ?s = "s\<lparr>heap := h, links := (links s)(p \<mapsto> \<lparr>link_data = v, link_next = list_head s, link_index = 0\<rparr>),
    list_head := p\<rparr>"
  have "list_linked ?s (p # ps) (v # xs)"
    using list_atD [OF l] new(2,3) by (simp add: list_linked_def)
  from update_indices_ok [OF this] obtain s' where "update_indices ?s = Inr s'" "list_at s' (p # ps) (v # xs)"
    "heap s' = h" by simp metis
  moreover have "push new v s = update_indices ?s"
    using new by (simp add: push_def new_link_run)
  ultimately show thesis using that by simp
qed

text \<open>A node linked in after position \<open>i - 1\<close>, and the node after it unlinked.\<close>

lemma insert_linked:
  assumes l: "list_linked s (as @ b # bs) (ys @ zs)" and len: "length ys = Suc (length as)"
    and q: "q \<notin> set (as @ b # bs)" "q \<noteq> 0"
    and a: "links s b = Some l" "links t b = Some (l\<lparr>link_next := q\<rparr>)"
    and n: "links t q = Some n" "link_next n = link_next l" "link_data n = v"
    and same: "\<And>r. r \<in> set (as @ bs) \<Longrightarrow> links t r = links s r" "list_head t = list_head s"
  shows "list_linked t (as @ b # q # bs) (ys @ v # zs)"
proof -
  note d = list_linkedD [OF l]
  have "path (links t) p as r = path (links s) p as r" "path (links t) p bs r = path (links s) p bs r" for p r
    by (rule path_cong, simp add: same)+
  then have "path (links t) (list_head t) (as @ b # q # bs) 0"
    using d(1) a n q(2) by (auto simp: path_append same(2))
  moreover
  have "node_values (links t) as = node_values (links s) as" "node_values (links t) bs = node_values (links s) bs"
    by (simp_all add: node_values_def same(1))
  then have "node_values (links t) (as @ [b]) = node_values (links s) (as @ [b])"
    "node_values (links t) bs = node_values (links s) bs" using a by simp_all
  moreover have "node_values (links s) (as @ [b]) = map Some ys \<and> node_values (links s) bs = map Some zs"
    using d(2) len by (intro append_eq_append_conv [THEN iffD1]) auto
  ultimately show ?thesis using n by (simp add: list_linked_def)
qed

lemma remove_linked:
  assumes l: "list_linked s (as @ b # c # cs) (ys @ y # zs)" and len: "length ys = Suc (length as)"
    and a: "links s b = Some l" "links t b = Some (l\<lparr>link_next := r\<rparr>)" and r: "path (links s) r cs 0"
    and same: "\<And>p. p \<in> set (as @ cs) \<Longrightarrow> links t p = links s p" "list_head t = list_head s"
  shows "list_linked t (as @ b # cs) (ys @ zs)"
proof -
  note d = list_linkedD [OF l]
  have "path (links t) p as q = path (links s) p as q" "path (links t) p cs q = path (links s) p cs q" for p q
    by (rule path_cong, simp add: same)+
  then have "path (links t) (list_head t) (as @ b # cs) 0"
    using d(1) a r by (auto simp: path_append same(2))
  moreover
  have "node_values (links t) as = node_values (links s) as" "node_values (links t) cs = node_values (links s) cs"
    by (simp_all add: node_values_def same(1))
  then have "node_values (links t) (as @ [b]) = node_values (links s) (as @ [b])"
    "node_values (links t) cs = node_values (links s) cs" using a by simp_all
  moreover have "node_values (links s) (as @ [b]) = map Some ys \<and>
      map_option link_data (links s c) # node_values (links s) cs = map Some (y # zs)"
    using d(2) len by (intro append_eq_append_conv [THEN iffD1]) auto
  ultimately show ?thesis by (simp add: list_linked_def)
qed

text \<open>The list split around a position.\<close>

lemma list_split:
  assumes "length ps = length xs" "i < length xs"
  obtains as b bs ys zs where "ps = as @ b # bs" "xs = ys @ zs" "length ys = Suc (length as)" "length as = i"
    "ps ! i = b" "take (Suc i) ps = as @ [b]" "drop (Suc i) ps = bs" "take (Suc i) xs = ys" "drop (Suc i) xs = zs"
  using assms by (intro that [of "take i ps" "ps ! i" "drop (Suc i) ps" "take (Suc i) xs" "drop (Suc i) xs"])
    (simp_all add: id_take_nth_drop [symmetric] take_Suc_conv_app_nth)

lemma push_back_at:
  assumes l: "list_at s ps xs" and new: "new (heap s) = Inr (p, h)" "p \<noteq> 0" "p \<notin> set ps"
  obtains s' where "push_back new v s = Inr s'" "list_at s' (ps @ [p]) (xs @ [v])" "heap s' = h"
proof -
  note d = list_atD [OF l]
  let ?n = "\<lparr>link_data = v, link_next = 0, link_index = 0\<rparr>"
  let ?s = "s\<lparr>heap := h, links := (links s)(p \<mapsto> ?n)\<rparr>"
  have "\<exists>t. push_back new v s = update_indices t \<and> list_linked t (ps @ [p]) (xs @ [v]) \<and> heap t = h"
  proof (cases ps rule: rev_cases)
    case Nil
    then have "list_head s = 0" "xs = []" using d(3,7) by simp_all
    then show ?thesis using Nil new
      by (intro exI [of _ "?s\<lparr>list_head := p\<rparr>"]) (simp add: push_back_def new_link_run list_linked_def)
  next
    case (snoc as q)
    then obtain lq where lq: "links s q = Some lq" "link_next lq = 0"
      using d(1) by (auto simp: path_append split: option.splits)
    have nz: "q \<noteq> 0" "q \<noteq> p" using d(5) new(3) snoc by auto
    let ?t = "?s\<lparr>links := (links ?s)(q \<mapsto> lq\<lparr>link_next := p\<rparr>)\<rparr>"
    have "last_from ?s (list_head s) = Some (Inr q)"
      using last_from_path [of ?s "list_head s" ps] d(1) new(3) snoc by simp
    then have run: "push_back new v s = update_indices ?t"
      using new lq nz snoc d(7) by (simp add: push_back_def new_link_run)
    have "list_linked ?t (as @ q # p # []) (xs @ v # [])"
      by (rule insert_linked [where s = s and n = ?n])
        (use list_at_linked [OF l] d(3,4) new lq nz snoc in auto)
    then show ?thesis using run snoc by (intro exI [of _ ?t]) simp
  qed
  then obtain t where t: "push_back new v s = update_indices t" "list_linked t (ps @ [p]) (xs @ [v])" "heap t = h"
    by blast
  from update_indices_ok [OF t(2)] t(1,3) that show thesis by metis
qed

text \<open>\<open>insert_before\<close> in the three cases of its search.\<close>

lemma insert_before_inside:
  assumes l: "list_at s ps xs" and new: "new (heap s) = Inr (p, h)" "p \<noteq> 0" "p \<notin> set ps"
    and i: "Suc i < length xs" "length xs \<le> 2 ^ 32"
  obtains s' where "insert_before new del (of_nat (Suc i)) v s = Inr (True, s')"
    "list_at s' (take (Suc i) ps @ p # drop (Suc i) ps) (take (Suc i) xs @ v # drop (Suc i) xs)" "heap s' = h"
proof -
  note d = list_atD [OF l]
  obtain s1 where s1: "new_link new s = Inr (p, s1)" "list_at s1 ps xs" "heap s1 = h"
    "links s1 = (links s)(p \<mapsto> \<lparr>link_data = 0, link_next = 0, link_index = 0\<rparr>)" "list_head s1 = list_head s"
    using new_link_at [of new, OF new(1,3) l] by blast
  obtain as b bs ys zs where sp: "ps = as @ b # bs" "xs = ys @ zs" "length ys = Suc (length as)" "length as = i"
    "ps ! i = b" "take (Suc i) ps = as @ [b]" "drop (Suc i) ps = bs" "take (Suc i) xs = ys" "drop (Suc i) xs = zs"
    by (rule list_split [OF d(3) Suc_lessD [OF i(1)]])
  have nz: "b \<noteq> 0" "b \<noteq> p" using d(5) new(3) sp(1) by auto
  obtain c cs where bs: "bs = c # cs" using sp d(3) i(1) by (cases bs) auto
  obtain lb where lb: "links s b = Some lb" "link_next lb = c"
    using d(1) unfolding sp(1) bs by (auto simp: path_append split: option.splits)
  have c: "c \<noteq> 0" "ps ! Suc i = c" "c \<noteq> list_head s"
    using d(4,5,6) sp(1,4) bs by (auto simp: nth_append hd_append split: if_splits)
  have search: "list_search (of_nat (Suc i)) s1 = Inr (b, c)"
    using list_search_at(1) [OF s1(2) i(2), of "Suc i"] i sp(5) c(2) by simp
  let ?n = "\<lparr>link_data = v, link_next = c, link_index = 0\<rparr>"
  let ?t = "s1\<lparr>links := (links s)(p \<mapsto> ?n, b \<mapsto> lb\<lparr>link_next := p\<rparr>)\<rparr>"
  have run: "insert_before new del (of_nat (Suc i)) v s = rbind (update_indices ?t) (\<lambda>s5. Inr (True, s5))"
    using new nz lb c(1,3) s1(4,5)
    by (simp add: insert_before_def s1(1) search fun_upd_twist [of p b] del: of_nat_Suc)
  have "list_linked ?t (as @ b # p # bs) (ys @ v # zs)"
    by (rule insert_linked [where s = s and n = ?n])
      (use list_at_linked [OF l] d(4) new(2,3) lb nz sp s1(5) in \<open>auto simp: bs\<close>)
  from update_indices_ok [OF this] obtain s' where "update_indices ?t = Inr s'"
    "list_at s' (as @ b # p # bs) (ys @ v # zs)" "heap s' = heap s1" by simp metis
  then show thesis using run s1(3) sp by (intro that [of s']) simp_all
qed

lemma insert_before_first:
  assumes l: "list_at s ps xs" and new: "new (heap s) = Inr (p, h)" "p \<noteq> 0" "p \<notin> set ps"
    and new2: "new h = Inr (p2, h2)" "p2 \<noteq> 0" "p2 \<notin> set ps" "p2 \<noteq> p" and del: "del p h2 = Inr (b, h3)"
    and xs: "xs \<noteq> []" "length xs \<le> 2 ^ 32"
  obtains s' where "insert_before new del 0 v s = Inr (True, s')" "list_at s' (p2 # ps) (v # xs)" "heap s' = h3"
proof -
  note d = list_atD [OF l]
  obtain s1 where s1: "new_link new s = Inr (p, s1)" "list_at s1 ps xs" "heap s1 = h"
    "list_head s1 = list_head s"
    using new_link_at [of new, OF new(1,3) l] by blast
  have ps: "ps \<noteq> []" "ps ! 0 = list_head s" "list_head s \<noteq> 0"
    using xs(1) d(3,6,7) by (auto simp: hd_conv_nth)
  have search: "list_search 0 s1 = Inr (0, list_head s)"
    using list_search_at(1) [OF s1(2) xs(2), of 0] ps xs(1) by simp
  have "new (heap s1) = Inr (p2, h2)" using new2(1) s1(3) by simp
  from push_at [of s1 ps xs new, OF s1(2) this new2(2,3)] obtain s2 where s2: "push new v s1 = Inr s2"
    "list_at s2 (p2 # ps) (v # xs)" "heap s2 = h2" by blast
  have "del p (heap s2) = Inr (b, h3)" "p \<notin> set (p2 # ps)" using del s2(3) new(3) new2(4) by auto
  from free_link_at [of del, OF this s2(2)] obtain s3 where "free_link del p s2 = Inr s3"
    "list_at s3 (p2 # ps) (v # xs)" "heap s3 = h3" by blast
  then show thesis using s1(1,4) s2(1) ps(3) by (intro that [of s3]) (simp_all add: insert_before_def search)
qed

lemma insert_outside:
  assumes l: "list_at s ps xs" and new: "new (heap s) = Inr (p, h)" "p \<noteq> 0" "p \<notin> set ps"
    and del: "del p h = Inr (b, h2)" and i: "length xs \<le> i" "i < 2 ^ 32"
  obtains s' where "insert_before new del (of_nat i) v s = Inr (False, s')"
    "insert_after new del (of_nat i) v s = Inr (False, s')" "list_at s' ps xs" "heap s' = h2"
proof -
  obtain s1 where s1: "new_link new s = Inr (p, s1)" "list_at s1 ps xs" "heap s1 = h"
    using new_link_at [of new, OF new(1,3) l] by blast
  obtain q where search: "list_search (of_nat i) s1 = Inr (q, 0)"
    using list_search_at(1) [OF s1(2), of i] i by simp
  have "del p (heap s1) = Inr (b, h2)" using del s1(3) by simp
  from free_link_at [of del, OF this new(3) s1(2)] obtain s2 where "free_link del p s1 = Inr s2"
    "list_at s2 ps xs" "heap s2 = h2" by blast
  then show thesis
    using s1(1) by (intro that [of s2]) (simp_all add: insert_before_def insert_after_def search)
qed

text \<open>\<open>insert_after\<close> inside the list, and at its last element.\<close>

lemma insert_after_inside:
  assumes l: "list_at s ps xs" and new: "new (heap s) = Inr (p, h)" "p \<noteq> 0" "p \<notin> set ps"
    and i: "Suc i < length xs" "length xs \<le> 2 ^ 32"
  obtains s' where "insert_after new del (of_nat i) v s = Inr (True, s')"
    "list_at s' (take (Suc i) ps @ p # drop (Suc i) ps) (take (Suc i) xs @ v # drop (Suc i) xs)" "heap s' = h"
proof -
  note d = list_atD [OF l]
  obtain s1 where s1: "new_link new s = Inr (p, s1)" "list_at s1 ps xs" "heap s1 = h"
    "links s1 = (links s)(p \<mapsto> \<lparr>link_data = 0, link_next = 0, link_index = 0\<rparr>)" "list_head s1 = list_head s"
    using new_link_at [of new, OF new(1,3) l] by blast
  obtain as b bs ys zs where sp: "ps = as @ b # bs" "xs = ys @ zs" "length ys = Suc (length as)" "length as = i"
    "ps ! i = b" "take (Suc i) ps = as @ [b]" "drop (Suc i) ps = bs" "take (Suc i) xs = ys" "drop (Suc i) xs = zs"
    by (rule list_split [OF d(3) Suc_lessD [OF i(1)]])
  have nz: "b \<noteq> 0" "b \<noteq> p" using d(5) new(3) sp(1) by auto
  obtain c cs where bs: "bs = c # cs" using sp d(3) i(1) by (cases bs) auto
  obtain lb where lb: "links s b = Some lb" "link_next lb = c"
    using d(1) unfolding sp(1) bs by (auto simp: path_append split: option.splits)
  have c: "c \<noteq> 0" using d(5) sp(1) bs by auto
  have "\<exists>q. list_search (of_nat i) s1 = Inr (q, b)"
    using list_search_at(1) [OF s1(2) i(2), of i] i sp(5) by simp
  then obtain q where search: "list_search (of_nat i) s1 = Inr (q, b)" by blast
  let ?n = "\<lparr>link_data = v, link_next = c, link_index = 0\<rparr>"
  let ?t = "s1\<lparr>links := (links s)(p \<mapsto> ?n, b \<mapsto> lb\<lparr>link_next := p\<rparr>)\<rparr>"
  have run: "insert_after new del (of_nat i) v s = rbind (update_indices ?t) (\<lambda>s5. Inr (True, s5))"
    using new nz lb c s1(4,5)
    by (simp add: insert_after_def s1(1) search fun_upd_twist [of p b])
  have "list_linked ?t (as @ b # p # bs) (ys @ v # zs)"
    by (rule insert_linked [where s = s and n = ?n])
      (use list_at_linked [OF l] d(4) new(2,3) lb nz sp s1(5) in \<open>auto simp: bs\<close>)
  from update_indices_ok [OF this] obtain s' where "update_indices ?t = Inr s'"
    "list_at s' (as @ b # p # bs) (ys @ v # zs)" "heap s' = heap s1" by simp metis
  then show thesis using run s1(3) sp by (intro that [of s']) simp_all
qed

text \<open>At the last element the new value is appended, and the spare node is released twice.\<close>

lemma insert_after_last:
  assumes l: "list_at s ps xs" and new: "new (heap s) = Inr (p, h)" "p \<noteq> 0" "p \<notin> set ps"
    and new2: "new h = Inr (p2, h2)" "p2 \<noteq> 0" "p2 \<notin> set ps" "p2 \<noteq> p"
    and xs: "length xs = Suc i" "length xs \<le> 2 ^ 32"
  obtains s' where "insert_after new del (of_nat i) v s =
      rbind (free_link del p s') (\<lambda>s3. rbind (free_link del p s3) (\<lambda>s4. Inr (False, s4)))"
    "list_at s' (ps @ [p2]) (xs @ [v])" "heap s' = h2"
proof -
  note d = list_atD [OF l]
  obtain s1 where s1: "new_link new s = Inr (p, s1)" "list_at s1 ps xs" "heap s1 = h"
    using new_link_at [of new, OF new(1,3) l] by blast
  note d1 = list_atD [OF s1(2)]
  have i: "i < length ps" "Suc i = length ps" using d(3) xs(1) by simp_all
  obtain lb where lb: "links s1 (ps ! i) = Some lb" "link_next lb = 0"
    using path_split_at(3) [OF d1(1) i(1)] i(2) by auto
  have nz: "ps ! i \<noteq> 0" using d(5) i(1) nth_mem by fastforce
  have "\<exists>q. list_search (of_nat i) s1 = Inr (q, ps ! i)"
    using list_search_at(1) [OF s1(2) xs(2), of i] xs by simp
  then obtain q where search: "list_search (of_nat i) s1 = Inr (q, ps ! i)" by blast
  have "new (heap s1) = Inr (p2, h2)" using new2(1) s1(3) by simp
  from push_back_at [of s1 ps xs new, OF s1(2) this new2(2,3)] obtain s2 where s2: "push_back new v s1 = Inr s2"
    "list_at s2 (ps @ [p2]) (xs @ [v])" "heap s2 = h2" by blast
  then show thesis
    using s1(1) lb nz by (intro that [of s2]) (simp_all add: insert_after_def search)
qed

text \<open>Removal at the front, at the back and before a number.\<close>

lemma pop_at_head:
  assumes l: "list_at s (p # ps) (x # xs)" and del: "del p (heap s) = Inr (b, h)"
  obtains s' where "pop del s = Inr (True, s')" "list_at s' ps xs" "heap s' = h"
proof -
  note d = list_atD [OF l]
  obtain lp where lp: "links s p = Some lp" "path (links s) (link_next lp) ps 0" and p: "p \<noteq> 0" "list_head s = p"
    using d(1) by (auto split: option.splits)
  let ?t = "s\<lparr>list_head := link_next lp, heap := h, links := (links s)(p := None)\<rparr>"
  have "list_linked ?t ps xs" using d(2,4) lp by (simp add: list_linked_def)
  from update_indices_ok [OF this] obtain s' where "update_indices ?t = Inr s'" "list_at s' ps xs" "heap s' = h"
    by simp metis
  then show thesis using lp(1) p del by (intro that [of s']) (simp_all add: pop_def free_link_def)
qed

lemma pop_empty: "list_at s [] xs \<Longrightarrow> pop del s = Inr (False, s) \<and> pop_back del s = Inr (False, s) \<and>
    pop_at del idx s = Inr (False, s)"
  using list_atD(7) [of s "[]" xs] by (simp add: pop_def pop_back_def pop_at_def)

lemma pop_back_at:
  assumes l: "list_at s (ps @ [p]) (xs @ [x])" and del: "del p (heap s) = Inr (b, h)"
  obtains s' where "pop_back del s = Inr (True, s')" "list_at s' ps xs" "heap s' = h"
proof (cases ps rule: rev_cases)
  case Nil
  note d = list_atD [OF l]
  obtain lp where lp: "links s p = Some lp" "link_next lp = 0" and p: "p \<noteq> 0" "list_head s = p"
    using d(1) Nil by (auto split: option.splits)
  let ?t = "s\<lparr>heap := h, links := (links s)(p := None), list_head := 0\<rparr>"
  have "list_at ?t [] []" by (simp add: list_at_def list_linked_def numbered_def)
  moreover have "pop_back del s = Inr (True, ?t)" using lp p del by (simp add: pop_back_def free_link_def)
  moreover have "xs = []" using d(3) Nil by simp
  ultimately show thesis using Nil by (intro that [of ?t]) simp_all
next
  case (snoc as q)
  note d = list_atD [OF l]
  obtain lq where lq: "links s q = Some lq" "link_next lq = p"
    using d(1) snoc by (auto simp: path_append split: option.splits)
  have nz: "q \<noteq> 0" "q \<noteq> p" "p \<noteq> 0" "list_head s \<noteq> 0" using d(4,5,7) snoc by auto
  obtain lh where lh: "links s (list_head s) = Some lh" "link_next lh \<noteq> 0"
  proof (cases as)
    case Nil
    then show thesis using that lq d(6) nz snoc by simp
  next
    case (Cons a cs)
    then obtain la where la: "links s a = Some la" "path (links s) (link_next la) (cs @ [q, p]) 0" "list_head s = a"
      using d(1) snoc by (auto split: option.splits)
    have "link_next la \<noteq> 0" using la(2) by (auto simp: path_from_0)
    then show thesis using that la by simp
  qed
  have bl: "before_last s 0 (list_head s) = Some (Inr (q, p))"
    using before_last_path [OF d(1), of 0] snoc by (simp add: butlast_append)
  let ?t = "s\<lparr>heap := h, links := (links s)(q \<mapsto> lq\<lparr>link_next := 0\<rparr>, p := None)\<rparr>"
  have run: "pop_back del s = Inr (True, ?t)"
    using lh bl nz lq(1) del by (simp add: pop_back_def free_link_def)
  have linked: "list_linked ?t (as @ q # []) (xs @ [])"
    by (rule remove_linked [where s = s and l = lq and c = p and r = 0 and y = x])
      (use list_at_linked [OF l] d(3,4) lq nz snoc in auto)
  have "numbered (links s) 0 (ps @ [p])" using l by (simp add: list_at_def)
  then have num: "map_option link_index (links s (ps ! i)) = Some (of_nat i)" if "i < length ps" for i
    using that by (auto simp: numbered_def nth_append dest!: spec [of _ i])
  have "map_option link_index (links ?t (ps ! i)) = Some (of_nat i)" if "i < length ps" for i
  proof -
    have "ps ! i \<noteq> p" using that d(4) nth_mem by fastforce
    then show ?thesis using num [OF that] lq(1) by (cases "ps ! i = q") simp_all
  qed
  then have "numbered (links ?t) 0 ps" by (simp add: numbered_def)
  then show thesis using run linked snoc by (intro that [of ?t]) (simp_all add: list_at_def)
qed

lemma pop_at_outside:
  assumes l: "list_at s ps xs" and i: "i = 0 \<or> length xs \<le> i" "i < 2 ^ 32" "length xs \<le> 2 ^ 32"
  shows "pop_at del (of_nat i) s = Inr (False, s)"
proof (cases "ps = []")
  case True
  then show ?thesis using pop_empty [of s xs] l by blast
next
  case False
  note d = list_atD [OF l]
  have "ps ! 0 = list_head s" using False d(6) by (simp add: hd_conv_nth)
  then show ?thesis
    using list_search_at(1) [OF l i(3,2)] i(1) d(3,7) False by (auto simp: pop_at_def)
qed

text \<open>\<open>pop(k)\<close> for the other numbers takes away the element with number \<open>k - 1\<close>.\<close>

lemma pop_at_inside:
  assumes l: "list_at s ps xs" and i: "Suc i < length xs" "length xs \<le> 2 ^ 32"
    and del: "del (ps ! i) (heap s) = Inr (b, h)"
  obtains s' where "pop_at del (of_nat (Suc i)) s = Inr (True, s')"
    "list_at s' (take i ps @ drop (Suc i) ps) (take i xs @ drop (Suc i) xs)" "heap s' = h"
proof -
  note d = list_atD [OF l]
  have node: "ps ! Suc i \<noteq> 0" "ps ! i \<in> set ps" "ps ! Suc i \<noteq> list_head s"
  proof -
    have "ps ! Suc i \<in> set ps" using i(1) d(3) by (metis nth_mem)
    then show "ps ! Suc i \<noteq> 0" using d(5) by auto
    show "ps ! i \<in> set ps" using i(1) d(3) by simp
    have "list_head s = ps ! 0" using d(3,6) i(1) by (auto simp: hd_conv_nth)
    then show "ps ! Suc i \<noteq> list_head s"
      using nth_eq_iff_index_eq [OF d(4), of "Suc i" 0] i(1) d(3) by (cases xs) auto
  qed
  have search: "list_search (of_nat (Suc i)) s = Inr (ps ! i, ps ! Suc i)"
    using list_search_at(1) [OF l i(2), of "Suc i"] i by (simp del: of_nat_Suc)
  obtain first where first: "links s (list_head s) = Some first" "link_next first = ps ! 1" "list_head s \<noteq> 0"
  proof -
    obtain p q qs where "ps = p # q # qs" using i(1) d(3) by (cases ps; cases "tl ps") auto
    then show thesis using that d(1) by (auto split: option.splits)
  qed
  have "\<exists>t. list_linked t (take i ps @ drop (Suc i) ps) (take i xs @ drop (Suc i) xs) \<and> heap t = h \<and>
    pop_at del (of_nat (Suc i)) s = rbind (update_indices t) (\<lambda>s2. Inr (True, s2))"
  proof (cases i)
    case 0
    let ?t = "s\<lparr>list_head := ps ! 1, heap := h, links := (links s)(ps ! 0 := None)\<rparr>"
    have out: "ps ! 0 \<notin> set (drop 1 ps)" using d(4) by (cases ps) auto
    have "node_values ((links s)(ps ! 0 := None)) (drop 1 ps) = map Some (drop 1 xs)"
      unfolding node_values_upd [OF out] using d(2) by (simp add: drop_map)
    then have "list_linked ?t (drop 1 ps) (drop 1 xs)"
      using path_split_at(2) [OF d(1), of 1] i(1) d(3) out 0 by (simp add: list_linked_def del: node_values_simps)
    then show ?thesis using 0 search first node(1,3) del
      by (intro exI [of _ ?t]) (simp add: pop_at_def free_link_def)
  next
    case (Suc j)
    obtain as b bs ys zs where sp: "ps = as @ b # bs" "xs = ys @ zs" "length ys = Suc (length as)" "length as = j"
      "ps ! j = b" "take (Suc j) ps = as @ [b]" "drop (Suc j) ps = bs" "take (Suc j) xs = ys" "drop (Suc j) xs = zs"
      by (rule list_split [of ps xs j]) (use i(1) d(3) Suc in auto)
    obtain c cs where bs: "bs = c # cs" "cs = drop (Suc i) ps" "ps ! i = c"
      using sp(7) Suc i(1) d(3) Cons_nth_drop_Suc [of i ps] by (metis Suc_lessD)
    obtain y ws where zs: "zs = y # ws" "ws = drop (Suc i) xs"
      using sp(9) Suc i(1) Cons_nth_drop_Suc [of i xs] by (metis Suc_lessD)
    obtain lb where lb: "links s b = Some lb"
      using d(1) unfolding sp(1) by (auto simp: path_append split: option.splits)
    obtain li where li: "links s (ps ! i) = Some li" "link_index li = of_nat i" "path (links s) (link_next li) cs 0"
    proof -
      have "map_option link_index (links s (ps ! i)) = Some (of_nat i)"
        using l i(1) d(3) by (simp add: list_at_def numbered_def)
      then show thesis using that path_split_at(3) [OF d(1), of i] i(1) d(3) bs(2) by auto
    qed
    have prev: "list_find (of_nat j) s = Inr b"
      using list_search_at(2) [OF l i(2), of j] i Suc sp(5) by simp
    have nz: "b \<noteq> 0" "c \<noteq> 0" "b \<noteq> c" "c \<notin> set as" "c \<notin> set cs" "b \<notin> set cs"
      using d(4,5) sp(1) bs(1) by auto
    have "ps ! 1 \<noteq> ps ! Suc i" using nth_eq_iff_index_eq [OF d(4), of 1 "Suc i"] i(1) d(3) Suc by simp
    let ?t = "s\<lparr>heap := h, links := (links s)(b \<mapsto> lb\<lparr>link_next := ps ! Suc i\<rparr>, c := None)\<rparr>"
    have run: "pop_at del (of_nat (Suc i)) s = rbind (update_indices ?t) (\<lambda>s2. Inr (True, s2))"
      using search first node(1,3) del li(1,2) nz(1-3) lb prev bs(3) \<open>ps ! 1 \<noteq> ps ! Suc i\<close> Suc
      by (simp add: pop_at_def del: of_nat_Suc) (simp add: free_link_def)
    have "path (links s) (ps ! Suc i) cs 0"
      using path_split_at(2) [OF d(1), of "Suc i"] i(1) d(3) bs(2) by simp
    moreover have "list_linked s (as @ b # c # cs) (ys @ y # ws)"
      using list_at_linked [OF l] sp(1,2) bs(1) zs(1) by simp
    moreover have "links ?t p = links s p" if "p \<in> set (as @ cs)" for p
      using that nz d(4) sp(1) by auto
    ultimately have "list_linked ?t (as @ b # cs) (ys @ ws)"
      using sp(3) lb nz by (intro remove_linked [of s as b c cs ys y ws lb ?t "ps ! Suc i"]) simp_all
    moreover have "take i ps @ drop (Suc i) ps = as @ b # cs" "take i xs @ drop (Suc i) xs = ys @ ws"
      using sp(6,8) Suc bs(2) zs(2) by simp_all
    ultimately show ?thesis using run by (intro exI [of _ ?t]) simp
  qed
  then obtain t where t: "list_linked t (take i ps @ drop (Suc i) ps) (take i xs @ drop (Suc i) xs)" "heap t = h"
    "pop_at del (of_nat (Suc i)) s = rbind (update_indices t) (\<lambda>s2. Inr (True, s2))" by blast
  from update_indices_ok [OF t(1)] t(2,3) that show thesis by (metis rbind_Inr)
qed

section \<open>The allocator as an interface\<close>

text \<open>The insertions as operations on lists: what a caller asks for, which requests release no node, and
  what those do.\<close>

datatype 'a list_op = Push 'a | PushBack 'a | InsertBefore nat 'a | InsertAfter nat 'a

fun run_list_op ::
  "('h \<Rightarrow> (u64 \<times> 'h) result) \<Rightarrow> (u64 \<Rightarrow> 'h \<Rightarrow> (bool \<times> 'h) result) \<Rightarrow> 'a::zero list_op \<Rightarrow>
   ('a, 'h) list_state \<Rightarrow> ('a, 'h) list_state result" where
  "run_list_op new del (Push v) s = push new v s"
| "run_list_op new del (PushBack v) s = push_back new v s"
| "run_list_op new del (InsertBefore i v) s =
     rbind (insert_before new del (of_nat i) v s) (\<lambda>(b, s'). Inr s')"
| "run_list_op new del (InsertAfter i v) s =
     rbind (insert_after new del (of_nat i) v s) (\<lambda>(b, s'). Inr s')"

fun list_op_ok :: "'a list_op \<Rightarrow> 'a list \<Rightarrow> bool" where
  "list_op_ok (Push v) xs \<longleftrightarrow> True"
| "list_op_ok (PushBack v) xs \<longleftrightarrow> True"
| "list_op_ok (InsertBefore i v) xs \<longleftrightarrow> 0 < i \<and> i < length xs"
| "list_op_ok (InsertAfter i v) xs \<longleftrightarrow> Suc i < length xs"

fun list_op_spec :: "'a list_op \<Rightarrow> 'a list \<Rightarrow> 'a list" where
  "list_op_spec (Push v) xs = v # xs"
| "list_op_spec (PushBack v) xs = xs @ [v]"
| "list_op_spec (InsertBefore i v) xs = take i xs @ v # drop i xs"
| "list_op_spec (InsertAfter i v) xs = take (Suc i) xs @ v # drop (Suc i) xs"

primrec run_list_ops ::
  "('h \<Rightarrow> (u64 \<times> 'h) result) \<Rightarrow> (u64 \<Rightarrow> 'h \<Rightarrow> (bool \<times> 'h) result) \<Rightarrow> 'a::zero list_op list \<Rightarrow>
   ('a, 'h) list_state \<Rightarrow> ('a, 'h) list_state result" where
  "run_list_ops new del [] s = Inr s"
| "run_list_ops new del (op # ops) s = rbind (run_list_op new del op s) (run_list_ops new del ops)"

primrec list_ops_ok :: "'a list_op list \<Rightarrow> 'a list \<Rightarrow> bool" where
  "list_ops_ok [] xs \<longleftrightarrow> True"
| "list_ops_ok (op # ops) xs \<longleftrightarrow> list_op_ok op xs \<and> list_ops_ok ops (list_op_spec op xs)"

lemma length_list_op_spec: "length (list_op_spec op xs) = Suc (length xs)"
  by (cases op) auto

text \<open>The other requests release the node they took first. An insertion before the first element pushes the
  value, which takes a second node, and releases the first; one after the last element appends the value,
  with a second node too, and releases the first node twice; and a number outside the list changes nothing.\<close>

fun list_op_index :: "'a list_op \<Rightarrow> nat" where
  "list_op_index (InsertBefore i v) = i"
| "list_op_index (InsertAfter i v) = i"
| "list_op_index _ = 0"

fun releases_twice :: "'a list_op \<Rightarrow> 'a list \<Rightarrow> bool" where
  "releases_twice (InsertAfter i v) xs \<longleftrightarrow> Suc i = length xs"
| "releases_twice _ xs \<longleftrightarrow> False"

fun takes_two :: "'a list_op \<Rightarrow> 'a list \<Rightarrow> bool" where
  "takes_two (InsertBefore i v) xs \<longleftrightarrow> i = 0 \<and> xs \<noteq> []"
| "takes_two (InsertAfter i v) xs \<longleftrightarrow> Suc i = length xs"
| "takes_two _ xs \<longleftrightarrow> False"

fun released_spec :: "'a list_op \<Rightarrow> 'a list \<Rightarrow> 'a list" where
  "released_spec (InsertBefore i v) xs = (if i = 0 \<and> xs \<noteq> [] then v # xs else xs)"
| "released_spec _ xs = xs"

text \<open>What becomes of a sequence of insertions when releasing a node leaves the allocator unusable: the
  final list, and whether the allocator is still usable.\<close>

primrec list_ops_outcome :: "'a list_op list \<Rightarrow> 'a list \<Rightarrow> ('a list \<times> bool) result" where
  "list_ops_outcome [] xs = Inr (xs, True)"
| "list_ops_outcome (op # ops) xs =
     (if list_op_ok op xs then list_ops_outcome ops (list_op_spec op xs)
      else if releases_twice op xs \<or> ops \<noteq> [] then Inl Deadlock
      else Inr (released_spec op xs, False))"

text \<open>The nodes it takes.\<close>

primrec list_ops_nodes :: "'a list_op list \<Rightarrow> 'a list \<Rightarrow> nat" where
  "list_ops_nodes [] xs = 0"
| "list_ops_nodes (op # ops) xs =
     (if list_op_ok op xs then Suc (list_ops_nodes ops (list_op_spec op xs))
      else if takes_two op xs then 2 else 1)"

lemma list_ops_ok_outcome:
  "list_ops_ok ops xs \<Longrightarrow> list_ops_outcome ops xs = Inr (fold list_op_spec ops xs, True) \<and>
     list_ops_nodes ops xs = length ops"
  by (induction ops arbitrary: xs) simp_all

lemma list_ops_outcome_Inl: "list_ops_outcome ops xs = Inl e \<Longrightarrow> e = Deadlock"
  by (induction ops arbitrary: xs) (auto split: if_splits)

lemma length_list_ops_outcome: "list_ops_outcome ops xs = Inr (ys, u) \<Longrightarrow> length ys \<le> length xs + length ops"
proof (induction ops arbitrary: xs)
  case (Cons op ops)
  have "length (released_spec op xs) \<le> Suc (length xs)" by (cases op) simp_all
  then show ?case using Cons.IH [of "list_op_spec op xs"] Cons.prems length_list_op_spec [of op xs]
    by (auto split: if_splits)
qed simp

text \<open>What the list asks of \<open>calloc\<close>: while there is room for another node, a fresh one.\<close>

locale node_heap =
  fixes new :: "'h \<Rightarrow> (u64 \<times> 'h) result"
    and live :: "'h \<Rightarrow> u64 set"
    and room :: "nat \<Rightarrow> 'h \<Rightarrow> bool"
  assumes new_fresh: "room (Suc n) h \<Longrightarrow>
    \<exists>p h'. new h = Inr (p, h') \<and> p \<noteq> 0 \<and> p \<notin> live h \<and> insert p (live h) \<subseteq> live h' \<and> room n h'"
begin

lemma list_op_step:
  assumes "room (Suc n) (heap s)" "list_at s ps xs" "set ps \<subseteq> live (heap s)" "length xs < 2 ^ 32" "list_op_ok op xs"
  shows "\<exists>s' ps'. run_list_op new del op s = Inr s' \<and> list_at s' ps' (list_op_spec op xs) \<and>
    set ps' \<subseteq> live (heap s') \<and> room n (heap s')"
proof -
  obtain p h where p: "new (heap s) = Inr (p, h)" "p \<noteq> 0" "p \<notin> set ps" "insert p (live (heap s)) \<subseteq> live h"
    "room n h" using new_fresh [OF assms(1)] assms(3) by blast
  note l = assms(2) p(1-3)
  show ?thesis
  proof (cases op)
    case (Push v)
    from push_at [of s ps xs new, OF l] obtain s' where
      "push new v s = Inr s'" "list_at s' (p # ps) (v # xs)" "heap s' = h" by blast
    then show ?thesis using Push p(4,5) assms(3) by (intro exI [of _ s'] exI [of _ "p # ps"]) auto
  next
    case (PushBack v)
    from push_back_at [of s ps xs new, OF l] obtain s' where
      "push_back new v s = Inr s'" "list_at s' (ps @ [p]) (xs @ [v])" "heap s' = h" by blast
    then show ?thesis using PushBack p(4,5) assms(3) by (intro exI [of _ s'] exI [of _ "ps @ [p]"]) auto
  next
    case (InsertBefore i v)
    then obtain j where j: "i = Suc j" "Suc j < length xs" using assms(5) by (cases i) auto
    have "length xs \<le> 2 ^ 32" using assms(4) by simp
    from insert_before_inside [of s ps xs new, OF l j(2) this, of del v] obtain s' where
      "insert_before new del (of_nat (Suc j)) v s = Inr (True, s')" "heap s' = h"
      "list_at s' (take i ps @ p # drop i ps) (take i xs @ v # drop i xs)" unfolding j(1) by blast
    moreover have "set (take i ps @ p # drop i ps) \<subseteq> live h"
      using p(4) assms(3) by (auto dest: in_set_takeD in_set_dropD)
    ultimately show ?thesis using InsertBefore j(1) p(5)
      by (intro exI [of _ s'] exI [of _ "take i ps @ p # drop i ps"]) simp
  next
    case (InsertAfter i v)
    then have i: "Suc i < length xs" "length xs \<le> 2 ^ 32" using assms(4,5) by simp_all
    from insert_after_inside [of s ps xs new, OF l i, of del v] obtain s' where
      "insert_after new del (of_nat i) v s = Inr (True, s')" "heap s' = h"
      "list_at s' (take (Suc i) ps @ p # drop (Suc i) ps) (take (Suc i) xs @ v # drop (Suc i) xs)" by blast
    moreover have "set (take (Suc i) ps @ p # drop (Suc i) ps) \<subseteq> live h"
      using p(4) assms(3) by (auto dest: in_set_takeD in_set_dropD)
    ultimately show ?thesis using InsertAfter p(5)
      by (intro exI [of _ s'] exI [of _ "take (Suc i) ps @ p # drop (Suc i) ps"]) simp
  qed
qed

end

text \<open>The kernel's \<open>free\<close> comes back only once: afterwards every call into the heap waits for ever.\<close>

locale sticking_node_heap = node_heap +
  fixes del :: "u64 \<Rightarrow> 'h \<Rightarrow> (bool \<times> 'h) result"
    and stuck :: "'h \<Rightarrow> bool"
  assumes del_sticks: "\<not> stuck h \<Longrightarrow> p \<in> live h \<Longrightarrow> \<exists>b h'. del p h = Inr (b, h') \<and> stuck h'"
    and stuck_new: "stuck h \<Longrightarrow> new h = Inl Deadlock"
    and stuck_del: "stuck h \<Longrightarrow> del p h = Inl Deadlock"
    and room_free: "room n h \<Longrightarrow> \<not> stuck h"
begin

lemma list_stuck:
  assumes "stuck (heap s)" "list_at s ps xs"
  shows "push new v s = Inl Deadlock" "push_back new v s = Inl Deadlock"
    "insert_before new del i v s = Inl Deadlock" "insert_after new del i v s = Inl Deadlock"
    "xs \<noteq> [] \<Longrightarrow> pop del s = Inl Deadlock" "xs \<noteq> [] \<Longrightarrow> list_clear del s = Inl Deadlock"
proof -
  have "new_link new s = Inl Deadlock" using stuck_new [OF assms(1)] by (simp add: new_link_def)
  then show "push new v s = Inl Deadlock" "push_back new v s = Inl Deadlock"
    "insert_before new del i v s = Inl Deadlock" "insert_after new del i v s = Inl Deadlock"
    by (simp_all add: push_def push_back_def insert_before_def insert_after_def)
  have free: "free_link del p t = Inl Deadlock" if "heap t = heap s" for p t
    using stuck_del [OF assms(1)] that by (simp add: free_link_def)
  assume xs: "xs \<noteq> []"
  note d = list_atD [OF assms(2)]
  obtain p ps' where ps: "ps = p # ps'" using xs d(3) by (cases ps) auto
  then obtain l where l: "list_head s = p" "p \<noteq> 0" "links s p = Some l" using d(1) by (auto split: option.splits)
  then show "pop del s = Inl Deadlock" by (simp add: pop_def free)
  have "pop_back del s = Inl Deadlock"
  proof (cases "link_next l = 0")
    case True
    then show ?thesis using l by (simp add: pop_back_def free)
  next
    case False
    have bl: "before_last s 0 (list_head s) = Some (Inr (last (0 # butlast ps), last ps))"
      using before_last_path [OF d(1), of 0] ps by simp
    have "butlast ps \<noteq> []"
      using False l d(1) ps by (cases ps') (auto simp: path_from_0)
    then have "last (0 # butlast ps) \<in> set ps" by simp (metis in_set_butlastD last_in_set)
    from path_nodes [OF d(1) this] obtain q where "last (0 # butlast ps) \<noteq> 0"
      "links s (last (0 # butlast ps)) = Some q" by blast
    then show ?thesis using False l bl by (simp add: pop_back_def free)
  qed
  then show "list_clear del s = Inl Deadlock"
    using l by (simp add: list_clear_def clear_from.simps)
qed

text \<open>An insertion that releases a node returns with the allocator stuck, or does not return.\<close>

lemma list_op_release:
  assumes room: "room (if takes_two op xs then Suc (Suc 0) else Suc 0) (heap s)" and l: "list_at s ps xs"
    and live: "set ps \<subseteq> live (heap s)" and len: "length xs < 2 ^ 32" and op: "\<not> list_op_ok op xs" "list_op_index op < 2 ^ 32"
  shows "if releases_twice op xs then run_list_op new del op s = Inl Deadlock
    else \<exists>s' ps'. run_list_op new del op s = Inr s' \<and> list_at s' ps' (released_spec op xs) \<and> stuck (heap s')"
proof -
  have "\<exists>p h. new (heap s) = Inr (p, h) \<and> p \<noteq> 0 \<and> p \<notin> set ps \<and> insert p (live (heap s)) \<subseteq> live h \<and> \<not> stuck h \<and>
      (takes_two op xs \<longrightarrow> room (Suc 0) h)"
    using new_fresh [of 0 "heap s"] new_fresh [of "Suc 0" "heap s"] room live room_free by (cases "takes_two op xs") (simp; blast)+
  then obtain p h where p: "new (heap s) = Inr (p, h)" "p \<noteq> 0" "p \<notin> set ps" "insert p (live (heap s)) \<subseteq> live h"
    "\<not> stuck h" "takes_two op xs \<longrightarrow> room (Suc 0) h" by blast
  have p2: "\<exists>p2 h2 b h3. new h = Inr (p2, h2) \<and> p2 \<noteq> 0 \<and> p2 \<notin> set ps \<and> p2 \<noteq> p \<and> del p h2 = Inr (b, h3) \<and> stuck h3"
    if two: "takes_two op xs"
  proof -
    obtain p2 h2 where p2: "new h = Inr (p2, h2)" "p2 \<noteq> 0" "p2 \<notin> live h" "insert p2 (live h) \<subseteq> live h2" "room 0 h2"
      using new_fresh [of 0 h] p(6) two by blast
    then obtain b h3 where "del p h2 = Inr (b, h3)" "stuck h3" using del_sticks [of h2 p] room_free p(4) by blast
    then show ?thesis using p2 p(4) live by blast
  qed
  obtain b h' where out: "del p h = Inr (b, h')" "stuck h'" using del_sticks [OF p(5), of p] p(4) by blast
  have len': "length xs \<le> 2 ^ 32" using len by simp
  show ?thesis
  proof (cases op)
    case (InsertBefore i v)
    show ?thesis
    proof (cases "i = 0 \<and> xs \<noteq> []")
      case True
      then obtain p2 h2 b h3 where p2: "new h = Inr (p2, h2)" "p2 \<noteq> 0" "p2 \<notin> set ps" "p2 \<noteq> p"
        "del p h2 = Inr (b, h3)" "stuck h3" using p2 InsertBefore by auto
      from insert_before_first [of s ps xs new p h p2 h2 del b h3 v, OF l p(1-3) p2(1-5)] True len'
      obtain s' where "insert_before new del 0 v s = Inr (True, s')" "list_at s' (p2 # ps) (v # xs)" "heap s' = h3" by blast
      then show ?thesis using True InsertBefore p2(6) by (auto intro!: exI [of _ "p2 # ps"])
    next
      case False
      then have i: "length xs \<le> i" "i < 2 ^ 32" using InsertBefore op by auto
      from insert_outside [of s ps xs new p h del b h' i v, OF l p(1-3) out(1) i]
      obtain s' where "insert_before new del (of_nat i) v s = Inr (False, s')" "list_at s' ps xs" "heap s' = h'" by blast
      then show ?thesis using False InsertBefore out(2) by auto
    qed
  next
    case (InsertAfter i v)
    show ?thesis
    proof (cases "Suc i = length xs")
      case True
      then obtain p2 h2 b h3 where p2: "new h = Inr (p2, h2)" "p2 \<noteq> 0" "p2 \<notin> set ps" "p2 \<noteq> p"
        "del p h2 = Inr (b, h3)" "stuck h3" using p2 InsertAfter by auto
      from insert_after_last [of s ps xs new p h p2 h2 i del v, OF l p(1-3) p2(1-4) True [symmetric] len']
      obtain s' where "insert_after new del (of_nat i) v s =
          rbind (free_link del p s') (\<lambda>s3. rbind (free_link del p s3) (\<lambda>s4. Inr (False, s4)))" "heap s' = h2" by blast
      then show ?thesis using True InsertAfter p2(5) stuck_del [OF p2(6)] by (simp add: free_link_def)
    next
      case False
      then have i: "length xs \<le> i" "i < 2 ^ 32" using InsertAfter op by auto
      from insert_outside [of s ps xs new p h del b h' i v, OF l p(1-3) out(1) i]
      obtain s' where "insert_after new del (of_nat i) v s = Inr (False, s')" "list_at s' ps xs" "heap s' = h'" by blast
      then show ?thesis using False InsertAfter out(2) by auto
    qed
  qed (use op in auto)
qed

lemma list_ops_run:
  assumes "room (list_ops_nodes ops xs) (heap s)" "list_at s ps xs" "set ps \<subseteq> live (heap s)"
    "length xs + length ops \<le> 2 ^ 32" "\<forall>op \<in> set ops. list_op_index op < 2 ^ 32"
  shows "case list_ops_outcome ops xs of
      Inl e \<Rightarrow> run_list_ops new del ops s = Inl e
    | Inr (ys, usable) \<Rightarrow> \<exists>s' ps'. run_list_ops new del ops s = Inr s' \<and> list_at s' ps' ys \<and> stuck (heap s') = (\<not> usable)"
  using assms
proof (induction ops arbitrary: s ps xs)
  case Nil
  then show ?case using room_free by auto
next
  case (Cons op ops)
  have len: "length xs < 2 ^ 32" using Cons.prems(4) by simp
  show ?case
  proof (cases "list_op_ok op xs")
    case True
    then have room: "room (Suc (list_ops_nodes ops (list_op_spec op xs))) (heap s)" using Cons.prems(1) by simp
    obtain s1 ps1 where s1: "run_list_op new del op s = Inr s1" "list_at s1 ps1 (list_op_spec op xs)"
      "set ps1 \<subseteq> live (heap s1)" "room (list_ops_nodes ops (list_op_spec op xs)) (heap s1)"
      using list_op_step [OF room Cons.prems(2,3) len True] by blast
    have "length (list_op_spec op xs) + length ops \<le> 2 ^ 32" using Cons.prems(4) by (simp add: length_list_op_spec)
    moreover have "run_list_ops new del (op # ops) s = run_list_ops new del ops s1" using s1(1) by simp
    moreover have "list_ops_outcome (op # ops) xs = list_ops_outcome ops (list_op_spec op xs)" using True by simp
    moreover have "\<forall>op \<in> set ops. list_op_index op < 2 ^ 32" using Cons.prems(5) by simp
    ultimately show ?thesis using Cons.IH [OF s1(4,2,3)] by (simp only:)
  next
    case False
    have "room (if takes_two op xs then Suc (Suc 0) else Suc 0) (heap s)"
      using Cons.prems(1) False by (simp add: numeral_2_eq_2 split: if_splits)
    note rel = list_op_release [OF this Cons.prems(2,3) len False]
    show ?thesis
    proof (cases "releases_twice op xs")
      case True
      then show ?thesis using rel False Cons.prems(5) by simp
    next
      case no: False
      then obtain s' ps' where s': "run_list_op new del op s = Inr s'" "list_at s' ps' (released_spec op xs)" "stuck (heap s')"
        using rel Cons.prems(5) by auto
      have "run_list_op new del op' s' = Inl Deadlock" for op'
        using list_stuck(1-4) [OF s'(3,2)] by (cases op') simp_all
      then show ?thesis using s' False no by (cases ops) auto
    qed
  qed
qed

lemma removal_sticks:
  assumes "\<not> stuck (heap s)" "list_at s ps xs" "set ps \<subseteq> live (heap s)" "xs \<noteq> []"
  shows "\<exists>s' ps'. pop del s = Inr (True, s') \<and> list_at s' ps' (tl xs) \<and> stuck (heap s')"
    and "\<exists>s' ps'. pop_back del s = Inr (True, s') \<and> list_at s' ps' (butlast xs) \<and> stuck (heap s')"
proof -
  have len: "length ps = length xs" using list_atD(3) [OF assms(2)] .
  have free: "\<exists>b h. del p (heap s) = Inr (b, h) \<and> stuck h" if "p \<in> set ps" for p
    using del_sticks [OF assms(1)] assms(3) that by blast
  obtain x xs' where xs: "xs = x # xs'" using assms(4) by (cases xs) auto
  then obtain p ps' where ps: "ps = p # ps'" using len by (cases ps) auto
  obtain b h where "del p (heap s) = Inr (b, h)" "stuck h" using free [of p] ps by auto
  with pop_at_head [of s p ps' x xs' del b h] assms(2) ps xs
  show "\<exists>s' ps'. pop del s = Inr (True, s') \<and> list_at s' ps' (tl xs) \<and> stuck (heap s')" by fastforce
  obtain y ys where ys: "xs = ys @ [y]" using assms(4) by (cases xs rule: rev_cases) auto
  then obtain q qs where qs: "ps = qs @ [q]" using len by (cases ps rule: rev_cases) auto
  obtain b h where "del q (heap s) = Inr (b, h)" "stuck h" using free [of q] qs by auto
  with pop_back_at [of s qs q ys y del b h] assms(2) ys qs
  show "\<exists>s' ps'. pop_back del s = Inr (True, s') \<and> list_at s' ps' (butlast xs) \<and> stuck (heap s')" by fastforce
qed

lemma clear_sticks:
  fixes s :: "('a::zero, 'h) list_state"
  assumes "\<not> stuck (heap s)" "list_at s ps xs" "set ps \<subseteq> live (heap s)" "2 \<le> length xs"
  shows "list_clear del s = Inl Deadlock"
proof -
  have ne: "xs \<noteq> []" using assms(4) by auto
  obtain s' ps' where s': "pop_back del s = Inr (True, s')" "list_at s' ps' (butlast xs)" "stuck (heap s')"
    using removal_sticks(2) [OF assms(1-3) ne] by blast
  have "butlast xs \<noteq> []" using assms(4) by (cases xs rule: rev_cases) auto
  from list_stuck(6) [OF s'(3,2) this] have "loop_result (clear_from del s') = Inl Deadlock"
    using list_atD(3,7) [OF s'(2)] \<open>butlast xs \<noteq> []\<close> by (auto simp: list_clear_def split: if_splits)
  then have "loop_result (clear_from del s) = Inl Deadlock"
    using list_atD(3,7) [OF assms(2)] ne s'(1) by (subst clear_from.simps) (auto simp:)
  then show ?thesis using list_atD(3,7) [OF assms(2)] ne by (auto simp: list_clear_def)
qed

end

end
