(* ===== verification/KernelList.thy ===== *)
theory KernelList
  imports LinkedList HeapSafety
begin

text \<open>
  The linked list on the kernel's own heap: \<open>calloc\<close> meets the interface the list needs, \<open>free\<close> only
  the one that comes back once.  The properties of the list are stated here.
\<close>

section \<open>The kernel heap as the node allocator\<close>

text \<open>\<open>sizeof(NodeLink<McfgEntry>)\<close>: 16 bytes of data, the pointer, and the index padded to 8 bytes.\<close>

definition mcfg_link_size :: u64 where
  "mcfg_link_size = 32"

text \<open>The heap has room for \<open>n\<close> further nodes.\<close>

primrec heap_room :: "nat \<Rightarrow> 'a heap_state_scheme \<Rightarrow> bool" where
  "heap_room 0 h \<longleftrightarrow> heap_inv h"
| "heap_room (Suc n) h \<longleftrightarrow> (\<exists>p. malloc_room h mcfg_link_size p) \<and>
     (\<forall>a h'. calloc mcfg_link_size h = Inr (a, h') \<longrightarrow> heap_room n h')"

definition heap_live :: "'a heap_state_scheme \<Rightarrow> u64 set" where
  "heap_live h = {v. heap_addr h v}"

definition heap_stuck :: "'a heap_state_scheme \<Rightarrow> bool" where
  "heap_stuck h \<longleftrightarrow> bit (mm_lock h) 0"

lemma calloc_fresh:
  assumes "malloc_room h mcfg_link_size q"
  shows "\<exists>p h'. calloc mcfg_link_size h = Inr (p, h') \<and> p \<noteq> 0 \<and> p \<notin> heap_live h \<and>
    insert p (heap_live h) \<subseteq> heap_live h'"
proof -
  from calloc_block [OF assms] obtain p h' where run: "calloc mcfg_link_size h = Inr (p, h')"
    and inv: "heap_inv h'" and old: "heap_bytes h \<subseteq>\<^sub>m heap_bytes h'" and top: "unat (heap_top h) + 16 \<le> unat p"
    and zero: "\<forall>i < unat mcfg_link_size. heap_bytes h' (p + of_nat i) = Some 0" by blast
  have "heap_inv h" using assms by (simp add: malloc_room_def Let_def)
  have "heap_bytes h' p = Some 0" using spec [OF zero, of 0] by (simp add: mcfg_link_size_def)
  then have "p \<in> heap_live h'" by (auto simp: heap_live_def heap_bytes_def split: if_splits)
  moreover have "heap_live h \<subseteq> heap_live h'"
    using map_le_implies_dom_le [OF old] \<open>heap_inv h\<close> inv by (simp add: heap_live_def dom_heap_bytes)
  moreover have "p \<noteq> 0" "p \<notin> heap_live h"
    using top by (auto simp: heap_live_def heap_addr_def word_less_nat_alt)
  ultimately show ?thesis using run by blast
qed

lemma calloc_node:
  assumes "heap_room (Suc n) h"
  shows "\<exists>p h'. calloc mcfg_link_size h = Inr (p, h') \<and> p \<noteq> 0 \<and> p \<notin> heap_live h \<and>
    insert p (heap_live h) \<subseteq> heap_live h' \<and> heap_room n h'"
proof -
  obtain q where "malloc_room h mcfg_link_size q" using assms by auto
  from calloc_fresh [OF this] show ?thesis using assms by auto
qed

lemma heap_free_sticks:
  "\<not> heap_stuck h \<Longrightarrow> p \<in> heap_live h \<Longrightarrow> \<exists>b h'. heap_free p h = Inr (b, h') \<and> heap_stuck h'"
proof -
  assume "\<not> heap_stuck h" "p \<in> heap_live h"
  moreover from this(2) have "p \<noteq> 10" by (auto simp: heap_live_def heap_addr_def mm_consts)
  ultimately show ?thesis using heap_free_returns [of h p] by (auto simp: heap_stuck_def)
qed

lemma heap_stuck_inv: "heap_inv h \<Longrightarrow> \<not> heap_stuck h"
  by (simp add: heap_stuck_def heap_invD)

lemma heap_room_free: "heap_room n h \<Longrightarrow> \<not> heap_stuck h"
  by (cases n) (auto simp: malloc_room_def Let_def heap_stuck_inv)

interpretation kernel_nodes: node_heap "calloc mcfg_link_size" heap_live heap_room
  by unfold_locales (rule calloc_node)

interpretation kernel_nodes: sticking_node_heap "calloc mcfg_link_size" heap_live heap_room heap_free heap_stuck
  by unfold_locales (rule heap_free_sticks, simp_all add: heap_room_free, simp_all add: heap_stuck_def held_deadlocks)

section \<open>Properties\<close>

text \<open>C18: what any sequence of insertions does to an empty list on the kernel heap, with room for the nodes
  it takes. While the insertions are at the front, at the back, before an element that is not the first and
  after one that is not the last, it returns and builds the list of values one expects, with the nodes
  numbered: \<open>find\<close> with a position returns the node that holds the value there. The first insertion of
  another kind releases a node. After the last element it never returns; before the first one it returns
  with the value in front, and with a number that no element has it returns with nothing changed, but in
  both cases the lock of the heap is held then, and the next insertion never returns.\<close>

theorem kernel_list_refines:
  assumes "heap_room (list_ops_nodes ops []) h" and "length ops \<le> 2 ^ 32" and "\<forall>op \<in> set ops. list_op_index op < 2 ^ 32"
  shows "(case list_ops_outcome ops [] of
      Inl e \<Rightarrow> e = Deadlock \<and> run_list_ops (calloc mcfg_link_size) heap_free ops (list_new h) = Inl Deadlock
    | Inr (xs, usable) \<Rightarrow> \<exists>s ps. run_list_ops (calloc mcfg_link_size) heap_free ops (list_new h) = Inr s \<and>
        list_at s ps xs \<and> bit (mm_lock (heap s)) 0 = (\<not> usable) \<and>
        (\<forall>j < length xs. list_find (of_nat j) s = Inr (ps ! j) \<and>
          (\<exists>l. links s (ps ! j) = Some l \<and> link_data l = xs ! j))) \<and>
    (list_ops_ok ops [] \<longrightarrow> list_ops_outcome ops [] = Inr (fold list_op_spec ops [], True) \<and>
       list_ops_nodes ops [] = length ops)"
proof -
  have room: "heap_room (list_ops_nodes ops []) (heap (list_new h))" using assms(1) by (simp add: list_new_def)
  have len: "length [] + length ops \<le> 2 ^ 32" using assms(2) by simp
  note run = kernel_nodes.list_ops_run [OF room list_new_empty _ len assms(3)]
  have nodes: "list_find (of_nat j) s = Inr (ps ! j) \<and> (\<exists>l. links s (ps ! j) = Some l \<and> link_data l = xs ! j)"
    if s: "list_at s ps xs" and u: "list_ops_outcome ops [] = Inr (xs, u)" and j: "j < length xs" for s :: "(_, _) list_state" and ps xs u j
  proof -
    note d = list_atD [OF s]
    have "map_option link_data (links s (ps ! j)) = Some (xs ! j)"
      using arg_cong [OF d(2), of "\<lambda>ys. ys ! j"] j d(3) by (simp add: node_values_def)
    moreover have "length xs \<le> 2 ^ 32" using length_list_ops_outcome [OF u] assms(2) by simp
    ultimately show ?thesis using list_search_at(2) [OF s, of j] j by auto
  qed
  show ?thesis
  proof (cases "list_ops_outcome ops []")
    case (Inl e)
    then show ?thesis using run list_ops_outcome_Inl [OF Inl] list_ops_ok_outcome [of ops "[]"] by auto
  next
    case (Inr r)
    obtain xs u where r: "r = (xs, u)" by (cases r)
    then have out: "list_ops_outcome ops [] = Inr (xs, u)" using Inr by simp
    obtain s ps where "run_list_ops (calloc mcfg_link_size) heap_free ops (list_new h) = Inr s" "list_at s ps xs"
      "heap_stuck (heap s) = (\<not> u)" using run by (auto simp: out)
    with nodes [OF _ out] have "\<exists>s ps. run_list_ops (calloc mcfg_link_size) heap_free ops (list_new h) = Inr s \<and>
        list_at s ps xs \<and> bit (mm_lock (heap s)) 0 = (\<not> u) \<and>
        (\<forall>j < length xs. list_find (of_nat j) s = Inr (ps ! j) \<and>
          (\<exists>l. links s (ps ! j) = Some l \<and> link_data l = xs ! j))"
      unfolding heap_stuck_def by blast
    then show ?thesis using list_ops_ok_outcome [of ops "[]"] by (simp add: out)
  qed
qed

lemma demo_node_room: "heap_room 1 demo_heap"
proof -
  have "block_pages (block_bytes mcfg_link_size) = 2" by code_simp
  from demo_room [OF this] have room: "malloc_room demo_heap mcfg_link_size 0x2002000"
    by (simp add: mcfg_link_size_def)
  have "heap_inv h'" if "calloc mcfg_link_size demo_heap = Inr (a, h')" for a h'
    using calloc_block [OF room] that by auto
  with room show ?thesis by auto
qed

text \<open>One element; and a search that fails, after which nothing can be inserted any more.\<close>

theorem kernel_list_refines_witness:
  "(\<exists>s ps. push (calloc mcfg_link_size) (7 :: u64) (list_new demo_heap) = Inr s \<and> list_at s ps [7] \<and>
     list_find 0 s = Inr (ps ! 0)) \<and>
   run_list_ops (calloc mcfg_link_size) heap_free [InsertAfter 3 (7 :: u64), Push 8] (list_new demo_heap) = Inl Deadlock"
proof
  show "\<exists>s ps. push (calloc mcfg_link_size) (7 :: u64) (list_new demo_heap) = Inr s \<and> list_at s ps [7] \<and>
     list_find 0 s = Inr (ps ! 0)"
    using kernel_list_refines [of "[Push (7 :: u64)]" demo_heap] demo_node_room by (auto simp: rbind_eq_Inr)
  show "run_list_ops (calloc mcfg_link_size) heap_free [InsertAfter 3 (7 :: u64), Push 8] (list_new demo_heap) = Inl Deadlock"
    using kernel_list_refines [of "[InsertAfter 3 (7 :: u64), Push 8]" demo_heap] demo_node_room by simp
qed

text \<open>C19: what the removals take away, for any \<open>free\<close> that returns: \<open>pop()\<close> the first element, \<open>pop_back\<close> the
  last, and \<open>pop(k)\<close> not the element with number \<open>k\<close> but the one before it; it refuses number 0 and
  the numbers past the end. No removal touches a node that does not exist.\<close>

theorem list_removals:
  assumes "list_at s ps xs" and "length xs \<le> 2 ^ 32"
    and "\<And>p. p \<in> set ps \<Longrightarrow> \<exists>b h. del p (heap s) = Inr (b, h)"
  shows "(xs \<noteq> [] \<longrightarrow> (\<exists>s' qs. pop del s = Inr (True, s') \<and> list_at s' qs (tl xs)) \<and>
      (\<exists>s' qs. pop_back del s = Inr (True, s') \<and> list_at s' qs (butlast xs))) \<and>
    (\<forall>k. Suc k < length xs \<longrightarrow> (\<exists>s' qs. pop_at del (of_nat (Suc k)) s = Inr (True, s') \<and>
      list_at s' qs (take k xs @ drop (Suc k) xs))) \<and>
    (\<forall>j < 2 ^ 32. j = 0 \<or> length xs \<le> j \<longrightarrow> pop_at del (of_nat j) s = Inr (False, s))"
proof -
  have len: "length ps = length xs" using list_atD(3) [OF assms(1)] .
  have "\<exists>s' qs. pop del s = Inr (True, s') \<and> list_at s' qs (tl xs)" if ne: "xs \<noteq> []"
  proof -
    obtain x xs' p ps' where xs: "xs = x # xs'" "ps = p # ps'" using ne len by (cases xs; cases ps) simp_all
    moreover obtain b h where "del p (heap s) = Inr (b, h)" using assms(3) [of p] xs(2) by auto
    ultimately show ?thesis using pop_at_head [of s p ps' x xs' del b h] assms(1) by fastforce
  qed
  moreover have "\<exists>s' qs. pop_back del s = Inr (True, s') \<and> list_at s' qs (butlast xs)" if ne: "xs \<noteq> []"
  proof -
    obtain y ys q qs where xs: "xs = ys @ [y]" "ps = qs @ [q]"
      using ne len by (cases xs rule: rev_cases; cases ps rule: rev_cases) simp_all
    moreover obtain b h where "del q (heap s) = Inr (b, h)" using assms(3) [of q] xs(2) by auto
    ultimately show ?thesis using pop_back_at [of s qs q ys y del b h] assms(1) by fastforce
  qed
  moreover have "\<exists>s' qs. pop_at del (of_nat (Suc k)) s = Inr (True, s') \<and> list_at s' qs (take k xs @ drop (Suc k) xs)"
    if k: "Suc k < length xs" for k
  proof -
    obtain b h where "del (ps ! k) (heap s) = Inr (b, h)" using assms(3) [of "ps ! k"] k len by auto
    from pop_at_inside [of s ps xs k del, OF assms(1) k assms(2) this] show ?thesis by blast
  qed
  moreover have "pop_at del (of_nat j) s = Inr (False, s)" if "j = 0 \<or> length xs \<le> j" "j < 2 ^ 32" for j
    by (rule pop_at_outside [OF assms(1) that assms(2)])
  ultimately show ?thesis by blast
qed

text \<open>Three nodes in the memory of one block.\<close>

definition demo_list :: "(u64, heap_state) list_state" where
  "demo_list = \<lparr>heap = demo_heap,
     links = [0x2001000 \<mapsto> \<lparr>link_data = 5, link_next = 0x2001020, link_index = 0\<rparr>,
              0x2001020 \<mapsto> \<lparr>link_data = 6, link_next = 0x2001040, link_index = 1\<rparr>,
              0x2001040 \<mapsto> \<lparr>link_data = 7, link_next = 0, link_index = 2\<rparr>],
     list_head = 0x2001000\<rparr>"

lemma demo_list_at: "list_at demo_list [0x2001000, 0x2001020, 0x2001040] [5, 6, 7]"
  by (simp add: demo_list_def list_at_def list_linked_def numbered_Cons) (simp add: numbered_def)

theorem list_removals_witness:
  "\<exists>s' qs. pop_at heap_free 2 demo_list = Inr (True, s') \<and> list_at s' qs [5, 7]"
proof -
  have lock: "\<not> bit (mm_lock (heap demo_list)) 0" by (simp add: demo_list_def)
  have "\<exists>b h. heap_free p (heap demo_list) = Inr (b, h)" if "p \<in> set [0x2001000, 0x2001020, 0x2001040]" for p
    using heap_free_returns [OF lock, of p] that by auto
  from list_removals [of demo_list _ _ heap_free, OF demo_list_at _ this]
  have "\<forall>k. Suc k < length [5 :: u64, 6, 7] \<longrightarrow> (\<exists>s' qs. pop_at heap_free (of_nat (Suc k)) demo_list = Inr (True, s') \<and>
    list_at s' qs (take k [5, 6, 7] @ drop (Suc k) [5, 6, 7]))" by simp
  from spec [OF this, of 1] show ?thesis by simp
qed

text \<open>On the kernel heap a list survives one removal: \<open>pop\<close> and \<open>pop_back\<close> return with the shorter
  list, but then every further insertion or removal spins on the heap's lock, and clearing (or
  destroying) a list of two or more elements never returns.\<close>

theorem kernel_list_dies:
  fixes s :: "('a::zero, 'b heap_state_scheme) list_state"
  assumes "heap_inv (heap s)" and "list_at s ps xs" and "\<forall>p \<in> set ps. heap_addr (heap s) p" and "xs \<noteq> []"
  shows "\<exists>s' qs. pop heap_free s = Inr (True, s') \<and> list_at s' qs (tl xs) \<and>
      push (calloc mcfg_link_size) v s' = Inl Deadlock \<and>
      push_back (calloc mcfg_link_size) v s' = Inl Deadlock \<and>
      (2 \<le> length xs \<longrightarrow> pop heap_free s' = Inl Deadlock \<and> list_clear heap_free s = Inl Deadlock)"
proof -
  have live: "set ps \<subseteq> heap_live (heap s)" using assms(3) by (auto simp: heap_live_def)
  note free = heap_stuck_inv [OF assms(1)]
  obtain s' qs where s': "pop heap_free s = Inr (True, s')" "list_at s' qs (tl xs)" "heap_stuck (heap s')"
    using kernel_nodes.removal_sticks(1) [OF free assms(2) live assms(4)] by blast
  moreover have "tl xs \<noteq> []" "list_clear heap_free s = Inl Deadlock" if "2 \<le> length xs"
    using that kernel_nodes.clear_sticks [OF free assms(2) live that] by (cases xs; auto)+
  ultimately show ?thesis using kernel_nodes.list_stuck [OF s'(3,2)] by blast
qed

text \<open>A list of two nodes in a block that the heap handed out.\<close>

theorem kernel_list_dies_witness:
  "\<exists>s :: (u64, heap_state) list_state. list_clear heap_free s = Inl Deadlock"
proof -
  have "block_pages (block_bytes 64) = 2" by code_simp
  from demo_room [OF this] have "malloc_room demo_heap 64 0x2002000" by simp
  from calloc_block [OF this] obtain a and h :: heap_state where h: "heap_inv h"
    "\<forall>i < unat (64 :: u64). heap_bytes h (a + of_nat i) = Some 0" by blast
  have "heap_bytes h a = Some 0" "heap_bytes h (a + 32) = Some 0"
    using spec [OF h(2), of 0] spec [OF h(2), of 32] by simp_all
  then have addr: "heap_addr h a" "heap_addr h (a + 32)" by (auto simp: heap_bytes_def split: if_splits)
  then have nz: "a \<noteq> 0" "a + 32 \<noteq> 0" by (auto simp: heap_addr_def mm_consts)
  define s :: "(u64, heap_state) list_state" where
    "s = \<lparr>heap = h, links = [a \<mapsto> \<lparr>link_data = 1, link_next = a + 32, link_index = 0\<rparr>,
       a + 32 \<mapsto> \<lparr>link_data = 2, link_next = 0, link_index = 1\<rparr>], list_head = a\<rparr>"
  have l: "list_at s [a, a + 32] [1, 2]"
    using nz by (simp add: s_def list_at_def list_linked_def numbered_Cons) (simp add: numbered_def)
  have "heap_inv (heap s)" "\<forall>p \<in> set [a, a + 32]. heap_addr (heap s) p" using h(1) addr by (simp_all add: s_def)
  from kernel_list_dies [OF this(1) l this(2), of 0] have "list_clear heap_free s = Inl Deadlock" by auto
  then show ?thesis by blast
qed

end
