(* ===== verification/CString.thy ===== *)
theory CString
  imports Prelude "HOL-Library.Signed_Division"
begin

text \<open>
  The C string functions of \<open>lib/lib.cpp\<close> over byte memory: \<open>strlen\<close>, \<open>strnlen\<close>, \<open>strncmp\<close>, \<open>itoa\<close> and
  \<open>htoa\<close>. A \<open>char\<close> is a byte, read as a signed number where the code computes with it; an \<open>int\<close> is
  an integer of HOL, since no operation here leaves its range.
\<close>

unbundle bit_operations_syntax

section \<open>The functions\<close>

lemma unat_sub_step: "x < (y :: u64) \<Longrightarrow> unat (y - (x + 1)) < unat (y - x)"
proof -
  assume "x < y"
  then have "y - x \<noteq> 0" by auto
  from unat_minus_one [OF this] unat_gt_0 [of "y - x"] this show ?thesis by (simp add: diff_diff_eq)
qed

lemma unat_step_up: "x < (y :: u64) \<Longrightarrow> unat (x + 1) = unat x + 1"
  using unat_u64_less [of y] by (subst unat_add_u64) (simp_all add: word_less_nat_alt)

lemma unat_step_down: "x < (y :: u64) \<Longrightarrow> unat (y - 1) = unat y - 1"
  by (rule unat_minus_one) auto

partial_function (option) strlen_from :: "memory \<Rightarrow> u64 \<Rightarrow> u64 \<Rightarrow> u64 option" where
  "strlen_from m chr sz = (if m chr \<noteq> 0 then strlen_from m (chr + 1) (sz + 1) else Some sz)"

definition strlen :: "memory \<Rightarrow> u64 \<Rightarrow> u64 result" where
  "strlen m chr = loop_result (map_option Inr (strlen_from m chr 0))"

function strnlen_from :: "memory \<Rightarrow> u64 \<Rightarrow> u64 \<Rightarrow> u64 \<Rightarrow> u64" where
  "strnlen_from m chr max_len sz =
     (if sz < max_len \<and> m (chr + sz) \<noteq> 0 then strnlen_from m chr max_len (sz + 1) else sz)"
  by auto
termination
  by (relation "measure (\<lambda>(m, chr, max_len, sz). unat (max_len - sz))")
    (auto simp: unat_sub_step)

definition strnlen :: "memory \<Rightarrow> u64 \<Rightarrow> u64 \<Rightarrow> u64" where
  "strnlen m chr max_len = strnlen_from m chr max_len 0"

function strncmp_from :: "memory \<Rightarrow> u64 \<Rightarrow> u64 \<Rightarrow> u64 \<Rightarrow> u64 \<Rightarrow> u64" where
  "strncmp_from m str1 str2 len i =
     (if i < len - 1 \<and> m (str1 + i) = m (str2 + i) then strncmp_from m str1 str2 len (i + 1) else i)"
  by auto
termination
  by (relation "measure (\<lambda>(m, str1, str2, len, i). unat (len - 1 - i))")
    (simp, simp only: in_measure prod.case, blast intro: unat_sub_step)

definition strncmp :: "memory \<Rightarrow> u64 \<Rightarrow> u64 \<Rightarrow> u64 \<Rightarrow> int" where
  "strncmp m str1 str2 len =
     (let i = strncmp_from m str1 str2 len 0 in sint (m (str1 + i)) - sint (m (str2 + i)))"

text \<open>The table of \<open>itoa\<close>, indexed with \<open>35 + value % base\<close>.\<close>

definition itoa_table :: "u8 list" where
  "itoa_table = map of_char ''zyxwvutsrqponmlkjihgfedcba9876543210123456789abcdefghijklmnopqrstuvwxyz''"

partial_function (option) itoa_digits :: "memory \<Rightarrow> u64 \<Rightarrow> int \<Rightarrow> int \<Rightarrow> (memory \<times> u64) option" where
  "itoa_digits m ptr v b =
     (let m1 = m(ptr := itoa_table ! nat (35 + v smod b));
          v1 = v sdiv b
      in if v1 \<noteq> 0 then itoa_digits m1 (ptr + 1) v1 b else Some (m1, ptr + 1))"

function itoa_reverse :: "memory \<Rightarrow> u64 \<Rightarrow> u64 \<Rightarrow> u8 \<Rightarrow> memory" where
  "itoa_reverse m low ptr tmp =
     (if low < ptr then itoa_reverse (m(low := m ptr, ptr := tmp)) (low + 1) (ptr - 1) tmp else m)"
  by auto
termination
  by (relation "measure (\<lambda>(m, low, ptr, tmp). unat ptr - unat low)")
    (auto simp: unat_step_up unat_step_down word_less_nat_alt)

definition itoa :: "memory \<Rightarrow> int \<Rightarrow> u64 \<Rightarrow> int \<Rightarrow> (u64 \<times> memory) result" where
  "itoa m v res b =
     (if b < 2 \<or> b > 36 then Inr (res, m(res := 0))
      else
        let (m1, low) = (if v < 0 \<and> b = 10 then (m(res := 0x2D), res + 1) else (m, res))
        in rbind (loop_result (map_option Inr (itoa_digits m1 low v b))) (\<lambda>(m2, ptr).
             let m3 = m2(ptr := 0);
                 tmp = m3 low
             in Inr (res, itoa_reverse m3 low (ptr - 1) tmp)))"

definition hex_char :: "bool \<Rightarrow> u64 \<Rightarrow> u8" where
  "hex_char caps tmp =
     (if 0xA \<le> tmp then ucast (tmp - 0xA + (if caps then 0x41 else 0x61)) else ucast (tmp + 0x30))"

text \<open>The loop \<open>for (int i = 60; i > 0; i -= 4)\<close>, with \<open>k\<close> the number of passes left.\<close>

primrec htoa_loop :: "nat \<Rightarrow> memory \<Rightarrow> u64 \<Rightarrow> u64 \<Rightarrow> bool \<Rightarrow> u8 \<Rightarrow> memory \<times> u64" where
  "htoa_loop 0 m str n caps zeros = (m, str)"
| "htoa_loop (Suc k) m str n caps zeros =
     (let tmp = drop_bit (4 * Suc k) n AND 0xF
      in if tmp = 0 \<and> zeros = 0 then htoa_loop k m str n caps zeros
         else htoa_loop k (m(str := hex_char caps tmp)) (str + 1) n caps (zeros - 1))"

definition htoa :: "memory \<Rightarrow> u64 \<Rightarrow> u64 \<Rightarrow> bool \<Rightarrow> memory" where
  "htoa m n str caps =
     (let m1 = m(str := 0x30, str + 1 := 0x78);
          (m2, p) = htoa_loop 15 m1 (str + 2) n caps 0;
          tmp = n AND 0xF
      in m2(p := hex_char caps tmp))"

declare strlen_from.simps [code] itoa_digits.simps [code]
declare strnlen_from.simps [simp del] strncmp_from.simps [simp del] itoa_reverse.simps [simp del]

section \<open>Lengths\<close>

text \<open>The bytes \<open>bs\<close> at an address, and a string: bytes other than zero, and then a zero.\<close>

definition bytes_at :: "memory \<Rightarrow> u64 \<Rightarrow> u8 list \<Rightarrow> bool" where
  "bytes_at m p bs \<longleftrightarrow> (\<forall>i < length bs. m (p + of_nat i) = bs ! i)"

definition string_at :: "memory \<Rightarrow> u64 \<Rightarrow> u8 list \<Rightarrow> bool" where
  "string_at m p cs \<longleftrightarrow> bytes_at m p cs \<and> 0 \<notin> set cs \<and> m (p + of_nat (length cs)) = 0"

lemma bytes_at_Nil [simp]: "bytes_at m p []"
  by (simp add: bytes_at_def)

lemma bytes_at_Cons: "bytes_at m p (b # bs) \<longleftrightarrow> m p = b \<and> bytes_at m (p + 1) bs"
  by (auto simp: bytes_at_def All_less_Suc2 ac_simps)

lemma bytes_at_append: "bytes_at m p (as @ bs) \<longleftrightarrow> bytes_at m p as \<and> bytes_at m (p + of_nat (length as)) bs"
  by (induction as arbitrary: p) (auto simp: bytes_at_Cons ac_simps)

lemma string_at_Nil [simp]: "string_at m p [] \<longleftrightarrow> m p = 0"
  by (simp add: string_at_def)

lemma string_at_Cons: "string_at m p (c # cs) \<longleftrightarrow> m p = c \<and> c \<noteq> 0 \<and> string_at m (p + 1) cs"
  by (auto simp: string_at_def bytes_at_Cons ac_simps)

lemma bytes_at_cong: "(\<And>i. i < length bs \<Longrightarrow> m' (p + of_nat i) = m (p + of_nat i)) \<Longrightarrow> bytes_at m' p bs = bytes_at m p bs"
  by (simp add: bytes_at_def)

text \<open>The characters before the first zero among the first \<open>n\<close> bytes.\<close>

definition chars_upto :: "memory \<Rightarrow> u64 \<Rightarrow> nat \<Rightarrow> u8 list" where
  "chars_upto m p n = takeWhile (\<lambda>c. c \<noteq> 0) (map (\<lambda>i. m (p + of_nat i)) [0..<n])"

lemma chars_upto_Suc:
  "chars_upto m p (Suc n) = (if m p = 0 then [] else m p # chars_upto m (p + 1) n)"
proof -
  have "[0..<Suc n] = 0 # map Suc [0..<n]" by (simp only: upt_conv_Cons map_Suc_upt)
  then show ?thesis by (simp add: chars_upto_def comp_def ac_simps)
qed

lemma chars_upto_0 [simp]: "chars_upto m p 0 = []"
  by (simp add: chars_upto_def)

lemma length_chars_upto: "length (chars_upto m p n) \<le> n"
  by (induction n arbitrary: p) (auto simp: chars_upto_Suc)

lemma chars_upto_string: "string_at m p cs \<Longrightarrow> chars_upto m p n = take n cs"
proof (induction n arbitrary: p cs)
  case (Suc n)
  then show ?case by (cases cs) (simp_all add: chars_upto_Suc string_at_Cons)
qed simp

lemma string_at_ex:
  assumes "m (p + of_nat n) = 0"
  shows "\<exists>cs. string_at m p cs \<and> length cs \<le> n"
  using assms
proof (induction n arbitrary: p)
  case (Suc n)
  show ?case
  proof (cases "m p = 0")
    case True
    then show ?thesis by (intro exI [of _ "[]"]) simp
  next
    case False
    have "m (p + 1 + of_nat n) = 0" using Suc.prems by (simp add: ac_simps)
    from Suc.IH [OF this] obtain cs where "string_at m (p + 1) cs" "length cs \<le> n" by blast
    then show ?thesis using False by (intro exI [of _ "m p # cs"]) (simp add: string_at_Cons)
  qed
qed auto

lemma strlen_from_string: "string_at m p cs \<Longrightarrow> strlen_from m p sz = Some (sz + of_nat (length cs))"
proof (induction cs arbitrary: p sz)
  case (Cons c cs)
  then show ?case by (subst strlen_from.simps) (simp add: string_at_Cons ac_simps)
qed (simp add: strlen_from.simps)

text \<open>If \<open>strlen\<close> returns, there was a zero.\<close>

lemma strlen_from_zero:
  assumes "strlen_from m p sz = Some r"
  shows "\<exists>x. m x = 0"
proof (rule strlen_from.raw_induct [where P = "\<lambda>m p sz r. \<exists>x. m x = 0", OF _ assms])
  fix f and m :: memory and p sz r
  assume IH: "\<And>m p sz r. f m p sz = Some r \<Longrightarrow> \<exists>x. m x = 0"
    and run: "(if m p \<noteq> 0 then f m (p + 1) (sz + 1) else Some sz) = Some r"
  show "\<exists>x. m x = 0" using IH run by (cases "m p = 0") auto
qed

lemma strlen_string: "string_at m p cs \<Longrightarrow> strlen m p = Inr (of_nat (length cs))"
  by (simp add: strlen_def strlen_from_string)

lemma strlen_no_zero: "(\<And>x. m x \<noteq> 0) \<Longrightarrow> strlen m p = Inl Diverges"
  using strlen_from_zero [of m p 0] by (cases "strlen_from m p 0") (auto simp: strlen_def)

lemma strnlen_from_chars:
  "unat (mx - sz) = n \<Longrightarrow> sz \<le> mx \<Longrightarrow> strnlen_from m p mx sz = sz + of_nat (length (chars_upto m (p + sz) n))"
proof (induction n arbitrary: sz)
  case 0
  then have "mx - sz = 0" using unat_eq_zero by blast
  then have "mx = sz" by simp
  then show ?case by (simp add: strnlen_from.simps)
next
  case (Suc n)
  then have lt: "sz < mx" by (cases "sz = mx") auto
  then have n: "unat (mx - (sz + 1)) = n" "sz + 1 \<le> mx"
    using Suc.prems unat_step_up [OF lt] unat_minus_one [of "mx - sz"]
    by (auto simp: diff_diff_eq word_le_nat_alt word_less_nat_alt)
  show ?case using Suc.IH [OF n] lt
    by (subst strnlen_from.simps) (simp add: chars_upto_Suc add.assoc)
qed

lemma strnlen_chars: "strnlen m p mx = of_nat (length (chars_upto m p (unat mx)))"
  using strnlen_from_chars [of mx 0 "unat mx" m p] by (simp add: strnlen_def)

section \<open>Comparison\<close>

lemma strncmp_from_stops:
  assumes "unat (len - 1 - i) = n" "i \<le> len - 1" "strncmp_from m a b len i = r"
  shows "i \<le> r \<and> r \<le> len - 1 \<and> (\<forall>j. i \<le> j \<longrightarrow> j < r \<longrightarrow> m (a + j) = m (b + j)) \<and>
    (r = len - 1 \<or> m (a + r) \<noteq> m (b + r))"
  using assms
proof (induction n arbitrary: i)
  case 0
  then have "len - 1 = i" using unat_eq_zero [of "len - 1 - i"] by (metis eq_iff_diff_eq_0)
  then show ?case using 0(3) by (subst (asm) strncmp_from.simps) auto
next
  case (Suc n)
  then have lt: "i < len - 1" by (cases "i = len - 1") auto
  have "len - 1 - i \<noteq> 0" using lt by auto
  from unat_minus_one [OF this] have n: "unat (len - 1 - (i + 1)) = n"
    using Suc.prems(1) by (simp add: diff_diff_eq)
  have n2: "i + 1 \<le> len - 1" using lt unat_step_up [OF lt] by (simp add: word_le_nat_alt word_less_nat_alt)
  show ?case
  proof (cases "m (a + i) = m (b + i)")
    case True
    then have "strncmp_from m a b len (i + 1) = r"
      using lt Suc.prems(3) by (subst (asm) strncmp_from.simps) simp
    note IH = Suc.IH [OF n n2 this]
    have up: "i \<le> j \<longleftrightarrow> j = i \<or> i + 1 \<le> j" for j
      using unat_step_up [OF lt] by (auto simp: word_le_nat_alt word_unat_eq_iff)
    have "m (a + j) = m (b + j)" if "i \<le> j" "j < r" for j
      using that True IH by (cases "j = i") (simp_all add: up)
    moreover have "i \<le> r" using IH by (simp add: up)
    ultimately show ?thesis using IH by (intro conjI) simp_all
  next
    case False
    then show ?thesis using lt Suc.prems(3) by (subst (asm) strncmp_from.simps) auto
  qed
qed

section \<open>Writing bytes\<close>

primrec put_bytes :: "memory \<Rightarrow> u64 \<Rightarrow> u8 list \<Rightarrow> memory" where
  "put_bytes m p [] = m"
| "put_bytes m p (b # bs) = put_bytes (m(p := b)) (p + 1) bs"

lemma put_bytes_append: "put_bytes m p (as @ bs) = put_bytes (put_bytes m p as) (p + of_nat (length as)) bs"
  by (induction as arbitrary: m p) (simp_all add: ac_simps)

lemma put_bytes_eq:
  "length bs < 2 ^ 64 \<Longrightarrow>
   put_bytes m p bs x = (if in_range x p (length bs) then bs ! unat (x - p) else m x)"
proof (induction bs arbitrary: m p x)
  case (Cons b bs)
  have less: "length bs < 2 ^ 64" using Cons.prems by simp
  show ?case
  proof (cases "x = p")
    case True
    have "unat (- 1 :: u64) = 2 ^ 64 - 1" by (simp add: unsigned_minus_1_eq_mask mask_eq_exp_minus_1)
    then have "\<not> in_range p (p + 1) (length bs)" using Cons.prems by (simp add: in_range_def)
    moreover have "in_range p p (Suc (length bs))" by (simp add: in_range_def)
    ultimately show ?thesis using True less by (simp add: Cons.IH)
  next
    case False
    then have "x - p \<noteq> 0" by simp
    from unat_minus_one [OF this] have "unat (x - (p + 1)) = unat (x - p) - 1" by (simp add: diff_diff_eq)
    moreover have "0 < unat (x - p)" using False by (simp add: unat_gt_0)
    ultimately show ?thesis using False less by (auto simp: Cons.IH in_range_def nth_Cons')
  qed
qed simp

lemma put_bytes_at: "length bs < 2 ^ 64 \<Longrightarrow> bytes_at (put_bytes m p bs) p bs"
  by (simp add: bytes_at_def put_bytes_eq in_range_def unat_of_nat)

section \<open>Decimal and other digits\<close>

text \<open>The digits of a number, the least significant first, and the number they stand for.\<close>

fun digits_of :: "nat \<Rightarrow> nat \<Rightarrow> nat list" where
  "digits_of b n = (if n < b \<or> b < 2 then [n] else n mod b # digits_of b (n div b))"

declare digits_of.simps [simp del]

primrec number_of :: "nat \<Rightarrow> nat list \<Rightarrow> nat" where
  "number_of b [] = 0"
| "number_of b (d # ds) = d + b * number_of b ds"

lemma number_of_digits [simp]: "number_of b (digits_of b n) = n"
  by (induction b n rule: digits_of.induct) (subst digits_of.simps, simp)

lemma digits_of_less: "2 \<le> b \<Longrightarrow> d \<in> set (digits_of b n) \<Longrightarrow> d < b"
proof (induction b n rule: digits_of.induct)
  case (1 b n)
  show ?case
  proof (cases "n < b")
    case True
    then show ?thesis using 1(3) by (subst (asm) digits_of.simps) simp
  next
    case False
    then show ?thesis using 1 by (subst (asm) (2) digits_of.simps) auto
  qed
qed

lemma digits_of_nonempty [simp]: "digits_of b n \<noteq> []"
  by (subst digits_of.simps) simp

lemma length_digits_of: "2 \<le> b \<Longrightarrow> n < b ^ k \<Longrightarrow> 0 < k \<Longrightarrow> length (digits_of b n) \<le> k"
proof (induction k arbitrary: n)
  case (Suc k)
  show ?case
  proof (cases "n < b")
    case True
    then show ?thesis by (subst digits_of.simps) simp
  next
    case False
    then have "0 < k" using Suc.prems(2) by (cases k) auto
    moreover have "n div b < b ^ k" using Suc.prems(1,2) by (simp add: less_mult_imp_div_less mult.commute)
    ultimately have "length (digits_of b (n div b)) \<le> k" using Suc.IH Suc.prems(1) by blast
    then show ?thesis using False by (subst digits_of.simps) simp
  qed
qed simp

definition digit_char :: "nat \<Rightarrow> u8" where
  "digit_char d = (if d < 10 then of_nat d + 0x30 else of_nat d + 0x57)"

lemma itoa_table_digit:
  assumes "d < 36"
  shows "itoa_table ! (35 + d) = digit_char d" "itoa_table ! (35 - d) = digit_char d"
proof -
  have table: "itoa_table = rev (map digit_char [1..<36]) @ map digit_char [0..<36]" by code_simp
  show "itoa_table ! (35 + d) = digit_char d" using assms by (simp add: table nth_append)
  show "itoa_table ! (35 - d) = digit_char d"
    using assms by (cases "d = 0") (simp_all add: table nth_append rev_nth)
qed

lemma digit_char_nonzero: "d < 36 \<Longrightarrow> digit_char d \<noteq> 0"
proof -
  have "\<forall>d \<in> set [0..<36]. digit_char d \<noteq> 0" by code_simp
  then show "d < 36 \<Longrightarrow> digit_char d \<noteq> 0" by auto
qed

text \<open>The digit loop writes the digits of the magnitude, whatever the sign.\<close>

lemma itoa_digit:
  assumes "2 \<le> b" "b \<le> 36"
  shows "itoa_table ! nat (35 + v smod b) = digit_char (nat \<bar>v\<bar> mod nat b)"
proof -
  define d where "d = nat \<bar>v\<bar> mod nat b"
  have d: "int d = \<bar>v\<bar> mod b" using assms by (simp add: d_def nat_mod_distrib [symmetric])
  have "d < nat b" unfolding d_def using assms by (intro mod_less_divisor) simp
  then have less: "d < 36" using assms by linarith
  have "v smod b = sgn v * int d" using assms by (simp add: signed_modulo_int_def d)
  moreover have "sgn v = 1 \<or> sgn v = - 1 \<or> d = 0" by (cases "v = 0") (auto simp: d_def sgn_if)
  ultimately have "v smod b = int d \<or> v smod b = - int d" by auto
  then have "nat (35 + v smod b) = 35 + d \<or> nat (35 + v smod b) = 35 - d" using less by auto
  then show ?thesis using itoa_table_digit [OF less] by (auto simp: d_def [symmetric])
qed

lemma itoa_digits_run:
  assumes "2 \<le> b" "b \<le> 36"
  shows "itoa_digits m ptr v b =
    Some (put_bytes m ptr (map digit_char (digits_of (nat b) (nat \<bar>v\<bar>))),
      ptr + of_nat (length (digits_of (nat b) (nat \<bar>v\<bar>))))"
proof (induction "nat \<bar>v\<bar>" arbitrary: m ptr v rule: less_induct)
  case less
  have quot: "nat \<bar>v sdiv b\<bar> = nat \<bar>v\<bar> div nat b"
  proof -
    have "\<bar>v sdiv b\<bar> = \<bar>v\<bar> div b"
      using assms by (cases "v = 0") (simp_all add: signed_divide_int_def abs_mult pos_imp_zdiv_nonneg_iff)
    then show ?thesis using assms by (simp add: nat_div_distrib)
  qed
  show ?case
  proof (cases "v sdiv b = 0")
    case True
    then have "nat \<bar>v\<bar> div nat b = 0" using quot by simp
    then have "nat \<bar>v\<bar> < nat b" using assms by (simp add: div_eq_0_iff)
    moreover from this have "digits_of (nat b) (nat \<bar>v\<bar>) = [nat \<bar>v\<bar>]" by (subst digits_of.simps) simp
    ultimately show ?thesis using True assms
      by (subst itoa_digits.simps) (simp add: itoa_digit)
  next
    case False
    then have "nat \<bar>v\<bar> div nat b \<noteq> 0" using quot by auto
    then have big: "\<not> nat \<bar>v\<bar> < nat b" "0 < nat \<bar>v\<bar>" by auto
    then have "nat \<bar>v sdiv b\<bar> < nat \<bar>v\<bar>" using assms unfolding quot by (intro div_less_dividend) auto
    moreover have "\<not> nat b < 2" using assms by simp
    ultimately show ?thesis using less [of "v sdiv b"] False big assms unfolding quot
      by (subst itoa_digits.simps, subst (1 2) digits_of.simps) (simp add: itoa_digit add.assoc)
  qed
qed

section \<open>itoa\<close>

text \<open>The reversal, in terms of addresses: the first half is mirrored, the second half is overwritten
  with the one character that was saved.\<close>

lemma itoa_reverse_eq:
  "unat ptr + 1 = unat low + n \<Longrightarrow>
   itoa_reverse m low ptr tmp x =
     (if unat low \<le> unat x \<and> unat x < unat low + n div 2 then m (low + ptr - x)
      else if unat low + (n - n div 2) \<le> unat x \<and> unat x \<le> unat ptr then tmp
      else m x)"
proof (induction n arbitrary: m low ptr rule: less_induct)
  case (less n)
  show ?case
  proof (cases "2 \<le> n")
    case False
    then have "n = 0 \<or> n = 1" by auto
    then show ?thesis using less.prems
      by (subst itoa_reverse.simps) (auto simp: word_less_nat_alt)
  next
    case True
    then obtain k where n: "n = Suc (Suc k)" by (metis Suc_le_D numeral_2_eq_2 Suc_le_mono)
    have lt: "low < ptr" using less.prems True by (simp add: word_less_nat_alt)
    have up: "unat (low + 1) = unat low + 1" and dn: "unat (ptr - 1) = unat ptr - 1"
      using unat_step_up [OF lt] unat_step_down [OF lt] by simp_all
    define m' where "m' = m(low := m ptr, ptr := tmp)"
    have sum: "low + 1 + (ptr - 1) = low + ptr" by simp
    have "unat (ptr - 1) + 1 = unat (low + 1) + k" using less.prems n up dn by simp
    then have "itoa_reverse m' (low + 1) (ptr - 1) tmp x =
      (if unat (low + 1) \<le> unat x \<and> unat x < unat (low + 1) + k div 2 then m' (low + 1 + (ptr - 1) - x)
       else if unat (low + 1) + (k - k div 2) \<le> unat x \<and> unat x \<le> unat (ptr - 1) then tmp
       else m' x)" using n by (intro less.IH) simp_all
    then have IH: "itoa_reverse m' (low + 1) (ptr - 1) tmp x =
      (if unat low + 1 \<le> unat x \<and> unat x < unat low + 1 + k div 2 then m' (low + ptr - x)
       else if unat low + 1 + (k - k div 2) \<le> unat x \<and> unat x \<le> unat ptr - 1 then tmp
       else m' x)"
      by (simp only: up dn sum)
    have mirror: "m' (low + ptr - x) = m (low + ptr - x)"
      if "unat low + 1 \<le> unat x" "unat x < unat low + 1 + k div 2"
    proof -
      have "x \<noteq> low" "x \<noteq> ptr" using that less.prems n by auto
      then show ?thesis by (auto simp: m'_def algebra_simps)
    qed
    have eq: "itoa_reverse m low ptr tmp x = itoa_reverse m' (low + 1) (ptr - 1) tmp x"
      using lt by (subst itoa_reverse.simps) (simp add: m'_def)
    have "low \<noteq> ptr" using lt by auto
    then have ends: "m' low = m ptr" "m' ptr = tmp" by (simp_all add: m'_def)
    have len: "unat ptr = unat low + k + 1" using less.prems unfolding n by simp
    consider "x = low" | "x = ptr" | "unat x \<noteq> unat low" "unat x \<noteq> unat ptr" by (auto simp: word_unat_eq_iff)
    then show ?thesis
    proof cases
      case 1
      have "\<not> Suc (unat low + k - k div 2) \<le> unat low" using div_le_dividend [of k 2] by linarith
      then show ?thesis unfolding eq IH unfolding 1 n using ends by simp
    next
      case 2
      have "\<not> k < k div 2" using div_le_dividend [of k 2] by linarith
      then show ?thesis unfolding eq IH unfolding 2 n len using ends by simp
    next
      case 3
      have "x \<noteq> low" "x \<noteq> ptr" using 3 by auto
      then have same: "m' x = m x" by (simp add: m'_def)
      show ?thesis using 3 mirror unfolding eq IH unfolding same n len by auto
    qed
  qed
qed

text \<open>What is left of a text after the reversal: the second half repeats the last character.\<close>

definition garbled :: "u8 list \<Rightarrow> u8 list" where
  "garbled cs = take (length cs - length cs div 2) cs @ replicate (length cs div 2) (last cs)"

lemma length_garbled [simp]: "length (garbled cs) = length cs"
  by (simp add: garbled_def)

lemma garbled_nth:
  assumes "i < length cs"
  shows "garbled (rev cs) ! i = (if i < length cs div 2 then cs ! (length cs - 1 - i)
    else if length cs - length cs div 2 \<le> i then cs ! 0 else cs ! i)"
proof -
  have "last (rev cs) = cs ! 0" using assms by (cases cs) simp_all
  moreover have "length cs - Suc i = i" if "\<not> i < length cs div 2" "i < length cs - length cs div 2"
    using that by arith
  ultimately show ?thesis using assms by (auto simp: garbled_def nth_append rev_nth)
qed

lemma set_garbled: "set (garbled cs) \<subseteq> set cs"
  by (cases "cs = []") (auto simp: garbled_def dest: in_set_takeD)

lemma garbled_short: "length cs \<le> 3 \<Longrightarrow> garbled cs = cs"
  by (cases cs; cases "tl cs"; cases "tl (tl cs)"; cases "tl (tl (tl cs))") (auto simp: garbled_def)

text \<open>The text that \<open>itoa\<close> writes.\<close>

definition itoa_text :: "int \<Rightarrow> int \<Rightarrow> u8 list" where
  "itoa_text v b = (if v < 0 \<and> b = 10 then [0x2D] else []) @
     garbled (rev (map digit_char (digits_of (nat b) (nat \<bar>v\<bar>))))"

lemma itoa_text_short:
  assumes "2 \<le> b" and "\<bar>v\<bar> < b ^ 3"
  shows "itoa_text v b = (if v < 0 \<and> b = 10 then [0x2D] else []) @
    rev (map digit_char (digits_of (nat b) (nat \<bar>v\<bar>)))"
proof -
  have "nat \<bar>v\<bar> < nat b ^ 3" using assms by (simp add: nat_power_eq [symmetric] nat_less_eq_zless)
  then have "length (rev (map digit_char (digits_of (nat b) (nat \<bar>v\<bar>)))) \<le> 3"
    using length_digits_of [of "nat b" "nat \<bar>v\<bar>" 3] assms(1) by simp
  then show ?thesis by (simp add: itoa_text_def garbled_short)
qed

lemma itoa_reverse_digits:
  assumes bound: "unat p + Suc (length ds) < 2 ^ 64" and ne: "ds \<noteq> []"
  shows "bytes_at (itoa_reverse (put_bytes m p (ds @ [0])) p (p + of_nat (length ds) - 1) (hd ds)) p (garbled (rev ds) @ [0])"
    and "\<not> in_range x p (Suc (length ds)) \<Longrightarrow>
      itoa_reverse (put_bytes m p (ds @ [0])) p (p + of_nat (length ds) - 1) (hd ds) x = m x"
proof -
  define n ptr m3 where "n = length ds" and "ptr = p + of_nat n - 1" and "m3 = put_bytes m p (ds @ [0])"
  have n: "0 < n" "n < 2 ^ 64" using ne bound by (simp_all add: n_def)
  have addr: "unat (p + of_nat i) = unat p + i" if "i \<le> n" for i
    using that bound by (subst unat_add_u64) (simp_all add: unat_of_nat n_def)
  have ptr: "ptr = p + of_nat (n - 1)" using n(1) by (simp add: ptr_def of_nat_diff)
  then have end_eq: "unat ptr + 1 = unat p + n" using addr [of "n - 1"] n(1) by simp
  have m3: "m3 (p + of_nat i) = (ds @ [0]) ! i" if "i \<le> n" for i
    using that bound put_bytes_at [of "ds @ [0]" m p] by (simp add: bytes_at_def n_def m3_def)
  note rev = itoa_reverse_eq [OF end_eq, of m3 "hd ds"]
  have "itoa_reverse m3 p ptr (hd ds) (p + of_nat i) = (garbled (rev ds) @ [0]) ! i" if "i \<le> n" for i
  proof (cases "i = n")
    case True
    have "\<not> n < n div 2" using div_le_dividend [of n 2] by linarith
    then show ?thesis using True addr [of n] end_eq n(1) m3 [of n]
      by (simp add: rev nth_append n_def)
  next
    case False
    then have i: "i < n" using that by simp
    have mirror: "p + ptr - (p + of_nat i) = p + of_nat (n - 1 - i)"
      using i by (simp add: ptr of_nat_diff)
    have up: "unat (p + of_nat i) = unat p + i" using addr that .
    have "itoa_reverse m3 p ptr (hd ds) (p + of_nat i) =
      (if i < n div 2 then m3 (p + of_nat (n - 1 - i)) else if n - n div 2 \<le> i then hd ds else m3 (p + of_nat i))"
      using i end_eq unfolding rev mirror up by auto
    then show ?thesis
      using i m3 [of i] m3 [of "n - 1 - i"] garbled_nth [of i ds] ne
      by (simp add: nth_append n_def [symmetric] hd_conv_nth)
  qed
  then show "bytes_at (itoa_reverse (put_bytes m p (ds @ [0])) p (p + of_nat (length ds) - 1) (hd ds)) p
      (garbled (rev ds) @ [0])"
    by (simp add: bytes_at_def n_def m3_def ptr_def less_Suc_eq_le)
  show "itoa_reverse (put_bytes m p (ds @ [0])) p (p + of_nat (length ds) - 1) (hd ds) x = m x"
    if out: "\<not> in_range x p (Suc (length ds))"
  proof -
    have "m3 x = m x" using out n(2) bound by (simp add: m3_def put_bytes_eq n_def)
    moreover have "\<not> (unat p \<le> unat x \<and> unat x \<le> unat ptr)"
    proof
      assume "unat p \<le> unat x \<and> unat x \<le> unat ptr"
      then have "unat (x - p) \<le> n" using end_eq by (subst unat_sub) (auto simp: word_le_nat_alt)
      then show False using out by (simp add: in_range_def n_def)
    qed
    ultimately have "itoa_reverse m3 p ptr (hd ds) x = m x"
      using end_eq div_le_dividend [of n 2] unfolding rev by auto
    then show ?thesis by (simp add: m3_def ptr_def n_def)
  qed
qed

lemma itoa_run:
  assumes b: "2 \<le> b" "b \<le> 36" and v: "\<bar>v\<bar> \<le> 2 ^ 31" and room: "unat res + 34 < 2 ^ 64"
  shows "\<exists>m'. itoa m v res b = Inr (res, m') \<and> string_at m' res (itoa_text v b) \<and>
    (\<forall>x. \<not> in_range x res 34 \<longrightarrow> m' x = m x)"
proof -
  define ds where "ds = map digit_char (digits_of (nat b) (nat \<bar>v\<bar>))"
  define sgn where "sgn = (if v < 0 \<and> b = 10 then [0x2D :: u8] else [])"
  define m1 p where "m1 = put_bytes m res sgn" and "p = res + of_nat (length sgn)"
  have sgn1: "length sgn \<le> 1" by (simp add: sgn_def)
  have "nat \<bar>v\<bar> < nat b ^ 32"
  proof -
    have "nat \<bar>v\<bar> \<le> 2 ^ 31" using v by simp
    also have "\<dots> < 2 ^ 32" by simp
    also have "\<dots> \<le> nat b ^ 32" using b(1) by (intro power_mono) simp_all
    finally show ?thesis .
  qed
  then have len: "length ds \<le> 32" unfolding ds_def using b(1) by (simp add: length_digits_of)
  have ne: "ds \<noteq> []" by (simp add: ds_def)
  have up: "unat p = unat res + length sgn"
    unfolding p_def using room sgn1 by (subst unat_add_u64) (simp_all add: unat_of_nat)
  define m' where "m' = itoa_reverse (put_bytes m1 p (ds @ [0])) p (p + of_nat (length ds) - 1) (hd ds)"
  have bound: "unat p + Suc (length ds) < 2 ^ 64" using up room sgn1 len by simp
  note rv = itoa_reverse_digits [OF bound ne, where m = m1, folded m'_def]
  have run: "itoa m v res b = Inr (res, m')"
  proof -
    have "(if v < 0 \<and> b = 10 then (m(res := 0x2D), res + 1) else (m, res)) = (m1, p)"
      by (simp add: m1_def p_def sgn_def)
    moreover have "itoa_digits m1 p v b = Some (put_bytes m1 p ds, p + of_nat (length ds))"
      using itoa_digits_run [OF b] by (simp add: ds_def)
    moreover have "put_bytes m1 p (ds @ [0]) = (put_bytes m1 p ds)(p + of_nat (length ds) := 0)"
      by (simp add: put_bytes_append)
    moreover have "put_bytes m1 p (ds @ [0]) p = hd ds"
      using put_bytes_at [of "ds @ [0]" m1 p] len ne by (cases ds) (simp_all add: bytes_at_Cons)
    ultimately show ?thesis using b by (simp add: itoa_def m'_def Let_def split: if_splits)
  qed
  have out: "m' x = m x" if "\<not> in_range x res 34" for x
  proof -
    have far: "\<not> in_range x p (Suc (length ds)) \<and> \<not> in_range x res (length sgn)"
    proof (rule ccontr)
      assume "\<not> ?thesis"
      moreover have "unat (x - res) < 34" if "unat (x - p) \<le> length ds"
      proof -
        have "x - res = (x - p) + of_nat (length sgn)" by (simp add: p_def)
        also have "unat \<dots> = unat (x - p) + length sgn"
          using that len sgn1 by (subst unat_add_u64) (simp_all add: unat_of_nat)
        finally show ?thesis using that len sgn1 by simp
      qed
      ultimately show False using that sgn1 by (auto simp: in_range_def)
    qed
    then show ?thesis using rv(2) [of x] sgn1 by (simp add: m1_def put_bytes_eq)
  qed
  have "bytes_at m' res sgn"
  proof -
    have "m' res = 0x2D" if "sgn = [0x2D]"
    proof -
      have "unat (res - p) = 2 ^ 64 - 1"
        using that by (simp add: p_def unsigned_minus_1_eq_mask mask_eq_exp_minus_1)
      then have "\<not> in_range res p (Suc (length ds))" using len by (simp add: in_range_def)
      then show ?thesis using rv(2) that by (simp add: m1_def)
    qed
    then show ?thesis by (simp add: sgn_def bytes_at_Cons)
  qed
  moreover have "0 \<notin> set (sgn @ garbled (rev ds))"
  proof -
    have "digit_char d \<noteq> 0" if "d \<in> set (digits_of (nat b) (nat \<bar>v\<bar>))" for d
      using digits_of_less [OF _ that] b by (intro digit_char_nonzero) linarith
    then have "0 \<notin> set (rev ds)" by (auto simp: ds_def)
    then have "0 \<notin> set (garbled (rev ds))" using set_garbled [of "rev ds"] by blast
    then show ?thesis by (simp add: sgn_def)
  qed
  ultimately have "string_at m' res (itoa_text v b)"
    using rv(1) unfolding string_at_def itoa_text_def ds_def [symmetric] rev_map [symmetric] sgn_def [symmetric]
    by (simp add: bytes_at_append bytes_at_Cons p_def add.assoc)
  with run out show ?thesis by blast
qed

section \<open>htoa\<close>

text \<open>The characters of the sixteen digits in upper or lower case, and the value of a character among
  them; any other character has none.\<close>

definition hex_alphabet :: "bool \<Rightarrow> u8 list" where
  "hex_alphabet caps = map of_char (if caps then ''0123456789ABCDEF'' else ''0123456789abcdef'')"

definition hex_value :: "bool \<Rightarrow> u8 \<Rightarrow> nat option" where
  "hex_value caps c = map_of (zip (hex_alphabet caps) [0..<16]) c"

lemma hex_value_char: "t < 16 \<Longrightarrow> hex_value caps (hex_char caps t) = Some (unat t)"
  and hex_char_zero: "t < 16 \<Longrightarrow> hex_char caps t = 0x30 \<longleftrightarrow> t = 0"
  and hex_char_nonzero: "t < 16 \<Longrightarrow> hex_char caps t \<noteq> 0"
proof -
  have *: "\<forall>k \<in> set [0..<16]. \<forall>caps \<in> {True, False}. hex_value caps (hex_char caps (of_nat k)) = Some k \<and>
    (hex_char caps (of_nat k) = 0x30 \<longleftrightarrow> k = 0) \<and> hex_char caps (of_nat k) \<noteq> 0"
    by code_simp
  assume "t < 16"
  then have k: "unat t \<in> set [0..<16]" by (simp add: word_less_nat_alt)
  from bspec [OF bspec [OF * k], of caps] show "hex_value caps (hex_char caps t) = Some (unat t)"
    "hex_char caps t = 0x30 \<longleftrightarrow> t = 0" "hex_char caps t \<noteq> 0" by (auto simp: unat_eq_zero)
qed

text \<open>The digits that the loop writes: none while the upper digits are zero.\<close>

primrec hex_digits :: "nat \<Rightarrow> u64 \<Rightarrow> bool \<Rightarrow> bool \<Rightarrow> u8 list" where
  "hex_digits 0 n caps started = []"
| "hex_digits (Suc k) n caps started =
     (let tmp = drop_bit (4 * Suc k) n AND 0xF
      in if tmp = 0 \<and> \<not> started then hex_digits k n caps started
         else hex_char caps tmp # hex_digits k n caps True)"

lemma length_hex_digits: "length (hex_digits k n caps started) \<le> k"
  by (induction k arbitrary: started) (auto simp: Let_def le_SucI)

lemma htoa_loop_digits:
  "z + k < 256 \<Longrightarrow> htoa_loop k m str n caps (- of_nat z) =
     (put_bytes m str (hex_digits k n caps (0 < z)),
      str + of_nat (length (hex_digits k n caps (0 < z))))"
proof (induction k arbitrary: m str z)
  case (Suc k)
  have "(of_nat z :: u8) = 0 \<longleftrightarrow> z = 0"
    using Suc.prems by (auto simp: word_of_nat_eq_0_iff dest: dvd_imp_le)
  then have zero: "- (of_nat z :: u8) = 0 \<longleftrightarrow> z = 0" by simp
  have nxt: "- (of_nat z :: u8) - 1 = - of_nat (Suc z)" by simp
  define t where "t = drop_bit (4 * Suc k) n AND 0xF"
  have IH: "htoa_loop k m str n caps (- of_nat z) =
      (put_bytes m str (hex_digits k n caps (0 < z)), str + of_nat (length (hex_digits k n caps (0 < z))))"
    for m str using Suc.IH [of z] Suc.prems by simp
  have IH': "htoa_loop k m str n caps (- of_nat (Suc z)) =
      (put_bytes m str (hex_digits k n caps True), str + of_nat (length (hex_digits k n caps True)))"
    for m str using Suc.IH [of "Suc z"] Suc.prems by simp
  show ?case
  proof (cases "t = 0 \<and> z = 0")
    case True
    then show ?thesis using IH unfolding htoa_loop.simps hex_digits.simps Let_def zero t_def [symmetric] by simp
  next
    case False
    then have no: "(t = 0 \<and> z = 0) = False" "(t = 0 \<and> \<not> 0 < z) = False" by auto
    show ?thesis
      unfolding htoa_loop.simps hex_digits.simps Let_def zero nxt t_def [symmetric] no if_False IH'
      by (simp add: add.assoc)
  qed
qed simp

definition htoa_text :: "u64 \<Rightarrow> bool \<Rightarrow> u8 list" where
  "htoa_text n caps = hex_digits 15 n caps False @ [hex_char caps (n AND 0xF)]"

lemma htoa_put: "htoa m n str caps = put_bytes m str ([0x30, 0x78] @ htoa_text n caps)"
  using htoa_loop_digits [of 0 15 "m(str := 0x30, str + 1 := 0x78)" "str + 2" n caps]
  by (simp add: htoa_def htoa_text_def Let_def put_bytes_append add.assoc)

text \<open>The number that a list of characters stands for, if all of them are digits.\<close>

fun hex_number_from :: "bool \<Rightarrow> nat \<Rightarrow> u8 list \<Rightarrow> nat option" where
  "hex_number_from caps acc [] = Some acc"
| "hex_number_from caps acc (c # cs) =
     Option.bind (hex_value caps c) (\<lambda>d. hex_number_from caps (16 * acc + d) cs)"

definition hex_number :: "bool \<Rightarrow> u8 list \<Rightarrow> nat option" where
  "hex_number caps cs = hex_number_from caps 0 cs"

lemma hex_number_from_append:
  "hex_number_from caps acc (cs @ ds) = Option.bind (hex_number_from caps acc cs) (\<lambda>a. hex_number_from caps a ds)"
  by (induction caps acc cs rule: hex_number_from.induct) (auto split: bind_splits)

lemma nibble_less: "w AND 0xF < (16 :: u64)"
  using and_mask_less' [of 4 w] by (simp add: mask_eq_exp_minus_1)

lemma unat_drop_nibble:
  fixes n :: u64
  shows "unat (drop_bit (4 * k) n) = 16 * unat (drop_bit (4 * Suc k) n) + unat (drop_bit (4 * k) n AND 0xF)"
proof -
  have "unat (drop_bit (4 * k) (n :: u64) AND 0xF) = unat (drop_bit (4 * k) n) mod 16"
    using take_bit_eq_mask [of 4 "drop_bit (4 * k) n"] unsigned_take_bit_eq [of 4 "drop_bit (4 * k) n", where 'a = nat]
    by (simp add: mask_eq_exp_minus_1 take_bit_eq_mod)
  moreover have "unat (drop_bit (4 * Suc k) n) = unat (drop_bit (4 * k) n) div 16"
  proof -
    have "drop_bit (4 * Suc k) n = drop_bit 4 (drop_bit (4 * k) n)" by (simp add: ac_simps)
    then show ?thesis by (simp add: drop_bit_eq_div unat_div)
  qed
  ultimately show ?thesis by simp
qed

lemma hex_digits_number:
  assumes "started \<or> drop_bit (4 * Suc k) n = 0"
  shows "hex_number_from caps (unat (drop_bit (4 * Suc k) n)) (hex_digits k n caps started) =
    Some (unat (drop_bit 4 n))"
  using assms
proof (induction k arbitrary: started)
  case (Suc k)
  let ?tmp = "drop_bit (4 * Suc k) n AND 0xF"
  have step: "unat (drop_bit (4 * Suc k) n) = 16 * unat (drop_bit (4 * Suc (Suc k)) n) + unat ?tmp"
    by (rule unat_drop_nibble)
  show ?case
  proof (cases "?tmp = 0 \<and> \<not> started")
    case True
    then have "drop_bit (4 * Suc k) n = 0" using step Suc.prems by (simp add: word_unat_eq_iff)
    moreover have "unat (drop_bit (4 * Suc (Suc k)) n) = unat (drop_bit (4 * Suc k) n)"
      using True Suc.prems step by simp
    ultimately show ?thesis using Suc.IH [of started] True by (simp only: hex_digits.simps Let_def if_True simp_thms)
  next
    case False
    then have "hex_digits (Suc k) n caps started = hex_char caps ?tmp # hex_digits k n caps True"
      by (simp only: hex_digits.simps Let_def if_False)
    then show ?thesis using Suc.IH [of True] hex_value_char [OF nibble_less, of caps]
      by (simp only: hex_number_from.simps bind.bind_lunit step [symmetric] simp_thms)
  qed
qed simp

lemma hex_digits_canonical: "hex_digits k n caps False = [] \<or> hd (hex_digits k n caps False) \<noteq> 0x30"
  by (induction k) (simp_all add: Let_def hex_char_zero nibble_less)

lemma htoa_text_number: "hex_number caps (htoa_text n caps) = Some (unat n)"
proof -
  have "drop_bit (4 * Suc 15) n = 0" by (rule bit_word_eqI) (auto simp: bit_simps dest: bit_imp_le_length)
  then have "hex_number_from caps 0 (hex_digits 15 n caps False) = Some (unat (drop_bit 4 n))"
    using hex_digits_number [of False 15 n caps] by (simp only: unsigned_0 simp_thms)
  then have "hex_number caps (htoa_text n caps) = Some (16 * unat (drop_bit 4 n) + unat (n AND 0xF))"
    by (simp add: hex_number_def htoa_text_def hex_number_from_append hex_value_char nibble_less)
  then show ?thesis using unat_drop_nibble [of 0 n] by simp
qed

lemma hex_number_zero: "hex_number caps [0x30] = Some 0"
  using hex_value_char [of 0 caps] hex_char_zero [of 0 caps] by (simp add: hex_number_def)

section \<open>Properties\<close>

text \<open>C20: \<open>strlen\<close> returns the number of bytes before the first zero at or after the address, and runs for
  ever exactly when memory holds no zero at all; \<open>strnlen\<close> always returns, the smaller of that number
  and its bound.\<close>

theorem strlen_strnlen_total:
  "(\<exists>cs. string_at m p cs \<and> strlen m p = Inr (of_nat (length cs)) \<and>
      (\<forall>n. unat (strnlen m p n) = min (length cs) (unat n))) \<or>
   ((\<forall>x. m x \<noteq> 0) \<and> strlen m p = Inl Diverges \<and> (\<forall>n. strnlen m p n = n))"
proof (cases "\<exists>x. m x = 0")
  case True
  then obtain x where "m x = 0" by blast
  then have "m (p + of_nat (unat (x - p))) = 0" by simp
  then obtain cs where cs: "string_at m p cs" using string_at_ex by blast
  have "unat (strnlen m p n) = min (length cs) (unat n)" for n
    using cs unat_u64_less [of n] by (simp add: strnlen_chars chars_upto_string unat_of_nat)
  with cs strlen_string [OF cs] show ?thesis by blast
next
  case False
  have "length (chars_upto m p k) = k" for k
    using False by (induction k arbitrary: p) (simp_all add: chars_upto_Suc)
  then have "strnlen m p n = n" for n by (simp add: strnlen_chars)
  then show ?thesis using False strlen_no_zero by blast
qed

theorem strlen_strnlen_total_witness:
  "strlen (\<lambda>x. if x < 3 then 65 else 0) 0 = Inr 3"
proof -
  let ?m = "\<lambda>x :: u64. if x < 3 then 65 else 0 :: u8"
  have "?m 3 = 0" by simp
  with strlen_strnlen_total [of ?m 0] obtain cs where cs: "string_at ?m 0 cs" "strlen ?m 0 = Inr (of_nat (length cs))"
    by blast
  have "string_at ?m 0 [65, 65, 65]" by (simp add: string_at_Cons)
  with strlen_string [OF this] show ?thesis by simp
qed

text \<open>\<open>strncmp\<close> compares all of the first \<open>len\<close> bytes, whether a zero byte ends the strings before or
  not: it is 0 exactly when those bytes agree, and otherwise the signed difference of the first two
  that differ. For \<open>len\<close> 0 it compares all of memory.\<close>

theorem strncmp_compares_bytes:
  "(strncmp m a b len = 0 \<longleftrightarrow> (\<forall>i \<le> len - 1. m (a + i) = m (b + i))) \<and>
   (\<forall>i \<le> len - 1. m (a + i) \<noteq> m (b + i) \<longrightarrow> (\<forall>j < i. m (a + j) = m (b + j)) \<longrightarrow>
      strncmp m a b len = sint (m (a + i)) - sint (m (b + i)))"
proof -
  define r where "r = strncmp_from m a b len 0"
  have stops: "0 \<le> r \<and> r \<le> len - 1 \<and> (\<forall>j. 0 \<le> j \<longrightarrow> j < r \<longrightarrow> m (a + j) = m (b + j)) \<and>
      (r = len - 1 \<or> m (a + r) \<noteq> m (b + r))"
    by (rule strncmp_from_stops) (simp_all add: r_def)
  have r: "r \<le> len - 1" "r = len - 1 \<or> m (a + r) \<noteq> m (b + r)" using stops by simp_all
  have same: "m (a + j) = m (b + j)" if "j < r" for j using stops that by simp
  have val: "strncmp m a b len = sint (m (a + r)) - sint (m (b + r))"
    by (simp add: strncmp_def r_def Let_def)
  have "strncmp m a b len = 0 \<longleftrightarrow> (\<forall>i \<le> len - 1. m (a + i) = m (b + i))"
  proof
    assume "strncmp m a b len = 0"
    then have eq: "m (a + r) = m (b + r)" unfolding val by (simp add: signed_word_eqI)
    then have "r = len - 1" using r(2) by blast
    then show "\<forall>i \<le> len - 1. m (a + i) = m (b + i)" using same eq by (auto simp: order_le_less)
  qed (use r(1) val in simp)
  moreover have "i = r" if "i \<le> len - 1" "m (a + i) \<noteq> m (b + i)" "\<forall>j < i. m (a + j) = m (b + j)" for i
    using that r same by (metis linorder_cases order_le_less_trans not_le)
  ultimately show ?thesis using val by blast
qed

text \<open>Two strings that C takes for equal, with different bytes after the end.\<close>

theorem strncmp_compares_bytes_witness:
  "strncmp (\<lambda>x. if x = 0 \<or> x = 10 then 65 else if x = 2 then 66 else 0) 0 10 4 = 66"
proof -
  let ?m = "\<lambda>x :: u64. if x = 0 \<or> x = 10 then 65 else if x = 2 then 66 else 0 :: u8"
  have "\<forall>j < (2 :: u64). ?m (0 + j) = ?m (10 + j)"
  proof (intro allI impI)
    fix j :: u64 assume "j < 2"
    then have "j = 0 \<or> j = 1" by (auto simp: word_less_nat_alt less_2_cases_iff word_unat_eq_iff)
    then show "?m (0 + j) = ?m (10 + j)" by auto
  qed
  with strncmp_compares_bytes [of ?m 0 10 4, THEN conjunct2, rule_format, of 2] show ?thesis by simp
qed

text \<open>C21: \<open>itoa\<close> returns for every number and every base, and stays inside 34 bytes. A base below 2
  or above 36 writes the empty string and nothing else. Any other base writes a string: the sign for a
  negative decimal number and the digits, of which the second half are all replaced by the last one.
  Numbers of up to three digits are therefore right; longer ones are not.\<close>

theorem itoa_writes:
  assumes "\<bar>v\<bar> \<le> 2 ^ 31" and "unat res + 34 < 2 ^ 64"
  shows "\<exists>m'. itoa m v res b = Inr (res, m') \<and>
    (if b < 2 \<or> 36 < b then string_at m' res [] \<and> m' = m(res := 0)
     else string_at m' res (itoa_text v b) \<and> (\<forall>x. \<not> in_range x res 34 \<longrightarrow> m' x = m x) \<and>
       (\<bar>v\<bar> < b ^ 3 \<longrightarrow> itoa_text v b = (if v < 0 \<and> b = 10 then [0x2D] else []) @
          rev (map digit_char (digits_of (nat b) (nat \<bar>v\<bar>)))))"
proof (cases "b < 2 \<or> 36 < b")
  case True
  then show ?thesis by (auto simp: itoa_def)
next
  case False
  then have b: "2 \<le> b" "b \<le> 36" by simp_all
  have "itoa_text v b = (if v < 0 \<and> b = 10 then [0x2D] else []) @
      rev (map digit_char (digits_of (nat b) (nat \<bar>v\<bar>)))" if "\<bar>v\<bar> < b ^ 3"
    using itoa_text_short [OF b(1) that] .
  with itoa_run [OF b assms, where m = m] show ?thesis unfolding if_not_P [OF False] by blast
qed

text \<open>1234 comes out as \<open>1244\<close>.\<close>

theorem itoa_writes_witness:
  "\<exists>m'. itoa (\<lambda>_. 0) 1234 0x1000 10 = Inr (0x1000, m') \<and> string_at m' 0x1000 [0x31, 0x32, 0x34, 0x34]"
proof -
  have "itoa_text 1234 10 = [0x31, 0x32, 0x34, 0x34]" by code_simp
  then show ?thesis using itoa_writes [of 1234 "0x1000" "\<lambda>_. 0" 10] by auto
qed

text \<open>C22: \<open>htoa\<close> writes \<open>0x\<close> and at most 16 characters, and nothing else: the terminating zero byte is
  left to the caller. The characters are hexadecimal digits in the case asked for, they read back as the
  number, and there is no leading zero.\<close>

theorem htoa_roundtrip:
  "\<exists>cs. htoa m n str caps = put_bytes m str ([0x30, 0x78] @ cs) \<and> hex_number caps cs = Some (unat n) \<and>
     length cs \<in> {1..16} \<and> (hd cs = 0x30 \<longrightarrow> n = 0 \<and> cs = [0x30])"
proof (intro exI conjI)
  let ?cs = "htoa_text n caps"
  show "htoa m n str caps = put_bytes m str ([0x30, 0x78] @ ?cs)" by (rule htoa_put)
  show num: "hex_number caps ?cs = Some (unat n)" by (rule htoa_text_number)
  show "length ?cs \<in> {1..16}" using length_hex_digits [of 15 n caps False] by (simp add: htoa_text_def)
  show "hd ?cs = 0x30 \<longrightarrow> n = 0 \<and> ?cs = [0x30]"
  proof
    assume "hd ?cs = 0x30"
    then have "hex_digits 15 n caps False = []"
      using hex_digits_canonical [of 15 n caps] by (auto simp: htoa_text_def hd_append split: if_splits)
    then have cs: "?cs = [0x30]" using \<open>hd ?cs = 0x30\<close> by (simp add: htoa_text_def)
    then have "unat n = 0" using num by (simp add: hex_number_zero)
    then show "n = 0 \<and> ?cs = [0x30]" using cs by (simp add: unat_eq_zero)
  qed
qed

theorem htoa_roundtrip_witness:
  "\<exists>cs. htoa (\<lambda>_. 7) 0xBEEF 0x1000 True = put_bytes (\<lambda>_. 7) 0x1000 (0x30 # 0x78 # cs) \<and> hex_number True cs = Some 48879"
proof -
  have "unat (0xBEEF :: u64) = 48879" by simp
  with htoa_roundtrip [where m = "\<lambda>_. 7" and n = "0xBEEF" and str = "0x1000" and caps = True] show ?thesis by auto
qed

end
