(* ===== verification/Ctype.thy ===== *)
theory Ctype
  imports Main "HOL-Library.Word"
begin

text \<open>
  The character classes of \<open>lib/ctype.cpp\<close>. A character is an \<open>int\<close>; every function returns a
  \<open>bool\<close>, the two case conversions as well.
\<close>

unbundle bit_operations_syntax

section \<open>The functions\<close>

definition isdigit :: "int \<Rightarrow> bool" where
  "isdigit ch \<longleftrightarrow> ch \<ge> 0x30 \<and> ch \<le> 0x39"

definition islower :: "int \<Rightarrow> bool" where
  "islower ch \<longleftrightarrow> ch \<ge> 0x61 \<and> ch \<le> 0x7A"

definition isupper :: "int \<Rightarrow> bool" where
  "isupper ch \<longleftrightarrow> ch \<ge> 0x41 \<and> ch \<le> 0x5A"

definition isalpha :: "int \<Rightarrow> bool" where
  "isalpha ch \<longleftrightarrow> isupper ch \<or> islower ch"

definition isalnum :: "int \<Rightarrow> bool" where
  "isalnum ch \<longleftrightarrow> isalpha ch \<or> isdigit ch"

definition isblank :: "int \<Rightarrow> bool" where
  "isblank ch \<longleftrightarrow> ch = 0x09 \<or> ch = 0x20"

definition iscntrl :: "int \<Rightarrow> bool" where
  "iscntrl ch \<longleftrightarrow> (ch \<ge> 0x00 \<and> ch \<le> 0x1F) \<or> ch = 0x7F"

definition isgraph :: "int \<Rightarrow> bool" where
  "isgraph ch \<longleftrightarrow> ch \<ge> 0x21 \<and> ch \<le> 0x7A"

definition isprint :: "int \<Rightarrow> bool" where
  "isprint ch \<longleftrightarrow> ch = 0x20 \<or> isgraph ch"

definition ispunct :: "int \<Rightarrow> bool" where
  "ispunct ch \<longleftrightarrow> (ch \<ge> 0x21 \<and> ch \<le> 0x2F) \<or> (ch \<ge> 0x3A \<and> ch \<le> 0x40) \<or>
     (ch \<ge> 0x5B \<and> ch \<le> 0x60) \<or> (ch \<ge> 0x7B \<and> ch \<le> 0x7E)"

definition isspace :: "int \<Rightarrow> bool" where
  "isspace ch \<longleftrightarrow> ch = 0x20 \<or> (ch \<ge> 0x09 \<and> ch \<le> 0x0D)"

definition isxdigit :: "int \<Rightarrow> bool" where
  "isxdigit ch \<longleftrightarrow> (ch \<ge> 0x41 \<and> ch \<le> 0x46) \<or> (ch \<ge> 0x61 \<and> ch \<le> 0x66) \<or> isdigit ch"

text \<open>The result is converted to \<open>bool\<close>.\<close>

definition tolower :: "int \<Rightarrow> bool" where
  "tolower ch = ((if isupper ch then ch XOR 0x20 else ch) \<noteq> 0)"

definition toupper :: "int \<Rightarrow> bool" where
  "toupper ch = ((if islower ch then ch XOR 0x20 else ch) \<noteq> 0)"

lemmas ctype_defs = isdigit_def islower_def isupper_def isalpha_def isalnum_def isblank_def
  iscntrl_def isgraph_def isprint_def ispunct_def isspace_def isxdigit_def

section \<open>The classes\<close>

text \<open>A letter and the letter with bit 5 flipped are never zero.\<close>

lemma xor_32_nonzero: "ch \<noteq> 0x20 \<Longrightarrow> ch XOR 0x20 \<noteq> (0 :: int)"
  using xor.right_neutral xor_self_eq by (metis xor.assoc xor.left_neutral)

text \<open>The classes agree with one another for every \<open>int\<close>: a character between 0 and 127 is in
  exactly one of the control characters, the space, the letters and digits, and the punctuation, and
  no other number is in any class. But \<open>isgraph\<close> and \<open>isprint\<close> leave out the four punctuation
  characters from 123 to 126, and \<open>tolower\<close> and \<open>toupper\<close> return whether the character is not zero.\<close>

theorem ctype_classes:
  "(0 \<le> ch \<and> ch \<le> 127 \<longleftrightarrow> iscntrl ch \<or> ch = 0x20 \<or> isalnum ch \<or> ispunct ch) \<and>
   \<not> (iscntrl ch \<and> (isprint ch \<or> isalnum ch \<or> ispunct ch)) \<and> \<not> (isalnum ch \<and> ispunct ch) \<and>
   \<not> (isalpha ch \<and> isdigit ch) \<and> \<not> (isupper ch \<and> islower ch) \<and>
   (isgraph ch \<longleftrightarrow> (isalnum ch \<or> ispunct ch) \<and> \<not> (123 \<le> ch \<and> ch \<le> 126)) \<and>
   (isblank ch \<or> isspace ch \<longrightarrow> iscntrl ch \<or> ch = 0x20) \<and> (isxdigit ch \<longrightarrow> isalnum ch) \<and>
   tolower ch = (ch \<noteq> 0) \<and> toupper ch = (ch \<noteq> 0)"
proof -
  have "tolower ch = (ch \<noteq> 0)" "toupper ch = (ch \<noteq> 0)"
    using xor_32_nonzero [of ch] by (auto simp: tolower_def toupper_def isupper_def islower_def)
  then show ?thesis unfolding ctype_defs by (intro conjI; (linarith | presburger | simp))
qed

text \<open>A tab, an \<open>F\<close> and a tilde.\<close>

theorem ctype_classes_witness:
  "iscntrl 9 \<and> \<not> isprint 9 \<and> isalnum 0x46 \<and> \<not> isgraph 0x7E"
  using ctype_classes [of 9] ctype_classes [of "0x46"] ctype_classes [of "0x7E"]
  by (simp add: isblank_def isxdigit_def)

end
