(* ===== verification/Sprintf.thy ===== *)
theory Sprintf
  imports CString MemOps
begin

text \<open>
  \<open>sprintf\<close> of \<open>lib/lib.cpp\<close>: its loop over the format, one branch per directive, and what it prints.
  The format, the output, the strings among the arguments and the local array \<open>str\<close> lie in one
  memory, so that the model shows what an overlap does.
\<close>

unbundle bit_operations_syntax

section \<open>The function\<close>

text \<open>The parameters and locals of a call: \<open>text\<close> and \<open>format\<close>, which move, the variable arguments not yet
  fetched, each in an eight-byte slot, and \<open>written\<close>.\<close>

record sprintf_state =
  pmem :: memory
  ptext :: u64
  pformat :: u64
  pargs :: "u64 list"
  written :: u64

definition maxrem :: "sprintf_state \<Rightarrow> u64" where
  "maxrem s = 2147483647 - written s"

definition va_arg :: "sprintf_state \<Rightarrow> (u64 \<times> sprintf_state) result" where
  "va_arg s = (case pargs s of [] \<Rightarrow> Inl OutOfBounds | a # as \<Rightarrow> Inr (a, s\<lparr>pargs := as\<rparr>))"

text \<open>\<open>for (; format[amount] && format[amount] != '%'; amount++) text[amount] = format[amount];\<close>\<close>

partial_function (option) copy_plain :: "memory \<Rightarrow> u64 \<Rightarrow> u64 \<Rightarrow> u64 \<Rightarrow> (memory \<times> u64) option" where
  "copy_plain m text fmt amount =
     (let c = m (fmt + amount)
      in if c \<noteq> 0 \<and> c \<noteq> 0x25 then copy_plain (m(text + amount := c)) text fmt (amount + 1)
         else Some (m, amount))"

text \<open>One round either goes on or makes the function return a value. The tail of most directives
  copies \<open>len\<close> characters from \<open>str\<close>.\<close>

definition emit :: "u64 \<Rightarrow> u64 \<Rightarrow> sprintf_state \<Rightarrow> int option \<times> sprintf_state" where
  "emit str len s =
     (if maxrem s < len then (Some (- 1), s)
      else (None, s\<lparr>pmem := memcpy_n (unat len) (pmem s) (ptext s) str,
                    ptext := ptext s + len, written := written s + len\<rparr>))"

definition print_plain :: "sprintf_state \<Rightarrow> (int option \<times> sprintf_state) result" where
  "print_plain s =
     (let s1 = (if pmem s (pformat s) = 0x25 then s\<lparr>pformat := pformat s + 1\<rparr> else s)
      in rbind (loop_result (map_option Inr (copy_plain (pmem s1) (ptext s1) (pformat s1) 0))) (\<lambda>(m, amount).
           let s2 = s1\<lparr>pmem := m\<rparr>
           in if maxrem s2 < amount then Inr (Some (- 1), s2)
              else Inr (None, s2\<lparr>ptext := ptext s2 + amount, pformat := pformat s2 + amount,
                                 written := written s2 + amount\<rparr>)))"

definition print_char :: "sprintf_state \<Rightarrow> (int option \<times> sprintf_state) result" where
  "print_char s =
     rbind (va_arg (s\<lparr>pformat := pformat s + 1\<rparr>)) (\<lambda>(c, s1).
       if maxrem s1 = 0 then Inr (Some (- 1), s1)
       else Inr (None, s1\<lparr>pmem := (pmem s1)(ptext s1 + written s1 := ucast c), written := written s1 + 1\<rparr>))"

definition print_string :: "sprintf_state \<Rightarrow> (int option \<times> sprintf_state) result" where
  "print_string s =
     rbind (va_arg (s\<lparr>pformat := pformat s + 1\<rparr>)) (\<lambda>(str, s1).
     rbind (strlen (pmem s1) str) (\<lambda>len. Inr (emit str len s1)))"

text \<open>\<open>loc\<close> is the address of the local \<open>char str[32] = ""\<close>.\<close>

definition print_int :: "u64 \<Rightarrow> sprintf_state \<Rightarrow> (int option \<times> sprintf_state) result" where
  "print_int loc s =
     rbind (va_arg (s\<lparr>pformat := pformat s + 1\<rparr>)) (\<lambda>(item, s1).
     rbind (itoa (memset_n 32 (pmem s1) loc 0) (sint (ucast item :: u32)) loc 10) (\<lambda>(_, m).
     rbind (strlen m loc) (\<lambda>len. Inr (emit loc len (s1\<lparr>pmem := m\<rparr>)))))"

text \<open>\<open>%p\<close> advances the format twice, \<open>%x\<close> once.\<close>

definition print_hex :: "u64 \<Rightarrow> bool \<Rightarrow> u64 \<Rightarrow> sprintf_state \<Rightarrow> (int option \<times> sprintf_state) result" where
  "print_hex loc caps advance s =
     rbind (va_arg s) (\<lambda>(item, s1).
       let m = htoa (memset_n 32 (pmem s1) loc 0) item loc caps
       in rbind (strlen m loc) (\<lambda>len.
            Inr (emit loc len (s1\<lparr>pmem := m, pformat := pformat s1 + advance\<rparr>))))"

definition print_rest :: "sprintf_state \<Rightarrow> (int option \<times> sprintf_state) result" where
  "print_rest s =
     (let s1 = s\<lparr>pformat := pformat s - 1\<rparr>
      in rbind (strlen (pmem s1) (pformat s1)) (\<lambda>len.
           if maxrem s1 < len then Inr (Some (- 1), s1)
           else Inr (None, s1\<lparr>pmem := memcpy_n (unat len) (pmem s1) (ptext s1) (pformat s1),
                              written := written s1 + len, pformat := pformat s1 + len\<rparr>)))"

definition print_step :: "u64 \<Rightarrow> sprintf_state \<Rightarrow> (int option \<times> sprintf_state) result" where
  "print_step loc s =
     (if pmem s (pformat s) \<noteq> 0x25 \<or> pmem s (pformat s + 1) = 0x25 then print_plain s
      else
        let s1 = s\<lparr>pformat := pformat s + 1\<rparr>; d = pmem s1 (pformat s1)
        in if d = 0x63 then print_char s1
           else if d = 0x73 then print_string s1
           else if d = 0x69 \<or> d = 0x64 then print_int loc s1
           else if d = 0x78 \<or> d = 0x58 then print_hex loc (d = 0x58) 1 s1
           else if d = 0x70 then print_hex loc False 2 s1
           else print_rest s1)"

partial_function (option) print_loop :: "u64 \<Rightarrow> sprintf_state \<Rightarrow> (int option \<times> sprintf_state) result option" where
  "print_loop loc s =
     (if pmem s (pformat s) \<noteq> 0
      then (case print_step loc s of
              Inl e \<Rightarrow> Some (Inl e)
            | Inr (r, s1) \<Rightarrow> (case r of None \<Rightarrow> print_loop loc s1 | Some n \<Rightarrow> Some (Inr (Some n, s1))))
      else Some (Inr (None, s)))"

definition sprintf :: "u64 \<Rightarrow> memory \<Rightarrow> u64 \<Rightarrow> u64 \<Rightarrow> u64 list \<Rightarrow> (int \<times> memory) result" where
  "sprintf loc m text fmt args =
     rbind (loop_result (print_loop loc \<lparr>pmem = m, ptext = text, pformat = fmt, pargs = args, written = 0\<rparr>)) (\<lambda>(r, s).
       case r of Some n \<Rightarrow> Inr (n, pmem s)
       | None \<Rightarrow> Inr (sint (ucast (written s) :: u32), (pmem s)(ptext s := 0)))"

declare copy_plain.simps [code] print_loop.simps [code]

section \<open>Separate ranges\<close>

definition apart :: "u64 \<Rightarrow> nat \<Rightarrow> u64 \<Rightarrow> nat \<Rightarrow> bool" where
  "apart a n b k \<longleftrightarrow> (\<forall>x. \<not> (in_range x a n \<and> in_range x b k))"

lemma in_range_shift: "k \<le> n \<Longrightarrow> n < 2 ^ 64 \<Longrightarrow> in_range x (a + of_nat k) (n - k) \<Longrightarrow> in_range x a n"
proof -
  assume k: "k \<le> n" "n < 2 ^ 64" and x: "in_range x (a + of_nat k) (n - k)"
  define y where "y = x - (a + of_nat k)"
  have ok: "unat (of_nat k :: u64) = k" using k by (simp add: unat_of_nat)
  have less: "unat y + k < n" using x k by (simp add: in_range_def y_def)
  have "unat (y + of_nat k) = unat y + k" using less k(2) by (subst unat_add_u64) (simp_all add: ok)
  moreover have "x - a = y + of_nat k" by (simp add: y_def)
  ultimately show ?thesis using less by (simp add: in_range_def)
qed

lemma in_range_le: "in_range x a k \<Longrightarrow> k \<le> n \<Longrightarrow> in_range x a n"
  by (simp add: in_range_def)

lemma in_range_step: "in_range x (a + 1) n \<Longrightarrow> n < 2 ^ 63 \<Longrightarrow> in_range x a (Suc n)"
  using in_range_shift [of 1 "Suc n" x a] by simp

lemma in_range_first: "in_range a a (Suc n)"
  by (simp add: in_range_def)

lemma apart_shift_left: "apart a n b j \<Longrightarrow> k \<le> n \<Longrightarrow> n < 2 ^ 64 \<Longrightarrow> apart (a + of_nat k) (n - k) b j"
  unfolding apart_def using in_range_shift by blast

lemma apart_shift_right: "apart a n b j \<Longrightarrow> k \<le> j \<Longrightarrow> j < 2 ^ 64 \<Longrightarrow> apart a n (b + of_nat k) (j - k)"
  unfolding apart_def using in_range_shift by blast

lemma apart_le: "apart a n b j \<Longrightarrow> k \<le> n \<Longrightarrow> i \<le> j \<Longrightarrow> apart a k b i"
  unfolding apart_def using in_range_le by blast

lemma apart_sym: "apart a n b j \<Longrightarrow> apart b j a n"
  unfolding apart_def by blast

lemma apart_step:
  assumes "apart d (Suc n) p (Suc k)" "n < 2 ^ 63" "k < 2 ^ 63"
  shows "apart (d + 1) n (p + 1) k" "\<not> in_range d (p + 1) k"
  using assms(1) in_range_step [OF _ assms(2)] in_range_step [OF _ assms(3)] in_range_first [of d n]
  unfolding apart_def by blast+

lemma in_range_nth: "i < n \<Longrightarrow> n \<le> 2 ^ 64 \<Longrightarrow> in_range (a + of_nat i) a n"
  by (simp add: in_range_def unat_of_nat)

lemma bytes_at_outside:
  assumes "\<And>x. in_range x p (length bs) \<Longrightarrow> m' x = m x" "length bs \<le> 2 ^ 64"
  shows "bytes_at m' p bs = bytes_at m p bs"
  using assms in_range_nth by (intro bytes_at_cong) blast

lemma string_at_outside:
  assumes "\<And>x. in_range x p (length cs + 1) \<Longrightarrow> m' x = m x" "length cs < 2 ^ 64"
  shows "string_at m' p cs = string_at m p cs"
proof -
  have "m' (p + of_nat i) = m (p + of_nat i)" if "i \<le> length cs" for i
    using that assms(2) by (intro assms(1) in_range_nth) simp_all
  then show ?thesis using bytes_at_cong [of cs m' p m] by (simp add: string_at_def)
qed

section \<open>Copying\<close>

lemma memcpy_n_put:
  assumes "bytes_at m src cs" "apart d (length cs) src (length cs)" "length cs < 2 ^ 63"
  shows "memcpy_n (length cs) m d src = put_bytes m d cs"
  using assms
proof (induction cs arbitrary: m d src)
  case (Cons c cs)
  have sep: "apart (d + 1) (length cs) (src + 1) (length cs)" "\<not> in_range d (src + 1) (length cs)"
    using apart_step [of d "length cs" src "length cs"] Cons.prems(2,3) by simp_all
  define m1 where "m1 = m(d := c)"
  have "m1 x = m x" if "in_range x (src + 1) (length cs)" for x
    using sep(2) that by (auto simp: m1_def)
  then have "bytes_at m1 (src + 1) cs = bytes_at m (src + 1) cs"
    using Cons.prems(3) by (intro bytes_at_outside) simp_all
  then have "memcpy_n (length cs) m1 (d + 1) (src + 1) = put_bytes m1 (d + 1) cs"
    using Cons.prems(1,3) sep(1) by (intro Cons.IH) (simp_all add: bytes_at_Cons)
  then show ?case using Cons.prems(1) by (simp add: bytes_at_Cons m1_def)
qed simp

lemma copy_plain_run:
  assumes "bytes_at m (fmt + a) cs" "0 \<notin> set cs" "0x25 \<notin> set cs"
    and "m (fmt + a + of_nat (length cs)) \<in> {0, 0x25}"
    and "apart (d + a) (length cs) (fmt + a) (length cs + 1)" "length cs < 2 ^ 62"
  shows "copy_plain m d fmt a = Some (put_bytes m (d + a) cs, a + of_nat (length cs))"
  using assms
proof (induction cs arbitrary: m a)
  case Nil
  then show ?case by (subst copy_plain.simps) auto
next
  case (Cons c cs)
  define m1 where "m1 = m(d + a := c)"
  have sep: "apart (d + (a + 1)) (length cs) (fmt + (a + 1)) (length cs + 1)"
    "\<not> in_range (d + a) (fmt + (a + 1)) (length cs + 1)"
    using apart_step [of "d + a" "length cs" "fmt + a" "length cs + 1"] Cons.prems(5,6) by (simp_all add: add.assoc)
  have out: "m1 x = m x" if "in_range x (fmt + (a + 1)) (length cs + 1)" for x
    using that sep(2) by (auto simp: m1_def)
  have "m1 (fmt + (a + 1) + of_nat (length cs)) = m (fmt + (a + 1) + of_nat (length cs))"
    using Cons.prems(6) by (intro out in_range_nth) simp_all
  then have last: "m1 (fmt + (a + 1) + of_nat (length cs)) \<in> {0, 0x25}" using Cons.prems(4) by (simp add: ac_simps)
  have "bytes_at m1 (fmt + (a + 1)) cs = bytes_at m (fmt + (a + 1)) cs"
    using Cons.prems(6) by (intro bytes_at_outside out) (simp_all add: in_range_def)
  then have "bytes_at m1 (fmt + (a + 1)) cs" using Cons.prems(1) by (simp add: bytes_at_Cons add.assoc)
  then have "copy_plain m1 d fmt (a + 1) = Some (put_bytes m1 (d + (a + 1)) cs, a + 1 + of_nat (length cs))"
    using Cons.prems(2,3,6) sep(1) last by (intro Cons.IH) simp_all
  then show ?case
    using Cons.prems(1-3) by (subst copy_plain.simps) (simp add: Let_def bytes_at_Cons add.assoc m1_def)
qed

section \<open>What the formats print\<close>

text \<open>The text that a format without \<open>%c\<close>, \<open>%%\<close> and unknown directives stands for; \<open>strs\<close> gives the
  strings among the arguments. A number of more than three digits is \<open>itoa\<close>'s garbled one, and \<open>%p\<close>
  takes the character behind it away.\<close>

definition prepend :: "u8 list option \<Rightarrow> u8 list option \<Rightarrow> u8 list option" where
  "prepend p q = (case p of None \<Rightarrow> None | Some cs \<Rightarrow> map_option ((@) cs) q)"

fun render :: "(u64 \<Rightarrow> u8 list option) \<Rightarrow> u8 list \<Rightarrow> u64 list \<Rightarrow> u8 list option" where
  "render strs [] args = Some []"
| "render strs (c # f) args =
     (if c \<noteq> 0x25 then prepend (Some [c]) (render strs f args)
      else case (f, args) of
             (d # g, a # bs) \<Rightarrow>
               (if d = 0x73 then prepend (strs a) (render strs g bs)
                else if d = 0x69 \<or> d = 0x64
                then prepend (Some (itoa_text (sint (ucast a :: u32)) 10)) (render strs g bs)
                else if d = 0x78 \<or> d = 0x58
                then prepend (Some ([0x30, 0x78] @ htoa_text a (d = 0x58))) (render strs g bs)
                else if d = 0x70 \<and> g \<noteq> []
                then prepend (Some ([0x30, 0x78] @ htoa_text a False)) (render strs (tl g) bs)
                else None)
           | _ \<Rightarrow> None)"

lemma in_tl: "c \<in> set (tl f) \<Longrightarrow> c \<in> set f"
  by (cases f) simp_all

lemma prepend_Some: "prepend p q = Some out \<longleftrightarrow> (\<exists>cs ds. p = Some cs \<and> q = Some ds \<and> out = cs @ ds)"
  by (auto simp: prepend_def split: option.splits)

lemma render_plain:
  "0x25 \<notin> set u \<Longrightarrow> render strs (u @ f) args = prepend (Some u) (render strs f args)"
  by (induction u; cases "render strs f args") (auto simp: prepend_def)

text \<open>What the rest of the loop needs: the rest of the format, the place where the rest of the output
  goes, \<open>n\<close> bytes with the final zero, the local array and the strings do not overlap.\<close>

definition print_ready ::
  "u64 \<Rightarrow> (u64 \<Rightarrow> u8 list option) \<Rightarrow> u8 list \<Rightarrow> nat \<Rightarrow> memory \<Rightarrow> u64 \<Rightarrow> u64 \<Rightarrow> bool" where
  "print_ready loc strs f n m text fmt \<longleftrightarrow>
     length f < 2 ^ 62 \<and> n < 2 ^ 62 \<and> string_at m fmt f \<and>
     apart text n fmt (length f + 1) \<and> apart loc 34 fmt (length f + 1) \<and> apart text n loc 34 \<and>
     (\<forall>a cs. strs a = Some cs \<longrightarrow> length cs < 2 ^ 62 \<and> string_at m a cs \<and>
        apart text n a (length cs + 1) \<and> apart loc 34 a (length cs + 1))"

lemma string_at_append: "string_at m p (u @ f) \<Longrightarrow> string_at m (p + of_nat (length u)) f"
  by (simp add: string_at_def bytes_at_append add.assoc)

lemma print_ready_next:
  assumes ready: "print_ready loc strs (u @ f) n m text fmt" and k: "k \<le> n"
    and keep: "\<And>x. \<not> in_range x text k \<Longrightarrow> \<not> in_range x loc 34 \<Longrightarrow> m' x = m x"
  shows "print_ready loc strs f (n - k) m' (text + of_nat k) (fmt + of_nat (length u))"
proof -
  have small: "length (u @ f) < 2 ^ 62" "n < 2 ^ 62" using ready unfolding print_ready_def by blast+
  have sep: "apart text n fmt (length (u @ f) + 1)" "apart loc 34 fmt (length (u @ f) + 1)" "apart text n loc 34"
    "string_at m fmt (u @ f)"
    using ready unfolding print_ready_def by blast+
  have strs: "length cs < 2 ^ 62" "string_at m a cs" "apart text n a (length cs + 1)" "apart loc 34 a (length cs + 1)"
    if "strs a = Some cs" for a cs using ready that unfolding print_ready_def by blast+
  have same: "string_at m' p cs" if p: "string_at m p cs" "apart text n p (length cs + 1)" "apart loc 34 p (length cs + 1)"
      "length cs < 2 ^ 62" for p cs
  proof -
    have "m' x = m x" if x: "in_range x p (length cs + 1)" for x
    proof (rule keep)
      show "\<not> in_range x text k" using apart_le [OF p(2) k order_refl] x unfolding apart_def by blast
      show "\<not> in_range x loc 34" using p(3) x unfolding apart_def by blast
    qed
    then show ?thesis using p(1,4) by (subst string_at_outside) simp_all
  qed
  have fmt: "length (u @ f) + 1 - length u = length f + 1" by simp
  have shift: "apart a i (fmt + of_nat (length u)) (length f + 1)" if "apart a i fmt (length (u @ f) + 1)" for a i
    using apart_shift_right [OF that, of "length u"] small(1) by simp
  have left: "apart (text + of_nat k) (n - k) b j" if "apart text n b j" for b j
    using apart_shift_left [OF that k] small(2) by simp
  have f: "string_at m' (fmt + of_nat (length u)) f"
    using shift [OF sep(1)] shift [OF sep(2)] string_at_append [OF sep(4)] small(1) by (intro same) simp_all
  show ?thesis unfolding print_ready_def
  proof (intro conjI allI impI)
    show "apart (text + of_nat k) (n - k) (fmt + of_nat (length u)) (length f + 1)"
      using left shift [OF sep(1)] by blast
    show "apart loc 34 (fmt + of_nat (length u)) (length f + 1)" using shift [OF sep(2)] .
    show "apart (text + of_nat k) (n - k) loc 34" using left [OF sep(3)] .
    fix a cs assume a: "strs a = Some cs"
    show "string_at m' a cs" using same strs [OF a] by blast
    show "apart (text + of_nat k) (n - k) a (length cs + 1)" using left strs [OF a] by blast
    show "apart loc 34 a (length cs + 1)" "length cs < 2 ^ 62" using strs [OF a] by blast+
  qed (use f small in simp_all)
qed

lemma itoa_text_int: "length (itoa_text (sint (w :: u32)) 10) \<le> 33" "0 \<notin> set (itoa_text (sint w) 10)"
    "\<bar>sint w\<bar> \<le> 2 ^ 31"
proof -
  have "- (2 ^ 31) \<le> sint w \<and> sint w < 2 ^ 31" using sint_greater_eq [of w] sint_less [of w] by simp
  then show v: "\<bar>sint w\<bar> \<le> 2 ^ 31" by linarith
  then have "nat \<bar>sint w\<bar> < 10 ^ 32" by (simp add: nat_less_iff)
  then have "length (digits_of 10 (nat \<bar>sint w\<bar>)) \<le> 32" by (intro length_digits_of) simp_all
  then show "length (itoa_text (sint w) 10) \<le> 33" by (auto simp: itoa_text_def abs_if split: if_splits)
  obtain m' where "string_at m' 0 (itoa_text (sint w) 10)"
    using itoa_run [OF _ _ v, of 10 0 "\<lambda>_. 0"] by auto
  then show "0 \<notin> set (itoa_text (sint w) 10)" by (simp add: string_at_def)
qed

lemma htoa_text_string: "length (htoa_text n caps) \<le> 16" "0 \<notin> set (htoa_text n caps)"
proof -
  show "length (htoa_text n caps) \<le> 16" using length_hex_digits [of 15 n caps False] by (simp add: htoa_text_def)
  have nz: "hex_char caps (x AND 0xF) \<noteq> 0" for x by (rule hex_char_nonzero [OF nibble_less])
  have "0 \<notin> set (hex_digits k n caps st)" for k st
    by (induction k arbitrary: st) (simp_all add: Let_def not_sym [OF nz])
  then show "0 \<notin> set (htoa_text n caps)" by (simp add: htoa_text_def not_sym [OF nz])
qed

text \<open>One step that prints a piece.\<close>

definition prints :: "u64 \<Rightarrow> sprintf_state \<Rightarrow> nat \<Rightarrow> u8 list \<Rightarrow> u64 list \<Rightarrow> sprintf_state \<Rightarrow> bool" where
  "prints loc s k cs args s' \<longleftrightarrow> (\<exists>m. pmem s' = put_bytes m (ptext s) cs \<and>
     (\<forall>x. \<not> in_range x loc 34 \<longrightarrow> m x = pmem s x)) \<and>
     ptext s' = ptext s + of_nat (length cs) \<and> written s' = written s + of_nat (length cs) \<and>
     pformat s' = pformat s + of_nat k \<and> pargs s' = args"

lemma maxrem_enough:
  assumes "unat (written s) + n \<le> 2147483647"
  shows "\<not> maxrem s < of_nat n"
proof -
  have "unat (2147483647 - written s) = 2147483647 - unat (written s)"
    using assms by (subst unat_sub) (simp_all add: word_le_nat_alt)
  moreover have "unat (of_nat n :: u64) = n" using assms by (simp add: unat_of_nat)
  ultimately show ?thesis using assms by (simp add: maxrem_def word_less_nat_alt)
qed

lemma emit_prints:
  assumes "unat (written s) + length cs \<le> 2147483647" "bytes_at (pmem s) str cs"
    and "apart (ptext s) (length cs) str (length cs)"
  shows "emit str (of_nat (length cs)) s = (None, s\<lparr>pmem := put_bytes (pmem s) (ptext s) cs,
    ptext := ptext s + of_nat (length cs), written := written s + of_nat (length cs)\<rparr>)"
proof -
  have n: "length cs < 2 ^ 63" using assms(1) by simp
  then have "unat (of_nat (length cs) :: u64) = length cs" by (simp add: unat_of_nat)
  then show ?thesis
    using maxrem_enough [OF assms(1)] memcpy_n_put [OF assms(2,3) n] by (simp add: emit_def)
qed

lemma string_prints:
  assumes "print_ready loc strs (0x25 # 0x73 # f) n (pmem s) (ptext s) (pformat s)"
    and "pargs s = a # args" "strs a = Some cs" "length cs < n" "unat (written s) + length cs \<le> 2147483647"
  shows "\<exists>s'. print_step loc s = Inr (None, s') \<and> prints loc s 2 cs args s'"
proof -
  have str: "string_at (pmem s) a cs" "apart (ptext s) n a (length cs + 1)"
    using assms(1,3) by (simp_all add: print_ready_def)
  have fmt: "pmem s (pformat s) = 0x25" "pmem s (pformat s + 1) = 0x73"
    using assms(1) by (simp_all add: print_ready_def string_at_Cons)
  let ?s = "s\<lparr>pformat := pformat s + 2, pargs := args\<rparr>"
  have "emit a (of_nat (length cs)) ?s = (None, ?s\<lparr>pmem := put_bytes (pmem s) (ptext s) cs,
      ptext := ptext s + of_nat (length cs), written := written s + of_nat (length cs)\<rparr>)"
    using emit_prints [of ?s cs a] str assms(4,5) by (simp add: string_at_def apart_le)
  then show ?thesis
    using fmt assms(2) strlen_string [OF str(1)]
    by (auto simp: print_step_def print_string_def va_arg_def Let_def prints_def add.assoc)
qed

text \<open>The two directives that print a number go through the local array.\<close>

lemma local_prints:
  assumes "print_ready loc strs (0x25 # d # f) n (pmem s) (ptext s) (pformat s)"
    and "string_at m loc cs" "\<And>x. \<not> in_range x loc 34 \<Longrightarrow> m x = pmem s x" "length cs < n" "length cs \<le> 34"
    and "unat (written s) + length cs \<le> 2147483647" "written t = written s" "ptext t = ptext s"
    and "pformat t = pformat s + of_nat k" "pmem t = m" "pargs t = args"
  shows "strlen m loc = Inr (of_nat (length cs))"
    and "\<exists>s'. emit loc (of_nat (length cs)) t = (None, s') \<and> prints loc s k cs args s'"
proof -
  show "strlen m loc = Inr (of_nat (length cs))" using strlen_string [OF assms(2)] .
  have "apart (ptext s) n loc 34" using assms(1) by (simp add: print_ready_def)
  then have "apart (ptext t) (length cs) loc (length cs)" using assms(4,5,8) by (simp add: apart_le)
  then have "emit loc (of_nat (length cs)) t = (None, t\<lparr>pmem := put_bytes m (ptext s) cs,
      ptext := ptext s + of_nat (length cs), written := written s + of_nat (length cs)\<rparr>)"
    using emit_prints [of t cs loc] assms(2,6,7,8,10) by (simp add: string_at_def)
  then show "\<exists>s'. emit loc (of_nat (length cs)) t = (None, s') \<and> prints loc s k cs args s'"
    using assms(3,9,11) by (auto simp: prints_def)
qed

lemma int_prints:
  assumes ready: "print_ready loc strs (0x25 # d # f) n (pmem s) (ptext s) (pformat s)" and d: "d = 0x69 \<or> d = 0x64"
    and args: "pargs s = a # args" and loc: "unat loc + 34 < 2 ^ 64"
    and cs: "cs = itoa_text (sint (ucast a :: u32)) 10" "length cs < n" "unat (written s) + length cs \<le> 2147483647"
  shows "\<exists>s'. print_step loc s = Inr (None, s') \<and> prints loc s 2 cs args s'"
proof -
  have fmt: "pmem s (pformat s) = 0x25" "pmem s (pformat s + 1) = d"
    using ready by (simp_all add: print_ready_def string_at_Cons)
  obtain m where m: "itoa (memset_n 32 (pmem s) loc 0) (sint (ucast a :: u32)) loc 10 = Inr (loc, m)"
    "string_at m loc cs" "\<And>x. \<not> in_range x loc 34 \<Longrightarrow> m x = memset_n 32 (pmem s) loc 0 x"
    using itoa_run [of 10 "sint (ucast a :: u32)" loc "memset_n 32 (pmem s) loc 0"] itoa_text_int(3) [of "ucast a"] loc
    by (auto simp: cs(1))
  have out: "m x = pmem s x" if "\<not> in_range x loc 34" for x
    using m(3) [OF that] that by (simp add: memset_n_eq in_range_def)
  let ?t = "s\<lparr>pformat := pformat s + 2, pargs := args, pmem := m\<rparr>"
  have len: "length cs \<le> 34" using itoa_text_int(1) [of "ucast a"] cs(1) by simp
  obtain s' where "emit loc (of_nat (length cs)) ?t = (None, s')" "prints loc s 2 cs args s'"
    using local_prints(2) [OF ready m(2) out cs(2) len cs(3), of ?t 2 args] by auto
  then show ?thesis
    using fmt d args m(1) local_prints(1) [OF ready m(2) out cs(2) len cs(3), of ?t 2 args]
    by (auto simp: print_step_def print_int_def va_arg_def Let_def add.assoc)
qed

lemma hex_prints:
  assumes ready: "print_ready loc strs (0x25 # d # f) n (pmem s) (ptext s) (pformat s)" and d: "(d = 0x78 \<or> d = 0x58) \<and> k = 2 \<or> d = 0x70 \<and> k = 3"
    and args: "pargs s = a # args"
    and cs: "cs = [0x30, 0x78] @ htoa_text a (d = 0x58)" "length cs < n" "unat (written s) + length cs \<le> 2147483647"
  shows "\<exists>s'. print_step loc s = Inr (None, s') \<and> prints loc s k cs args s'"
proof -
  have fmt: "pmem s (pformat s) = 0x25" "pmem s (pformat s + 1) = d"
    using ready by (simp_all add: print_ready_def string_at_Cons)
  define m where "m = put_bytes (memset_n 32 (pmem s) loc 0) loc cs"
  have len: "length cs \<le> 18" using htoa_text_string(1) [of a "d = 0x58"] cs(1) by simp
  have m: "m x = (if in_range x loc (length cs) then cs ! unat (x - loc) else if in_range x loc 32 then 0 else pmem s x)" for x
    using len by (simp add: m_def put_bytes_eq memset_n_eq)
  have "m (loc + of_nat (length cs)) = 0" using len by (simp add: m in_range_def unat_of_nat)
  moreover have "0 \<notin> set cs" using htoa_text_string(2) cs(1) by simp
  moreover have "bytes_at m loc cs" using len put_bytes_at unfolding m_def by simp
  ultimately have str: "string_at m loc cs" by (simp add: string_at_def)
  have out: "m x = pmem s x" if "\<not> in_range x loc 34" for x
    using that len by (simp add: m in_range_def)
  let ?t = "s\<lparr>pargs := args, pmem := m, pformat := pformat s + of_nat k\<rparr>"
  have len': "length cs \<le> 34" using len by simp
  obtain s' where "emit loc (of_nat (length cs)) ?t = (None, s')" "prints loc s k cs args s'"
    using local_prints(2) [OF ready str out cs(2) len' cs(3), of ?t k args] by auto
  moreover have "htoa (memset_n 32 (pmem s) loc 0) a loc (d = 0x58) = m" by (simp add: htoa_put m_def cs(1))
  ultimately show ?thesis
    using fmt d args local_prints(1) [OF ready str out cs(2) len' cs(3), of ?t k args]
    by (auto simp: print_step_def print_hex_def va_arg_def Let_def add.assoc)
qed

lemma plain_prints:
  assumes ready: "print_ready loc strs (u @ f) n (pmem s) (ptext s) (pformat s)" and u: "u \<noteq> []" "0x25 \<notin> set u"
    and stop: "f = [] \<or> hd f = 0x25" and len: "length u < n" "unat (written s) + length u \<le> 2147483647"
  shows "\<exists>s'. print_step loc s = Inr (None, s') \<and> prints loc s (length u) u (pargs s) s'"
proof -
  have str: "string_at (pmem s) (pformat s) (u @ f)" "apart (ptext s) n (pformat s) (length (u @ f) + 1)"
    and small: "length (u @ f) < 2 ^ 62"
    using ready unfolding print_ready_def by blast+
  have "bytes_at (pmem s) (pformat s) u" "0 \<notin> set u" using str(1) by (simp_all add: string_at_def bytes_at_append)
  moreover have "pmem s (pformat s + of_nat (length u)) \<in> {0, 0x25}"
    using string_at_append [OF str(1)] stop by (cases f) (auto simp: string_at_Cons)
  ultimately have "copy_plain (pmem s) (ptext s) (pformat s) 0 = Some (put_bytes (pmem s) (ptext s) u, of_nat (length u))"
    using copy_plain_run [of "pmem s" "pformat s" 0 u "ptext s"] u(2) apart_le [OF str(2)] small len(1) by simp
  moreover have "pmem s (pformat s) \<noteq> 0x25"
    using str(1) u by (cases u) (auto simp: string_at_Cons)
  moreover have "\<not> maxrem s < of_nat (length u)" by (rule maxrem_enough [OF len(2)])
  ultimately show ?thesis
    by (auto simp: print_step_def print_plain_def Let_def prints_def maxrem_def)
qed

lemma render_step:
  assumes "render strs f args = Some out" "f \<noteq> []"
    and ready: "print_ready loc strs f (length out + 1) (pmem s) (ptext s) (pformat s)"
    and "pargs s = args" "unat (written s) + length out \<le> 2147483647" "unat loc + 34 < 2 ^ 64"
  obtains u f' cs out' args' s' where "f = u @ f'" "u \<noteq> []" "out = cs @ out'" "render strs f' args' = Some out'"
    "print_step loc s = Inr (None, s')" "prints loc s (length u) cs args' s'"
proof (cases "hd f = 0x25")
  case False
  define u f' where "u = takeWhile (\<lambda>c. c \<noteq> 0x25) f" and "f' = dropWhile (\<lambda>c. c \<noteq> 0x25) f"
  have u: "f = u @ f'" "u \<noteq> []" "0x25 \<notin> set u" "f' = [] \<or> hd f' = 0x25"
    using False assms(2) hd_dropWhile [of "\<lambda>c. c \<noteq> 0x25" f]
    by (auto simp: u_def f'_def takeWhile_eq_Nil_iff dest: set_takeWhileD)
  obtain out' where out': "render strs f' args = Some out'" "out = u @ out'"
    using assms(1) render_plain [OF u(3)] unfolding u(1) by (auto simp: prepend_Some)
  obtain s' where "print_step loc s = Inr (None, s')" "prints loc s (length u) u (pargs s) s'"
    using plain_prints [OF ready [unfolded u(1)] u(2-4)] out'(2) assms(5) by auto
  with u out' assms(4) show thesis using that by metis
next
  case True
  with assms(2) obtain f1 where f1: "f = 0x25 # f1" by (cases f) auto
  then obtain d g a bs where split: "f1 = d # g" "args = a # bs"
    using assms(1) by (auto split: list.splits)
  note ready' = ready [unfolded f1 split(1)]
  from assms(1) f1 split consider
      (str) cs out' where "d = 0x73" "strs a = Some cs" "render strs g bs = Some out'" "out = cs @ out'"
    | (int) out' where "d = 0x69 \<or> d = 0x64" "render strs g bs = Some out'"
        "out = itoa_text (sint (ucast a :: u32)) 10 @ out'"
    | (hex) out' where "d = 0x78 \<or> d = 0x58" "render strs g bs = Some out'"
        "out = ([0x30, 0x78] @ htoa_text a (d = 0x58)) @ out'"
    | (pointer) x g' out' where "d = 0x70" "g = x # g'" "render strs g' bs = Some out'"
        "out = ([0x30, 0x78] @ htoa_text a (d = 0x58)) @ out'"
    by (cases g) (auto simp: prepend_Some split: if_splits)
  then show thesis
  proof cases
    case str
    have "\<exists>s'. print_step loc s = Inr (None, s') \<and> prints loc s 2 cs bs s'"
      using assms(4,5) split(2) str(2,4) by (intro string_prints [OF ready' [unfolded str(1)], of a bs cs]) auto
    then show ?thesis using that [of "[0x25, d]" g cs out' bs] f1 split(1) str
      by (auto simp: numeral_2_eq_2)
  next
    case int
    have "\<exists>s'. print_step loc s = Inr (None, s') \<and> prints loc s 2 (itoa_text (sint (ucast a :: u32)) 10) bs s'"
      using assms(4,5,6) split(2) int by (intro int_prints [OF ready' int(1)]) auto
    then show ?thesis using that [of "[0x25, d]" g _ out' bs] f1 split(1) int
      by (auto simp: numeral_2_eq_2)
  next
    case hex
    have "\<exists>s'. print_step loc s = Inr (None, s') \<and> prints loc s 2 ([0x30, 0x78] @ htoa_text a (d = 0x58)) bs s'"
      using assms(4,5) split(2) hex by (intro hex_prints [OF ready']) auto
    then show ?thesis using that [of "[0x25, d]" g _ out' bs] f1 split(1) hex
      by (auto simp: numeral_2_eq_2)
  next
    case pointer
    have "\<exists>s'. print_step loc s = Inr (None, s') \<and> prints loc s 3 ([0x30, 0x78] @ htoa_text a (d = 0x58)) bs s'"
      using assms(4,5) split(2) pointer by (intro hex_prints [OF ready']) auto
    then show ?thesis using that [of "[0x25, d, x]" g' _ out' bs] f1 split(1) pointer
      by (auto simp: numeral_3_eq_3)
  qed
qed

lemma print_loop_renders:
  assumes "render strs f args = Some out"
    and "print_ready loc strs f (length out + 1) (pmem s) (ptext s) (pformat s)"
    and "pargs s = args" "unat (written s) + length out \<le> 2147483647" "unat loc + 34 < 2 ^ 64"
  shows "\<exists>s'. print_loop loc s = Some (Inr (None, s')) \<and> ptext s' = ptext s + of_nat (length out) \<and>
    written s' = written s + of_nat (length out) \<and> bytes_at (pmem s') (ptext s) out \<and>
    (\<forall>x. \<not> in_range x (ptext s) (length out) \<longrightarrow> \<not> in_range x loc 34 \<longrightarrow> pmem s' x = pmem s x)"
  using assms(1-4)
proof (induction "length f" arbitrary: f args out s rule: less_induct)
  case less
  show ?case
  proof (cases "f = []")
    case True
    then show ?thesis using less.prems by (subst print_loop.simps) (simp add: print_ready_def)
  next
    case False
    obtain u f' cs out' args' s1 where step: "f = u @ f'" "u \<noteq> []" "out = cs @ out'" "render strs f' args' = Some out'"
      "print_step loc s = Inr (None, s1)" "prints loc s (length u) cs args' s1"
      using render_step [OF less.prems(1) False less.prems(2-4) assms(5)] .
    then obtain m where m: "pmem s1 = put_bytes m (ptext s) cs" "\<And>x. \<not> in_range x loc 34 \<Longrightarrow> m x = pmem s x"
      and s1: "ptext s1 = ptext s + of_nat (length cs)" "written s1 = written s + of_nat (length cs)"
        "pformat s1 = pformat s + of_nat (length u)" "pargs s1 = args'"
      by (auto simp: prints_def)
    have small: "length out \<le> 2147483647" using less.prems(4) by simp
    have cs: "length cs \<le> length out" by (simp add: step(3))
    have keep: "pmem s1 x = pmem s x" if "\<not> in_range x (ptext s) (length cs)" "\<not> in_range x loc 34" for x
      using that m small cs by (simp add: put_bytes_eq)
    have w1: "unat (written s1) = unat (written s) + length cs"
      using less.prems(4) cs by (simp add: s1(2), subst unat_add_u64) (simp_all add: unat_of_nat)
    have ready: "print_ready loc strs f' (length out' + 1) (pmem s1) (ptext s1) (pformat s1)"
      using print_ready_next [of loc strs u f' _ _ _ _ "length cs", OF less.prems(2) [unfolded step(1)] _ keep]
      by (simp add: s1 step(3))
    obtain s' where s': "print_loop loc s1 = Some (Inr (None, s'))" "ptext s' = ptext s1 + of_nat (length out')"
      "written s' = written s1 + of_nat (length out')" "bytes_at (pmem s') (ptext s1) out'"
      and out': "\<And>x. \<not> in_range x (ptext s1) (length out') \<Longrightarrow> \<not> in_range x loc 34 \<Longrightarrow> pmem s' x = pmem s1 x"
      using less.hyps [of f' args' out' s1] step(1,2,4) ready s1(4) w1 less.prems(4) step(3) by auto
    have "pmem s (pformat s) \<noteq> 0"
      using less.prems(2) False by (cases f) (auto simp: print_ready_def string_at_Cons)
    then have run: "print_loop loc s = Some (Inr (None, s'))"
      using step(5) s'(1) by (subst print_loop.simps) simp
    have sep: "apart (ptext s) (length out + 1) loc 34" using less.prems(2) by (simp add: print_ready_def)
    have in_text: "in_range x (ptext s) (length out)" if "in_range x (ptext s1) (length out')" for x
      using in_range_shift [of "length cs" "length out" x "ptext s"] that small by (simp add: s1(1) step(3))
    have all: "pmem s' x = pmem s x" if "\<not> in_range x (ptext s) (length out)" "\<not> in_range x loc 34" for x
    proof -
      have "pmem s' x = pmem s1 x" using that out' in_text by blast
      also have "\<dots> = pmem s x" using that keep in_range_le [OF _ cs] by blast
      finally show ?thesis .
    qed
    have first: "bytes_at (pmem s') (ptext s) cs"
    proof -
      have "pmem s' x = pmem s1 x" if x: "in_range x (ptext s) (length cs)" for x
      proof (rule out')
        show "\<not> in_range x loc 34"
          using sep in_range_le [OF x, of "length out + 1"] cs unfolding apart_def by simp
        show "\<not> in_range x (ptext s1) (length out')"
        proof
          assume "in_range x (ptext s1) (length out')"
          moreover have "x - ptext s = (x - ptext s1) + of_nat (length cs)" by (simp add: s1(1))
          ultimately have "unat (x - ptext s) = unat (x - ptext s1) + length cs"
            using small step(3) by (simp only:, subst unat_add_u64) (simp_all add: unat_of_nat in_range_def)
          then show False using x by (simp add: in_range_def)
        qed
      qed
      then have "bytes_at (pmem s') (ptext s) cs = bytes_at (pmem s1) (ptext s) cs"
        using small cs by (intro bytes_at_outside) simp_all
      then show ?thesis using put_bytes_at [of cs m "ptext s"] small cs by (simp add: m(1))
    qed
    have "bytes_at (pmem s') (ptext s) out" using first s'(4) by (simp add: step(3) bytes_at_append s1(1))
    then show ?thesis using run s' all by (simp add: s1 step(3) add.assoc)
  qed
qed

lemma render_nonzero:
  assumes "render strs f args = Some out" "0 \<notin> set f" "\<And>a cs. strs a = Some cs \<Longrightarrow> 0 \<notin> set cs"
  shows "0 \<notin> set out"
  using assms
proof (induction strs f args arbitrary: out rule: render.induct)
  case (2 strs c f args)
  have "0 \<notin> set (tl g)" if "f = d # g" for d g using 2(7) that in_tl [of 0 g] by auto
  with 2 show ?case
    by (fastforce simp: prepend_Some itoa_text_int(2) htoa_text_string(2) split: if_splits list.splits)
qed simp

lemma int_of_length: "n \<le> 2147483647 \<Longrightarrow> sint (ucast (of_nat n :: u64) :: u32) = int n"
proof -
  assume n: "n \<le> 2147483647"
  have "(ucast (of_nat n :: u64) :: u32) = of_nat n"
    by (simp add: word_unat_eq_iff unsigned_ucast_eq unat_of_nat take_bit_eq_mod mod_mod_cancel)
  then have "sint (ucast (of_nat n :: u64) :: u32) = sint (of_nat n :: u32)" by simp
  also have "\<dots> = signed_take_bit 31 (int n)" by (simp add: signed_of_nat)
  also have "\<dots> = int n" using n by (intro signed_take_bit_int_eq_self) simp_all
  finally show ?thesis .
qed

lemma sprintf_run:
  assumes "render strs f args = Some out" and "length out \<le> 2147483647" and "unat loc + 34 < 2 ^ 64"
    and "print_ready loc strs f (length out + 1) m dst fmt"
  shows "\<exists>m'. sprintf loc m dst fmt args = Inr (int (length out), m') \<and> string_at m' dst out \<and>
    (\<forall>x. \<not> in_range x dst (length out + 1) \<and> \<not> in_range x loc 34 \<longrightarrow> m' x = m x)"
proof -
  let ?s = "\<lparr>pmem = m, ptext = dst, pformat = fmt, pargs = args, written = 0\<rparr>"
  have ready: "print_ready loc strs f (length out + 1) (pmem ?s) (ptext ?s) (pformat ?s)" using assms(4) by simp
  obtain s' where s': "print_loop loc ?s = Some (Inr (None, s'))" "ptext s' = dst + of_nat (length out)"
    "written s' = of_nat (length out)" "bytes_at (pmem s') dst out"
    "\<And>x. \<not> in_range x dst (length out) \<Longrightarrow> \<not> in_range x loc 34 \<Longrightarrow> pmem s' x = m x"
    using print_loop_renders [OF assms(1) ready _ _ assms(3)] assms(2) by auto
  define m' where "m' = (pmem s')(dst + of_nat (length out) := 0)"
  have small: "length out < 2 ^ 64" using assms(2) by simp
  note n = int_of_length [OF assms(2)]
  have run: "sprintf loc m dst fmt args = Inr (int (length out), m')"
    by (simp add: sprintf_def s' m'_def n)
  have "bytes_at m' dst out"
  proof -
    have "m' (dst + of_nat i) = pmem s' (dst + of_nat i)" if "i < length out" for i
    proof -
      have "unat (of_nat i :: u64) \<noteq> unat (of_nat (length out) :: u64)" using that small by (simp add: unat_of_nat)
      then show ?thesis by (auto simp: m'_def)
    qed
    then show ?thesis using s'(4) bytes_at_cong [of out m' dst "pmem s'"] by blast
  qed
  moreover have "0 \<notin> set out"
  proof (rule render_nonzero [OF assms(1)])
    show "0 \<notin> set f" using assms(4) by (simp add: print_ready_def string_at_def)
    show "0 \<notin> set cs" if "strs a = Some cs" for a cs
      using assms(4) that by (auto simp: print_ready_def string_at_def)
  qed
  ultimately have "string_at m' dst out" by (simp add: string_at_def m'_def)
  moreover have "m' x = m x" if x: "\<not> in_range x dst (length out + 1)" "\<not> in_range x loc 34" for x
  proof -
    have "x \<noteq> dst + of_nat (length out)" using x(1) in_range_nth [of "length out" "length out + 1" dst] small by auto
    moreover have "\<not> in_range x dst (length out)" using x(1) in_range_le [of x dst "length out" "length out + 1"] by auto
    ultimately show ?thesis using s'(5) x(2) by (simp add: m'_def)
  qed
  ultimately show ?thesis using run by blast
qed

text \<open>C28: for a format of plain text, \<open>%s\<close>, \<open>%d\<close>, \<open>%i\<close>, \<open>%x\<close>, \<open>%X\<close> and \<open>%p\<close> with enough arguments, and an
  output, local array, format and strings that do not overlap, \<open>sprintf\<close> returns the number of
  characters, writes exactly the text that the format stands for with a terminating zero, and changes
  nothing else outside its local array. A decimal number is printed the way \<open>itoa\<close> garbles it, and
  the character behind \<open>%p\<close> is lost.\<close>

theorem sprintf_renders:
  assumes "render strs f args = Some out" and "length out \<le> 2147483647" and "unat loc + 34 < 2 ^ 64"
    and "print_ready loc strs f (length out + 1) m dst fmt"
  shows "\<exists>m'. sprintf loc m dst fmt args = Inr (int (length out), m') \<and> string_at m' dst out \<and>
    (\<forall>x. \<not> in_range x dst (length out + 1) \<and> \<not> in_range x loc 34 \<longrightarrow> m' x = m x)"
  by (rule sprintf_run [OF assms])

text \<open>The message \<open>ID %s, %d\<close> with a name and a version, as \<open>Acpi::init\<close> prints it.\<close>

lemma apartI:
  assumes "unat a + n \<le> unat b" "unat b + k \<le> 2 ^ 64"
  shows "apart a n b k" "apart b k a n"
proof -
  have False if x: "in_range x a n" "in_range x b k" for x
  proof -
    have bx: "x = b + (x - b)" "x = a + (x - a)" by simp_all
    have "unat x = unat b + unat (x - b)"
      using x(2) assms(2) by (subst bx(1), subst unat_add_u64) (simp_all add: in_range_def)
    moreover have "unat x = unat a + unat (x - a)"
      using x(1) assms unat_u64_less [of b] by (subst bx(2), subst unat_add_u64) (simp_all add: in_range_def)
    ultimately show False using x(1) assms(1) by (simp add: in_range_def)
  qed
  then show "apart a n b k" "apart b k a n" unfolding apart_def by blast+
qed

definition demo_format :: "u8 list" where "demo_format = map of_char ''ID %s, %d''"
definition demo_name :: "u8 list" where "demo_name = map of_char ''BOCHS''"

lemma demo_strings:
  "demo_format = [0x49, 0x44, 0x20, 0x25, 0x73, 0x2C, 0x20, 0x25, 0x64]"
  "demo_name = [0x42, 0x4F, 0x43, 0x48, 0x53]"
  by code_simp+

definition demo_print_memory :: memory where
  "demo_print_memory = put_bytes (put_bytes (\<lambda>_. 0) 0x1000 demo_format) 0x2000 demo_name"

theorem sprintf_renders_witness:
  "\<exists>m'. sprintf 0x4000 demo_print_memory 0x3000 0x1000 [0x2000, 2] = Inr (11, m') \<and>
     string_at m' 0x3000 (map of_char ''ID BOCHS, 2'')"
proof -
  define strs where "strs = (\<lambda>a :: u64. if a = 0x2000 then Some demo_name else None)"
  let ?out = "[0x49, 0x44, 0x20, 0x42, 0x4F, 0x43, 0x48, 0x53, 0x2C, 0x20, 0x32] :: u8 list"
  have "itoa_text 2 10 = [0x32]" by code_simp
  then have out: "render strs demo_format [0x2000, 2] = Some ?out"
    by (simp add: demo_strings prepend_def strs_def)
  have "string_at demo_print_memory 0x1000 demo_format" "string_at demo_print_memory 0x2000 demo_name"
    by (simp_all add: demo_print_memory_def demo_strings string_at_Cons)
  moreover have "apart 0x3000 12 0x1000 10" "apart 0x4000 34 0x1000 10" "apart 0x3000 12 0x4000 34"
    "apart 0x3000 12 0x2000 6" "apart 0x4000 34 0x2000 6"
    by (intro apartI; simp)+
  moreover have len: "length demo_format = 9" "length demo_name = 5" "length ?out + 1 = 12"
    by (simp_all add: demo_strings)
  ultimately have ready: "print_ready 0x4000 strs demo_format (length ?out + 1) demo_print_memory 0x3000 0x1000"
    unfolding len(3) by (simp add: print_ready_def strs_def len(1,2))
  have "map of_char ''ID BOCHS, 2'' = ?out" by code_simp
  then show ?thesis using sprintf_renders [OF out _ _ ready] by auto
qed

section \<open>Directives that fail\<close>

lemma percent_char:
  assumes "string_at m fmt [0x25, 0x63]" "apart dst 2 fmt 3"
  shows "sprintf loc m dst fmt (a # args) = Inr (1, m(dst := ucast a, dst := 0))"
proof -
  have f: "m fmt = 0x25" "m (fmt + 1) = 0x63" "m (2 + fmt) = 0"
    using assms(1) by (simp_all add: string_at_Cons)
  have "in_range dst dst 2" "in_range (2 + fmt) fmt 3" by (simp_all add: in_range_def)
  then have ne: "dst \<noteq> 2 + fmt" using assms(2) unfolding apart_def by blast
  have "print_loop loc \<lparr>pmem = m(dst := ucast a), ptext = dst, pformat = 2 + fmt, pargs = args, written = 1\<rparr> =
      Some (Inr (None, \<lparr>pmem = m(dst := ucast a), ptext = dst, pformat = 2 + fmt, pargs = args, written = 1\<rparr>))"
    using f ne by (subst print_loop.simps) simp
  then have "print_loop loc \<lparr>pmem = m, ptext = dst, pformat = fmt, pargs = a # args, written = 0\<rparr> =
      Some (Inr (None, \<lparr>pmem = m(dst := ucast a), ptext = dst, pformat = 2 + fmt, pargs = args, written = 1\<rparr>))"
    using f by (subst print_loop.simps)
      (simp add: print_step_def print_char_def va_arg_def maxrem_def Let_def)
  then show ?thesis by (simp add: sprintf_def)
qed

text \<open>The branch for everything else copies the rest of the format to \<open>text\<close> but does not advance
  \<open>text\<close>.\<close>

lemma print_rest_loop:
  assumes f: "string_at (pmem s) (pformat s) (0x25 # cs)" and d: "cs = [] \<or> hd cs \<notin> {0x25, 0x63, 0x73, 0x69, 0x64, 0x78, 0x58, 0x70}"
    and sep: "apart (ptext s) (length cs + 2) (pformat s) (length cs + 2)"
    and len: "unat (written s) + length cs + 1 \<le> 2147483647"
  shows "print_loop loc s = Some (Inr (None, s\<lparr>pmem := put_bytes (pmem s) (ptext s) (0x25 # cs),
    pformat := pformat s + of_nat (length cs + 1), written := written s + of_nat (length cs + 1)\<rparr>))"
proof -
  let ?c = "0x25 # cs" and ?n = "length cs + 1"
  define m' where "m' = put_bytes (pmem s) (ptext s) ?c"
  have n: "unat (of_nat ?n :: u64) = ?n" "?n < 2 ^ 63" "length ?c < 2 ^ 63"
    using len by (simp_all add: unat_of_nat del: of_nat_Suc of_nat_add)
  have stop: "pmem s (pformat s + of_nat ?n) = 0" using f by (simp add: string_at_def add.assoc)
  have nxt: "pmem s (pformat s + 1) \<notin> {0x25, 0x63, 0x73, 0x69, 0x64, 0x78, 0x58, 0x70}"
    using f d by (cases cs) (auto simp: string_at_Cons)
  have put: "memcpy_n ?n (pmem s) (ptext s) (pformat s) = m'"
    using memcpy_n_put [of "pmem s" "pformat s" ?c "ptext s"] f n(3) apart_le [OF sep, of ?n ?n]
    by (simp add: string_at_def m'_def)
  have "strlen (pmem s) (pformat s) = Inr (of_nat ?n)" using strlen_string [OF f] by simp
  moreover have "\<not> maxrem s < of_nat ?n" using maxrem_enough [of s ?n] len by simp
  moreover have "pmem s (pformat s) = 0x25" using f by (simp add: string_at_Cons)
  ultimately have step: "print_step loc s = Inr (None, s\<lparr>pmem := m', pformat := pformat s + of_nat ?n,
      written := written s + of_nat ?n\<rparr>)"
    using nxt put n(1) unfolding print_step_def print_rest_def maxrem_def Let_def by simp
  have "m' (pformat s + of_nat ?n) = pmem s (pformat s + of_nat ?n)"
  proof -
    have "in_range (pformat s + of_nat ?n) (pformat s) (length cs + 2)"
      using n(2) by (intro in_range_nth) simp_all
    then have "\<not> in_range (pformat s + of_nat ?n) (ptext s) (length ?c)"
      using sep in_range_le [of _ "ptext s" "length ?c" "length cs + 2"] unfolding apart_def by fastforce
    moreover have "length ?c < 2 ^ 64" using n(3) by simp
    ultimately show ?thesis unfolding m'_def by (simp only: put_bytes_eq if_False)
  qed
  then have stop': "m' (pformat s + of_nat ?n) = 0" using stop by simp
  show ?thesis
    using step \<open>pmem s (pformat s) = 0x25\<close> stop' unfolding m'_def [symmetric]
    by (subst print_loop.simps, simp) (subst print_loop.simps, simp)
qed

lemma unknown_directive:
  assumes "string_at m fmt (0x25 # cs)" "cs = [] \<or> hd cs \<notin> {0x25, 0x63, 0x73, 0x69, 0x64, 0x78, 0x58, 0x70}"
    and "apart dst (length cs + 2) fmt (length cs + 2)" "length cs < 1000"
  shows "sprintf loc m dst fmt args = Inr (int (length cs + 1), (put_bytes m dst (0x25 # cs))(dst := 0))"
proof -
  let ?s = "\<lparr>pmem = m, ptext = dst, pformat = fmt, pargs = args, written = 0\<rparr>"
  have "sint (ucast (of_nat (length cs + 1) :: u64) :: u32) = int (length cs + 1)"
    using int_of_length [of "length cs + 1"] assms(4) by simp
  then show ?thesis using print_rest_loop [of ?s cs loc] assms by (simp add: sprintf_def)
qed

lemma double_percent:
  assumes "string_at m fmt [0x25, 0x25]" "apart dst 3 fmt 3"
  shows "sprintf loc m dst fmt args = Inr (1, m(dst := 0))"
proof -
  have f: "m fmt = 0x25" "m (fmt + 1) = 0x25" "string_at m (fmt + 1) [0x25]"
    using assms(1) by (simp_all add: string_at_Cons)
  have "apart dst 2 (fmt + of_nat 1) (3 - 1)" by (rule apart_le [OF apart_shift_right [OF assms(2)]]) simp_all
  then have rest: "print_loop loc \<lparr>pmem = m, ptext = dst, pformat = fmt + 1, pargs = args, written = 0\<rparr> =
      Some (Inr (None, \<lparr>pmem = m(dst := 0x25), ptext = dst, pformat = 2 + fmt, pargs = args, written = 1\<rparr>))"
    using print_rest_loop [of "\<lparr>pmem = m, ptext = dst, pformat = fmt + 1, pargs = args, written = 0\<rparr>" "[]" loc] f(3)
    by (simp add: numeral_2_eq_2)
  have "copy_plain m dst (fmt + 1) 0 = Some (m, 0)" using f(2) by (subst copy_plain.simps) simp
  then have "print_loop loc \<lparr>pmem = m, ptext = dst, pformat = fmt, pargs = args, written = 0\<rparr> =
      Some (Inr (None, \<lparr>pmem = m(dst := 0x25), ptext = dst, pformat = 2 + fmt, pargs = args, written = 1\<rparr>))"
    using f(1,2) rest by (subst print_loop.simps) (simp add: print_step_def print_plain_def Let_def)
  then show ?thesis by (simp add: sprintf_def)
qed

text \<open>The directives that \<open>sprintf\<close> does not handle print nothing. For the format \<open>%c\<close>, for \<open>%%\<close> and
  for a \<open>%\<close> with any other character than \<open>s\<close>, \<open>i\<close>, \<open>d\<close>, \<open>x\<close>, \<open>X\<close> and \<open>p\<close> it reports one or two characters
  as written, but \<open>text\<close> was not advanced, so the terminating zero overwrites the first of them and
  the result is the empty string.\<close>

theorem sprintf_loses_output:
  assumes "string_at m fmt [0x25, d]" and "d \<notin> {0x73, 0x69, 0x64, 0x78, 0x58, 0x70}" and "apart dst 3 fmt 3"
  shows "\<exists>m'. sprintf loc m dst fmt (a # args) = Inr (if d = 0x63 \<or> d = 0x25 then 1 else 2, m') \<and>
    string_at m' dst [] \<and> (\<forall>x. x \<noteq> dst \<and> x \<noteq> dst + 1 \<longrightarrow> m' x = m x)"
proof -
  consider "d = 0x63" | "d = 0x25" | "d \<notin> {0x25, 0x63, 0x73, 0x69, 0x64, 0x78, 0x58, 0x70}" using assms(2) by blast
  then show ?thesis
  proof cases
    case 1
    then show ?thesis using percent_char [of m fmt dst loc a args] assms(1) apart_le [OF assms(3), of 2 3] by simp
  next
    case 2
    then show ?thesis using double_percent [of m fmt dst loc "a # args"] assms by simp
  next
    case 3
    then have "sprintf loc m dst fmt (a # args) = Inr (2, (put_bytes m dst [0x25, d])(dst := 0))"
      using unknown_directive [of m fmt "[d]" dst loc "a # args"] assms(1,3) by (simp add: numeral_3_eq_3)
    then show ?thesis using 3 by auto
  qed
qed

theorem sprintf_loses_output_witness:
  "\<exists>m'. sprintf 0x4000 (put_bytes (\<lambda>_. 0) 0x1000 [0x25, 0x63]) 0x3000 0x1000 [0x41] = Inr (1, m') \<and> string_at m' 0x3000 []"
proof -
  have "string_at (put_bytes (\<lambda>_. 0) 0x1000 [0x25, 0x63]) 0x1000 [0x25, 0x63]" by (simp add: string_at_Cons)
  moreover have "apart 0x3000 3 0x1000 3" by (rule apartI) simp_all
  ultimately show ?thesis using sprintf_loses_output [of _ "0x1000" "0x63" "0x3000" "0x4000" "0x41" "[]"] by auto
qed

text \<open>\<open>%p\<close> prints its argument like \<open>%x\<close> but skips the character of the format behind it, which may be
  the terminating zero.\<close>

lemma pointer_skips:
  assumes "pmem s (pformat s) = 0x25" "pmem s (pformat s + 1) = 0x70" "print_step loc s = Inr (r, s')"
  shows "pformat s' = pformat s + 3"
  using assms
  by (auto simp: print_step_def print_hex_def va_arg_def Let_def rbind_eq_Inr emit_def split: list.splits if_splits)

end
