(* ===== verification/CopyTemplates.thy ===== *)
theory CopyTemplates
  imports Prelude
begin

text \<open>
  The templates \<open>copy\<close> and \<open>copy_if\<close> of \<open>lib/lib.hpp\<close>, at pointer iterators: an iterator is the number of
  an element, and \<open>first != last\<close> the only test.
\<close>

section \<open>The templates\<close>

text \<open>The loop header and the body of \<open>copy\<close> both advance \<open>first\<close>.\<close>

partial_function (option) copy :: "(u64 \<Rightarrow> 'e) \<Rightarrow> u64 \<Rightarrow> u64 \<Rightarrow> u64 \<Rightarrow> ((u64 \<Rightarrow> 'e) \<times> u64) option" where
  "copy m first stop d_first =
     (if first \<noteq> stop then copy (m(d_first := m first)) (first + 1 + 1) stop (d_first + 1)
      else Some (m, d_first))"

partial_function (option) copy_if ::
  "(u64 \<Rightarrow> 'e) \<Rightarrow> u64 \<Rightarrow> u64 \<Rightarrow> u64 \<Rightarrow> ('e \<Rightarrow> bool) \<Rightarrow> ((u64 \<Rightarrow> 'e) \<times> u64) option" where
  "copy_if m first stop d_first pred =
     (if first \<noteq> stop
      then (if pred (m first)
            then copy_if (m(d_first := m first)) (first + 1) stop (d_first + 1) pred
            else copy_if m (first + 1) stop d_first pred)
      else Some (m, d_first))"

section \<open>What they copy\<close>

definition elements :: "(u64 \<Rightarrow> 'e) \<Rightarrow> u64 \<Rightarrow> nat \<Rightarrow> 'e list" where
  "elements m p n = map (\<lambda>i. m (p + of_nat i)) [0..<n]"

lemma elements_0 [simp]: "elements m p 0 = []"
  by (simp add: elements_def)

lemma elements_Suc: "elements m p (Suc n) = m p # elements m (p + 1) n"
  by (simp add: elements_def upt_conv_Cons map_Suc_upt [symmetric] add.assoc del: upt_Suc map_Suc_upt)

lemma elements_cong: "(\<And>i. i < n \<Longrightarrow> m' (p + of_nat i) = m (p + of_nat i)) \<Longrightarrow> elements m' p n = elements m p n"
  by (simp add: elements_def)

text \<open>Every second element of a list, starting with the first.\<close>

fun every_other :: "'e list \<Rightarrow> 'e list" where
  "every_other [] = []"
| "every_other [x] = [x]"
| "every_other (x # y # zs) = x # every_other zs"

lemma copy_odd: "copy m first stop d = Some r \<Longrightarrow> even (stop - first)"
proof (rule copy.raw_induct [where P = "\<lambda>m first stop d r. even (stop - first)"])
  fix f m first stop d and r :: "(u64 \<Rightarrow> 'e) \<times> u64"
  assume IH: "\<And>m first stop d r. f m first stop d = Some r \<Longrightarrow> even (stop - first)"
    and run: "(if first \<noteq> stop then f (m(d := m first)) (first + 1 + 1) stop (d + 1) else Some (m, d)) = Some r"
  show "even (stop - first)"
  proof (cases "first = stop")
    case False
    then have "even (stop - (first + 1 + 1))" using run IH by simp
    then have "even ((stop - (first + 1 + 1)) + 2)" by simp
    moreover have "(stop - (first + 1 + 1)) + 2 = stop - first" by simp
    ultimately show ?thesis by metis
  qed simp
qed

text \<open>\<open>copy\<close> advances its input twice per element. On a range of \<open>2 n\<close> elements that does not meet
  the output it returns, having copied the \<open>n\<close> elements at even positions; on a range of odd length it
  misses the end and never returns.\<close>

theorem copy_skips_elements:
  assumes "\<forall>i < n. \<forall>j < 2 * n. d + of_nat i \<noteq> first + of_nat j" and "n < 2 ^ 62"
  shows "(\<exists>m'. copy m first (first + of_nat (2 * n)) d = Some (m', d + of_nat n) \<and>
      elements m' d n = every_other (elements m first (2 * n)) \<and>
      (\<forall>x. \<not> in_range x d n \<longrightarrow> m' x = m x)) \<and>
    copy m first (first + of_nat (2 * n + 1)) d = None"
proof
  show "\<exists>m'. copy m first (first + of_nat (2 * n)) d = Some (m', d + of_nat n) \<and>
      elements m' d n = every_other (elements m first (2 * n)) \<and>
      (\<forall>x. \<not> in_range x d n \<longrightarrow> m' x = m x)"
    using assms
  proof (induction n arbitrary: m first d)
    case 0
    then show ?case by (subst copy.simps) simp
  next
    case (Suc n)
    define m1 where "m1 = m(d := m first)"
    have sep: "\<forall>i < n. \<forall>j < 2 * n. d + 1 + of_nat i \<noteq> first + 2 + of_nat j"
    proof (intro allI impI)
      fix i j assume "i < n" "j < 2 * n"
      then show "d + 1 + of_nat i \<noteq> first + 2 + of_nat j"
        using Suc.prems(1) [rule_format, of "Suc i" "Suc (Suc j)"] by (simp add: ac_simps)
    qed
    have out: "m1 (first + of_nat j) = m (first + of_nat j)" if "j < 2 * Suc n" for j
      using Suc.prems(1) [rule_format, of 0 j] that by (auto simp: m1_def)
    then have "elements m1 first (2 * Suc n) = elements m first (2 * Suc n)" by (intro elements_cong) simp
    then have src: "elements m1 (first + 2) (2 * n) = elements m (first + 2) (2 * n)"
      by (simp add: elements_Suc add.assoc)
    obtain m' where m': "copy m1 (first + 2) (first + 2 + of_nat (2 * n)) (d + 1) = Some (m', d + 1 + of_nat n)"
      "elements m' (d + 1) n = every_other (elements m1 (first + 2) (2 * n))"
      "\<And>x. \<not> in_range x (d + 1) n \<Longrightarrow> m' x = m1 x"
      using Suc.IH [of "d + 1" "first + 2" m1] sep Suc.prems(2) by auto
    have ends: "first + of_nat (2 * Suc n) = first + 2 + of_nat (2 * n)" by simp
    have "unat (first + of_nat (2 * Suc n) - first) = 2 * Suc n"
      using Suc.prems(2) by (simp only: add_diff_cancel_left') (simp add: unat_of_nat del: of_nat_Suc of_nat_mult)
    then have "first \<noteq> first + of_nat (2 * Suc n)" by auto
    then have run: "copy m first (first + of_nat (2 * Suc n)) d = Some (m', d + of_nat (Suc n))"
      using m'(1) unfolding ends by (subst copy.simps) (simp add: m1_def add.assoc)
    have n64: "n < 2 ^ 64" using Suc.prems(2) by simp
    note here = not_in_range_next [OF n64, of d] and step = in_range_Suc [OF n64, of _ d]
    have "m' x = m x" if "\<not> in_range x d (Suc n)" for x
      using that m'(3) by (auto simp: step m1_def)
    moreover have "elements m' d (Suc n) = every_other (elements m first (2 * Suc n))"
      using m'(2,3) here src by (simp add: elements_Suc m1_def add.assoc)
    ultimately show ?case using run by blast
  qed
  have "odd (first + of_nat (2 * n + 1) - first)" by (simp only: add_diff_cancel_left' even_of_nat) simp
  then show "copy m first (first + of_nat (2 * n + 1)) d = None"
    using copy_odd [of m first "first + of_nat (2 * n + 1)" d]
    by (cases "copy m first (first + of_nat (2 * n + 1)) d") blast+
qed

theorem copy_skips_elements_witness:
  "\<exists>m'. copy (\<lambda>x. x) 10 14 100 = Some (m', 102) \<and> elements m' 100 2 = [10, 12]"
proof -
  have "\<forall>i < 2 :: nat. \<forall>j < 2 * 2 :: nat. (100 :: u64) + of_nat i \<noteq> 10 + of_nat j"
  proof (intro allI impI)
    fix i j :: nat assume "i < 2" "j < 2 * 2"
    then have "i = 0 \<or> i = 1" "j = 0 \<or> j = 1 \<or> j = 2 \<or> j = 3" by linarith+
    then show "(100 :: u64) + of_nat i \<noteq> 10 + of_nat j" by auto
  qed
  from copy_skips_elements [OF this, of "\<lambda>x. x", THEN conjunct1]
  obtain m' where m': "copy (\<lambda>x. x) 10 (10 + of_nat (2 * 2)) 100 = Some (m', 100 + of_nat 2)"
    "elements m' 100 2 = every_other (elements (\<lambda>x. x) 10 (2 * 2))" by auto
  have "every_other (elements (\<lambda>x. x) (10 :: u64) (2 * 2)) = [10, 12]" by code_simp
  moreover have "10 + of_nat (2 * 2) = (14 :: u64)" "100 + of_nat 2 = (102 :: u64)" by simp_all
  ultimately show ?thesis using m' by (intro exI [of _ m']) metis
qed

text \<open>\<open>copy_if\<close> is the filter that it is meant to be.\<close>

lemma copy_if_filters:
  assumes "\<forall>i < n. \<forall>j < n. d + of_nat i \<noteq> first + of_nat j" and "n < 2 ^ 62"
  shows "\<exists>m' k. copy_if m first (first + of_nat n) d pred = Some (m', d + of_nat k) \<and> k \<le> n \<and>
    (\<forall>x. \<not> in_range x d n \<longrightarrow> m' x = m x) \<and> elements m' d k = filter pred (elements m first n)"
  using assms
proof (induction n arbitrary: m first d)
  case 0
  then show ?case by (subst copy_if.simps) (auto intro!: exI [of _ 0])
next
  case (Suc n)
  have ends: "first + of_nat (Suc n) = first + 1 + of_nat n" by simp
  have "unat (of_nat (Suc n) :: u64) = Suc n" using Suc.prems(2) by (simp add: unat_of_nat del: of_nat_Suc)
  then have ne: "first \<noteq> first + 1 + of_nat n" unfolding ends [symmetric] by auto
  have sep: "d + of_nat i \<noteq> first + 1 + of_nat j" if "i < Suc n" "j < n" for i j
    using Suc.prems(1) [rule_format, of i "Suc j"] that by (simp add: ac_simps)
  show ?case
  proof (cases "pred (m first)")
    case False
    obtain m' k where m': "copy_if m (first + 1) (first + 1 + of_nat n) d pred = Some (m', d + of_nat k)" "k \<le> n"
      "\<forall>x. \<not> in_range x d n \<longrightarrow> m' x = m x" "elements m' d k = filter pred (elements m (first + 1) n)"
      using Suc.IH [of d "first + 1" m] sep Suc.prems(2) by auto
    have "copy_if m first (first + of_nat (Suc n)) d pred = Some (m', d + of_nat k)"
      using m'(1) ne False unfolding ends by (subst copy_if.simps) simp
    moreover have "elements m' d k = filter pred (elements m first (Suc n))"
      using m'(4) False by (simp add: elements_Suc)
    moreover have "\<forall>x. \<not> in_range x d (Suc n) \<longrightarrow> m' x = m x"
      using m'(3) by (auto simp: in_range_def)
    ultimately show ?thesis using m'(2) le_SucI by blast
  next
    case True
    define m1 where "m1 = m(d := m first)"
    have "m1 (first + 1 + of_nat j) = m (first + 1 + of_nat j)" if "j < n" for j
      using sep [of 0 j] that by (auto simp: m1_def)
    then have src: "elements m1 (first + 1) n = elements m (first + 1) n" by (rule elements_cong)
    have sep': "\<forall>i < n. \<forall>j < n. d + 1 + of_nat i \<noteq> first + 1 + of_nat j"
    proof (intro allI impI)
      fix i j assume "i < n" "j < n"
      then show "d + 1 + of_nat i \<noteq> first + 1 + of_nat j" using sep [of "Suc i" j] by (simp add: ac_simps)
    qed
    obtain m' k where m': "copy_if m1 (first + 1) (first + 1 + of_nat n) (d + 1) pred = Some (m', d + 1 + of_nat k)"
      "k \<le> n" "\<forall>x. \<not> in_range x (d + 1) n \<longrightarrow> m' x = m1 x" "elements m' (d + 1) k = filter pred (elements m1 (first + 1) n)"
      using Suc.IH [of "d + 1" "first + 1" m1] sep' Suc.prems(2) by auto
    have "copy_if m first (first + of_nat (Suc n)) d pred = Some (m', d + of_nat (Suc k))"
      using m'(1) ne True unfolding ends by (subst copy_if.simps) (simp add: m1_def add.assoc)
    moreover have "m' d = m first"
      using m'(3) not_in_range_next [of n d] Suc.prems(2) by (simp add: m1_def)
    then have "elements m' d (Suc k) = filter pred (elements m first (Suc n))"
      using m'(4) src True by (simp add: elements_Suc)
    moreover have "\<forall>x. \<not> in_range x d (Suc n) \<longrightarrow> m' x = m x"
      using m'(3) in_range_Suc [of n _ d] Suc.prems(2) by (auto simp: m1_def)
    ultimately show ?thesis using m'(2) by (intro exI [of _ m'] exI [of _ "Suc k"]) simp
  qed
qed

end
