(* ===== verification/Graphics.thy ===== *)
theory Graphics
  imports Font MemOps
begin

text \<open>
  The frame buffer driver, \<open>hardware/devices/vbe.cpp\<close>. The frame buffer is a range of virtual
  memory; the driver's state is that memory, the mode and the \<open>is_working\<close> flag. A pixel
  coordinate is narrowed to 16 bits at every call of \<open>set_pixel\<close>, as in the code.
\<close>

unbundle bit_operations_syntax

section \<open>State\<close>

record mode_info =
  backbuffer :: u64
  framebuffer :: u64
  pitch :: u32
  mode_width :: u32
  mode_height :: u32
  bpp :: u8

record gfx_state =
  vmem :: memory
  mode :: mode_info
  is_working :: bool

section \<open>Pixels\<close>

text \<open>The index expression of \<open>set_pixel\<close> is computed in 32 bits: \<open>x\<close> and \<open>y\<close> are promoted to
  \<open>int\<close>, the product with \<open>pitch\<close> is unsigned.\<close>

definition pixel_index :: "mode_info \<Rightarrow> u16 \<Rightarrow> u16 \<Rightarrow> u32 result" where
  "pixel_index mi x y =
     (let bytes = ucast (bpp mi) div 8 :: u32
      in if bytes = 0 then Inl DivideByZero
         else Inr ((ucast x * 4 + ucast y * pitch mi) div bytes))"

definition set_pixel :: "u16 \<Rightarrow> u16 \<Rightarrow> u32 \<Rightarrow> gfx_state \<Rightarrow> gfx_state result" where
  "set_pixel x y color s =
     (if \<not> is_working s then Inr s
      else rbind (pixel_index (mode s) x y) (\<lambda>i.
        Inr (s\<lparr>vmem := store32 (vmem s) (framebuffer (mode s) + 4 * ucast i) color\<rparr>)))"

text \<open>The loops \<open>for (uint32_t i = ...; i < n; i++)\<close> of the driver, over the number of rounds
  left and the counter.\<close>

primrec for_u32 :: "nat \<Rightarrow> u32 \<Rightarrow> (u32 \<Rightarrow> 's \<Rightarrow> 's result) \<Rightarrow> 's \<Rightarrow> 's result" where
  "for_u32 0 i body s = Inr s"
| "for_u32 (Suc n) i body s = rbind (body i s) (for_u32 n (i + 1) body)"

definition clear :: "u32 \<Rightarrow> gfx_state \<Rightarrow> gfx_state result" where
  "clear color s =
     (if \<not> is_working s then Inr s
      else for_u32 (unat (mode_height (mode s))) 0 (\<lambda>y.
             for_u32 (unat (mode_width (mode s))) 0 (\<lambda>x.
               set_pixel (ucast x) (ucast y) color)) s)"

definition graphics_init :: "mode_info \<Rightarrow> gfx_state \<Rightarrow> gfx_state result" where
  "graphics_init mi s =
     (let s1 = s\<lparr>is_working := False\<rparr>;
          s2 = s1\<lparr>mode := mi\<rparr>;
          s3 = s2\<lparr>is_working := True\<rparr>
      in clear 0 s3)"

section \<open>Characters\<close>

text \<open>\<open>c * 16\<close> as a \<open>size_t\<close>: \<open>char\<close> is signed, so a character above 127 gives an offset below
  the start of the array.\<close>

definition font_offset :: "u8 \<Rightarrow> u64" where
  "font_offset c = scast c * 16"

text \<open>The test \<open>row & (1 << (8 - nx))\<close>.\<close>

definition glyph_bit :: "u8 \<Rightarrow> u32 \<Rightarrow> bool" where
  "glyph_bit row nx = ((ucast row :: u32) AND push_bit (unat (8 - nx)) 1 \<noteq> 0)"

definition draw_char :: "u8 \<Rightarrow> u16 \<Rightarrow> u16 \<Rightarrow> u32 \<Rightarrow> gfx_state \<Rightarrow> gfx_state result" where
  "draw_char c x y foreground s =
     (if \<not> is_working s \<or> c = 0 then Inr s
      else for_u32 16 0 (\<lambda>ny. for_u32 8 0 (\<lambda>nx s.
             rbind (font_row (font_offset c + ucast ny)) (\<lambda>row.
               if glyph_bit row nx
               then set_pixel (ucast (ucast x + nx)) (ucast (ucast y + ny)) foreground s
               else Inr s))) s)"

definition draw_char_bg :: "u8 \<Rightarrow> u16 \<Rightarrow> u16 \<Rightarrow> u32 \<Rightarrow> u32 \<Rightarrow> gfx_state \<Rightarrow> gfx_state result" where
  "draw_char_bg c x y foreground background s =
     (if \<not> is_working s \<or> c = 0 \<or> c = 10 \<or> c = 9 \<or> c = 13 then Inr s
      else for_u32 16 0 (\<lambda>ny. for_u32 8 0 (\<lambda>nx s.
             rbind (font_row (font_offset c + ucast ny)) (\<lambda>row.
               set_pixel (ucast (ucast x + nx)) (ucast (ucast y + ny))
                 (if glyph_bit row nx then foreground else background) s))) s)"

text \<open>The string versions, on the characters before the terminating zero; \<open>x\<close> steps in 16 bits.\<close>

primrec draw_text :: "u8 list \<Rightarrow> u16 \<Rightarrow> u16 \<Rightarrow> u32 \<Rightarrow> gfx_state \<Rightarrow> gfx_state result" where
  "draw_text [] x y foreground s = Inr s"
| "draw_text (c # cs) x y foreground s =
     rbind (draw_char c x y foreground s) (draw_text cs (x + 8) y foreground)"

primrec draw_text_bg :: "u8 list \<Rightarrow> u16 \<Rightarrow> u16 \<Rightarrow> u32 \<Rightarrow> u32 \<Rightarrow> gfx_state \<Rightarrow> gfx_state result" where
  "draw_text_bg [] x y foreground background s = Inr s"
| "draw_text_bg (c # cs) x y foreground background s =
     rbind (draw_char_bg c x y foreground background s) (draw_text_bg cs (x + 8) y foreground background)"

definition graphics_update :: "gfx_state \<Rightarrow> gfx_state" where
  "graphics_update s =
     s\<lparr>vmem := memcpy (vmem s) (framebuffer (mode s)) (backbuffer (mode s))
       (ucast (mode_width (mode s) * pitch (mode s)))\<rparr>"

section \<open>Loops\<close>

lemma for_u32_invariant:
  assumes "P s" "\<And>k s. k < n \<Longrightarrow> P s \<Longrightarrow> \<exists>s'. body (i + of_nat k) s = Inr s' \<and> P s'"
  shows "\<exists>s'. for_u32 n i body s = Inr s' \<and> P s'"
  using assms
proof (induction n arbitrary: i s)
  case (Suc n)
  obtain s1 where s1: "body i s = Inr s1" "P s1" using Suc.prems(2) [of 0 s] Suc.prems(1) by auto
  have "\<exists>s'. body (i + 1 + of_nat k) t = Inr s' \<and> P s'" if "k < n" "P t" for k t
    using Suc.prems(2) [of "Suc k" t] that by (simp add: ac_simps)
  then show ?case using Suc.IH [of s1 "i + 1"] s1 by simp
qed simp

section \<open>The screen\<close>

text \<open>A mode the driver can run in: 32 bits per pixel, rows of whole pixels at least as long as the
  screen is wide, coordinates and offsets that fit the widths the code uses, and a frame buffer that
  does not wrap around the address space.\<close>

definition screen_ok :: "mode_info \<Rightarrow> bool" where
  "screen_ok mi \<longleftrightarrow> bpp mi = 32 \<and> 4 dvd unat (pitch mi) \<and> 4 * unat (mode_width mi) \<le> unat (pitch mi) \<and>
     unat (mode_width mi) \<le> 65536 \<and> unat (mode_height mi) \<le> 65536 \<and>
     unat (mode_height mi) * unat (pitch mi) < 2 ^ 32 \<and>
     unat (framebuffer mi) + unat (mode_height mi) * unat (pitch mi) \<le> 2 ^ 64"

definition on_screen :: "mode_info \<Rightarrow> nat \<Rightarrow> nat \<Rightarrow> bool" where
  "on_screen mi x y \<longleftrightarrow> x < unat (mode_width mi) \<and> y < unat (mode_height mi)"

text \<open>The number of a pixel, its address, and what it shows.\<close>

definition pixel_no :: "mode_info \<Rightarrow> nat \<Rightarrow> nat \<Rightarrow> nat" where
  "pixel_no mi x y = x + y * (unat (pitch mi) div 4)"

definition pixel_addr :: "mode_info \<Rightarrow> nat \<Rightarrow> nat \<Rightarrow> u64" where
  "pixel_addr mi x y = framebuffer mi + 4 * of_nat (pixel_no mi x y)"

definition pixel :: "gfx_state \<Rightarrow> nat \<Rightarrow> nat \<Rightarrow> u32" where
  "pixel s x y = load32 (vmem s) (pixel_addr (mode s) x y)"

definition in_framebuffer :: "mode_info \<Rightarrow> u64 \<Rightarrow> bool" where
  "in_framebuffer mi a \<longleftrightarrow> in_range a (framebuffer mi) (unat (mode_height mi) * unat (pitch mi))"

lemma pixel_no_bound:
  assumes "screen_ok mi" "on_screen mi x y"
  shows "4 * pixel_no mi x y + 4 \<le> unat (mode_height mi) * unat (pitch mi)"
proof -
  obtain q where q: "unat (pitch mi) = 4 * q" using assms(1) by (auto simp: screen_ok_def)
  have "x < q" "y + 1 \<le> unat (mode_height mi)"
    using assms q by (auto simp: screen_ok_def on_screen_def)
  then have "x + y * q + 1 \<le> (y + 1) * q" by simp
  also have "\<dots> \<le> unat (mode_height mi) * q"
    using \<open>y + 1 \<le> unat (mode_height mi)\<close> by (rule mult_le_mono1)
  finally show ?thesis by (simp add: pixel_no_def q)
qed

lemma pixel_no_inj:
  assumes "screen_ok mi" "on_screen mi x y" "on_screen mi x' y'" "pixel_no mi x y = pixel_no mi x' y'"
  shows "x = x' \<and> y = y'"
proof -
  obtain q where q: "unat (pitch mi) = 4 * q" using assms(1) by (auto simp: screen_ok_def)
  have lt: "x < q" "x' < q" using assms q by (auto simp: screen_ok_def on_screen_def)
  have eq: "x + y * q = x' + y' * q" using assms(4) by (simp add: pixel_no_def q)
  have "(x + y * q) mod q = x" "(x' + y' * q) mod q = x'" using lt by simp_all
  then have "x = x'" using eq by simp
  then show ?thesis using eq lt by simp
qed

text \<open>The 32-bit index expression computes the number of the pixel.\<close>

lemma pixel_index_eq:
  assumes "screen_ok mi" "on_screen mi (unat x) (unat y)"
  shows "pixel_index mi x y = Inr (of_nat (pixel_no mi (unat x) (unat y)))"
proof -
  obtain q where q: "unat (pitch mi) = 4 * q" using assms(1) by (auto simp: screen_ok_def)
  have x16: "unat x < 65536" "unat y < 65536" using unsigned_less [where w = x] unsigned_less [where w = y] by simp_all
  have uc: "unat (ucast w :: u32) = unat w" if "unat w < 65536" for w :: u16
    using that by (simp add: unsigned_ucast_eq take_bit_nat_eq_self)
  have bound: "4 * (unat x + unat y * q) + 4 \<le> unat (mode_height mi) * unat (pitch mi)"
    using pixel_no_bound [OF assms] by (simp add: pixel_no_def q)
  then have lt: "4 * (unat x + unat y * q) + 4 < 4294967296" using assms(1) by (simp add: screen_ok_def)
  have m: "unat (ucast y * pitch mi :: u32) = unat y * (4 * q)"
  proof -
    have "unat y * (4 * q) = 4 * (unat y * q)" by simp
    also have "\<dots> < 4294967296" using lt by (simp add: algebra_simps)
    finally have "unat y * (4 * q) < 4294967296" .
    then show ?thesis using uc [OF x16(2)] q by (simp only: unat_word_ariths) simp
  qed
  have x4: "unat (ucast x * 4 :: u32) = unat x * 4"
    using lt uc [OF x16(1)] by (simp add: unat_word_ariths)
  have "unat (ucast x * 4 + ucast y * pitch mi :: u32) = 4 * (unat x + unat y * q)"
    using lt m x4 by (subst unat_word_ariths) simp
  then have "unat ((ucast x * 4 + ucast y * pitch mi :: u32) div 4) = unat x + unat y * q"
    by (simp add: unat_div)
  moreover have "unat (of_nat (unat x + unat y * q) :: u32) = unat x + unat y * q"
    using lt by (simp only: unat_of_nat) simp
  ultimately have "(ucast x * 4 + ucast y * pitch mi :: u32) div 4 = of_nat (unat x + unat y * q)"
    by (simp only: word_unat_eq_iff)
  moreover have "(ucast (bpp mi) div 8 :: u32) = 4" using assms(1) by (simp add: screen_ok_def)
  ultimately show ?thesis by (simp add: pixel_index_def pixel_no_def q)
qed

lemma load32_store32_same: "load32 (store32 m a v) a = v"
proof -
  have "take_bit 32 (ucast v :: u64) = ucast v"
    by (intro bit_word_eqI) (auto simp: bit_simps dest: bit_imp_le_length)
  moreover have "ucast (ucast v :: u64) = v" by (intro bit_word_eqI) (simp add: bit_simps)
  ultimately show ?thesis by (simp add: load32_def store32_def load_store_same)
qed

lemma load32_store32_other:
  assumes "range_sep a 4 b 4"
  shows "load32 (store32 m b v) a = load32 m a"
  using assms by (simp add: load32_def store32_def load_store_sep)

lemma pixel_addr_sep:
  assumes "screen_ok mi" "on_screen mi x y" "on_screen mi x' y'" "(x, y) \<noteq> (x', y')"
  shows "range_sep (pixel_addr mi x y) 4 (pixel_addr mi x' y') 4"
proof -
  have gap: "4 \<le> unat (4 * of_nat i - 4 * of_nat j :: u64)"
    if "i \<noteq> j" "4 * i < 2 ^ 32" "4 * j < 2 ^ 32" for i j :: nat
  proof -
    have "aligned 2 (4 * of_nat i - 4 * of_nat j)"
      by (intro aligned_diff aligned_mult) (simp_all add: aligned_def)
    moreover have "unat (4 * of_nat n :: u64) = 4 * n" if "4 * n < 2 ^ 32" for n
      using that by (simp add: unat_mult_u64 unat_of_nat)
    then have "4 * of_nat i - 4 * of_nat j \<noteq> (0 :: u64)"
      using that by (metis mult_cancel1 right_minus_eq zero_neq_numeral)
    ultimately show ?thesis using aligned_unat_le [of 2 "4 * of_nat i - 4 * of_nat j"] by simp
  qed
  have "pixel_no mi x y \<noteq> pixel_no mi x' y'" using pixel_no_inj assms by blast
  moreover have "4 * pixel_no mi x y < 2 ^ 32" "4 * pixel_no mi x' y' < 2 ^ 32"
    using pixel_no_bound [OF assms(1,2)] pixel_no_bound [OF assms(1,3)] assms(1) by (auto simp: screen_ok_def)
  ultimately show ?thesis
    using gap by (auto simp: range_sep_def pixel_addr_def)
qed

section \<open>What drawing does\<close>

text \<open>\<open>draws s s' F\<close>: going from \<open>s\<close> to \<open>s'\<close> gave the pixels of the screen the colours of \<open>F\<close>,
  left the others alone, and wrote nothing outside the frame buffer.\<close>

definition draws :: "gfx_state \<Rightarrow> gfx_state \<Rightarrow> (nat \<Rightarrow> nat \<Rightarrow> u32 option) \<Rightarrow> bool" where
  "draws s s' F \<longleftrightarrow> mode s' = mode s \<and> is_working s' = is_working s \<and>
     (\<forall>a. \<not> in_framebuffer (mode s) a \<longrightarrow> vmem s' a = vmem s a) \<and>
     (\<forall>x y. on_screen (mode s) x y \<longrightarrow>
        pixel s' x y = (case F x y of Some c \<Rightarrow> c | None \<Rightarrow> pixel s x y))"

lemma draws_refl: "draws s s (\<lambda>_ _. None)"
  by (simp add: draws_def)

lemma draws_trans:
  assumes "draws s s1 F" "draws s1 s2 G"
    and "\<And>x y. H x y = (case G x y of Some c \<Rightarrow> Some c | None \<Rightarrow> F x y)"
  shows "draws s s2 H"
  using assms by (auto simp: draws_def split: option.split)

lemma draws_mode: "draws s s' F \<Longrightarrow> mode s' = mode s \<and> is_working s' = is_working s"
  by (simp add: draws_def)

lemma set_pixel_draws:
  assumes ok: "screen_ok (mode s)" "is_working s" and on: "on_screen (mode s) (unat x) (unat y)"
  shows "\<exists>s'. set_pixel x y color s = Inr s' \<and>
    draws s s' (\<lambda>px py. if px = unat x \<and> py = unat y then Some color else None)"
proof -
  let ?no = "pixel_no (mode s) (unat x) (unat y)" and ?fb = "framebuffer (mode s)"
  let ?a = "pixel_addr (mode s) (unat x) (unat y)"
  have bound: "4 * ?no + 4 \<le> unat (mode_height (mode s)) * unat (pitch (mode s))"
    using pixel_no_bound [OF ok(1) on] .
  then have lt: "4 * ?no + 4 < 2 ^ 32" using ok(1) by (simp add: screen_ok_def)
  then have uc: "ucast (of_nat ?no :: u32) = (of_nat ?no :: u64)"
    by (simp add: word_unat_eq_iff unat_of_nat)
  have run: "set_pixel x y color s = Inr (s\<lparr>vmem := store32 (vmem s) ?a color\<rparr>)"
    using ok(2) by (simp add: set_pixel_def pixel_index_eq [OF ok(1) on] uc pixel_addr_def)
  have "store32 (vmem s) ?a color b = vmem s b" if "\<not> in_framebuffer (mode s) b" for b
  proof -
    have "\<not> in_range b ?a 4"
    proof
      assume r: "in_range b ?a 4"
      have n: "unat (4 * of_nat ?no :: u64) = 4 * ?no"
        using lt by (simp add: unat_mult_u64 unat_of_nat)
      have "unat (b - ?fb) = unat ((b - ?a) + 4 * of_nat ?no)" by (simp add: pixel_addr_def)
      also have "\<dots> = unat (b - ?a) + 4 * ?no"
        using r n lt by (subst unat_add_u64) (simp_all add: in_range_def)
      finally show False using that r bound by (simp add: in_framebuffer_def in_range_def)
    qed
    then show ?thesis by (simp add: store32_def store_le_outside)
  qed
  moreover have "load32 (store32 (vmem s) ?a color) (pixel_addr (mode s) px py)
      = (if px = unat x \<and> py = unat y then color else load32 (vmem s) (pixel_addr (mode s) px py))"
    if "on_screen (mode s) px py" for px py
    using pixel_addr_sep [OF ok(1) that on] by (auto simp: load32_store32_same load32_store32_other)
  ultimately show ?thesis using run by (auto simp: draws_def pixel_def)
qed

section \<open>Glyphs\<close>

text \<open>What the test of \<open>glyph_bit\<close> selects: column 0 never, column \<open>n\<close> for bit \<open>8 - n\<close>.\<close>

lemma glyph_bit_iff:
  assumes "n < 8"
  shows "glyph_bit row (of_nat n) \<longleftrightarrow> 0 < n \<and> bit row (8 - n)"
proof -
  have u: "unat (8 - of_nat n :: u32) = 8 - n"
    using assms by (simp add: unat_sub word_le_nat_alt unat_of_nat)
  have "glyph_bit row (of_nat n) \<longleftrightarrow> bit (ucast row :: u32) (8 - n)"
    using assms by (simp add: glyph_bit_def u and_exp_eq_0_iff_not_bit)
  also have "\<dots> \<longleftrightarrow> 8 - n < 8 \<and> bit row (8 - n)" by (auto simp: bit_simps dest: bit_imp_le_length)
  finally show ?thesis using assms by auto
qed

definition glyph_pixel :: "u8 \<Rightarrow> nat \<Rightarrow> nat \<Rightarrow> bool" where
  "glyph_pixel c nx ny \<longleftrightarrow> 0 < nx \<and> bit (font_bitmap ! (16 * unat c + ny)) (8 - nx)"

lemma font_row_ascii:
  assumes "c < 128" "ny < 16"
  shows "font_row (font_offset c + ucast (of_nat ny :: u32)) = Inr (font_bitmap ! (16 * unat c + ny))"
proof -
  have c: "unat c < 128" using assms(1) by (simp add: word_less_nat_alt)
  then have "take_bit 7 c = c" by (simp add: word_unat_eq_iff unsigned_take_bit_eq take_bit_nat_eq_self)
  then have hi: "\<not> bit c k" if "7 \<le> k" for k using that by (metis bit_take_bit_iff not_le)
  have "(scast c :: u64) = ucast c"
  proof (rule bit_word_eqI)
    fix k assume "k < LENGTH(64)"
    show "bit (scast c :: u64) k = bit (ucast c :: u64) k"
      using hi [of k] hi [of 7] by (cases "k < 7") (auto simp: bit_simps min_def)
  qed
  moreover have "unat (ucast c :: u64) = unat c" using c by (simp add: unsigned_ucast_eq take_bit_nat_eq_self)
  ultimately have o: "unat (font_offset c) = 16 * unat c"
    using c by (simp add: font_offset_def unat_mult_u64)
  have n: "unat (ucast (of_nat ny :: u32) :: u64) = ny" using assms(2) by (simp add: unat_of_nat)
  have u: "unat (font_offset c + ucast (of_nat ny :: u32)) = 16 * unat c + ny"
    using c assms(2) o n by (subst unat_add_u64) simp_all
  then show ?thesis using c assms(2) by (simp add: font_row_def word_less_nat_alt)
qed

text \<open>One row of a glyph, for both versions of \<open>write_text\<close>: \<open>col\<close> gives the colour of each
  column, or nothing.\<close>

definition plot :: "u16 \<Rightarrow> u16 \<Rightarrow> u32 option \<Rightarrow> gfx_state \<Rightarrow> gfx_state result" where
  "plot x y col s = (case col of None \<Rightarrow> Inr s | Some c \<Rightarrow> set_pixel x y c s)"

definition cell_ok :: "mode_info \<Rightarrow> nat \<Rightarrow> nat \<Rightarrow> bool" where
  "cell_ok mi x y \<longleftrightarrow> x + 8 \<le> unat (mode_width mi) \<and> y + 16 \<le> unat (mode_height mi) \<and> x < 65536 \<and> y < 65536"

lemma coordinate: "unat x + k < 65536 \<Longrightarrow> unat (ucast (ucast (x :: u16) + of_nat k :: u32) :: u16) = unat x + k"
proof -
  assume lt: "unat x + k < 65536"
  have "unat (ucast x :: u32) = unat x"
    using unsigned_less [where w = x and 'a = nat] by (simp add: unsigned_ucast_eq take_bit_nat_eq_self)
  then have "unat (ucast x + of_nat k :: u32) = unat x + k"
    using lt by (simp add: unat_word_ariths unat_of_nat)
  then show ?thesis using lt by (simp add: unsigned_ucast_eq take_bit_nat_eq_self)
qed

lemma plot_draws:
  assumes "screen_ok (mode s)" "is_working s" "on_screen (mode s) (unat x) (unat y)"
  shows "\<exists>s'. plot x y c s = Inr s' \<and> draws s s' (\<lambda>px py. if px = unat x \<and> py = unat y then c else None)"
  using set_pixel_draws [OF assms] draws_refl [of s] by (cases c) (auto simp: plot_def)

lemma plot_row:
  fixes x y :: u16
  assumes "screen_ok (mode s)" "is_working s" "unat x + i + n \<le> unat (mode_width (mode s))"
    and "unat y < unat (mode_height (mode s))"
  shows "\<exists>s'. for_u32 n (of_nat i) (\<lambda>nx. plot (ucast (ucast x + nx)) y (col (unat nx))) s = Inr s' \<and>
    draws s s' (\<lambda>px py. if py = unat y \<and> unat x + i \<le> px \<and> px < unat x + i + n then col (px - unat x) else None)"
  using assms
proof (induction n arbitrary: i s)
  case 0
  then show ?case by (auto simp: draws_def)
next
  case (Suc n)
  have w: "unat (mode_width (mode s)) \<le> 65536" using Suc.prems(1) by (simp add: screen_ok_def)
  then have ux: "unat (ucast (ucast x + of_nat i :: u32) :: u16) = unat x + i"
    using Suc.prems(3) coordinate [of x i] by simp
  have ui: "unat (of_nat i :: u32) = i" using w Suc.prems(3) by (simp add: unat_of_nat)
  have "on_screen (mode s) (unat (ucast (ucast x + of_nat i :: u32) :: u16)) (unat y)"
    using Suc.prems(3,4) ux by (simp add: on_screen_def)
  from plot_draws [OF Suc.prems(1,2) this, of "col i"]
  obtain s1 where s1: "plot (ucast (ucast x + of_nat i :: u32)) y (col i) s = Inr s1"
    "draws s s1 (\<lambda>px py. if px = unat x + i \<and> py = unat y then col i else None)" by (auto simp: ux)
  obtain s2 where s2: "for_u32 n (of_nat (Suc i)) (\<lambda>nx. plot (ucast (ucast x + nx)) y (col (unat nx))) s1 = Inr s2"
    "draws s1 s2 (\<lambda>px py. if py = unat y \<and> unat x + Suc i \<le> px \<and> px < unat x + Suc i + n then col (px - unat x) else None)"
    using Suc.IH [of s1 "Suc i"] Suc.prems draws_mode [OF s1(2)] by auto
  have "draws s s2 (\<lambda>px py. if py = unat y \<and> unat x + i \<le> px \<and> px < unat x + i + Suc n then col (px - unat x) else None)"
    by (rule draws_trans [OF s1(2) s2(2)]) (auto split: option.split)
  moreover have "of_nat i + (1 :: u32) = of_nat (Suc i)" by simp
  ultimately show ?case using s1(1) s2(1) ui by (simp del: of_nat_Suc)
qed

lemma plot_glyph:
  fixes x y :: u16
  assumes "screen_ok (mode s)" "is_working s" "cell_ok (mode s) (unat x) (unat y)" "i + n \<le> 16"
  shows "\<exists>s'. for_u32 n (of_nat i) (\<lambda>ny. for_u32 8 0 (\<lambda>nx.
        plot (ucast (ucast x + nx)) (ucast (ucast y + ny)) (col (unat nx) (unat ny)))) s = Inr s' \<and>
    draws s s' (\<lambda>px py. if unat y + i \<le> py \<and> py < unat y + i + n \<and> unat x \<le> px \<and> px < unat x + 8
      then col (px - unat x) (py - unat y) else None)"
  using assms
proof (induction n arbitrary: i s)
  case 0
  then show ?case by (auto simp: draws_def)
next
  case (Suc n)
  have h: "unat (mode_height (mode s)) \<le> 65536" using Suc.prems(1) by (simp add: screen_ok_def)
  then have uy: "unat (ucast (ucast y + of_nat i :: u32) :: u16) = unat y + i"
    using Suc.prems(3,4) coordinate [of y i] by (simp add: cell_ok_def)
  have ui: "unat (of_nat i :: u32) = i" using Suc.prems(4) by (simp add: unat_of_nat)
  obtain s1 where s1: "for_u32 8 0 (\<lambda>nx. plot (ucast (ucast x + nx)) (ucast (ucast y + of_nat i :: u32)) (col (unat nx) i)) s = Inr s1"
    "draws s s1 (\<lambda>px py. if py = unat y + i \<and> unat x \<le> px \<and> px < unat x + 8 then col (px - unat x) i else None)"
    using plot_row [OF Suc.prems(1,2), of x 0 8 "ucast (ucast y + of_nat i :: u32)" "\<lambda>nx. col nx i"]
      Suc.prems(3,4) uy by (auto simp: cell_ok_def)
  obtain s2 where s2: "for_u32 n (of_nat (Suc i)) (\<lambda>ny. for_u32 8 0 (\<lambda>nx.
        plot (ucast (ucast x + nx)) (ucast (ucast y + ny)) (col (unat nx) (unat ny)))) s1 = Inr s2"
    "draws s1 s2 (\<lambda>px py. if unat y + Suc i \<le> py \<and> py < unat y + Suc i + n \<and> unat x \<le> px \<and> px < unat x + 8
      then col (px - unat x) (py - unat y) else None)"
    using Suc.IH [of s1 "Suc i"] Suc.prems draws_mode [OF s1(2)] by auto
  have "draws s s2 (\<lambda>px py. if unat y + i \<le> py \<and> py < unat y + i + Suc n \<and> unat x \<le> px \<and> px < unat x + 8
      then col (px - unat x) (py - unat y) else None)"
    by (rule draws_trans [OF s1(2) s2(2)]) (auto split: option.split)
  moreover have "of_nat i + (1 :: u32) = of_nat (Suc i)" by simp
  ultimately show ?case using s1(1) s2(1) ui by (simp del: of_nat_Suc)
qed

section \<open>The two versions of \<open>write_text\<close>\<close>

lemma for_u32_cong:
  assumes "\<And>k s. k < n \<Longrightarrow> f (i + of_nat k) s = g (i + of_nat k) s"
  shows "for_u32 n i f s = for_u32 n i g s"
  using assms
proof (induction n arbitrary: i s)
  case (Suc n)
  have "for_u32 n (i + 1) f t = for_u32 n (i + 1) g t" for t
    using Suc.prems [of "Suc _"] by (intro Suc.IH) (simp add: ac_simps)
  then show ?case using Suc.prems [of 0] by (cases "g i s") simp_all
qed simp

lemma for_u32_fault: "0 < n \<Longrightarrow> body i s = Inl e \<Longrightarrow> for_u32 n i body s = Inl e"
  by (cases n) simp_all

text \<open>For an ASCII character both read the font inside its bounds.\<close>

lemma draw_char_bg_plot:
  assumes "c < 128" "is_working s" "c \<noteq> 0" "c \<noteq> 10" "c \<noteq> 9" "c \<noteq> 13"
  shows "draw_char_bg c x y fg bg s = for_u32 16 0 (\<lambda>ny. for_u32 8 0 (\<lambda>nx.
    plot (ucast (ucast x + nx)) (ucast (ucast y + ny))
      (if glyph_pixel c (unat nx) (unat ny) then Some fg else Some bg))) s"
  using assms unfolding draw_char_bg_def
  by (simp, intro for_u32_cong)
    (auto simp: font_row_ascii [simplified] glyph_bit_iff plot_def glyph_pixel_def unat_of_nat)

lemma draw_char_plot:
  assumes "c < 128" "is_working s" "c \<noteq> 0"
  shows "draw_char c x y fg s = for_u32 16 0 (\<lambda>ny. for_u32 8 0 (\<lambda>nx.
    plot (ucast (ucast x + nx)) (ucast (ucast y + ny))
      (if glyph_pixel c (unat nx) (unat ny) then Some fg else None))) s"
  using assms unfolding draw_char_def
  by (simp, intro for_u32_cong)
    (auto simp: font_row_ascii [simplified] glyph_bit_iff plot_def glyph_pixel_def unat_of_nat)

definition glyph_cell :: "u8 \<Rightarrow> nat \<Rightarrow> nat \<Rightarrow> u32 option \<Rightarrow> u32 option \<Rightarrow> nat \<Rightarrow> nat \<Rightarrow> u32 option" where
  "glyph_cell c x y on off px py =
     (if y \<le> py \<and> py < y + 16 \<and> x \<le> px \<and> px < x + 8
      then (if glyph_pixel c (px - x) (py - y) then on else off) else None)"

lemma glyph_cell_eq: "glyph_cell c x y on off = (\<lambda>px py.
    if y \<le> py \<and> py < y + 16 \<and> x \<le> px \<and> px < x + 8
    then (if glyph_pixel c (px - x) (py - y) then on else off) else None)"
  by (simp add: glyph_cell_def fun_eq_iff)

lemma draw_char_bg_draws:
  assumes "screen_ok (mode s)" "is_working s" "cell_ok (mode s) (unat x) (unat y)"
    and "c < 128" "c \<noteq> 0" "c \<noteq> 10" "c \<noteq> 9" "c \<noteq> 13"
  shows "\<exists>s'. draw_char_bg c x y fg bg s = Inr s' \<and>
    draws s s' (glyph_cell c (unat x) (unat y) (Some fg) (Some bg))"
  using plot_glyph [OF assms(1-3), of 0 16 "\<lambda>nx ny. if glyph_pixel c nx ny then Some fg else Some bg"]
  unfolding draw_char_bg_plot [OF assms(4,2,5-8)]
  by (simp add: glyph_cell_eq)

lemma draw_char_draws:
  assumes "screen_ok (mode s)" "is_working s" "cell_ok (mode s) (unat x) (unat y)" "c < 128" "c \<noteq> 0"
  shows "\<exists>s'. draw_char c x y fg s = Inr s' \<and>
    draws s s' (glyph_cell c (unat x) (unat y) (Some fg) None)"
  using plot_glyph [OF assms(1-3), of 0 16 "\<lambda>nx ny. if glyph_pixel c nx ny then Some fg else None"]
  unfolding draw_char_plot [OF assms(4,2,5)] by (simp add: glyph_cell_eq)

section \<open>Properties\<close>

text \<open>A screen of 16 by 16 pixels for the witnesses.\<close>

definition demo_mode :: mode_info where
  "demo_mode = \<lparr>backbuffer = 0x9000, framebuffer = 0x1000, pitch = 64, mode_width = 16,
     mode_height = 16, bpp = 32\<rparr>"

definition demo_gfx :: gfx_state where
  "demo_gfx = \<lparr>vmem = (\<lambda>_. 0), mode = demo_mode, is_working = True\<rparr>"

lemma demo_screen_ok: "screen_ok (mode demo_gfx)" "is_working demo_gfx"
  by (simp_all add: demo_gfx_def demo_mode_def screen_ok_def)

text \<open>C23: writing an ASCII character with a background into a cell of the screen gives every pixel
  of the cell the foreground or the background colour as the glyph says, leaves every other pixel of
  the screen alone, and writes no byte outside the frame buffer.\<close>

theorem write_char_draws_glyph:
  assumes "screen_ok (mode s)" and "is_working s" and "cell_ok (mode s) (unat x) (unat y)"
    and "c < 128" and "c \<noteq> 0" and "c \<noteq> 10" and "c \<noteq> 9" and "c \<noteq> 13"
  shows "\<exists>s'. draw_char_bg c x y fg bg s = Inr s' \<and>
    draws s s' (glyph_cell c (unat x) (unat y) (Some fg) (Some bg))"
  using assms by (rule draw_char_bg_draws)

theorem write_char_draws_glyph_witness:
  "\<exists>s'. draw_char_bg 65 8 0 0xFFFFFF 0x202020 demo_gfx = Inr s' \<and>
     pixel s' 12 2 = 0xFFFFFF \<and> pixel s' 11 2 = 0x202020"
proof -
  have cell: "cell_ok (mode demo_gfx) (unat (8 :: u16)) (unat (0 :: u16))"
    by (simp add: cell_ok_def demo_gfx_def demo_mode_def)
  obtain s' where run: "draw_char_bg 65 8 0 0xFFFFFF 0x202020 demo_gfx = Inr s'"
    "draws demo_gfx s' (glyph_cell 65 (unat (8 :: u16)) (unat (0 :: u16)) (Some 0xFFFFFF) (Some 0x202020))"
    using write_char_draws_glyph [OF demo_screen_ok cell, of 65] by auto
  have "on_screen (mode demo_gfx) 12 2" "on_screen (mode demo_gfx) 11 2"
    by (simp_all add: on_screen_def demo_gfx_def demo_mode_def)
  moreover have "font_bitmap ! 1042 = 0x10" by code_simp
  then have "glyph_pixel 65 4 2" "\<not> glyph_pixel 65 3 2" by (simp_all add: glyph_pixel_def bit_numeral_word_iff)
  ultimately show ?thesis using run by (auto simp: draws_def glyph_cell_def)
qed

text \<open>The column test \<open>1 << (8 - nx)\<close> is one too high: column 0 of a cell never shows the
  glyph, and bit 0 of a row, the last column of the glyph, is never looked at.\<close>

theorem glyph_first_column_blank:
  assumes "nx < 8"
  shows "glyph_bit row (of_nat nx) = glyph_bit (row OR 1) (of_nat nx) \<and> \<not> glyph_bit row 0"
  using glyph_bit_iff [OF assms, of row] glyph_bit_iff [OF assms, of "row OR 1"] glyph_bit_iff [of 0 row] assms
  by (auto simp: bit_simps bit_1_iff)

theorem glyph_first_column_blank_witness:
  "\<not> glyph_bit 0xFF 0 \<and> glyph_bit 0xFE (of_nat 7) = glyph_bit 0xFF (of_nat 7)"
  using glyph_first_column_blank [of 7 "0xFE"] glyph_first_column_blank [of 0 "0xFF"] by simp

lemma bit_small_u64: "bit f 63 \<Longrightarrow> 2048 \<le> (f :: u64)"
proof (rule ccontr)
  assume b: "bit f 63" and "\<not> 2048 \<le> f"
  then have "unat f < 2048" by (simp add: word_le_nat_alt)
  then have "take_bit 11 (unat f) = unat f" by (simp add: take_bit_nat_eq_self)
  then have "take_bit 11 f = f" by (simp add: word_unat_eq_iff unsigned_take_bit_eq)
  then have "bit (take_bit 11 f) 63" using b by simp
  then show False by (simp add: bit_take_bit_iff)
qed

lemma font_offset_high:
  assumes "128 \<le> c"
  shows "font_row (font_offset c) = Inl OutOfBounds"
proof -
  have "bit c 7"
  proof (rule ccontr)
    assume no: "\<not> bit c 7"
    have "take_bit 7 c = c"
    proof (rule bit_word_eqI)
      fix k assume "k < LENGTH(8)"
      then show "bit (take_bit 7 c) k = bit c k" using no by (cases "k = 7") (auto simp: bit_simps)
    qed
    then have "unat c = take_bit 7 (unat c)" by (metis unsigned_take_bit_eq)
    also have "\<dots> < 128" using take_bit_nat_less_exp [of 7 "unat c"] by simp
    finally show False using assms by (simp add: word_le_nat_alt)
  qed
  have "font_offset c = push_bit 4 (scast c)" by (simp add: font_offset_def push_bit_eq_mult)
  then have "bit (font_offset c) 63" using \<open>bit c 7\<close> by (simp add: bit_simps)
  then have "2048 \<le> font_offset c" by (rule bit_small_u64)
  then show ?thesis by (simp add: font_row_def)
qed

text \<open>A character above 127 makes the font index negative, and the first read of the font lies
  outside the array.\<close>

theorem write_char_above_127_faults:
  assumes "128 \<le> c" and "is_working s"
  shows "draw_char_bg c x y fg bg s = Inl OutOfBounds"
proof -
  have "c \<noteq> 0" "c \<noteq> 10" "c \<noteq> 9" "c \<noteq> 13" using assms(1) by auto
  then show ?thesis
    using assms(2) font_offset_high [OF assms(1)] by (simp add: draw_char_bg_def for_u32_fault)
qed

theorem write_char_above_127_faults_witness:
  "draw_char_bg 0xE9 0 0 1 0 demo_gfx = Inl OutOfBounds"
  by (rule write_char_above_127_faults) (simp_all add: demo_screen_ok)

end
