(* ===== verification/Terminal.thy ===== *)
theory Terminal
  imports Graphics
begin

text \<open>
  The text terminal, \<open>hardware/terminal.cpp\<close>: a cursor in character cells over the frame buffer
  driver. Coordinates are 16-bit and wrap around; there is no scrolling, a line past the bottom is
  written over the last one.
\<close>

unbundle bit_operations_syntax

section \<open>State and operations\<close>

record term_state =
  gfx :: gfx_state
  cur_x :: u16
  cur_y :: u16

definition set_cursor :: "u16 \<Rightarrow> u16 \<Rightarrow> term_state \<Rightarrow> term_state" where
  "set_cursor nx ny s = s\<lparr>cur_x := nx, cur_y := ny\<rparr>"

definition handle_special_characters :: "u8 \<Rightarrow> term_state \<Rightarrow> bool \<times> term_state" where
  "handle_special_characters c s =
     (let (ret, s1) =
        (if c = 10 then (True, s\<lparr>cur_y := cur_y s + 1\<rparr>)
         else if c = 9 then (True, s\<lparr>cur_x := cur_x s + 4\<rparr>)
         else if c = 13 then (True, s\<lparr>cur_x := 0\<rparr>)
         else (False, s))
      in (ret, set_cursor (cur_x s1) (cur_y s1) s1))"

text \<open>The two tests that keep the cursor on the screen, shared by both versions of \<open>write\<close>.\<close>

definition wrap_cursor :: "term_state \<Rightarrow> term_state" where
  "wrap_cursor s =
     (let mi = mode (gfx s);
          s1 = (if ucast (cur_x s) * 8 \<ge> mode_width mi
                then s\<lparr>cur_x := 0, cur_y := cur_y s + 1\<rparr> else s)
      in if ucast (cur_y s1) * 16 \<ge> mode_height mi
         then s1\<lparr>cur_x := 0, cur_y := ucast (mode_height mi div 16 - 1)\<rparr> else s1)"

definition write_char_bg :: "u8 \<Rightarrow> u32 \<Rightarrow> u32 \<Rightarrow> term_state \<Rightarrow> term_state result" where
  "write_char_bg c foreground background s =
     (let (special, s1) = handle_special_characters c s
      in if special then Inr s1
         else
           let s2 = wrap_cursor s1
           in rbind (draw_char_bg c (cur_x s2 * 8) (cur_y s2 * 16) foreground background (gfx s2)) (\<lambda>g.
                let s3 = s2\<lparr>gfx := g, cur_x := cur_x s2 + 1\<rparr>
                in Inr (set_cursor (cur_x s3) (cur_y s3) s3)))"

definition write_char :: "u8 \<Rightarrow> u32 \<Rightarrow> term_state \<Rightarrow> term_state result" where
  "write_char c foreground s =
     (let (special, s1) = handle_special_characters c s
      in if special then Inr s1
         else
           let s2 = wrap_cursor s1
           in rbind (draw_char c (cur_x s2 * 8) (cur_y s2 * 16) foreground (gfx s2)) (\<lambda>g.
                let s3 = s2\<lparr>gfx := g, cur_x := cur_x s2 + 1\<rparr>
                in Inr (set_cursor (cur_x s3) (cur_y s3) s3)))"

primrec write_text_bg :: "u8 list \<Rightarrow> u32 \<Rightarrow> u32 \<Rightarrow> term_state \<Rightarrow> term_state result" where
  "write_text_bg [] fg bg s = Inr s"
| "write_text_bg (c # cs) fg bg s = rbind (write_char_bg c fg bg s) (write_text_bg cs fg bg)"

primrec write_text :: "u8 list \<Rightarrow> u32 \<Rightarrow> term_state \<Rightarrow> term_state result" where
  "write_text [] fg s = Inr s"
| "write_text (c # cs) fg s = rbind (write_char c fg s) (write_text cs fg)"

definition write_line_bg :: "u8 list \<Rightarrow> u32 \<Rightarrow> u32 \<Rightarrow> term_state \<Rightarrow> term_state result" where
  "write_line_bg str fg bg s =
     rbind (write_text_bg str fg bg s) (write_text_bg [13, 10] fg bg)"

definition write_line :: "u8 list \<Rightarrow> u32 \<Rightarrow> term_state \<Rightarrow> term_state result" where
  "write_line str fg s = rbind (write_text str fg s) (write_text [13, 10] fg)"

section \<open>The cursor stays on the screen\<close>

text \<open>A screen divided into whole character cells.\<close>

definition term_ok :: "term_state \<Rightarrow> bool" where
  "term_ok s \<longleftrightarrow> screen_ok (mode (gfx s)) \<and> is_working (gfx s) \<and>
     8 dvd unat (mode_width (mode (gfx s))) \<and> 16 dvd unat (mode_height (mode (gfx s))) \<and>
     0 < unat (mode_width (mode (gfx s))) \<and> 0 < unat (mode_height (mode (gfx s)))"

lemma unat_ucast_mult:
  assumes "k \<le> 256"
  shows "unat (ucast (w :: u16) * of_nat k :: u32) = unat w * k"
proof -
  have w: "unat w < 65536" using unsigned_less [where w = w and 'a = nat] by simp
  then have u: "unat (ucast w :: u32) = unat w" by (simp add: unsigned_ucast_eq take_bit_nat_eq_self)
  have "unat w * k \<le> 65536 * 256" using w assms by (intro mult_le_mono) simp_all
  then show ?thesis using u assms by (simp add: unat_word_ariths unat_of_nat)
qed

lemma wrap_cursor_cell:
  assumes "term_ok s"
  shows "unat (cur_x (wrap_cursor s)) * 8 + 8 \<le> unat (mode_width (mode (gfx s)))"
    and "unat (cur_y (wrap_cursor s)) * 16 + 16 \<le> unat (mode_height (mode (gfx s)))"
    and "gfx (wrap_cursor s) = gfx s"
proof -
  define mi where "mi = mode (gfx s)"
  obtain W H where wh0: "unat (mode_width mi) = 8 * W" "unat (mode_height mi) = 16 * H"
    using assms unfolding term_ok_def mi_def dvd_def by blast
  then have wh: "unat (mode_width mi) = 8 * W" "unat (mode_height mi) = 16 * H" "0 < W" "0 < H"
    using assms by (auto simp: term_ok_def mi_def)
  have H: "16 * H \<le> 65536" using assms wh by (simp add: term_ok_def screen_ok_def mi_def)
  have x8: "unat (ucast w * 8 :: u32) = unat w * 8" for w :: u16 using unat_ucast_mult [of 8 w] by simp
  have y16: "unat (ucast w * 16 :: u32) = unat w * 16" for w :: u16 using unat_ucast_mult [of 16 w] by simp
  define s1 where "s1 = (if ucast (cur_x s) * 8 \<ge> mode_width mi
                then s\<lparr>cur_x := 0, cur_y := cur_y s + 1\<rparr> else s)"
  have w: "wrap_cursor s = (if ucast (cur_y s1) * 16 \<ge> mode_height mi
         then s1\<lparr>cur_x := 0, cur_y := ucast (mode_height mi div 16 - 1)\<rparr> else s1)"
    by (simp add: wrap_cursor_def s1_def mi_def Let_def)
  have g: "gfx s1 = gfx s" by (simp add: s1_def)
  have x1: "unat (cur_x s1) < W"
    using x8 [of "cur_x s"] wh by (auto simp: s1_def word_le_nat_alt)
  have hi: "unat (ucast (mode_height mi div 16 - 1) :: u16) = H - 1"
  proof -
    have "unat (mode_height mi div 16 - 1) = H - 1"
      using wh by (simp add: unat_sub word_le_nat_alt unat_div)
    then show ?thesis using H by (simp add: unsigned_ucast_eq take_bit_nat_eq_self)
  qed
  show "unat (cur_x (wrap_cursor s)) * 8 + 8 \<le> unat (mode_width (mode (gfx s)))"
    using x1 wh by (auto simp: w simp flip: mi_def)
  show "unat (cur_y (wrap_cursor s)) * 16 + 16 \<le> unat (mode_height (mode (gfx s)))"
    using y16 [of "cur_y s1"] wh hi by (auto simp: w word_le_nat_alt simp flip: mi_def)
  show "gfx (wrap_cursor s) = gfx s" by (simp add: w g)
qed

lemma unat_mult_u16: "unat a * unat b < 65536 \<Longrightarrow> unat (a * b) = unat a * unat b" for a b :: u16
  by (simp add: unat_word_ariths)

lemma wrapped_cell:
  assumes "term_ok s"
  shows "screen_ok (mode (gfx (wrap_cursor s)))" "is_working (gfx (wrap_cursor s))"
    and "cell_ok (mode (gfx (wrap_cursor s))) (unat (cur_x (wrap_cursor s) * 8)) (unat (cur_y (wrap_cursor s) * 16))"
proof -
  define s2 where "s2 = wrap_cursor s"
  note cell = wrap_cursor_cell [OF assms, folded s2_def]
  have small: "unat (mode_width (mode (gfx s))) \<le> 65536" "unat (mode_height (mode (gfx s))) \<le> 65536"
    using assms by (simp_all add: term_ok_def screen_ok_def)
  have xy: "unat (cur_x s2 * 8) = unat (cur_x s2) * 8" "unat (cur_y s2 * 16) = unat (cur_y s2) * 16"
    using cell(1,2) small unat_mult_u16 [of "cur_x s2" 8] unat_mult_u16 [of "cur_y s2" 16] by simp_all
  show "screen_ok (mode (gfx (wrap_cursor s)))" "is_working (gfx (wrap_cursor s))"
    using assms cell(3) by (simp_all add: term_ok_def s2_def)
  have "cell_ok (mode (gfx s2)) (unat (cur_x s2 * 8)) (unat (cur_y s2 * 16))"
    using cell small xy by (simp add: cell_ok_def)
  then show "cell_ok (mode (gfx (wrap_cursor s))) (unat (cur_x (wrap_cursor s) * 8)) (unat (cur_y (wrap_cursor s) * 16))"
    by (simp add: s2_def)
qed

text \<open>\<open>shows_text run\<close>: on a good screen \<open>run\<close> returns, and changes only pixels.\<close>

definition shows_text :: "(term_state \<Rightarrow> term_state result) \<Rightarrow> bool" where
  "shows_text run \<longleftrightarrow> (\<forall>s. term_ok s \<longrightarrow> (\<exists>s' F. run s = Inr s' \<and> draws (gfx s) (gfx s') F \<and> term_ok s'))"

lemma shows_textD:
  assumes "shows_text run" "term_ok s"
  obtains s' F where "run s = Inr s'" "draws (gfx s) (gfx s') F" "term_ok s'"
  using assms by (auto simp: shows_text_def)

lemma shows_text_bind:
  assumes "shows_text f" "shows_text g"
  shows "shows_text (\<lambda>s. rbind (f s) g)"
  unfolding shows_text_def
proof (intro allI impI)
  fix s assume ok: "term_ok s"
  obtain s1 F where s1: "f s = Inr s1" "draws (gfx s) (gfx s1) F" "term_ok s1"
    by (rule shows_textD [OF assms(1) ok])
  obtain s2 G where s2: "g s1 = Inr s2" "draws (gfx s1) (gfx s2) G" "term_ok s2"
    by (rule shows_textD [OF assms(2) s1(3)])
  have "draws (gfx s) (gfx s2) (\<lambda>x y. case G x y of Some c \<Rightarrow> Some c | None \<Rightarrow> F x y)"
    by (rule draws_trans [OF s1(2) s2(2)]) simp
  then show "\<exists>s' F. rbind (f s) g = Inr s' \<and> draws (gfx s) (gfx s') F \<and> term_ok s'"
    using s1(1) s2(1,3) by auto
qed

lemma shows_text_id [simp]: "shows_text Inr"
  using draws_refl by (auto simp: shows_text_def)

lemma special_draws:
  assumes "term_ok s" "c = 10 \<or> c = 9 \<or> c = 13"
  obtains s1 where "handle_special_characters c s = (True, s1)" "gfx s1 = gfx s" "term_ok s1"
  using assms by (auto simp: handle_special_characters_def set_cursor_def term_ok_def)

lemma not_special: "\<not> (c = 10 \<or> c = 9 \<or> c = 13) \<Longrightarrow> handle_special_characters c s = (False, s)"
  by (simp add: handle_special_characters_def set_cursor_def)

lemma drawn_cell:
  assumes "term_ok s" "draws (gfx (wrap_cursor s)) g F"
  shows "draws (gfx s) g F" "term_ok ((wrap_cursor s)\<lparr>gfx := g, cur_x := x\<rparr>)"
  using assms(2) draws_mode [OF assms(2)] wrap_cursor_cell(3) [OF assms(1)] assms(1)
  by (simp_all add: term_ok_def)

lemma write_char_bg_draws:
  assumes "c < 128"
  shows "shows_text (write_char_bg c fg bg)"
  unfolding shows_text_def
proof (intro allI impI)
  fix s assume ok: "term_ok s"
  show "\<exists>s' F. write_char_bg c fg bg s = Inr s' \<and> draws (gfx s) (gfx s') F \<and> term_ok s'"
  proof (cases "c = 10 \<or> c = 9 \<or> c = 13")
    case True
    then obtain s1 where "handle_special_characters c s = (True, s1)" "gfx s1 = gfx s" "term_ok s1"
      by (rule special_draws [OF ok])
    then show ?thesis using draws_refl [of "gfx s"] by (auto simp: write_char_bg_def)
  next
    case False
    note cell = wrapped_cell [OF ok]
    have "\<exists>g F. draw_char_bg c (cur_x (wrap_cursor s) * 8) (cur_y (wrap_cursor s) * 16) fg bg (gfx (wrap_cursor s)) = Inr g \<and>
        draws (gfx (wrap_cursor s)) g F"
    proof (cases "c = 0")
      case True
      then show ?thesis using draws_refl by (auto simp: draw_char_bg_def)
    next
      case nz: False
      show ?thesis using draw_char_bg_draws [OF cell assms nz] False by blast
    qed
    then show ?thesis
      using not_special [OF False] drawn_cell [OF ok]
      by (fastforce simp: write_char_bg_def set_cursor_def Let_def)
  qed
qed

lemma write_char_draws:
  assumes "c < 128"
  shows "shows_text (write_char c fg)"
  unfolding shows_text_def
proof (intro allI impI)
  fix s assume ok: "term_ok s"
  show "\<exists>s' F. write_char c fg s = Inr s' \<and> draws (gfx s) (gfx s') F \<and> term_ok s'"
  proof (cases "c = 10 \<or> c = 9 \<or> c = 13")
    case True
    then obtain s1 where "handle_special_characters c s = (True, s1)" "gfx s1 = gfx s" "term_ok s1"
      by (rule special_draws [OF ok])
    then show ?thesis using draws_refl [of "gfx s"] by (auto simp: write_char_def)
  next
    case False
    note cell = wrapped_cell [OF ok]
    have "\<exists>g F. draw_char c (cur_x (wrap_cursor s) * 8) (cur_y (wrap_cursor s) * 16) fg (gfx (wrap_cursor s)) = Inr g \<and>
        draws (gfx (wrap_cursor s)) g F"
    proof (cases "c = 0")
      case True
      then show ?thesis using draws_refl by (auto simp: draw_char_def)
    next
      case nz: False
      show ?thesis using draw_char_draws [OF cell assms nz] by blast
    qed
    then show ?thesis
      using not_special [OF False] drawn_cell [OF ok]
      by (fastforce simp: write_char_def set_cursor_def Let_def)
  qed
qed

lemma write_text_bg_draws: "\<forall>c \<in> set str. c < 128 \<Longrightarrow> shows_text (write_text_bg str fg bg)"
proof (induction str)
  case (Cons c cs)
  then show ?case using shows_text_bind [OF write_char_bg_draws] by (simp add: shows_text_def)
qed (simp add: shows_text_def draws_refl exI [of _ "\<lambda>_ _. None"])

lemma write_text_draws: "\<forall>c \<in> set str. c < 128 \<Longrightarrow> shows_text (write_text str fg)"
proof (induction str)
  case (Cons c cs)
  then show ?case using shows_text_bind [OF write_char_draws] by (simp add: shows_text_def)
qed (simp add: shows_text_def draws_refl exI [of _ "\<lambda>_ _. None"])

lemma write_line_draws:
  assumes "\<forall>c \<in> set str. c < 128"
  shows "shows_text (write_line_bg str fg bg)" "shows_text (write_line str fg)"
proof -
  have crlf: "\<forall>c \<in> set [13, 10 :: u8]. c < 128" by simp
  show "shows_text (write_line_bg str fg bg)"
    using shows_text_bind [OF write_text_bg_draws [OF assms] write_text_bg_draws [OF crlf]]
    unfolding write_line_bg_def .
  show "shows_text (write_line str fg)"
    using shows_text_bind [OF write_text_draws [OF assms] write_text_draws [OF crlf]]
    unfolding write_line_def .
qed

section \<open>Properties\<close>

definition demo_term :: term_state where
  "demo_term = \<lparr>gfx = demo_gfx, cur_x = 2, cur_y = 0\<rparr>"

lemma demo_term_ok: "term_ok demo_term"
  using demo_screen_ok by (simp add: term_ok_def demo_term_def demo_gfx_def demo_mode_def)

text \<open>C24: on a screen of whole character cells, writing any line of ASCII text returns, wherever
  the cursor was, and no byte outside the frame buffer changes.\<close>

theorem write_line_stays_on_screen:
  assumes "term_ok s" and "\<forall>c \<in> set str. c < 128"
  shows "\<forall>run \<in> {write_line_bg str fg bg, write_line str fg}. \<exists>s'. run s = Inr s' \<and> term_ok s' \<and>
    (\<forall>a. \<not> in_framebuffer (mode (gfx s)) a \<longrightarrow> vmem (gfx s') a = vmem (gfx s) a)"
proof
  fix run assume "run \<in> {write_line_bg str fg bg, write_line str fg}"
  then have "shows_text run" using write_line_draws [OF assms(2)] by blast
  then obtain s' F where "run s = Inr s'" "draws (gfx s) (gfx s') F" "term_ok s'"
    using assms(1) by (rule shows_textD)
  then show "\<exists>s'. run s = Inr s' \<and> term_ok s' \<and>
      (\<forall>a. \<not> in_framebuffer (mode (gfx s)) a \<longrightarrow> vmem (gfx s') a = vmem (gfx s) a)"
    by (auto simp: draws_def)
qed

theorem write_line_stays_on_screen_witness:
  "\<exists>s'. write_line_bg [72, 105] 0xFFFFFF 0 demo_term = Inr s' \<and> vmem (gfx s') 0x1400 = 0"
proof -
  have "\<not> in_framebuffer (mode (gfx demo_term)) 0x1400"
    by (simp add: in_framebuffer_def in_range_def demo_term_def demo_gfx_def demo_mode_def)
  moreover have "vmem (gfx demo_term) 0x1400 = 0" by (simp add: demo_term_def demo_gfx_def)
  ultimately show ?thesis
    using write_line_stays_on_screen [OF demo_term_ok, of "[72, 105]" "0xFFFFFF" 0] by auto
qed

text \<open>Past the bottom the terminal does not scroll: a printable character goes to the start of
  the last line, and the cursor ends one cell to its right.\<close>

theorem bottom_line_is_overwritten:
  assumes "term_ok s" and "32 \<le> c" and "c < 128"
    and "unat (mode_height (mode (gfx s))) \<le> unat (cur_y s) * 16"
    and "unat (cur_x s) * 8 < unat (mode_width (mode (gfx s)))"
  shows "\<exists>s'. write_char_bg c fg bg s = Inr s' \<and> cur_x s' = 1 \<and>
    unat (cur_y s') = unat (mode_height (mode (gfx s))) div 16 - 1 \<and>
    draws (gfx s) (gfx s') (glyph_cell c 0 (unat (mode_height (mode (gfx s))) - 16) (Some fg) (Some bg))"
proof -
  define s2 where "s2 = wrap_cursor s"
  note cell = wrap_cursor_cell [OF assms(1), folded s2_def]
  let ?h = "unat (mode_height (mode (gfx s)))"
  have "\<not> mode_width (mode (gfx s)) \<le> ucast (cur_x s) * 8" "mode_height (mode (gfx s)) \<le> ucast (cur_y s) * 16"
    using assms(4,5) unat_ucast_mult [of 8 "cur_x s"] unat_ucast_mult [of 16 "cur_y s"]
    by (simp_all add: word_le_nat_alt)
  then have s2: "cur_x s2 = 0" "cur_y s2 = ucast (mode_height (mode (gfx s)) div 16 - 1)"
    by (simp_all add: s2_def wrap_cursor_def Let_def)
  have h: "?h \<le> 65536" "16 dvd ?h" "0 < ?h" using assms(1) by (simp_all add: term_ok_def screen_ok_def)
  then have h16: "16 \<le> ?h" by (auto dest: dvd_imp_le)
  have "unat (mode_height (mode (gfx s)) div 16 - 1) = ?h div 16 - 1"
    using h16 by (simp add: unat_sub word_le_nat_alt unat_div)
  then have y: "unat (cur_y s2) = ?h div 16 - 1"
    using h(1) by (simp add: s2(2) unsigned_ucast_eq take_bit_nat_eq_self)
  have y16: "unat (cur_y s2 * 16) = ?h - 16"
    using y h h16 unat_mult_u16 [of "cur_y s2" 16] by (auto simp: dvd_def)
  have ok: "screen_ok (mode (gfx s2))" "is_working (gfx s2)" using assms(1) cell(3) by (simp_all add: term_ok_def)
  have c: "cell_ok (mode (gfx s2)) (unat (cur_x s2 * 8)) (unat (cur_y s2 * 16))"
    using cell s2(1) y16 h h16 by (simp add: cell_ok_def)
  have nc: "c \<noteq> 0" "c \<noteq> 10" "c \<noteq> 9" "c \<noteq> 13" using assms(2) by auto
  obtain g where g: "draw_char_bg c (cur_x s2 * 8) (cur_y s2 * 16) fg bg (gfx s2) = Inr g"
    "draws (gfx s2) g (glyph_cell c (unat (cur_x s2 * 8)) (unat (cur_y s2 * 16)) (Some fg) (Some bg))"
    using draw_char_bg_draws [OF ok c assms(3) nc] by blast
  have "write_char_bg c fg bg s = Inr (s2\<lparr>gfx := g, cur_x := 1, cur_y := cur_y s2\<rparr>)"
    using g(1) nc s2(1) by (simp add: write_char_bg_def handle_special_characters_def set_cursor_def s2_def Let_def)
  then show ?thesis using g(2) y y16 s2(1) cell(3) by simp
qed

theorem bottom_line_is_overwritten_witness:
  "\<exists>s'. write_char_bg 65 0xFFFFFF 0 (demo_term\<lparr>cur_x := 0, cur_y := 1\<rparr>) = Inr s' \<and> cur_x s' = 1 \<and> cur_y s' = 0"
proof -
  have "term_ok (demo_term\<lparr>cur_x := 0, cur_y := 1\<rparr>)" using demo_term_ok by (simp add: term_ok_def)
  from bottom_line_is_overwritten [OF this, of 65 "0xFFFFFF" 0] show ?thesis
    by (auto simp: demo_term_def demo_gfx_def demo_mode_def unat_eq_zero)
qed

end
