(* ===== verification/Ports.thy ===== *)
theory Ports
  imports KernelHeap
begin

text \<open>
  What the kernel shares with devices and with the processor: \<open>hardware/port.cpp\<close>,
  \<open>hardware/msr.cpp\<close> and the rest of \<open>hardware/cpu/cpu.cpp\<close>. Every access of a device is recorded in
  a trace; what a device answers is up to the environment, a function of the accesses so far.
\<close>

unbundle bit_operations_syntax

section \<open>Devices\<close>

text \<open>An access goes to an I/O port or to a physical address that a device occupies; it is one, two
  or four bytes wide.\<close>

datatype io_place = Port u16 | Mmio u64

datatype io_event =
    Wrote io_place nat u32
  | Read io_place nat u32

text \<open>The answer of the environment to a read of so many bytes, after the given accesses.\<close>

type_synonym devices = "io_event list \<Rightarrow> io_place \<Rightarrow> nat \<Rightarrow> u32"

text \<open>The processor adds its model-specific registers.\<close>

record device_state = heap_state +
  io_trace :: "io_event list"
  msrs :: "u32 \<Rightarrow> u64"

definition io_write :: "io_place \<Rightarrow> nat \<Rightarrow> u32 \<Rightarrow> 'a device_state_scheme \<Rightarrow> 'a device_state_scheme" where
  "io_write p n v s = s\<lparr>io_trace := io_trace s @ [Wrote p n v]\<rparr>"

definition io_read ::
  "devices \<Rightarrow> io_place \<Rightarrow> nat \<Rightarrow> 'a device_state_scheme \<Rightarrow> u32 \<times> 'a device_state_scheme" where
  "io_read dev p n s =
     (let v = take_bit (8 * n) (dev (io_trace s) p n)
      in (v, s\<lparr>io_trace := io_trace s @ [Read p n v]\<rparr>))"

section \<open>Ports\<close>

definition outb :: "u16 \<Rightarrow> u8 \<Rightarrow> 'a device_state_scheme \<Rightarrow> 'a device_state_scheme" where
  "outb port v s = io_write (Port port) 1 (ucast v) s"

definition inb :: "devices \<Rightarrow> u16 \<Rightarrow> 'a device_state_scheme \<Rightarrow> u8 \<times> 'a device_state_scheme" where
  "inb dev port s = (let (v, s1) = io_read dev (Port port) 1 s in (ucast v, s1))"

definition outw :: "u16 \<Rightarrow> u16 \<Rightarrow> 'a device_state_scheme \<Rightarrow> 'a device_state_scheme" where
  "outw port v s = io_write (Port port) 2 (ucast v) s"

definition inw :: "devices \<Rightarrow> u16 \<Rightarrow> 'a device_state_scheme \<Rightarrow> u16 \<times> 'a device_state_scheme" where
  "inw dev port s = (let (v, s1) = io_read dev (Port port) 2 s in (ucast v, s1))"

definition outd :: "u16 \<Rightarrow> u32 \<Rightarrow> 'a device_state_scheme \<Rightarrow> 'a device_state_scheme" where
  "outd port v s = io_write (Port port) 4 v s"

definition ind :: "devices \<Rightarrow> u16 \<Rightarrow> 'a device_state_scheme \<Rightarrow> u32 \<times> 'a device_state_scheme" where
  "ind dev port s = io_read dev (Port port) 4 s"

definition io_wait :: "'a device_state_scheme \<Rightarrow> 'a device_state_scheme" where
  "io_wait s = outb 0x80 0 s"

lemmas port_out_defs = outb_def outw_def outd_def io_wait_def io_write_def

lemmas port_in_defs = inb_def inw_def ind_def io_read_def Let_def

section \<open>Model-specific registers\<close>

text \<open>\<open>rdmsr\<close> leaves the two halves of the register in the low halves of \<open>rax\<close> and \<open>rdx\<close>.\<close>

definition apic_base :: u32 where "apic_base = 0x1b"

definition msr_read :: "u32 \<Rightarrow> 'a device_state_scheme \<Rightarrow> u64" where
  "msr_read msr s =
     (let value_low = ucast (ucast (msrs s msr) :: u32) :: u64;
          value_high = ucast (ucast (drop_bit 32 (msrs s msr)) :: u32) :: u64
      in value_low OR push_bit 32 value_high)"

definition msr_write :: "u32 \<Rightarrow> u64 \<Rightarrow> 'a device_state_scheme \<Rightarrow> 'a device_state_scheme" where
  "msr_write msr value s =
     (let eax = ucast value :: u32;
          edx = ucast (drop_bit 32 value) :: u32
      in s\<lparr>msrs := (msrs s)(msr := push_bit 32 (ucast edx) OR ucast eax)\<rparr>)"

lemma halves_u64:
  "(ucast (ucast v :: u32) :: u64) OR push_bit 32 (ucast (ucast (drop_bit 32 v) :: u32)) = v" for v :: u64
  by (rule bit_word_eqI) (auto simp: bit_simps)

lemma msr_read_eq [simp]: "msr_read r s = msrs s r"
  by (simp add: msr_read_def Let_def halves_u64)

lemma msr_write_eq: "msr_write r v s = s\<lparr>msrs := (msrs s)(r := v)\<rparr>"
  using halves_u64 [of v] by (simp add: msr_write_def Let_def or.commute)

section \<open>Processor identification and the end of execution\<close>

text \<open>The values of \<open>eax\<close>, \<open>ebx\<close>, \<open>ecx\<close> and \<open>edx\<close> after \<open>cpuid\<close> on this processor.\<close>

type_synonym cpuid = "u32 \<Rightarrow> u32 \<times> u32 \<times> u32 \<times> u32"

definition check_msr :: "cpuid \<Rightarrow> u32 \<Rightarrow> bool" where
  "check_msr cpuid flag = (let (a, b, c, d) = cpuid 1 in d AND flag \<noteq> 0)"

text \<open>\<open>halt_forever\<close> disables interrupts and stops the processor.\<close>

definition halt_forever :: "'a device_state_scheme \<Rightarrow> 'b result" where
  "halt_forever s = Inl Halted"

lemma check_msr_bit: "k < 32 \<Longrightarrow> check_msr cpuid (push_bit k 1) \<longleftrightarrow> bit (snd (snd (snd (cpuid 1)))) k"
proof -
  assume k: "k < 32"
  obtain a b c d where cd: "cpuid 1 = (a, b, c, d)" by (metis prod_cases4)
  have "d AND push_bit k 1 = (if bit d k then push_bit k 1 else 0)"
    by (rule bit_word_eqI) (auto simp: bit_simps)
  moreover have "bit (push_bit k 1 :: u32) k" using k by (simp add: bit_exp_iff)
  then have "push_bit k 1 \<noteq> (0 :: u32)" 
    by (rule contrapos_pn) (simp only: bit_0_eq bot_apply bot_bool_def not_False_eq_True)
  ultimately show ?thesis by (simp add: check_msr_def cd)
qed

end
