(* ===== verification/Idt.thy ===== *)
theory Idt
  imports Ports
begin

text \<open>
  Interrupts, \<open>hardware/idt.cpp\<close>: the interrupt descriptor table, its gates, and the initialisation
  that programs the two interrupt controllers and loads the table. Beside the code stand the two
  parts of the hardware that give it a meaning: how the processor reads a gate from memory, and what
  an 8259 interrupt controller does with a command or data byte.
\<close>

unbundle bit_operations_syntax

section \<open>State and operations\<close>

text \<open>\<open>Idt::Entry\<close> and \<open>Idt::Pointer\<close>.\<close>

record idt_entry =
  offset_low :: u16
  selector :: u16
  ist :: u8
  attrib :: u8
  offset_mid :: u16
  offset_high :: u32
  zero :: u32

record idt_pointer =
  limit :: u16
  base :: u64

text \<open>The statics \<open>idt_entries\<close> and \<open>idt_pointer\<close>, and the register that \<open>lidt\<close> loads. The array has
  256 elements and is indexed by bytes only.\<close>

record idt_state = device_state +
  idt_entries :: "u8 \<Rightarrow> idt_entry"
  idt_ptr :: idt_pointer
  idtr :: idt_pointer

definition set_gate ::
  "u8 \<Rightarrow> u64 \<Rightarrow> u16 \<Rightarrow> u8 \<Rightarrow> 'a idt_state_scheme \<Rightarrow> 'a idt_state_scheme" where
  "set_gate vec fn sel flags s =
     s\<lparr>idt_entries := (idt_entries s)(vec :=
        \<lparr>offset_low = ucast (fn AND 0xFFFF),
         selector = sel,
         ist = 0,
         attrib = flags,
         offset_mid = ucast (drop_bit 16 fn AND 0xFFFF),
         offset_high = ucast (drop_bit 32 fn AND 0xFFFFFFFF),
         zero = 0\<rparr>)\<rparr>"

text \<open>The sequence of port writes, each of the first eight followed by \<open>Port::wait\<close>.\<close>

definition outb_wait :: "u16 \<Rightarrow> u8 \<Rightarrow> 'a device_state_scheme \<Rightarrow> 'a device_state_scheme" where
  "outb_wait port v s = io_wait (outb port v s)"

definition remap_pics :: "'a device_state_scheme \<Rightarrow> 'a device_state_scheme" where
  "remap_pics s =
     (let s1 = outb_wait 0x20 0x11 s;
          s2 = outb_wait 0xA0 0x11 s1;
          s3 = outb_wait 0x21 32 s2;
          s4 = outb_wait 0xA1 40 s3;
          s5 = outb_wait 0x21 4 s4;
          s6 = outb_wait 0xA1 2 s5;
          s7 = outb_wait 0x21 0xff s6;
          s8 = outb_wait 0xA1 0xff s7
      in outb 0x21 0 (outb 0xA1 0 s8))"

text \<open>\<open>entries_addr\<close> is the address of \<open>idt_entries\<close>; an entry is 16 bytes long.\<close>

definition idt_init :: "u64 \<Rightarrow> 'a idt_state_scheme \<Rightarrow> 'a idt_state_scheme" where
  "idt_init entries_addr s =
     (let s1 = remap_pics s;
          s2 = s1\<lparr>idt_ptr := \<lparr>limit = 256 * 16 - 1, base = entries_addr\<rparr>\<rparr>
      in s2\<lparr>idtr := idt_ptr s2\<rparr>)"

section \<open>Gates as the processor reads them\<close>

text \<open>The bytes of a packed entry, field by field, and the table in memory.\<close>

definition entry_bytes :: "idt_entry \<Rightarrow> u8 list" where
  "entry_bytes e =
     le_bytes 2 (ucast (offset_low e)) @ le_bytes 2 (ucast (selector e)) @ [ist e, attrib e] @
     le_bytes 2 (ucast (offset_mid e)) @ le_bytes 4 (ucast (offset_high e)) @ le_bytes 4 (ucast (zero e))"

definition idt_image :: "u64 \<Rightarrow> (u8 \<Rightarrow> idt_entry) \<Rightarrow> memory" where
  "idt_image a es p = entry_bytes (es (ucast ((p - a) div 16))) ! unat ((p - a) mod 16)"

text \<open>A 64-bit gate: the handler is spread over bytes 0--1, 6--7 and 8--11, the selector is in bytes
  2--3, byte 4 holds the stack number, byte 5 the kind of gate with the present bit on top.\<close>

record gate =
  handler :: u64
  gate_selector :: u16
  stack_no :: u8
  gate_kind :: u8
  present :: bool

definition read_gate :: "memory \<Rightarrow> u64 \<Rightarrow> u8 \<Rightarrow> gate" where
  "read_gate m a vec =
     (let p = a + 16 * ucast vec
      in \<lparr>handler = load_le 2 m p OR push_bit 16 (load_le 2 m (p + 6)) OR push_bit 32 (load_le 4 m (p + 8)),
          gate_selector = ucast (load_le 2 m (p + 2)),
          stack_no = m (p + 4) AND 7,
          gate_kind = m (p + 5) AND 0x7F,
          present = bit (m (p + 5)) 7\<rparr>)"

section \<open>The interrupt controller\<close>

text \<open>
  An 8259 takes a byte with bit 4 set at its command port as the first initialisation word; the data
  port then expects the vector base, the cascade word unless bit 1 asked for a single controller,
  and, if bit 0 was set, a fourth word that chooses the mode. Only after these does a data byte set
  the interrupt mask.
\<close>

datatype pic_stage = Ready | Expect_base | Expect_cascade | Expect_mode

record pic =
  stage :: pic_stage
  single :: bool
  needs_mode :: bool
  vector_base :: u8
  cascade :: u8
  pic_mode :: u8
  irq_mask :: u8

definition pic_command :: "u8 \<Rightarrow> pic \<Rightarrow> pic" where
  "pic_command v p =
     (if bit v 4
      then p\<lparr>stage := Expect_base, single := bit v 1, needs_mode := bit v 0, pic_mode := 0, irq_mask := 0\<rparr>
      else p)"

definition pic_data :: "u8 \<Rightarrow> pic \<Rightarrow> pic" where
  "pic_data v p =
     (let last = (if needs_mode p then Expect_mode else Ready)
      in case stage p of
           Ready \<Rightarrow> p\<lparr>irq_mask := v\<rparr>
         | Expect_base \<Rightarrow> p\<lparr>vector_base := v AND 0xF8, stage := (if single p then last else Expect_cascade)\<rparr>
         | Expect_cascade \<Rightarrow> p\<lparr>cascade := v, stage := last\<rparr>
         | Expect_mode \<Rightarrow> p\<lparr>pic_mode := v, stage := Ready\<rparr>)"

text \<open>What a controller with its two ports at \<open>port\<close> and \<open>port + 1\<close> makes of a trace of accesses.\<close>

definition pic_step :: "u16 \<Rightarrow> io_event \<Rightarrow> pic \<Rightarrow> pic" where
  "pic_step port ev p =
     (case ev of
        Wrote (Port q) n v \<Rightarrow>
          if q = port then pic_command (ucast v) p
          else if q = port + 1 then pic_data (ucast v) p else p
      | _ \<Rightarrow> p)"

definition pic_after :: "u16 \<Rightarrow> io_event list \<Rightarrow> pic \<Rightarrow> pic" where
  "pic_after port evs = fold (pic_step port) evs"

lemma pic_after_append: "pic_after port (xs @ ys) p = pic_after port ys (pic_after port xs p)"
  by (simp add: pic_after_def)

definition auto_eoi :: "pic \<Rightarrow> bool" where
  "auto_eoi p = bit (pic_mode p) 1"

definition buffered_master :: "pic \<Rightarrow> bool" where
  "buffered_master p = (bit (pic_mode p) 3 \<and> bit (pic_mode p) 2)"

section \<open>Initialisation\<close>

lemma remap_pics_trace:
  "remap_pics s = s\<lparr>io_trace := io_trace s @
     concat (map (\<lambda>(q, v). [Wrote (Port q) 1 v, Wrote (Port 0x80) 1 0])
       [(0x20, 0x11), (0xA0, 0x11), (0x21, 32), (0xA1, 40), (0x21, 4), (0xA1, 2), (0x21, 0xff), (0xA1, 0xff)])
     @ [Wrote (Port 0xA1) 1 0, Wrote (Port 0x21) 1 0]\<rparr>"
  by (simp add: remap_pics_def outb_wait_def port_out_defs)

lemma idt_init_trace: "io_trace (idt_init a s) = io_trace (remap_pics s)"
  by (simp add: idt_init_def Let_def)

lemma remap_pics_master:
  "pic_after 0x20 (io_trace (remap_pics s)) p =
     \<lparr>stage = Ready, single = False, needs_mode = True, vector_base = 32, cascade = 4,
      pic_mode = 0xff, irq_mask = 0\<rparr>"
proof -
  obtain q where q: "pic_after 0x20 (io_trace s) p = q" by blast
  show ?thesis
    by (cases q) (simp add: remap_pics_trace pic_after_append q, simp add: pic_after_def pic_step_def pic_command_def pic_data_def)
qed

lemma remap_pics_slave:
  "pic_after 0xA0 (io_trace (remap_pics s)) p =
     \<lparr>stage = Ready, single = False, needs_mode = True, vector_base = 40, cascade = 2,
      pic_mode = 0xff, irq_mask = 0\<rparr>"
proof -
  obtain q where q: "pic_after 0xA0 (io_trace s) p = q" by blast
  show ?thesis
    by (cases q) (simp add: remap_pics_trace pic_after_append q, simp add: pic_after_def pic_step_def pic_command_def pic_data_def)
qed

text \<open>C25: \<open>Idt::init\<close>, whatever the two interrupt controllers did before, leaves both of them
  initialised with the interrupts 0 to 7 at the vectors 32 to 39 and the interrupts 8 to 15 at 40
  to 47, and points the processor at the 4096 bytes of \<open>idt_entries\<close>, whose gates it does not
  change. But every interrupt is unmasked, where the comment says that all are masked; and since the
  first initialisation word asks for a fourth, the byte \<open>0xff\<close> is not a mask but the mode: both
  controllers end interrupts by themselves and both act as a buffered master.\<close>

theorem idt_init_programs_pics:
  "let s' = idt_init entries_addr s;
       m = pic_after 0x20 (io_trace s') master;
       sl = pic_after 0xA0 (io_trace s') slave
   in stage m = Ready \<and> stage sl = Ready \<and> vector_base m = 32 \<and> vector_base sl = 40
    \<and> cascade m = 4 \<and> cascade sl = 2
    \<and> irq_mask m = 0 \<and> irq_mask sl = 0
    \<and> auto_eoi m \<and> auto_eoi sl \<and> buffered_master m \<and> buffered_master sl
    \<and> idtr s' = \<lparr>limit = 4095, base = entries_addr\<rparr>
    \<and> idt_entries s' = idt_entries s"
proof -
  have "idtr (idt_init entries_addr s) = \<lparr>limit = 4095, base = entries_addr\<rparr>"
    "idt_entries (idt_init entries_addr s) = idt_entries s"
    by (simp_all add: idt_init_def Let_def remap_pics_trace)
  then show ?thesis
    by (simp add: Let_def idt_init_trace remap_pics_master remap_pics_slave auto_eoi_def buffered_master_def)
qed

section \<open>Setting a gate\<close>

lemma load_le_entry:
  "load_le 2 m p = ucast (m p) OR push_bit 8 (ucast (m (p + 1)))"
  "load_le 4 m p = ucast (m p) OR push_bit 8 (ucast (m (p + 1)) OR push_bit 8 (ucast (m (p + 2)) OR
     push_bit 8 (ucast (m (p + 3)))))"
  by (simp_all add: mem_eval add.assoc)

lemma length_entry_bytes: "length (entry_bytes e) = 16"
  by (simp add: entry_bytes_def eval_nat_numeral)

lemma idt_image_at:
  assumes "i < 16"
  shows "idt_image a es (a + 16 * ucast vec + of_nat i) = entry_bytes (es vec) ! i"
proof -
  let ?d = "16 * ucast vec + of_nat i :: u64"
  have v: "unat (ucast vec :: u64) = unat vec" "unat vec < 256"
    using unsigned_less [of vec, where 'a = nat] by (simp_all add: unsigned_ucast_eq take_bit_nat_eq_self)
  have "unat ?d = 16 * unat vec + i"
    using v assms by (simp add: unat_word_ariths unat_of_nat)
  then have d: "unat (?d div 16) = unat vec" "unat (?d mod 16) = i"
    using assms by (simp_all add: unat_div unat_mod)
  have "(ucast (?d div 16) :: u8) = vec"
    using d(1) v(2) by (simp add: word_unat_eq_iff unsigned_ucast_eq take_bit_nat_eq_self)
  moreover have "a + 16 * ucast vec + of_nat i - a = ?d" by simp
  ultimately show ?thesis by (simp add: idt_image_def d(2))
qed

lemma narrow:
  "(ucast (ucast w :: u64) :: u8) = ucast w" "(ucast (ucast w :: u64) :: u16) = w"
  "(ucast (ucast x :: u64) :: u8) = ucast x"
  for w :: u16 and x :: u32
  by (rule bit_word_eqI, simp add: bit_simps)+

lemma read_gate_image:
  "read_gate (idt_image a es) a vec =
     \<lparr>handler = ucast (offset_low (es vec)) OR push_bit 16 (ucast (offset_mid (es vec)))
                OR push_bit 32 (ucast (offset_high (es vec))),
      gate_selector = selector (es vec), stack_no = ist (es vec) AND 7,
      gate_kind = attrib (es vec) AND 0x7F, present = bit (attrib (es vec)) 7\<rparr>"
proof -
  let ?m = "idt_image a es" and ?b = "entry_bytes (es vec)"
  define p :: u64 where "p = a + 16 * ucast vec"
  note at = idt_image_at [of _ a es vec, folded p_def]
  have m: "?m p = ?b ! 0" "?m (p + 1) = ?b ! 1" "?m (p + 2) = ?b ! 2" "?m (p + 3) = ?b ! 3"
    "?m (p + 4) = ?b ! 4" "?m (p + 5) = ?b ! 5" "?m (p + 6) = ?b ! 6" "?m (p + 7) = ?b ! 7"
    "?m (p + 8) = ?b ! 8" "?m (p + 9) = ?b ! 9" "?m (p + 10) = ?b ! 10" "?m (p + 11) = ?b ! 11"
    using at [of 0] at [of 1] at [of 2] at [of 3] at [of 4] at [of 5] at [of 6] at [of 7] at [of 8]
      at [of 9] at [of 10] at [of 11] by simp_all
  have b: "?b ! 0 = ucast (offset_low (es vec))" "?b ! 1 = ucast (drop_bit 8 (ucast (offset_low (es vec)) :: u64))"
    "?b ! 2 = ucast (selector (es vec))" "?b ! 3 = ucast (drop_bit 8 (ucast (selector (es vec)) :: u64))"
    "?b ! 4 = ist (es vec)" "?b ! 5 = attrib (es vec)"
    "?b ! 6 = ucast (offset_mid (es vec))" "?b ! 7 = ucast (drop_bit 8 (ucast (offset_mid (es vec)) :: u64))"
    "?b ! 8 = ucast (offset_high (es vec))" "?b ! 9 = ucast (drop_bit 8 (ucast (offset_high (es vec)) :: u64))"
    "?b ! 10 = ucast (drop_bit 16 (ucast (offset_high (es vec)) :: u64))"
    "?b ! 11 = ucast (drop_bit 24 (ucast (offset_high (es vec)) :: u64))"
    by (simp_all add: entry_bytes_def eval_nat_numeral narrow)
  have join2: "(ucast (ucast w :: u8) :: u64) OR push_bit 8 (ucast (ucast (drop_bit 8 (ucast w :: u64)) :: u8)) = ucast w"
    for w :: u16
    by (rule bit_word_eqI) (auto simp: bit_simps dest: bit_imp_le_length)
  have join4: "(ucast (ucast w :: u8) :: u64) OR push_bit 8 (ucast (ucast (drop_bit 8 (ucast w :: u64)) :: u8)
      OR push_bit 8 (ucast (ucast (drop_bit 16 (ucast w :: u64)) :: u8)
      OR push_bit 8 (ucast (ucast (drop_bit 24 (ucast w :: u64)) :: u8)))) = ucast w" for w :: u32
  proof (rule bit_word_eqI)
    fix n assume "n < LENGTH(64)"
    consider "n < 8" | "8 \<le> n" "n < 16" | "16 \<le> n" "n < 24" | "24 \<le> n" "n < 32" | "32 \<le> n" by linarith
    then show "bit ((ucast (ucast w :: u8) :: u64) OR push_bit 8 (ucast (ucast (drop_bit 8 (ucast w :: u64)) :: u8)
      OR push_bit 8 (ucast (ucast (drop_bit 16 (ucast w :: u64)) :: u8)
      OR push_bit 8 (ucast (ucast (drop_bit 24 (ucast w :: u64)) :: u8))))) n = bit (ucast w :: u64) n"
      by cases (auto simp: bit_simps dest: bit_imp_le_length)
  qed
  have sums: "(2 :: u64) + 1 = 3" "(6 :: u64) + 1 = 7" "(8 :: u64) + 1 = 9" "(8 :: u64) + 2 = 10" "(8 :: u64) + 3 = 11"
    by simp_all
  have "load_le 2 ?m p = ucast (offset_low (es vec))" "load_le 2 ?m (p + 2) = ucast (selector (es vec))"
    "load_le 2 ?m (p + 6) = ucast (offset_mid (es vec))" "load_le 4 ?m (p + 8) = ucast (offset_high (es vec))"
    by (simp_all only: load_le_entry add.assoc sums m b join2 join4)
  then show ?thesis using m b by (simp add: read_gate_def Let_def narrow flip: p_def)
qed

lemma low_bits:
  "(ucast (x AND 0xFFFF) :: u16) = ucast x" "(ucast (x AND 0xFFFFFFFF) :: u32) = ucast x" for x :: u64
proof -
  have m: "(0xFFFF :: u64) = mask 16" "(0xFFFFFFFF :: u64) = mask 32"
    by (simp_all add: mask_eq_exp_minus_1)
  show "(ucast (x AND 0xFFFF) :: u16) = ucast x" unfolding m
    by (rule bit_word_eqI) (simp only: bit_simps, simp)
  show "(ucast (x AND 0xFFFFFFFF) :: u32) = ucast x" unfolding m
    by (rule bit_word_eqI) (simp only: bit_simps, simp)
qed

text \<open>A gate that \<open>set_gate\<close> writes is read back by the processor from the table in memory with
  exactly the given handler, code segment and kind, on the current stack, and it is present if and
  only if bit 7 of the flags is set; the other 255 gates are read as before.\<close>

theorem set_gate_roundtrip:
  "read_gate (idt_image a (idt_entries (set_gate vec fn sel flags s))) a v =
     (if v = vec
      then \<lparr>handler = fn, gate_selector = sel, stack_no = 0, gate_kind = flags AND 0x7F,
            present = bit flags 7\<rparr>
      else read_gate (idt_image a (idt_entries s)) a v)"
proof -
  have "(ucast (ucast (fn AND 0xFFFF) :: u16) :: u64) OR push_bit 16 (ucast (ucast (drop_bit 16 fn AND 0xFFFF) :: u16))
      OR push_bit 32 (ucast (ucast (drop_bit 32 fn AND 0xFFFFFFFF) :: u32)) = fn"
    unfolding low_bits
  proof (rule bit_word_eqI)
    fix n assume "n < LENGTH(64)"
    then show "bit ((ucast (ucast fn :: u16) :: u64) OR push_bit 16 (ucast (ucast (drop_bit 16 fn) :: u16))
      OR push_bit 32 (ucast (ucast (drop_bit 32 fn) :: u32))) n = bit fn n"
      by (cases "n < 32") (auto simp: bit_simps)
  qed
  then show ?thesis by (simp add: read_gate_image set_gate_def)
qed

end
