(* ===== verification/LargePages.thy ===== *)
theory LargePages
  imports VmmSafety
begin

text \<open>
  Mapping a page of 4 KiB under the first large page of a window, the one whose frame is 0. For
  \<open>get_or_alloc_ent\<close> such an entry is an empty one: a new page table replaces the large page, and the
  other 511 pages of its 2 MiB lose their translation.
\<close>

unbundle bit_operations_syntax

context page_allocator
begin

text \<open>The call with which a mapping loop passes a table that exists.\<close>

lemma get_or_alloc_ent_present:
  assumes "next_table (ram s) t i = Some f" "frame_ok t"
  shows "get_or_alloc_ent alloc (t + virtual_physical_base) i perms s = Inr (f + virtual_physical_base, s)"
proof -
  have "ent (ram s) (t + virtual_physical_base) i AND address_mask = f" "f \<noteq> 0"
    using assms(1) by (auto simp: next_table_def entry_frame_def Let_def split: if_splits)
  then show ?thesis
    using table_pointer_not_null [OF assms(2)] by (simp add: get_or_alloc_ent_def)
qed

lemma descend_pd_present:
  assumes inv: "vinv s r" and pd: "table_at (ram s) r (path_to_pd v) = Some f"
  shows "rbind (get_or_alloc_ent alloc (r + virtual_physical_base) (pml4_idx (virtual_to_entries v)) perms s) (\<lambda>(pdp, s1).
    rbind (get_or_alloc_ent alloc pdp (pdp_idx (virtual_to_entries v)) perms s1) k) = k (f + virtual_physical_base, s)"
proof -
  let ?i = "pml4_idx (virtual_to_entries v)" and ?j = "pdp_idx (virtual_to_entries v)"
  obtain f1 where f1: "next_table (ram s) r ?i = Some f1" "next_table (ram s) f1 ?j = Some f"
    using pd by (auto simp: path_to_pd_def split: option.splits)
  have vp: "valid_path [?i]" by (simp add: valid_path_Cons)
  have "table_at (ram s) r [?i] = Some f1" using f1(1) by simp
  then have ok: "frame_ok r" "frame_ok f1"
    using inv_table(1) [OF inv valid_path_Nil] inv_table(1) [OF inv vp] by simp_all
  show ?thesis
    using get_or_alloc_ent_present [OF f1(1) ok(1)] get_or_alloc_ent_present [OF f1(2) ok(2)] by simp
qed

text \<open>An entry without a frame is overwritten as if it were empty.\<close>

lemma get_or_alloc_ent_clear:
  assumes inv: "vinv s r" and p: "valid_path q" "table_at (ram s) r q = Some f" and i: "i < 512"
    and e: "entry_frame (load64 (ram s) (f + 8 * i)) = 0"
  shows "get_or_alloc_ent alloc (f + virtual_physical_base) i perms (set_ent (f + virtual_physical_base) i 0 s)
    = get_or_alloc_ent alloc (f + virtual_physical_base) i perms s"
proof -
  define a where "a = f + 8 * i"
  have wf: "wf s" using inv by (simp add: vmm_inv_def)
  note f = inv_table [OF inv p]
  have own: "store64 (ram s) a 0 x = ram s x" if "own s x" for x
    using f slot_byte_page [of f i x] i that
    by (intro store64_outside) (auto simp: frame_ok_def a_def)
  obtain q s1 where run: "alloc s = Inr (q, s1)" using alloc_returns by blast
  obtain m' where run': "alloc (s\<lparr>ram := store64 (ram s) a 0\<rparr>) = Inr (q, s1\<lparr>ram := m'\<rparr>)"
    and m': "\<And>x. own s x \<Longrightarrow> m' x = ram s1 x"
    using alloc_local [OF wf own run] by blast
  have wf': "wf (s\<lparr>ram := store64 (ram s) a 0\<rparr>)" using used_ram [OF own wf] by blast
  have m'_eq: "m' = store64 (ram s1) a 0"
  proof
    fix x show "m' x = store64 (ram s1) a 0 x"
    proof (cases "own s x")
      case True
      then have "\<not> in_range x a 8"
        using f slot_byte_page [of f i x] i by (auto simp: frame_ok_def a_def)
      then show ?thesis using m' [OF True] by (simp add: store64_outside)
    next
      case False
      then have "m' x = store64 (ram s) a 0 x" using alloc_ram [OF wf' run', of x] by (simp add: own_ram)
      also have "\<dots> = store64 (ram s1) a 0 x" using alloc_ram [OF wf run False] by (intro store64_cong) simp
      finally show ?thesis .
    qed
  qed
  have zero: "entry_frame (load64 (store64 (ram s) a 0) a) = 0" by (simp add: entry_frame_def)
  show ?thesis
    using table_pointer_not_null [OF f(1)] e zero run run'
    by (simp add: get_or_alloc_ent_def set_ent_direct Let_def entry_frame_def a_def m'_eq)
qed

lemma map_page_clear:
  assumes inv: "vinv s r" and pd: "table_at (ram s) r (path_to_pd v) = Some f"
    and e: "entry_frame (load64 (ram s) (f + 8 * pd_idx (virtual_to_entries v))) = 0"
  defines "s0 \<equiv> set_ent (f + virtual_physical_base) (pd_idx (virtual_to_entries v)) 0 s"
  shows "map_pages_n (Suc n) alloc r v phys perms s0 = map_pages_n (Suc n) alloc r v phys perms s"
proof -
  have zero: "entry_ok 2 0" "bit (0 :: u64) 7 \<or> entry_frame 0 = 0" by (simp_all add: entry_ok_def entry_frame_def)
  note huge = set_huge [OF inv pd zero, folded s0_def]
  show ?thesis
    by (simp add: Let_def descend_pd_present [OF inv pd] descend_pd_present [OF huge(1,3)]
        get_or_alloc_ent_clear [OF inv valid_paths(1) pd _ e, folded s0_def])
qed

text \<open>Mapping one page under a large page with frame 0.\<close>

lemma map_page_over_first_large:
  assumes inv: "vinv s r" and perms: "perms_ok perms"
    and large: "tree_walk (ram s) r v = Page2M e" "entry_frame e = 0"
    and can: "can_alloc alloc (n + 3) s"
  shows "\<exists>s'. map_pages_n 1 alloc r v phys perms s = Inr (True, s') \<and> vinv s' r \<and>
    can_alloc alloc n s' \<and> grows s s' r \<and>
    (\<forall>w. tree_walk (ram s') r w =
      (if page_number w = page_number v then Page4K (leaf_entry phys perms)
       else if block_number 21 w = block_number 21 v then Unmapped
       else tree_walk (ram s) r w))"
proof -
  obtain f where pd: "table_at (ram s) r (path_to_pd v) = Some f"
    and ent: "load64 (ram s) (f + 8 * pd_idx (virtual_to_entries v)) = e"
    using large(1) by (auto simp: tree_walk_def Let_def split: option.splits if_splits)
  have zero: "entry_ok 2 0" "bit (0 :: u64) 7 \<or> entry_frame 0 = 0" by (simp_all add: entry_ok_def entry_frame_def)
  let ?s0 = "set_ent (f + virtual_physical_base) (pd_idx (virtual_to_entries v)) 0 s"
  note huge = set_huge [OF inv pd zero]
  have walk: "tree_walk (ram ?s0) r w = (if block_number 21 w = block_number 21 v then Unmapped else tree_walk (ram s) r w)" for w
    using huge(2) [of w] by simp
  have nl: "tree_walk (ram ?s0) r v \<noteq> Page2M d" for d by (simp add: walk)
  have eq: "map_pages_n 1 alloc r v phys perms s = map_pages_n 1 alloc r v phys perms ?s0"
    using map_page_clear [OF inv pd, of 0 phys perms] ent large(2) by (simp del: map_pages_n.simps)
  from huge(1) perms nl show ?thesis
  proof (cases rule: map_page_cases [where n = 0 and phys = phys and v = v])
    case exhausted
    then show ?thesis using huge(4) [OF can_alloc_mono [OF can, of 3]] by simp
  next
    case (mapped s')
    then show ?thesis
      unfolding eq using walk mapped(4) [OF huge(4) [OF can]] grows_trans [OF huge(5) mapped(5)]
      by (auto simp del: map_pages_n.simps(2))
  qed
qed

end

lemma map_page_over_large_zero:
  fixes s :: "'a pmm_state_scheme"
  assumes inv: "space_ok s r" and "perms_ok perms"
    and "hw_walk (ram s) r v = Page2M e" "entry_frame e = 0" and "can_alloc (pmm_alloc 1) (n + 3) s"
  shows "\<exists>s'. map_pages (pmm_alloc 1) r v phys 1 perms s = Inr (True, s') \<and> space_ok s' r \<and>
    can_alloc (pmm_alloc 1) n s' \<and> pmm.grows s s' r \<and>
    (\<forall>w. hw_walk (ram s') r w =
      (if page_number w = page_number v then Page4K (leaf_entry phys perms)
       else if block_number 21 w = block_number 21 v then Unmapped
       else hw_walk (ram s) r w))"
proof -
  obtain s' where s': "map_pages_n 1 (pmm_alloc 1) r v phys perms s = Inr (True, s')" "space_ok s' r"
    "can_alloc (pmm_alloc 1) n s'" "pmm.grows s s' r"
    "\<forall>w. tree_walk (ram s') r w =
      (if page_number w = page_number v then Page4K (leaf_entry phys perms)
       else if block_number 21 w = block_number 21 v then Unmapped else tree_walk (ram s) r w)"
    using pmm.map_page_over_first_large [OF inv assms(2) _ assms(4,5)] assms(3) space_walk [OF inv] by metis
  then show ?thesis
    using space_walk [OF inv] space_walk [OF s'(2)] by (auto simp: map_pages_def)
qed

end
