(* ===== verification/Apic.thy ===== *)
theory Apic
  imports Idt LargePages
begin

text \<open>
  The local interrupt controller, \<open>hardware/acpi/apic.cpp\<close>: its registers, which occupy a page of
  physical memory that the model-specific register \<open>apic_base\<close> names, their mapping in
  \<open>LocalApic::init\<close>, and interrupts to other processors.
\<close>

unbundle bit_operations_syntax

section \<open>State and operations\<close>

text \<open>The global \<open>lapic_base\<close>.\<close>

record apic_state = idt_state +
  lapic_base :: u64

definition icr_low :: u32 where "icr_low = 0x300"
definition icr_high :: u32 where "icr_high = 0x310"

definition TM_LEVEL :: u32 where "TM_LEVEL = 0x8000"
definition LEVELASSERT :: u32 where "LEVELASSERT = 0x4000"
definition PENDING :: u32 where "PENDING = 0x1000"
definition DM_INIT :: u32 where "DM_INIT = 0x500"
definition DM_SIPI :: u32 where "DM_SIPI = 0x600"

text \<open>The page the registers occupy, once the enable bit of \<open>apic_base\<close> is set. An access of four
  bytes whose physical address lies there goes to the controller, every other one to memory.\<close>

definition lapic_frame :: "'a device_state_scheme \<Rightarrow> u64 option" where
  "lapic_frame s = (if bit (msrs s apic_base) 11 then Some (hw_frame (msrs s apic_base)) else None)"

definition dev_load32 ::
  "devices \<Rightarrow> u64 \<Rightarrow> 'a device_state_scheme \<Rightarrow> (u32 \<times> 'a device_state_scheme) result" where
  "dev_load32 dev v s =
     (case hw_translate (ram s) (cr3 s) v of
        None \<Rightarrow> Inl PageFault
      | Some p \<Rightarrow>
          if lapic_frame s = Some (hw_frame p) then Inr (io_read dev (Mmio p) 4 s)
          else rbind (virt_load_n 4 v s) (\<lambda>w. Inr (ucast w, s)))"

definition dev_store32 :: "u64 \<Rightarrow> u32 \<Rightarrow> 'a device_state_scheme \<Rightarrow> 'a device_state_scheme result" where
  "dev_store32 v w s =
     (case hw_translate (ram s) (cr3 s) v of
        None \<Rightarrow> Inl PageFault
      | Some p \<Rightarrow>
          if lapic_frame s = Some (hw_frame p) then Inr (io_write (Mmio p) 4 w s)
          else virt_store_list (le_bytes 4 (ucast w)) v s)"

definition apic_read ::
  "devices \<Rightarrow> u32 \<Rightarrow> 'a apic_state_scheme \<Rightarrow> (u32 \<times> 'a apic_state_scheme) result" where
  "apic_read dev reg s = dev_load32 dev (lapic_base s + ucast reg) s"

definition apic_write :: "u32 \<Rightarrow> u32 \<Rightarrow> 'a apic_state_scheme \<Rightarrow> 'a apic_state_scheme result" where
  "apic_write reg v s = dev_store32 (lapic_base s + ucast reg) v s"

text \<open>The mapping uses the value of the register; the virtual address is computed from its number.\<close>

definition apic_init :: "'a apic_state_scheme \<Rightarrow> 'a apic_state_scheme result" where
  "apic_init s =
     (let apic_msr_base = msr_read apic_base s;
          s1 = s\<lparr>lapic_base := (ucast apic_base AND 0xFFFFFFFFFFFFF000) + virtual_kernel_base\<rparr>;
          apic_msr_base' = apic_msr_base OR scast (push_bit 11 1 :: u32)
      in rbind (map_pages (pmm_alloc 1) (get_current_context s1) (lapic_base s1)
                  (apic_msr_base' AND 0xFFFFFFFFFFFFF000) 1 VMM_WRITE s1)
           (\<lambda>(b, s2). Inr (msr_write apic_base apic_msr_base' s2)))"

text \<open>\<open>while (read(icr_low) & PENDING);\<close>\<close>

partial_function (option) wait_delivered ::
  "devices \<Rightarrow> 'a apic_state_scheme \<Rightarrow> 'a apic_state_scheme result option" where
  "wait_delivered dev s =
     (case apic_read dev icr_low s of
        Inl e \<Rightarrow> Some (Inl e)
      | Inr (v, s1) \<Rightarrow> if v AND PENDING \<noteq> 0 then wait_delivered dev s1 else Some (Inr s1))"

definition send_ipi :: "devices \<Rightarrow> u32 \<Rightarrow> u32 \<Rightarrow> 'a apic_state_scheme \<Rightarrow> 'a apic_state_scheme result" where
  "send_ipi dev target flags s =
     rbind (apic_write icr_high (push_bit 24 target) s) (\<lambda>s1.
     rbind (apic_write icr_low flags s1) (\<lambda>s2.
       loop_result (wait_delivered dev s2)))"

section \<open>Mapping the registers\<close>

lemma map_pages_keeps:
  fixes s :: "'a idt_state_scheme"
  assumes "map_pages (pmm_alloc 1) r v phys count perms s = Inr (b, s')"
  shows "cr3 s' = cr3 s" "io_trace s' = io_trace s" "msrs s' = msrs s"
proof -
  note run = assms [unfolded map_pages_def]
  have pmm: "pmm_alloc 1 s = Inr (p, s') \<Longrightarrow> cr3 s' = cr3 s \<and> io_trace s' = io_trace s \<and> msrs s' = msrs s"
    for s s' :: "'a idt_state_scheme" and p
    by (erule pmm_alloc_cases) (simp_all add: pmm_take_def)
  show "cr3 s' = cr3 s" by (rule map_pages_n_frame [OF _ _ run]) (use pmm in auto)
  show "io_trace s' = io_trace s" by (rule map_pages_n_frame [OF _ _ run]) (use pmm in auto)
  show "msrs s' = msrs s" by (rule map_pages_n_frame [OF _ _ run]) (use pmm in auto)
qed

lemma map_pages_keeps_lapic:
  fixes s :: "'a apic_state_scheme"
  assumes "map_pages (pmm_alloc 1) r v phys count perms s = Inr (b, s')"
  shows "lapic_base s' = lapic_base s"
proof -
  have "pmm_alloc 1 s = Inr (p, s') \<Longrightarrow> lapic_base s' = lapic_base s"
    for s s' :: "'a apic_state_scheme" and p
    by (erule pmm_alloc_cases) (simp_all add: pmm_take_def)
  then show ?thesis by (intro map_pages_n_frame [OF _ _ assms [unfolded map_pages_def]]) auto
qed

text \<open>The registers are mapped where \<open>lapic_base\<close> points, and the controller is enabled.\<close>

definition apic_ready :: "'a apic_state_scheme \<Rightarrow> bool" where
  "apic_ready s \<longleftrightarrow> bit (msrs s apic_base) 11 \<and>
     (\<forall>i < 4096. hw_translate (ram s) (cr3 s) (lapic_base s + of_nat i)
        = Some (hw_frame (msrs s apic_base) + of_nat i))"

lemma bit_hw_frame: "bit (hw_frame x) k \<longleftrightarrow> bit x k \<and> 12 \<le> k \<and> k < 52"
proof -
  have m: "(0x000FFFFFFFFFF000 :: u64) = push_bit 12 (mask 40)" by (simp add: mask_eq_exp_minus_1)
  show ?thesis unfolding hw_frame_def m by (auto simp: bit_simps)
qed

lemma hw_frame_offset:
  assumes "i < 4096"
  shows "hw_frame (hw_frame x + of_nat i) = hw_frame x"
proof -
  have small: "unat (of_nat i :: u64) < 2 ^ 12" using assms by (simp add: unat_of_nat)
  have "hw_frame x + of_nat i = hw_frame x OR of_nat i"
    using bit_small [OF small] by (intro disjunctive_add) (auto simp: bit_hw_frame not_le)
  then show ?thesis
    using bit_small [OF small] by (intro bit_word_eqI) (auto simp: bit_hw_frame bit_or_iff)
qed

lemma apic_access:
  assumes "apic_ready s" "reg < 4096"
  shows "apic_write reg v s = Inr (io_write (Mmio (hw_frame (msrs s apic_base) + ucast reg)) 4 v s)"
    and "apic_read dev reg s = Inr (io_read dev (Mmio (hw_frame (msrs s apic_base) + ucast reg)) 4 s)"
proof -
  have reg: "unat reg < 4096" using assms(2) by (simp add: word_less_nat_alt)
  have "of_nat (unat reg) = (ucast reg :: u64)" by simp
  then have "hw_translate (ram s) (cr3 s) (lapic_base s + ucast reg) = Some (hw_frame (msrs s apic_base) + ucast reg)"
    "hw_frame (hw_frame (msrs s apic_base) + ucast reg) = hw_frame (msrs s apic_base)"
    using assms(1) reg hw_frame_offset [OF reg] unfolding apic_ready_def by metis+
  then show "apic_write reg v s = Inr (io_write (Mmio (hw_frame (msrs s apic_base) + ucast reg)) 4 v s)"
    "apic_read dev reg s = Inr (io_read dev (Mmio (hw_frame (msrs s apic_base) + ucast reg)) 4 s)"
    using assms(1) by (simp_all add: apic_write_def apic_read_def dev_store32_def dev_load32_def
        lapic_frame_def apic_ready_def)
qed

lemma enabled_frame:
  assumes "unat m < 2 ^ 47"
  shows "(m OR scast (push_bit 11 1 :: u32)) AND 0xFFFFFFFFFFFFF000 = hw_frame m"
    and "hw_frame (m OR scast (push_bit 11 1 :: u32)) = hw_frame m"
    and "bit (m OR scast (push_bit 11 1 :: u32)) 11"
proof -
  have e: "(scast (push_bit 11 1 :: u32) :: u64) = 2048" by simp
  have b: "bit (2048 :: u64) k \<longleftrightarrow> k = 11" for k
  proof -
    have "(2048 :: u64) = 2 ^ 11" by simp
    then show ?thesis by (simp only: bit_exp_iff) auto
  qed
  have m: "(0xFFFFFFFFFFFFF000 :: u64) = push_bit 12 (mask 52)" by (simp add: mask_eq_exp_minus_1)
  show "(m OR scast (push_bit 11 1 :: u32)) AND 0xFFFFFFFFFFFFF000 = hw_frame m"
    unfolding e m
  proof (rule bit_word_eqI)
    fix k show "bit ((m OR 2048) AND push_bit 12 (mask 52)) k = bit (hw_frame m) k"
      using bit_small [OF assms, of k] unfolding bit_and_iff bit_or_iff bit_push_bit_iff bit_mask_iff bit_hw_frame b
      by (cases "k < 52") auto
  qed
  show "hw_frame (m OR scast (push_bit 11 1 :: u32)) = hw_frame m"
    unfolding e by (rule bit_word_eqI, unfold bit_hw_frame bit_or_iff b) auto
  show "bit (m OR scast (push_bit 11 1 :: u32)) 11" unfolding e by (simp add: bit_or_iff b)
qed

lemma frame_ok_hw_frame: "unat m < 2 ^ 47 \<Longrightarrow> frame_ok (hw_frame m)"
proof -
  assume m: "unat m < 2 ^ 47"
  have "hw_frame m AND mask 12 = 0" by (rule bit_word_eqI) (simp add: bit_simps bit_hw_frame)
  then have "aligned 12 (hw_frame m)" using and_mask_dvd_nat [of 12 "hw_frame m"] by (simp add: aligned_def)
  moreover have "hw_frame m \<le> m" unfolding hw_frame_def by (rule word_and_le2)
  ultimately show ?thesis using m by (simp add: frame_ok_def word_le_nat_alt)
qed

lemma entry_frame_huge_0: "entry_frame (huge_entry 0 3) = 0"
  by (simp add: entry_frame_def huge_entry_def address_mask_def flag_bits_def vmm_flags)

lemma hw_frame_small: "unat m < 2 ^ 46 \<Longrightarrow> unat (hw_frame m) + 4096 \<le> 2 ^ 47"
proof -
  assume m: "unat m < 2 ^ 46"
  have "hw_frame m \<le> m" unfolding hw_frame_def by (rule word_and_le2)
  then show ?thesis using m by (simp add: word_le_nat_alt)
qed

lemma page_number_offset:
  assumes "aligned 12 v" "unat v + 4096 \<le> 2 ^ 64" "i < 4096"
  shows "page_number (v + of_nat i) = page_number v"
proof -
  have "unat (v + of_nat i) = unat v + i"
    using assms(2,3) by (subst unat_add_u64) (simp_all add: unat_of_nat)
  moreover obtain k where "unat v = 4096 * k" using assms(1) by (auto simp: aligned_def)
  ultimately have "unat (v + of_nat i) div 4096 = unat v div 4096" using assms(3) by simp
  then have "drop_bit 12 (v + of_nat i) = drop_bit 12 v" by (simp add: word_unat_eq_iff unat_div drop_bit_eq_div)
  then show ?thesis by (simp add: block_number_def drop_bit_take_bit)
qed

text \<open>The bytes of one mapped page.\<close>

lemma page_translate:
  assumes "aligned 12 p" "aligned 12 v" "unat p + 4096 \<le> 2 ^ 47" "unat v + 4096 \<le> 2 ^ 64" "perms_ok perms"
    and walk: "\<And>w. page_number w = page_number v \<Longrightarrow> hw_walk m r w = Page4K (leaf_entry p perms)"
    and i: "i < 4096"
  shows "hw_translate m r (v + of_nat i) = Some (p + of_nat i)"
proof (rule leaf_translate [where n = 4096 and perms = perms])
  have "page_number (v + of_nat i) = page_number v" by (rule page_number_offset [OF assms(2,4) i])
  then show "hw_walk m r (v + of_nat i) = Page4K (leaf_entry (p + of_nat (i div 4096) * 4096) perms)"
    using walk i by simp
qed (use assms in simp_all)

lemma apic_init_maps:
  fixes s :: "'a apic_state_scheme"
  assumes "space_ok s (cr3 s)" and "can_alloc (pmm_alloc 1) (n + 3) s"
    and "hw_walk (ram s) (cr3 s) virtual_kernel_base = Page2M (huge_entry 0 3)"
    and "unat (msrs s apic_base) < 2 ^ 46"
  shows "\<exists>s'. apic_init s = Inr s' \<and> apic_ready s' \<and> space_ok s' (cr3 s') \<and>
    lapic_base s' = virtual_kernel_base \<and> lapic_frame s' = Some (hw_frame (msrs s apic_base)) \<and>
    cr3 s' = cr3 s \<and> io_trace s' = io_trace s \<and> can_alloc (pmm_alloc 1) n s' \<and> pmm.grows s s' (cr3 s) \<and>
    (\<forall>v. hw_walk (ram s') (cr3 s') v =
      (if page_number v = page_number virtual_kernel_base
       then Page4K (leaf_entry (hw_frame (msrs s apic_base)) VMM_WRITE)
       else if block_number 21 v = block_number 21 virtual_kernel_base then Unmapped
       else hw_walk (ram s) (cr3 s) v))"
proof -
  let ?m = "msrs s apic_base"
  define s1 where "s1 = s\<lparr>lapic_base := virtual_kernel_base\<rparr>"
  have msr: "unat ?m < 2 ^ 47" using assms(4) by simp
  have perms: "perms_ok VMM_WRITE" by (simp add: perms_ok_def VMM_WRITE_def)
  have inv: "space_ok s1 (cr3 s)"
    using assms(1) space_ok_same(1) [of s1 s "cr3 s"] by (simp add: s1_def)
  have can: "can_alloc (pmm_alloc 1) (n + 3) s1"
    using assms(2) by (subst can_alloc_same [of s1 s]) (simp_all add: s1_def)
  have walk1: "hw_walk (ram s1) (cr3 s) virtual_kernel_base = Page2M (huge_entry 0 3)"
    using assms(3) by (simp add: s1_def)
  obtain s2 where run: "map_pages (pmm_alloc 1) (cr3 s) virtual_kernel_base (hw_frame ?m) 1 VMM_WRITE s1 = Inr (True, s2)"
    and inv2: "space_ok s2 (cr3 s)" "can_alloc (pmm_alloc 1) n s2" "pmm.grows s1 s2 (cr3 s)"
    and walk: "\<forall>v. hw_walk (ram s2) (cr3 s) v =
      (if page_number v = page_number virtual_kernel_base then Page4K (leaf_entry (hw_frame ?m) VMM_WRITE)
       else if block_number 21 v = block_number 21 virtual_kernel_base then Unmapped
       else hw_walk (ram s1) (cr3 s) v)"
    using map_page_over_large_zero [OF inv perms walk1 entry_frame_huge_0 can, of "hw_frame ?m"] by blast
  define s' where "s' = msr_write apic_base (?m OR scast (push_bit 11 1 :: u32)) s2"
  have keeps: "cr3 s2 = cr3 s" "io_trace s2 = io_trace s" "msrs s2 = msrs s" "lapic_base s2 = virtual_kernel_base"
    using map_pages_keeps [OF run] map_pages_keeps_lapic [OF run] by (simp_all add: s1_def)
  have fields: "ram s' = ram s2" "cr3 s' = cr3 s" "io_trace s' = io_trace s" "lapic_base s' = virtual_kernel_base"
    "msrs s' apic_base = ?m OR scast (push_bit 11 1 :: u32)"
    using keeps by (simp_all add: s'_def msr_write_eq)
  have base: "(ucast apic_base AND 0xFFFFFFFFFFFFF000) + virtual_kernel_base = virtual_kernel_base"
    by (simp add: apic_base_def)
  have init: "apic_init s = Inr s'"
    using run enabled_frame(1) [OF msr]
    by (simp add: apic_init_def base s'_def get_current_context_def flip: s1_def) (simp add: s1_def)
  have inv': "space_ok s' (cr3 s')"
    using inv2(1) keeps space_ok_same(1) [of s' s2 "cr3 s"] by (simp add: s'_def msr_write_eq)
  have reach: "hw_translate (ram s') (cr3 s') (virtual_kernel_base + of_nat i) = Some (hw_frame ?m + of_nat i)"
    if "i < 4096" for i
    using frame_ok_hw_frame [OF msr] hw_frame_small [OF assms(4)] perms walk that
    by (intro page_translate [where perms = VMM_WRITE]) (simp_all add: frame_ok_def fields aligned_def mm_consts)
  have "apic_ready s'"
    using reach enabled_frame [OF msr] by (simp add: apic_ready_def fields)
  moreover have "lapic_frame s' = Some (hw_frame ?m)"
    using enabled_frame [OF msr] by (simp add: lapic_frame_def fields)
  moreover have "pmm.grows s s' (cr3 s)"
    using inv2(3) space_ok_same(2,3) [of s1 s] space_ok_same(2,3) [of s' s2]
    by (simp add: pmm.grows_def pmm.data_byte_def s'_def msr_write_eq) (simp add: s1_def)
  moreover have "can_alloc (pmm_alloc 1) n s'"
    using inv2(2) by (subst can_alloc_same [of s' s2]) (simp_all add: s'_def msr_write_eq)
  ultimately show ?thesis using init inv' walk by (auto simp: fields s1_def)
qed

lemma apic_init_frame:
  fixes s :: "'a apic_state_scheme"
  assumes "\<forall>s p s'. pmm_alloc 1 s = Inr (p, s') \<longrightarrow> g s' = g s" "\<And>s m. g (s\<lparr>ram := m\<rparr>) = g s"
    and "\<And>s b. g (s\<lparr>lapic_base := b\<rparr>) = g s" "\<And>s f. g (s\<lparr>msrs := f\<rparr>) = g s"
    and "apic_init s = Inr s'"
  shows "g s' = g s"
proof -
  define v where "v = (ucast apic_base AND 0xFFFFFFFFFFFFF000) + virtual_kernel_base"
  define w where "w = msr_read apic_base s OR scast (push_bit 11 1 :: u32)"
  define c where "c = get_current_context (s\<lparr>lapic_base := v\<rparr>)"
  have "apic_init s = rbind (map_pages (pmm_alloc 1) c v (w AND 0xFFFFFFFFFFFFF000) 1 VMM_WRITE (s\<lparr>lapic_base := v\<rparr>))
      (\<lambda>(b, s2). Inr (msr_write apic_base w s2))"
    by (simp add: apic_init_def Let_def v_def w_def c_def)
  then obtain b t where run: "map_pages (pmm_alloc 1) c v (w AND 0xFFFFFFFFFFFFF000) 1 VMM_WRITE (s\<lparr>lapic_base := v\<rparr>) = Inr (b, t)"
    and s': "s' = t\<lparr>msrs := (msrs t)(apic_base := w)\<rparr>"
    using assms(5) by (auto simp: rbind_eq_Inr msr_write_eq dest!: sym [of "Inr s'"])
  have "g t = g s"
    using map_pages_n_frame [OF assms(1,2) run [unfolded map_pages_def]] assms(3) by simp
  then show ?thesis using s' assms(4) by simp
qed

text \<open>C26: in an address space whose kernel window starts with the large page of frame 0, as
  \<open>Vmm::init\<close> makes it, and with three pages left for tables, \<open>LocalApic::init\<close> enables the controller
  and maps its page so that every register is reached at its offset from \<open>lapic_base\<close>. But
  \<open>lapic_base\<close> is \<open>virtual_kernel_base\<close> on every machine, because the code takes the number of the
  register for its value; the mapping replaces the first large page of the kernel window, and the
  other 511 pages of that window's first 2 MiB are no longer mapped. Every other translation stays.\<close>

theorem lapic_init_maps_registers:
  fixes s :: "'a apic_state_scheme"
  assumes "space_ok s (cr3 s)" and "can_alloc (pmm_alloc 1) 3 s"
    and "hw_walk (ram s) (cr3 s) virtual_kernel_base = Page2M (huge_entry 0 3)"
    and "unat (msrs s apic_base) < 2 ^ 46"
  shows "\<exists>s'. apic_init s = Inr s' \<and> apic_ready s' \<and> space_ok s' (cr3 s') \<and>
    lapic_base s' = virtual_kernel_base \<and> lapic_frame s' = Some (hw_frame (msrs s apic_base)) \<and>
    (\<forall>v. hw_walk (ram s') (cr3 s') v =
      (if page_number v = page_number virtual_kernel_base
       then Page4K (leaf_entry (hw_frame (msrs s apic_base)) VMM_WRITE)
       else if block_number 21 v = block_number 21 virtual_kernel_base then Unmapped
       else hw_walk (ram s) (cr3 s) v))"
  using apic_init_maps [of s 0] assms by auto

text \<open>The machine of the witnesses: the manager of \<open>medium_pmm\<close>, and the controller at its usual
  address; after \<open>Vmm::init\<close> it has the address space that the theorem asks for.\<close>

definition demo_machine :: apic_state where
  "demo_machine =
     \<lparr>ram = ram medium_pmm, bitmap = bitmap medium_pmm, free_pages = free_pages medium_pmm,
      total_pages = total_pages medium_pmm, bitmap_len = bitmap_len medium_pmm,
      kernel_pml4 = 0, cr3 = 0, mm_lock = 0, heap_top = heap_base,
      io_trace = [], msrs = (\<lambda>_. 0xFEE00100),
      idt_entries = (\<lambda>_. \<lparr>offset_low = 0, selector = 0, ist = 0, attrib = 0, offset_mid = 0, offset_high = 0, zero = 0\<rparr>),
      idt_ptr = \<lparr>limit = 0, base = 0\<rparr>, idtr = \<lparr>limit = 0, base = 0\<rparr>, lapic_base = 0\<rparr>"

lemma demo_machine_wf: "pmm_wf demo_machine"
  using medium_pmm_wf by (simp add: demo_machine_def pmm_wf_def pmm_own_def pmm_used_def page_marked_def)

lemma demo_machine_can_alloc: "can_alloc (pmm_alloc 1) (3 + 11) demo_machine"
proof -
  have len: "bitmap_len medium_pmm = 8210" by (simp add: medium_pmm_def)
  have "can_alloc (pmm_alloc 1) (3 + 11) medium_pmm"
    by (rule can_alloc_prefix [OF medium_pmm_wf, of 8193]) (simp_all add: len medium_pmm_marked)
  then show ?thesis by (subst can_alloc_same [of demo_machine medium_pmm]) (simp_all add: demo_machine_def)
qed

text \<open>A part of the state that neither the allocator nor a store changes is the same after
  \<open>Vmm::init\<close>.\<close>

lemma map_huge_pages_n_frame:
  assumes "\<forall>s p s'. alloc s = Inr (p, s') \<longrightarrow> g s' = g s" "\<And>s m. g (s\<lparr>ram := m\<rparr>) = g s"
    and "map_huge_pages_n n alloc r v phys perms s = Inr (b, s')"
  shows "g s' = g s"
  using assms(3)
proof (induction n arbitrary: v phys s)
  case (Suc n)
  note frame = get_or_alloc_ent_frame [of alloc g, OF assms(1,2)]
  from Suc.prems obtain t1 s1 t2 s2 s3 where
    "get_or_alloc_ent alloc (r + virtual_physical_base) (pml4_idx (virtual_to_entries v)) perms s = Inr (t1, s1)"
    "get_or_alloc_ent alloc t1 (pdp_idx (virtual_to_entries v)) perms s1 = Inr (t2, s2)"
    and put: "put_ent t2 (pd_idx (virtual_to_entries v))
      (phys OR flag_bits perms OR flag_bits VMM_PRESENT OR flag_bits VMM_LARGE) s2 = Inr s3"
    and "map_huge_pages_n n alloc r (v + 0x200000) (phys + 0x200000) perms s3 = Inr (b, s')"
    by (auto simp: Let_def rbind_eq_Inr)
  then have "g s1 = g s" "g s2 = g s1" "g s' = g s3" using frame Suc.IH by blast+
  moreover have "g s3 = g s2" using put assms(2) by (auto simp: put_ent_def set_ent_def split: if_splits)
  ultimately show ?case by simp
qed simp

lemma vmm_init_frame:
  fixes s :: "'a vmm_state_scheme"
  assumes alloc: "\<forall>s p s'. pmm_alloc 1 s = Inr (p, s') \<longrightarrow> g s' = g s" and ram: "\<And>s m. g (s\<lparr>ram := m\<rparr>) = g s"
    and "\<And>s a b. g (s\<lparr>kernel_pml4 := a, cr3 := b\<rparr>) = g s"
    and "vmm_init s = Inr s'"
  shows "g s' = g s"
  using assms(4) alloc ram
  by (auto simp: vmm_init_def new_address_space_def rbind_eq_Inr Let_def map_huge_pages_def set_context_def assms(3)
      dest!: map_huge_pages_n_frame [OF alloc ram])

lemma demo_machine_init:
  obtains s where "vmm_init demo_machine = Inr s" "space_ok s (cr3 s)" "can_alloc (pmm_alloc 1) 3 s"
    "hw_walk (ram s) (cr3 s) virtual_kernel_base = Page2M (huge_entry 0 3)"
    "msrs s = msrs demo_machine" "io_trace s = []"
proof (rule vmm_init_room [OF demo_machine_wf demo_machine_can_alloc])
  fix s assume run: "vmm_init demo_machine = Inr s" "space_ok s (cr3 s)" "can_alloc (pmm_alloc 1) 3 s"
    and walk: "hw_walk (ram s) (cr3 s) =
      edit_range 21 virtual_physical_base 2048 (\<lambda>k _. Page2M (huge_entry (of_nat k * 0x200000) 3))
        (edit_range 21 virtual_kernel_base 64 (\<lambda>k _. Page2M (huge_entry (of_nat k * 0x200000) 3))
          (\<lambda>_. Unmapped))"
  have "\<not> steps 21 virtual_physical_base virtual_kernel_base < 2048" "steps 21 virtual_kernel_base virtual_kernel_base = 0"
    using int_steps [of 21 virtual_physical_base virtual_kernel_base] by (simp_all add: steps_0 mm_consts)
  then have "hw_walk (ram s) (cr3 s) virtual_kernel_base = Page2M (huge_entry 0 3)"
    by (simp add: walk edit_range_def)
  moreover have pmm: "pmm_alloc 1 s = Inr (p, s') \<Longrightarrow> msrs s' = msrs s \<and> io_trace s' = io_trace s"
    for s s' :: apic_state and p
    by (erule pmm_alloc_cases) (simp_all add: pmm_take_def)
  have "msrs s = msrs demo_machine" by (rule vmm_init_frame [OF _ _ _ run(1)]) (use pmm in auto)
  moreover have "io_trace s = io_trace demo_machine" by (rule vmm_init_frame [OF _ _ _ run(1)]) (use pmm in auto)
  ultimately show thesis using that run by (simp add: demo_machine_def)
qed

theorem lapic_init_maps_registers_witness:
  "\<exists>s s'. vmm_init demo_machine = Inr s \<and> apic_init s = Inr s' \<and> apic_ready s' \<and>
     lapic_base s' = virtual_kernel_base \<and> lapic_frame s' = Some 0xFEE00000"
proof -
  obtain s where s: "vmm_init demo_machine = Inr s" "space_ok s (cr3 s)" "can_alloc (pmm_alloc 1) 3 s"
    "hw_walk (ram s) (cr3 s) virtual_kernel_base = Page2M (huge_entry 0 3)" "msrs s = msrs demo_machine"
    using demo_machine_init by blast
  have "unat (msrs s apic_base) < 2 ^ 46" "hw_frame (msrs s apic_base) = 0xFEE00000"
    by (simp_all add: s(5) demo_machine_def hw_frame_def)
  then show ?thesis using lapic_init_maps_registers [OF s(2-4)] s(1) by auto
qed

section \<open>Interrupts to other processors\<close>

text \<open>The trace after so many reads of a register, and whether the next one shows the pending
  bit.\<close>

primrec poll_trace :: "devices \<Rightarrow> u64 \<Rightarrow> io_event list \<Rightarrow> nat \<Rightarrow> io_event list" where
  "poll_trace dev p tr 0 = tr"
| "poll_trace dev p tr (Suc n) =
     poll_trace dev p (tr @ [Read (Mmio p) 4 (dev tr (Mmio p) 4)]) n"

definition busy :: "devices \<Rightarrow> u64 \<Rightarrow> io_event list \<Rightarrow> nat \<Rightarrow> bool" where
  "busy dev p tr n \<longleftrightarrow> dev (poll_trace dev p tr n) (Mmio p) 4 AND PENDING \<noteq> 0"

definition icr_addr :: "'a apic_state_scheme \<Rightarrow> u64" where
  "icr_addr s = hw_frame (msrs s apic_base) + ucast icr_low"

lemma busy_Suc: "busy dev p (tr @ [Read (Mmio p) 4 (dev tr (Mmio p) 4)]) n = busy dev p tr (Suc n)"
  by (simp add: busy_def)

lemma apic_ready_trace [simp]: "apic_ready (s\<lparr>io_trace := tr\<rparr>) = apic_ready s"
  by (simp add: apic_ready_def)

lemma icr_addr_trace [simp]: "icr_addr (s\<lparr>io_trace := tr\<rparr>) = icr_addr s"
  by (simp add: icr_addr_def)

lemma read_icr:
  assumes "apic_ready s"
  shows "apic_read dev icr_low s =
    Inr (dev (io_trace s) (Mmio (icr_addr s)) 4,
         s\<lparr>io_trace := io_trace s @ [Read (Mmio (icr_addr s)) 4 (dev (io_trace s) (Mmio (icr_addr s)) 4)]\<rparr>)"
proof -
  have "take_bit 32 v = v" for v :: u32 by (rule bit_word_eqI) (simp add: bit_simps)
  then show ?thesis
    using apic_access(2) [OF assms, of icr_low dev]
    by (simp add: icr_low_def icr_addr_def io_read_def Let_def)
qed

lemma wait_delivered_ends:
  assumes "apic_ready s" "\<not> busy dev (icr_addr s) (io_trace s) n" "\<forall>k < n. busy dev (icr_addr s) (io_trace s) k"
  shows "wait_delivered dev s = Some (Inr (s\<lparr>io_trace := poll_trace dev (icr_addr s) (io_trace s) (Suc n)\<rparr>))"
  using assms
proof (induction n arbitrary: s)
  case 0
  then show ?case by (subst wait_delivered.simps) (simp add: read_icr busy_def)
next
  case (Suc n)
  let ?s = "s\<lparr>io_trace := io_trace s @ [Read (Mmio (icr_addr s)) 4 (dev (io_trace s) (Mmio (icr_addr s)) 4)]\<rparr>"
  have "wait_delivered dev s = wait_delivered dev ?s"
    using Suc.prems(1,3) by (subst wait_delivered.simps) (auto simp: read_icr busy_def)
  moreover have "\<not> busy dev (icr_addr ?s) (io_trace ?s) n" "\<forall>k < n. busy dev (icr_addr ?s) (io_trace ?s) k"
    using Suc.prems(2,3) by (auto simp: busy_Suc)
  ultimately show ?case using Suc.IH [of ?s] Suc.prems(1) by simp
qed

lemma wait_delivered_returns:
  assumes "wait_delivered dev s = Some r"
  shows "apic_ready s \<longrightarrow> (\<exists>n. \<not> busy dev (icr_addr s) (io_trace s) n)"
proof (rule wait_delivered.raw_induct
    [where P = "\<lambda>dev s r. apic_ready s \<longrightarrow> (\<exists>n. \<not> busy dev (icr_addr s) (io_trace s) n)", OF _ assms], intro impI)
  fix f dev and s :: "'a apic_state_scheme" and r
  assume IH: "\<And>dev s r. f dev s = Some r \<Longrightarrow> apic_ready s \<longrightarrow> (\<exists>n. \<not> busy dev (icr_addr s) (io_trace s) n)"
    and run: "(case apic_read dev icr_low s of Inl e \<Rightarrow> Some (Inl e)
      | Inr (v, s1) \<Rightarrow> if v AND PENDING \<noteq> 0 then f dev s1 else Some (Inr s1)) = Some r"
    and ready: "apic_ready s"
  let ?s = "s\<lparr>io_trace := io_trace s @ [Read (Mmio (icr_addr s)) 4 (dev (io_trace s) (Mmio (icr_addr s)) 4)]\<rparr>"
  show "\<exists>n. \<not> busy dev (icr_addr s) (io_trace s) n"
  proof (cases "busy dev (icr_addr s) (io_trace s) 0")
    case True
    then have "f dev ?s = Some r" using run ready by (simp add: read_icr busy_def)
    then show ?thesis using IH [of dev ?s r] ready by (auto simp: busy_Suc)
  qed blast
qed

lemma send_ipi_run:
  fixes s :: "'a apic_state_scheme"
  assumes "apic_ready s" and p_def: "p = hw_frame (msrs s apic_base) + 0x300"
    and tr_def: "tr = io_trace s @ [Wrote (Mmio (p + 0x10)) 4 (push_bit 24 target), Wrote (Mmio p) 4 flags]"
  shows "(\<forall>n. \<not> busy dev p tr n \<and> (\<forall>k < n. busy dev p tr k) \<longrightarrow>
      send_ipi dev target flags s = Inr (s\<lparr>io_trace := poll_trace dev p tr (Suc n)\<rparr>)) \<and>
    ((\<forall>n. busy dev p tr n) \<longrightarrow> send_ipi dev target flags s = Inl Diverges)"
proof -
  let ?f = "hw_frame (msrs s apic_base)"
  define s2 where "s2 = s\<lparr>io_trace := tr\<rparr>"
  have high: "apic_write icr_high v t = Inr (io_write (Mmio (hw_frame (msrs t apic_base) + 0x310)) 4 v t)"
    and low: "apic_write icr_low v t = Inr (io_write (Mmio (hw_frame (msrs t apic_base) + 0x300)) 4 v t)"
    if "apic_ready t" for t :: "'a apic_state_scheme" and v
    using apic_access(1) [OF that, of icr_high] apic_access(1) [OF that, of icr_low]
    by (simp_all add: icr_high_def icr_low_def)
  have p: "icr_addr s2 = p" "p + 0x10 = ?f + 0x310" "io_trace s2 = tr" "apic_ready s2"
    using assms(1) by (simp_all add: icr_addr_def icr_low_def p_def s2_def)
  have run: "send_ipi dev target flags s = loop_result (wait_delivered dev s2)"
    using assms(1) high low by (simp add: send_ipi_def io_write_def s2_def tr_def p_def add.commute)
  have "send_ipi dev target flags s = Inr (s\<lparr>io_trace := poll_trace dev p tr (Suc n)\<rparr>)"
    if "\<not> busy dev p tr n" "\<forall>k < n. busy dev p tr k" for n
    using wait_delivered_ends [of s2 dev n] that p by (simp add: run) (simp add: s2_def)
  moreover have "send_ipi dev target flags s = Inl Diverges" if "\<forall>n. busy dev p tr n"
    using wait_delivered_returns [of dev s2] that p by (cases "wait_delivered dev s2") (auto simp: run)
  ultimately show ?thesis by blast
qed

text \<open>C27: with its registers mapped, \<open>send_ipi\<close> writes the target to the upper and then the flags to
  the lower half of the command register, and reads the lower half until the pending bit is clear:
  it returns after exactly one read more than the controller shows the bit, with nothing else
  changed, and it never returns if the controller never clears it, for there is no timeout.\<close>

theorem send_ipi_waits_for_delivery:
  fixes s :: "'a apic_state_scheme"
  assumes "apic_ready s" and p_def: "p = hw_frame (msrs s apic_base) + 0x300"
    and tr_def: "tr = io_trace s @ [Wrote (Mmio (p + 0x10)) 4 (push_bit 24 target), Wrote (Mmio p) 4 flags]"
  shows "(\<forall>n. \<not> busy dev p tr n \<and> (\<forall>k < n. busy dev p tr k) \<longrightarrow>
      send_ipi dev target flags s = Inr (s\<lparr>io_trace := poll_trace dev p tr (Suc n)\<rparr>)) \<and>
    ((\<forall>n. busy dev p tr n) \<longrightarrow> send_ipi dev target flags s = Inl Diverges)"
  by (rule send_ipi_run [OF assms])

theorem send_ipi_waits_for_delivery_witness:
  "\<exists>s s1. vmm_init demo_machine = Inr s \<and> apic_init s = Inr s1 \<and>
     send_ipi (\<lambda>tr p n. 0) 3 0xC500 s1 = Inr (s1\<lparr>io_trace :=
       [Wrote (Mmio 0xFEE00310) 4 0x3000000, Wrote (Mmio 0xFEE00300) 4 0xC500, Read (Mmio 0xFEE00300) 4 0]\<rparr>)"
proof -
  obtain s where s: "vmm_init demo_machine = Inr s" "space_ok s (cr3 s)" "can_alloc (pmm_alloc 1) 3 s"
    "hw_walk (ram s) (cr3 s) virtual_kernel_base = Page2M (huge_entry 0 3)" "msrs s = msrs demo_machine" "io_trace s = []"
    using demo_machine_init by blast
  have m: "unat (msrs s apic_base) < 2 ^ 46" "hw_frame (msrs s apic_base) = 0xFEE00000"
    by (simp_all add: s(5) demo_machine_def hw_frame_def)
  obtain s1 where s1: "apic_init s = Inr s1" "apic_ready s1" "lapic_frame s1 = Some 0xFEE00000" "io_trace s1 = []"
    using apic_init_maps [of s 0] s(2-4) m(1) s(6) m(2) by auto
  have "hw_frame (msrs s1 apic_base) = 0xFEE00000" using s1(3) by (auto simp: lapic_frame_def split: if_splits)
  then have p: "0xFEE00300 = hw_frame (msrs s1 apic_base) + 0x300" by simp
  have tr: "[Wrote (Mmio (0xFEE00300 + 0x10)) 4 (push_bit 24 3), Wrote (Mmio 0xFEE00300) 4 0xC500]
      = io_trace s1 @ [Wrote (Mmio (0xFEE00300 + 0x10)) 4 (push_bit 24 3), Wrote (Mmio 0xFEE00300) 4 0xC500]"
    using s1(4) by simp
  have "\<not> busy (\<lambda>tr p n. 0) 0xFEE00300
      [Wrote (Mmio (0xFEE00300 + 0x10)) 4 (push_bit 24 3), Wrote (Mmio 0xFEE00300) 4 0xC500] 0"
    by (simp add: busy_def)
  then have "send_ipi (\<lambda>tr p n. 0) 3 0xC500 s1 = Inr (s1\<lparr>io_trace := poll_trace (\<lambda>tr p n. 0) 0xFEE00300
      [Wrote (Mmio (0xFEE00300 + 0x10)) 4 (push_bit 24 3), Wrote (Mmio 0xFEE00300) 4 0xC500] (Suc 0)\<rparr>)"
    using send_ipi_waits_for_delivery [OF s1(2) p tr, of "\<lambda>tr p n. 0"] by blast
  then have "send_ipi (\<lambda>tr p n. 0) 3 0xC500 s1 = Inr (s1\<lparr>io_trace :=
       [Wrote (Mmio 0xFEE00310) 4 0x3000000, Wrote (Mmio 0xFEE00300) 4 0xC500, Read (Mmio 0xFEE00300) 4 0]\<rparr>)"
    by simp
  with s(1) s1(1) show ?thesis by blast
qed

end
