(* ===== verification/Layout.thy ===== *)
theory Layout
  imports CString
begin

text \<open>
  How the kernel reads structures that the firmware or the boot loader left in memory: the layout of
  a C structure as the list of its members and their sizes, and the loads of its members through a
  reader, a function that gives the byte at an address or faults.
\<close>

unbundle bit_operations_syntax

section \<open>Layouts\<close>

text \<open>In a packed structure every member follows the one before.\<close>

type_synonym layout = "(string \<times> nat) list"

definition size_of :: "layout \<Rightarrow> nat" where
  "size_of l = sum_list (map snd l)"

fun offset_of :: "layout \<Rightarrow> string \<Rightarrow> nat" where
  "offset_of [] f = 0"
| "offset_of ((g, n) # l) f = (if f = g then 0 else n + offset_of l f)"

definition member_size :: "layout \<Rightarrow> string \<Rightarrow> nat" where
  "member_size l f = (case map_of l f of None \<Rightarrow> 0 | Some n \<Rightarrow> n)"

text \<open>In any other structure each member is placed at the next multiple of its alignment, and the
  size is a multiple of the largest one. Unnamed members are padding.\<close>

fun pad_members :: "nat \<Rightarrow> (string \<times> nat \<times> nat) list \<Rightarrow> layout" where
  "pad_members off [] = []"
| "pad_members off ((f, n, a) # l) =
     (let gap = (a - off mod a) mod a in ('''', gap) # (f, n) # pad_members (off + gap + n) l)"

definition natural :: "(string \<times> nat \<times> nat) list \<Rightarrow> layout" where
  "natural l =
     (let p = pad_members 0 l; a = foldr max (map (\<lambda>(f, n, a). a) l) 1
      in p @ [('''', (a - size_of p mod a) mod a)])"

lemma offset_member_le: "offset_of l f + member_size l f \<le> size_of l"
  by (induction l) (auto simp: size_of_def member_size_def)

section \<open>Readers\<close>

type_synonym reader = "u64 \<Rightarrow> u8 result"

primrec read_n :: "nat \<Rightarrow> reader \<Rightarrow> u64 \<Rightarrow> u64 result" where
  "read_n 0 rd a = Inr 0"
| "read_n (Suc n) rd a =
     rbind (rd a) (\<lambda>b. rbind (read_n n rd (a + 1)) (\<lambda>w. Inr (ucast b OR push_bit 8 w)))"

primrec read_list :: "nat \<Rightarrow> reader \<Rightarrow> u64 \<Rightarrow> u8 list result" where
  "read_list 0 rd a = Inr []"
| "read_list (Suc n) rd a = rbind (rd a) (\<lambda>b. rbind (read_list n rd (a + 1)) (\<lambda>bs. Inr (b # bs)))"

definition read_member :: "layout \<Rightarrow> string \<Rightarrow> reader \<Rightarrow> u64 \<Rightarrow> u64 result" where
  "read_member l f rd p = read_n (member_size l f) rd (p + of_nat (offset_of l f))"

text \<open>\<open>strncmp\<close> where a byte may be unreadable, with \<open>n\<close> rounds left.\<close>

primrec read_strncmp_n :: "nat \<Rightarrow> reader \<Rightarrow> u64 \<Rightarrow> u64 \<Rightarrow> int result" where
  "read_strncmp_n 0 rd str1 str2 = rbind (rd str1) (\<lambda>x. rbind (rd str2) (\<lambda>y. Inr (sint x - sint y)))"
| "read_strncmp_n (Suc n) rd str1 str2 =
     rbind (rd str1) (\<lambda>x. rbind (rd str2) (\<lambda>y.
       if x = y then read_strncmp_n n rd (str1 + 1) (str2 + 1) else Inr (sint x - sint y)))"

definition read_strncmp :: "reader \<Rightarrow> u64 \<Rightarrow> u64 \<Rightarrow> u64 \<Rightarrow> int result" where
  "read_strncmp rd str1 str2 len = read_strncmp_n (unat (len - 1)) rd str1 str2"

section \<open>Readable ranges\<close>

lemma unat_ucast_u8 [simp]: "unat (ucast (b :: u8) :: u64) = unat b"
proof -
  have "unat b < 2 ^ 8" using unsigned_less [where w = b and 'a = nat] by simp
  then show ?thesis by (simp add: unsigned_ucast_eq take_bit_nat_eq_self)
qed

lemma ucast_u8_eq_0 [simp]: "(ucast (b :: u8) :: u64) = 0 \<longleftrightarrow> b = 0"
  by (simp add: word_unat_eq_iff)

text \<open>The \<open>n\<close> bytes at an address can be read and are those of the memory \<open>m\<close>.\<close>

definition reads :: "reader \<Rightarrow> memory \<Rightarrow> u64 \<Rightarrow> nat \<Rightarrow> bool" where
  "reads rd m a n \<longleftrightarrow> (\<forall>i < n. rd (a + of_nat i) = Inr (m (a + of_nat i)))"

lemma reads_0 [simp]: "reads rd m a 0"
  by (simp add: reads_def)

lemma reads_Suc: "reads rd m a (Suc n) \<longleftrightarrow> rd a = Inr (m a) \<and> reads rd m (a + 1) n"
  by (auto simp: reads_def All_less_Suc2 ac_simps)

lemma reads_part: "reads rd m a n \<Longrightarrow> k + j \<le> n \<Longrightarrow> reads rd m (a + of_nat k) j"
proof -
  assume r: "reads rd m a n" and le: "k + j \<le> n"
  have "rd (a + of_nat k + of_nat i) = Inr (m (a + of_nat k + of_nat i))" if "i < j" for i
  proof -
    have "k + i < n" using that le by simp
    with r have "rd (a + of_nat (k + i)) = Inr (m (a + of_nat (k + i)))" unfolding reads_def by blast
    then show ?thesis by (simp add: add.assoc)
  qed
  then show ?thesis by (simp add: reads_def)
qed

lemma reads_le: "reads rd m a n \<Longrightarrow> j \<le> n \<Longrightarrow> reads rd m a j"
  by (simp add: reads_def)

lemma reads_total: "(\<And>x. rd x = Inr (m x)) \<Longrightarrow> reads rd m a n"
  by (simp add: reads_def)

lemma read_n_reads: "reads rd m a n \<Longrightarrow> read_n n rd a = Inr (load_le n m a)"
  by (induction n arbitrary: a) (simp_all add: reads_Suc)

lemma read_list_reads: "reads rd m a n \<Longrightarrow> read_list n rd a = Inr (map (\<lambda>i. m (a + of_nat i)) [0..<n])"
proof (induction n arbitrary: a)
  case (Suc n)
  have "map (\<lambda>i. m (a + of_nat i)) [0..<Suc n] = m a # map (\<lambda>i. m (a + 1 + of_nat i)) [0..<n]"
    by (simp add: upt_conv_Cons map_Suc_upt [symmetric] comp_def ac_simps del: upt_Suc)
  with Suc show ?case by (simp add: reads_Suc)
qed simp

lemma read_member_reads:
  assumes "reads rd m p n" "size_of l \<le> n"
  shows "read_member l f rd p = Inr (load_le (member_size l f) m (p + of_nat (offset_of l f)))"
  unfolding read_member_def
  using offset_member_le [of l f] assms by (intro read_n_reads reads_part [OF assms(1)]) simp

lemma read_strncmp_n_reads:
  assumes "reads rd m a (Suc n)" "reads rd m b (Suc n)"
  shows "\<exists>c. read_strncmp_n n rd a b = Inr c \<and> (c = 0 \<longleftrightarrow> (\<forall>i \<le> n. m (a + of_nat i) = m (b + of_nat i)))"
  using assms
proof (induction n arbitrary: a b)
  case 0
  then show ?case by (auto simp: reads_Suc intro: signed_word_eqI)
next
  case (Suc n)
  then have r: "rd a = Inr (m a)" "rd b = Inr (m b)" "reads rd m (a + 1) (Suc n)" "reads rd m (b + 1) (Suc n)"
    by (simp_all only: reads_Suc)
  have all: "(\<forall>i \<le> Suc n. m (a + of_nat i) = m (b + of_nat i)) \<longleftrightarrow>
      m a = m b \<and> (\<forall>i \<le> n. m (a + 1 + of_nat i) = m (b + 1 + of_nat i))"
    by (simp add: less_Suc_eq_le [symmetric] All_less_Suc2 ac_simps)
  show ?case
  proof (cases "m a = m b")
    case True
    then show ?thesis using Suc.IH [OF r(3,4)] r(1,2) all by auto
  next
    case False
    then show ?thesis using r(1,2) all by (auto dest: signed_word_eqI)
  qed
qed

text \<open>It agrees with \<open>strncmp\<close> on memory that can be read.\<close>

lemma read_strncmp_0:
  assumes "reads rd m a n" "reads rd m b n" "0 < n" "n < 2 ^ 64"
  shows "\<exists>c. read_strncmp rd a b (of_nat n) = Inr c \<and> (c = 0 \<longleftrightarrow> (\<forall>i < n. m (a + of_nat i) = m (b + of_nat i)))"
proof -
  obtain k where n: "n = Suc k" using assms(3) by (cases n) auto
  then have k: "unat (of_nat n - 1 :: u64) = k" using assms(4) by (simp add: unat_of_nat)
  show ?thesis
    using read_strncmp_n_reads [of rd m a k b] assms(1,2) unfolding read_strncmp_def k by (simp add: n less_Suc_eq_le)
qed

lemma read_strncmp_n_strncmp:
  assumes "reads rd m (a + i) (Suc n)" "reads rd m (b + i) (Suc n)" "unat (len - 1 - i) = n" "i \<le> len - 1"
  shows "read_strncmp_n n rd (a + i) (b + i) =
    Inr (let r = strncmp_from m a b len i in sint (m (a + r)) - sint (m (b + r)))"
  using assms
proof (induction n arbitrary: i)
  case 0
  then have "i = len - 1" by (simp add: unat_eq_zero)
  then have "strncmp_from m a b len i = i" by (subst strncmp_from.simps) simp
  with 0 show ?case by (simp add: reads_Suc)
next
  case (Suc n)
  note next1 = Suc.prems(1,2) [unfolded reads_Suc [of _ _ _ "Suc n"] add.assoc]
  from next1 have r: "rd (a + i) = Inr (m (a + i))" "rd (b + i) = Inr (m (b + i))"
    "reads rd m (a + (i + 1)) (Suc n)" "reads rd m (b + (i + 1)) (Suc n)" by blast+
  have lt: "i < len - 1" using Suc.prems(3,4) by (metis nat.distinct(1) order_le_less right_minus_eq unat_0)
  have step: "unat (len - 1 - (i + 1)) = n" "i + 1 \<le> len - 1"
  proof -
    have "len - 1 - i \<noteq> 0" using lt by auto
    from unat_minus_one [OF this] show "unat (len - 1 - (i + 1)) = n" using Suc.prems(3) by (simp add: diff_diff_eq ac_simps)
    show "i + 1 \<le> len - 1" using lt unat_step_up [OF lt] by (simp add: word_le_nat_alt word_less_nat_alt)
  qed
  show ?case
  proof (cases "m (a + i) = m (b + i)")
    case True
    then have "strncmp_from m a b len i = strncmp_from m a b len (i + 1)"
      using lt by (subst strncmp_from.simps) simp
    with Suc.IH [OF r(3,4) step] True r(1,2) show ?thesis by (simp add: add.assoc)
  next
    case False
    then have "strncmp_from m a b len i = i" by (subst strncmp_from.simps) simp
    with False r(1,2) show ?thesis by simp
  qed
qed

lemma read_strncmp_strncmp:
  assumes "reads rd m a (Suc (unat (len - 1)))" "reads rd m b (Suc (unat (len - 1)))"
  shows "read_strncmp rd a b len = Inr (strncmp m a b len)"
  using read_strncmp_n_strncmp [of rd m a 0 "unat (len - 1)" b len] assms
  by (simp add: read_strncmp_def strncmp_def)

section \<open>Text in memory\<close>

text \<open>The address where the compiler put a string literal.\<close>

type_synonym literals = "string \<Rightarrow> u64"

definition chars :: "string \<Rightarrow> u8 list" where
  "chars str = map of_char str"

definition literal_at :: "reader \<Rightarrow> memory \<Rightarrow> literals \<Rightarrow> string \<Rightarrow> bool" where
  "literal_at rd m lit str \<longleftrightarrow> reads rd m (lit str) (length str) \<and> bytes_at m (lit str) (chars str)"

lemma read_strncmp_literal:
  assumes "literal_at rd m lit str" "reads rd m a (length str)" "str \<noteq> []" "length str < 2 ^ 64"
  shows "\<exists>c. read_strncmp rd a (lit str) (of_nat (length str)) = Inr c \<and> (c = 0 \<longleftrightarrow> bytes_at m a (chars str))"
proof -
  have "bytes_at m a (chars str) \<longleftrightarrow> (\<forall>i < length str. m (a + of_nat i) = m (lit str + of_nat i))"
    using assms(1) by (simp add: literal_at_def bytes_at_def chars_def)
  with read_strncmp_0 [of rd m a "length str" "lit str"] assms show ?thesis by (simp add: literal_at_def)
qed

end
