(* ===== verification/AcpiTables.thy ===== *)
theory AcpiTables
  imports Layout MemOps
begin

text \<open>
  The firmware's tables, \<open>hardware/acpi/acpi.hpp\<close> and the first half of \<open>acpi.cpp\<close>: the layouts of the
  structures, the search for the root pointer in the BIOS areas, and the lookup of a table by its
  signature. All of it only reads memory, through a reader.
\<close>

unbundle bit_operations_syntax

section \<open>Structures\<close>

definition RsdpDescriptor :: layout where
  "RsdpDescriptor = [(''signature'', 8), (''checksum'', 1), (''oem_id'', 6), (''revision'', 1), (''rsdt_address'', 4)]"

definition RsdpDescriptor2 :: layout where
  "RsdpDescriptor2 =
     [(''rsdp'', size_of RsdpDescriptor), (''length'', 4), (''xsdt_address'', 8), (''extended_checksum'', 1),
      (''reserved'', 3)]"

record rsdp_info =
  rsdp_version :: int
  rsdp_address :: u64
  sdt_address :: u64
  rsdp_oem_id :: "u8 list"

definition SdtHeader :: layout where
  "SdtHeader =
     [(''signature'', 4), (''length'', 4), (''revision'', 1), (''checksum'', 1), (''oem_id'', 6),
      (''oem_table_id'', 8), (''oem_revision'', 4), (''creator_id'', 4), (''creator_revision'', 4)]"

definition LAPIC :: u8 where "LAPIC = 0"

definition InterruptController :: layout where
  "InterruptController = [(''type'', 1), (''length'', 1)]"

definition LocalApic :: layout where
  "LocalApic = [(''ic'', size_of InterruptController), (''uid'', 1), (''id'', 1), (''flags'', 4)]"

definition MadtHeader :: layout where
  "MadtHeader =
     [(''header'', size_of SdtHeader), (''apic_address'', 4), (''flags'', 4), (''interrupt_controllers'', 0)]"

definition RsdtHeader :: layout where
  "RsdtHeader = [(''header'', size_of SdtHeader), (''other_std'', 0)]"

definition XsdtHeader :: layout where
  "XsdtHeader = [(''header'', size_of SdtHeader), (''other_std'', 0)]"

definition McfgEntry :: layout where
  "McfgEntry =
     [(''ecm_base'', 8), (''segment'', 2), (''start_bus_number'', 1), (''end_bus_number'', 1), (''reserved'', 4)]"

definition McfgHeader :: layout where
  "McfgHeader = [(''header'', size_of SdtHeader), (''reserved'', 8), (''entries'', 0)]"

named_theorems layouts \<open>the layouts of the structures\<close>

lemmas layout_defs [layouts] =
  RsdpDescriptor_def RsdpDescriptor2_def SdtHeader_def InterruptController_def LocalApic_def MadtHeader_def
  RsdtHeader_def XsdtHeader_def McfgEntry_def McfgHeader_def

lemmas layout_eval [layouts] = size_of_def member_size_def read_member_def

text \<open>Where the members that the code reads lie.\<close>

lemma sizes [simp]:
  "size_of RsdpDescriptor = 20" "size_of RsdpDescriptor2 = 36" "size_of SdtHeader = 36"
  "size_of InterruptController = 2" "size_of LocalApic = 8" "size_of MadtHeader = 44"
  "size_of McfgEntry = 16" "size_of McfgHeader = 44"
  by (simp_all add: layouts)

lemma offsets [simp]:
  "offset_of RsdpDescriptor ''signature'' = 0" "offset_of RsdpDescriptor ''oem_id'' = 9"
  "offset_of SdtHeader ''signature'' = 0" "offset_of RsdtHeader ''other_std'' = 36"
  "offset_of XsdtHeader ''other_std'' = 36" "offset_of MadtHeader ''interrupt_controllers'' = 44"
  "offset_of McfgHeader ''entries'' = 44"
  by (simp_all add: layouts)

lemma members:
  "read_member RsdpDescriptor ''revision'' rd p = read_n 1 rd (p + 15)"
  "read_member RsdpDescriptor ''rsdt_address'' rd p = read_n 4 rd (p + 16)"
  "read_member RsdpDescriptor2 ''xsdt_address'' rd p = read_n 8 rd (p + 24)"
  "read_member SdtHeader ''length'' rd p = read_n 4 rd (p + 4)"
  "read_member InterruptController ''type'' rd p = read_n 1 rd p"
  "read_member InterruptController ''length'' rd p = read_n 1 rd (p + 1)"
  "read_member LocalApic ''id'' rd p = read_n 1 rd (p + 3)"
  "read_member LocalApic ''flags'' rd p = read_n 4 rd (p + 4)"
  "read_member McfgEntry ''ecm_base'' rd p = read_n 8 rd p"
  "read_member McfgEntry ''segment'' rd p = read_n 2 rd (p + 8)"
  "read_member McfgEntry ''start_bus_number'' rd p = read_n 1 rd (p + 10)"
  "read_member McfgEntry ''end_bus_number'' rd p = read_n 1 rd (p + 11)"
  by (simp_all add: layouts)

section \<open>The root pointer\<close>

primrec checksum_n :: "nat \<Rightarrow> reader \<Rightarrow> u64 \<Rightarrow> u8 \<Rightarrow> u8 result" where
  "checksum_n 0 rd p acc = Inr acc"
| "checksum_n (Suc n) rd p acc = rbind (rd p) (\<lambda>b. checksum_n n rd (p + 1) (acc + b))"

definition bios_calculate_checksum :: "reader \<Rightarrow> u64 \<Rightarrow> u64 \<Rightarrow> u8 result" where
  "bios_calculate_checksum rd ptr len = checksum_n (unat len) rd ptr 0"

text \<open>One round of the search: whether it ends, and what it has filled in.\<close>

definition detect_step ::
  "reader \<Rightarrow> literals \<Rightarrow> u64 \<Rightarrow> u64 \<Rightarrow> rsdp_info \<Rightarrow> (bool \<times> rsdp_info) result" where
  "detect_step rd lit base off info =
     (let address = base + virtual_physical_base;
          rsdp = address + off
      in rbind (read_strncmp rd (rsdp + of_nat (offset_of RsdpDescriptor ''signature'')) (lit ''RSD PTR '') 8) (\<lambda>c.
         if c \<noteq> 0 then Inr (False, info)
         else rbind (bios_calculate_checksum rd rsdp (of_nat (size_of RsdpDescriptor))) (\<lambda>sum.
         if sum \<noteq> 0 then Inr (False, info)
         else rbind (read_list 6 rd (rsdp + of_nat (offset_of RsdpDescriptor ''oem_id''))) (\<lambda>oem.
           let info1 = info\<lparr>rsdp_address := base + off + virtual_physical_base, rsdp_oem_id := oem @ [0]\<rparr>
           in rbind (read_member RsdpDescriptor ''revision'' rd rsdp) (\<lambda>revision.
              if revision = 0
              then rbind (read_member RsdpDescriptor ''rsdt_address'' rd rsdp) (\<lambda>a.
                     Inr (True, info1\<lparr>rsdp_version := 1, sdt_address := a + virtual_physical_base\<rparr>))
              else rbind (bios_calculate_checksum rd rsdp (of_nat (size_of RsdpDescriptor))) (\<lambda>sum2.
                     if sum2 \<noteq> 0 then Inr (False, info1)
                     else rbind (read_member RsdpDescriptor2 ''xsdt_address'' rd rsdp) (\<lambda>a.
                       Inr (True, info1\<lparr>rsdp_version := 2, sdt_address := a + virtual_physical_base\<rparr>))))))))"

partial_function (option) detect_loop ::
  "reader \<Rightarrow> literals \<Rightarrow> u64 \<Rightarrow> u64 \<Rightarrow> u64 \<Rightarrow> rsdp_info \<Rightarrow> rsdp_info result option" where
  "detect_loop rd lit base len off info =
     (if off < len
      then (case detect_step rd lit base off info of
              Inl e \<Rightarrow> Some (Inl e)
            | Inr (found, info1) \<Rightarrow>
                if found then Some (Inr info1) else detect_loop rd lit base len (off + 16) info1)
      else Some (Inr info))"

definition no_info :: rsdp_info where
  "no_info = \<lparr>rsdp_version = 0, rsdp_address = 0, sdt_address = 0, rsdp_oem_id = replicate 7 0\<rparr>"

definition detect_rsdp :: "reader \<Rightarrow> literals \<Rightarrow> u64 \<Rightarrow> u64 \<Rightarrow> rsdp_info result" where
  "detect_rsdp rd lit base len = loop_result (detect_loop rd lit base len 0 no_info)"

text \<open>The search of both areas; the caller goes on with \<open>panic\<close> when the version is still 0.\<close>

definition detect_rsdp_areas :: "reader \<Rightarrow> literals \<Rightarrow> rsdp_info result" where
  "detect_rsdp_areas rd lit =
     rbind (read_n 2 rd (0x40E + virtual_physical_base)) (\<lambda>ebda.
     rbind (detect_rsdp rd lit (push_bit 4 ebda) 0x400) (\<lambda>info.
       if rsdp_version info = 0 then detect_rsdp rd lit 0xE0000 0x20000 else Inr info))"

section \<open>Tables\<close>

text \<open>The loop over the entries of a root table, each \<open>w\<close> bytes wide.\<close>

primrec find_table :: "nat \<Rightarrow> nat \<Rightarrow> reader \<Rightarrow> u64 \<Rightarrow> u64 \<Rightarrow> u64 result" where
  "find_table 0 w rd signature entry = Inr 0"
| "find_table (Suc n) w rd signature entry =
     rbind (read_n w rd entry) (\<lambda>std.
       let h = std + virtual_physical_base
       in rbind (read_strncmp rd (h + of_nat (offset_of SdtHeader ''signature'')) signature 4) (\<lambda>c.
          if c = 0 then Inr h else find_table n w rd signature (entry + of_nat w)))"

definition table_entries :: "reader \<Rightarrow> u64 \<Rightarrow> u32 result" where
  "table_entries rd sdt =
     rbind (read_member SdtHeader ''length'' rd sdt) (\<lambda>len.
       Inr (ucast ((len - of_nat (size_of SdtHeader)) div 4)))"

definition get_table :: "reader \<Rightarrow> rsdp_info \<Rightarrow> u64 \<Rightarrow> u64 result" where
  "get_table rd info signature =
     (if rsdp_version info = 0 then Inr 0
      else if rsdp_version info \<ge> 2
      then rbind (table_entries rd (sdt_address info)) (\<lambda>entries.
             find_table (unat entries) 8 rd signature (sdt_address info + of_nat (offset_of XsdtHeader ''other_std'')))
      else rbind (table_entries rd (sdt_address info)) (\<lambda>entries.
             find_table (unat entries) 4 rd signature (sdt_address info + of_nat (offset_of RsdtHeader ''other_std''))))"

declare detect_loop.simps [code]

section \<open>What the search finds\<close>

lemma checksum_n_reads:
  "reads rd m p n \<Longrightarrow> checksum_n n rd p acc = Inr (acc + sum_list (map (\<lambda>i. m (p + of_nat i)) [0..<n]))"
proof (induction n arbitrary: p acc)
  case (Suc n)
  have "map (\<lambda>i. m (p + of_nat i)) [0..<Suc n] = m p # map (\<lambda>i. m (p + 1 + of_nat i)) [0..<n]"
    by (simp add: upt_conv_Cons map_Suc_upt [symmetric] comp_def ac_simps del: upt_Suc)
  with Suc show ?case by (simp add: reads_Suc add.assoc)
qed simp

text \<open>A root pointer of the first version: the signature and twenty bytes whose sum is 0.\<close>

definition rsdp_valid :: "memory \<Rightarrow> u64 \<Rightarrow> bool" where
  "rsdp_valid m p \<longleftrightarrow>
     bytes_at m p (chars ''RSD PTR '') \<and> sum_list (map (\<lambda>i. m (p + of_nat i)) [0..<20]) = 0"

definition rsdp_contents :: "memory \<Rightarrow> u64 \<Rightarrow> rsdp_info" where
  "rsdp_contents m p =
     (let oem = map (\<lambda>i. m (p + 9 + of_nat i)) [0..<6] @ [0]
      in if m (p + 15) = 0
         then \<lparr>rsdp_version = 1, rsdp_address = p,
                sdt_address = load_le 4 m (p + 16) + virtual_physical_base, rsdp_oem_id = oem\<rparr>
         else \<lparr>rsdp_version = 2, rsdp_address = p,
                sdt_address = load_le 8 m (p + 24) + virtual_physical_base, rsdp_oem_id = oem\<rparr>)"

lemma detect_step_eq:
  assumes "literal_at rd m lit ''RSD PTR ''" "reads rd m (base + virtual_physical_base + off) 32"
  shows "detect_step rd lit base off no_info =
    (let p = base + virtual_physical_base + off
     in Inr (if rsdp_valid m p then (True, rsdp_contents m p) else (False, no_info)))"
proof -
  define p where "p = base + virtual_physical_base + off"
  have r: "reads rd m p 32" using assms(2) by (simp add: p_def)
  have p': "base + off + virtual_physical_base = p" by (simp add: p_def ac_simps)
  have len: "length ''RSD PTR '' = 8" by simp
  obtain c where c: "read_strncmp rd p (lit ''RSD PTR '') 8 = Inr c" "c = 0 \<longleftrightarrow> bytes_at m p (chars ''RSD PTR '')"
    using read_strncmp_literal [OF assms(1), of p, unfolded len] reads_le [OF r, of 8] by auto
  have sum: "bios_calculate_checksum rd p 20 = Inr (sum_list (map (\<lambda>i. m (p + of_nat i)) [0..<20]))"
    using checksum_n_reads [OF reads_le [OF r, of 20], of 0] by (simp add: bios_calculate_checksum_def)
  have oem: "read_list 6 rd (p + 9) = Inr (map (\<lambda>i. m (p + 9 + of_nat i)) [0..<6])"
    using read_list_reads [OF reads_part [OF r, of 9 6]] by simp
  have mem: "rd (p + 15) = Inr (m (p + 15))" "read_n 4 rd (p + 16) = Inr (load_le 4 m (p + 16))"
    "read_n 8 rd (p + 24) = Inr (load_le 8 m (p + 24))"
    using reads_part [OF r, of 15 1] read_n_reads [OF reads_part [OF r, of 16 4]]
      read_n_reads [OF reads_part [OF r, of 24 8]] by (simp_all add: reads_Suc)
  show ?thesis
    unfolding p_def [symmetric] detect_step_def Let_def
    by (auto simp: c sum oem members mem p' rsdp_valid_def rsdp_contents_def no_info_def Let_def)
qed


text \<open>The search returns the first descriptor in the window.\<close>

abbreviation rsdp_slot :: "u64 \<Rightarrow> nat \<Rightarrow> u64" where
  "rsdp_slot base j \<equiv> base + virtual_physical_base + 16 * of_nat j"

lemma detect_loop_finds:
  assumes "literal_at rd m lit ''RSD PTR ''" "reads rd m (base + virtual_physical_base) (16 * k + 16)"
    and "16 * k < 2 ^ 64" "n = k - j" "j \<le> k"
  shows "detect_loop rd lit base (16 * of_nat k) (16 * of_nat j) no_info =
    Some (Inr (case find (\<lambda>j. rsdp_valid m (rsdp_slot base j)) [j..<k] of
                 None \<Rightarrow> no_info | Some j \<Rightarrow> rsdp_contents m (rsdp_slot base j)))"
  using assms(4,5)
proof (induction n arbitrary: j)
  case 0
  then show ?case by (subst detect_loop.simps) simp
next
  case (Suc n)
  then have j: "j < k" by simp
  have u: "unat (16 * of_nat i :: u64) = 16 * i" if "i \<le> k" for i
    using that assms(3) by (simp add: unat_word_ariths unat_of_nat)
  have less: "(16 * of_nat j :: u64) < 16 * of_nat k" using u [of j] u [of k] j by (simp add: word_less_nat_alt)
  have "reads rd m (rsdp_slot base j) 32"
    using reads_part [OF assms(2), of "16 * j" 32] j by simp
  note step = detect_step_eq [OF assms(1) this]
  have upt: "[j..<k] = j # [Suc j..<k]" using j by (rule upt_conv_Cons)
  have rest: "detect_loop rd lit base (16 * of_nat k) (16 * of_nat (Suc j)) no_info =
    Some (Inr (case find (\<lambda>j. rsdp_valid m (rsdp_slot base j)) [Suc j..<k] of
                 None \<Rightarrow> no_info | Some j \<Rightarrow> rsdp_contents m (rsdp_slot base j)))"
    using Suc.prems j by (intro Suc.IH) simp_all
  have nxt: "16 * of_nat j + 16 = (16 * of_nat (Suc j) :: u64)" by (simp add: distrib_left)
  show ?case
    unfolding detect_loop.simps [of rd lit base "16 * of_nat k" "16 * of_nat j"] step nxt upt
    using less rest by (simp add: Let_def distrib_left)
qed

lemma detect_rsdp_finds:
  assumes "literal_at rd m lit ''RSD PTR ''" "reads rd m (base + virtual_physical_base) (16 * k + 16)"
    and "16 * k < 2 ^ 64"
  shows "detect_rsdp rd lit base (16 * of_nat k) =
    Inr (case find (\<lambda>j. rsdp_valid m (rsdp_slot base j)) [0..<k] of
           None \<Rightarrow> no_info | Some j \<Rightarrow> rsdp_contents m (rsdp_slot base j))"
  using detect_loop_finds [OF assms, of k 0] by (simp add: detect_rsdp_def)


lemma find_map_eq: "find P (map f xs) = map_option f (find (\<lambda>x. P (f x)) xs)"
  by (induction xs) simp_all

lemma find_append_eq: "find P (xs @ ys) = (case find P xs of None \<Rightarrow> find P ys | Some x \<Rightarrow> Some x)"
  by (induction xs) simp_all

lemma rsdp_contents_version: "rsdp_version (rsdp_contents m p) \<noteq> 0"
  by (simp add: rsdp_contents_def Let_def)

section \<open>What the lookup of a table finds\<close>

definition same_signature :: "memory \<Rightarrow> u64 \<Rightarrow> u64 \<Rightarrow> bool" where
  "same_signature m signature h \<longleftrightarrow> (\<forall>i < 4. m (h + of_nat i) = m (signature + of_nat i))"

text \<open>The first \<open>n\<close> tables that an array of \<open>w\<close>-byte physical addresses names.\<close>

definition table_list :: "nat \<Rightarrow> nat \<Rightarrow> memory \<Rightarrow> u64 \<Rightarrow> u64 list" where
  "table_list n w m arr = map (\<lambda>i. load_le w m (arr + of_nat (w * i)) + virtual_physical_base) [0..<n]"

lemma table_list_Suc:
  "table_list (Suc n) w m arr = (load_le w m arr + virtual_physical_base) # table_list n w m (arr + of_nat w)"
proof -
  have "[0..<Suc n] = 0 # map Suc [0..<n]" by (simp only: upt_conv_Cons map_Suc_upt)
  then show ?thesis by (simp add: table_list_def comp_def algebra_simps del: upt_Suc)
qed

lemma find_table_prefix:
  assumes "reads rd m arr (w * j)" "\<And>h. h \<in> set (table_list j w m arr) \<Longrightarrow> reads rd m h 4" "reads rd m signature 4"
  shows "find_table (j + n) w rd signature arr =
    (case find (same_signature m signature) (table_list j w m arr) of
       Some h \<Rightarrow> Inr h | None \<Rightarrow> find_table n w rd signature (arr + of_nat (w * j)))"
  using assms(1,2)
proof (induction j arbitrary: arr)
  case 0
  then show ?case by (simp add: table_list_def)
next
  case (Suc j)
  define h where "h = load_le w m arr + virtual_physical_base"
  have list: "table_list (Suc j) w m arr = h # table_list j w m (arr + of_nat w)"
    by (simp add: table_list_Suc h_def)
  have r: "reads rd m arr w" "reads rd m (arr + of_nat w) (w * j)"
    using reads_le [OF Suc.prems(1), of w] reads_part [OF Suc.prems(1), of w "w * j"] by simp_all
  obtain c where c: "read_strncmp rd h signature 4 = Inr c" "c = 0 \<longleftrightarrow> same_signature m signature h"
    using read_strncmp_0 [of rd m h 4 signature] Suc.prems(2) [of h] assms(3) list by (auto simp: same_signature_def)
  have rest: "find_table (j + n) w rd signature (arr + of_nat w) =
    (case find (same_signature m signature) (table_list j w m (arr + of_nat w)) of
       Some h \<Rightarrow> Inr h | None \<Rightarrow> find_table n w rd signature (arr + of_nat w + of_nat (w * j)))"
    using Suc.prems(2) list by (intro Suc.IH [OF r(2)]) simp
  have step: "find_table (Suc j + n) w rd signature arr =
    (if same_signature m signature h then Inr h else find_table (j + n) w rd signature (arr + of_nat w))"
    using c by (simp add: read_n_reads [OF r(1)] Let_def h_def [symmetric])
  have sum: "arr + of_nat w + of_nat (w * j) = arr + of_nat (w * Suc j)" by (simp add: algebra_simps)
  show ?case unfolding step rest list sum by simp
qed

lemma table_entries_length:
  assumes "reads rd m sdt 36" "unat (load_le 4 m (sdt + 4)) = 36 + 4 * n" "n < 2 ^ 30"
  shows "table_entries rd sdt = Inr (of_nat n)"
proof -
  define l where "l = load_le 4 m (sdt + 4)"
  have "read_n 4 rd (sdt + 4) = Inr l" using read_n_reads [OF reads_part [OF assms(1), of 4 4]] by (simp add: l_def)
  moreover have "l - 36 = of_nat (4 * n)"
  proof -
    have "unat l = 36 + 4 * n" using assms(2) by (simp add: l_def)
    moreover have "l = of_nat (unat l)" by simp
    ultimately have "l = of_nat (36 + 4 * n)" by (simp only:)
    then show ?thesis by simp
  qed
  moreover have "(of_nat (4 * n) div 4 :: u64) = of_nat n"
    using assms(3) by (simp add: word_unat_eq_iff unat_div unat_of_nat del: of_nat_mult)
  moreover have "(ucast (of_nat n :: u64) :: u32) = of_nat n"
    using assms(3) by (simp add: word_unat_eq_iff unsigned_ucast_eq unat_of_nat take_bit_nat_eq_self)
  ultimately show ?thesis by (simp add: table_entries_def members)
qed


lemma get_table_prefix:
  assumes "rsdp_version info \<in> {1, 2}" and w: "w = (if rsdp_version info = 1 then 4 else 8)"
    and "unat (load_le 4 m (sdt_address info + 4)) = 36 + w * k" "k < 2 ^ 28"
    and "reads rd m (sdt_address info) (36 + w * k)"
    and "\<And>h. h \<in> set (table_list k w m (sdt_address info + 36)) \<Longrightarrow> reads rd m h 4" "reads rd m signature 4"
  shows "get_table rd info signature =
    (case find (same_signature m signature) (table_list k w m (sdt_address info + 36)) of
       Some h \<Rightarrow> Inr h
     | None \<Rightarrow> if rsdp_version info = 1 then Inr 0
               else find_table k 8 rd signature (sdt_address info + 36 + 8 * of_nat k))"
proof -
  have r: "reads rd m (sdt_address info) 36" "reads rd m (sdt_address info + 36) (w * k)"
    using reads_le [OF assms(5), of 36] reads_part [OF assms(5), of 36 "w * k"] by simp_all
  note prefix = find_table_prefix [OF r(2) assms(6,7)]
  show ?thesis
  proof (cases "rsdp_version info = 1")
    case True
    then have "table_entries rd (sdt_address info) = Inr (of_nat k)"
      using table_entries_length [OF r(1), of k] assms(3,4) w by simp
    moreover have "unat (of_nat k :: u32) = k" using assms(4) by (simp add: unat_of_nat)
    ultimately show ?thesis using True w prefix [of 0] by (simp add: get_table_def split: option.splits)
  next
    case False
    define n :: u32 where "n = of_nat (2 * k)"
    have n: "unat n = k + k" unfolding n_def using assms(4) by (simp add: unat_of_nat del: of_nat_mult)
    have v: "rsdp_version info = 2" "w = 8" using False assms(1) w by auto
    have "table_entries rd (sdt_address info) = Inr n"
      unfolding n_def using table_entries_length [OF r(1), of "2 * k"] assms(3,4) v by simp
    then have "get_table rd info signature = find_table (k + k) 8 rd signature (sdt_address info + 36)"
      using v n by (simp add: get_table_def)
    then show ?thesis using prefix [of k] v(1) unfolding v(2) of_nat_mult of_nat_numeral by simp
  qed
qed

lemma rsdp_areas_find:
  assumes "literal_at rd m lit ''RSD PTR ''" and "reads rd m (0x40E + virtual_physical_base) 2"
    and ebda: "ebda = push_bit 4 (load_le 2 m (0x40E + virtual_physical_base))"
    and "reads rd m (ebda + virtual_physical_base) 0x410" "reads rd m (0xE0000 + virtual_physical_base) 0x20010"
  shows "detect_rsdp_areas rd lit =
    Inr (case find (rsdp_valid m) (map (rsdp_slot ebda) [0..<64] @ map (rsdp_slot 0xE0000) [0..<8192]) of
           None \<Rightarrow> no_info | Some p \<Rightarrow> rsdp_contents m p)"
proof -
  have read: "read_n 2 rd (0x40E + virtual_physical_base) = Inr (load_le 2 m (0x40E + virtual_physical_base))"
    by (rule read_n_reads [OF assms(2)])
  have areas: "detect_rsdp rd lit ebda 0x400 =
      Inr (case find (rsdp_valid m) (map (rsdp_slot ebda) [0..<64]) of None \<Rightarrow> no_info | Some p \<Rightarrow> rsdp_contents m p)"
    "detect_rsdp rd lit 0xE0000 0x20000 =
      Inr (case find (rsdp_valid m) (map (rsdp_slot 0xE0000) [0..<8192]) of None \<Rightarrow> no_info | Some p \<Rightarrow> rsdp_contents m p)"
    using detect_rsdp_finds [OF assms(1), where base = ebda and k = 64]
      detect_rsdp_finds [OF assms(1), where base = "0xE0000" and k = 8192] assms(4,5)
    by (simp_all add: find_map_eq option.case_eq_if option.map_sel del: upt_rec_numeral)
  show ?thesis
    unfolding detect_rsdp_areas_def read ebda [symmetric] rbind_Inr areas find_append_eq
    by (auto simp: no_info_def rsdp_contents_version simp del: upt_rec_numeral split: option.splits)
qed

section \<open>Properties\<close>

text \<open>C29: the search for the root pointer returns, for every contents of memory, the first descriptor on
  a 16-byte boundary of the first kilobyte of the extended BIOS data area and then of the 128 KiB at
  \<open>0xE0000\<close> whose signature is right and whose first twenty bytes add up to 0, and version 0 when there
  is none. That the checksum over all 36 bytes of a descriptor of the second version is never taken
  shows in \<open>rsdp_valid\<close>: the 64-bit address of the root table is used unchecked.\<close>

theorem rsdp_search:
  assumes "literal_at rd m lit ''RSD PTR ''" and "reads rd m (0x40E + virtual_physical_base) 2"
    and ebda: "ebda = push_bit 4 (load_le 2 m (0x40E + virtual_physical_base))"
    and "reads rd m (ebda + virtual_physical_base) 0x410" "reads rd m (0xE0000 + virtual_physical_base) 0x20010"
  shows "detect_rsdp_areas rd lit =
    Inr (case find (rsdp_valid m) (map (rsdp_slot ebda) [0..<64] @ map (rsdp_slot 0xE0000) [0..<8192]) of
           None \<Rightarrow> no_info | Some p \<Rightarrow> rsdp_contents m p)"
  by (rule rsdp_areas_find [OF assms])

text \<open>A descriptor at the second place of the BIOS data area.\<close>

definition demo_rsdp :: "u8 list" where
  "demo_rsdp = chars ''RSD PTR '' @ [0x4D] @ chars ''BOCHS '' @ [0, 0x00, 0x00, 0xFE, 0x07]"

definition demo_bios :: memory where
  "demo_bios = put_bytes (put_bytes (\<lambda>_. 0) 0x500000 (chars ''RSD PTR '')) (virtual_physical_base + 16) demo_rsdp"

definition demo_literals :: literals where
  "demo_literals str = (if str = ''RSD PTR '' then 0x500000 else 0x600000)"

theorem rsdp_search_witness:
  "detect_rsdp_areas (\<lambda>x. Inr (demo_bios x)) demo_literals =
     Inr \<lparr>rsdp_version = 1, rsdp_address = virtual_physical_base + 16,
          sdt_address = virtual_physical_base + 0x7FE0000, rsdp_oem_id = chars ''BOCHS '' @ [0]\<rparr>"
proof -
  let ?rd = "\<lambda>x. Inr (demo_bios x)"
  have lit: "literal_at ?rd demo_bios demo_literals ''RSD PTR ''"
  proof -
    have "bytes_at demo_bios (demo_literals ''RSD PTR '') (chars ''RSD PTR '')" by code_simp
    then show ?thesis by (simp add: literal_at_def reads_total)
  qed
  have ebda: "push_bit 4 (load_le 2 demo_bios (0x40E + virtual_physical_base)) = 0"
    by code_simp
  have slots: "\<not> rsdp_valid demo_bios (rsdp_slot 0 0)" "rsdp_valid demo_bios (rsdp_slot 0 1)"
    by code_simp+
  have upt: "[0..<64] = 0 # 1 # [2..<64]" by (simp add: upt_conv_Cons)
  have first: "find (rsdp_valid demo_bios) (map (rsdp_slot 0) [0..<64] @ map (rsdp_slot 0xE0000) [0..<8192]) = Some (rsdp_slot 0 1)"
    unfolding upt using slots by simp
  have contents: "rsdp_contents demo_bios (rsdp_slot 0 1) = \<lparr>rsdp_version = 1, rsdp_address = virtual_physical_base + 16,
          sdt_address = virtual_physical_base + 0x7FE0000, rsdp_oem_id = chars ''BOCHS '' @ [0]\<rparr>"
    by code_simp
  show ?thesis
    using rsdp_search [OF lit reads_total refl reads_total reads_total]
    unfolding ebda first option.case contents by simp
qed

text \<open>C30: the lookup of a table returns the first table in the root table with the given four characters;
  when the root table has none, the lookup in an RSDT returns null, but in an XSDT of \<open>k\<close> entries, whose
  length is divided by 4 although an entry has eight bytes, it goes on with the \<open>k\<close> quadwords behind the
  table, follows them as pointers, and faults at the first byte there that is not mapped.\<close>

theorem get_table_finds:
  assumes "rsdp_version info \<in> {1, 2}" and "w = (if rsdp_version info = 1 then 4 else 8)"
    and "unat (load_le 4 m (sdt_address info + 4)) = 36 + w * k" "k < 2 ^ 28"
    and "reads rd m (sdt_address info) (36 + w * k)"
    and "\<forall>h \<in> set (table_list k w m (sdt_address info + 36)). reads rd m h 4" "reads rd m signature 4"
  shows "(\<forall>h. find (same_signature m signature) (table_list k w m (sdt_address info + 36)) = Some h \<longrightarrow>
            get_table rd info signature = Inr h) \<and>
         (find (same_signature m signature) (table_list k w m (sdt_address info + 36)) = None \<longrightarrow>
            (rsdp_version info = 1 \<longrightarrow> get_table rd info signature = Inr 0) \<and>
            (rsdp_version info = 2 \<and> 0 < k \<and> rd (sdt_address info + 36 + 8 * of_nat k) = Inl PageFault \<longrightarrow>
              get_table rd info signature = Inl PageFault))"
proof -
  have fault: "find_table k 8 rd signature arr = Inl PageFault" if "0 < k" "rd arr = Inl PageFault" for arr
    using that by (cases k) (simp_all add: numeral_eq_Suc)
  show ?thesis
    using get_table_prefix [OF assms(1-5) _ assms(7)] assms(6) fault by (simp split: option.splits)
qed


text \<open>An XSDT with one entry, which names a table \<open>FACP\<close>; the page behind it is not mapped.\<close>

definition demo_xsdt :: memory where
  "demo_xsdt = put_bytes (put_bytes (put_bytes (put_bytes (\<lambda>_. 0) 0x1FD4 (chars ''XSDT'' @ [44, 0, 0, 0]))
     0x1FF8 [0, 0x30]) (virtual_physical_base + 0x3000) (chars ''FACP'')) 0x5000 (chars ''FACPAPIC'')"

definition demo_xsdt_reader :: reader where
  "demo_xsdt_reader x = (if x AND 0xFFFFFFFFFFFFF000 = 0x2000 then Inl PageFault else Inr (demo_xsdt x))"

definition demo_xsdt_info :: rsdp_info where
  "demo_xsdt_info = no_info\<lparr>rsdp_version := 2, sdt_address := 0x1FD4\<rparr>"

lemma reads_code: "reads rd m a n = list_all (\<lambda>i. rd (a + of_nat i) = Inr (m (a + of_nat i))) [0..<n]"
  by (auto simp: reads_def list_all_iff)

theorem get_table_finds_witness:
  "get_table demo_xsdt_reader demo_xsdt_info 0x5000 = Inr (virtual_physical_base + 0x3000) \<and>
   get_table demo_xsdt_reader demo_xsdt_info 0x5004 = Inl PageFault"
proof -
  have info: "rsdp_version demo_xsdt_info = 2" "sdt_address demo_xsdt_info = 0x1FD4"
    by (simp_all add: demo_xsdt_info_def)
  have len: "unat (load_le 4 demo_xsdt (sdt_address demo_xsdt_info + 4)) = 36 + 8 * 1" unfolding info by code_simp
  have r: "reads demo_xsdt_reader demo_xsdt (sdt_address demo_xsdt_info) (36 + 8 * 1)"
    unfolding info reads_code by code_simp
  have list: "table_list 1 8 demo_xsdt (sdt_address demo_xsdt_info + 36) = [virtual_physical_base + 0x3000]"
    unfolding info by code_simp
  have h: "reads demo_xsdt_reader demo_xsdt (virtual_physical_base + 0x3000) 4"
    "reads demo_xsdt_reader demo_xsdt 0x5000 4" "reads demo_xsdt_reader demo_xsdt 0x5004 4"
    unfolding reads_code by code_simp+
  have fault: "demo_xsdt_reader (sdt_address demo_xsdt_info + 36 + 8 * of_nat 1) = Inl PageFault"
    unfolding info by code_simp
  have sig: "same_signature demo_xsdt 0x5000 (virtual_physical_base + 0x3000)"
    "\<not> same_signature demo_xsdt 0x5004 (virtual_physical_base + 0x3000)"
    unfolding same_signature_def by code_simp+
  show ?thesis
    using get_table_finds [of demo_xsdt_info 8 demo_xsdt 1 demo_xsdt_reader "0x5000"]
      get_table_finds [of demo_xsdt_info 8 demo_xsdt 1 demo_xsdt_reader "0x5004"] len r h list sig fault info
    by simp
qed

end
