(* ===== verification/Console.thy ===== *)
theory Console
  imports Terminal Sprintf Apic Layout
begin

text \<open>
  The messages of the kernel: \<open>sprintf\<close> into an array of the caller and \<open>Terminal::write_line\<close>, and
  \<open>Spark::panic\<close> of \<open>hardware/panic.cpp\<close>.
\<close>

unbundle bit_operations_syntax

section \<open>Operations\<close>

text \<open>The terminal and its frame buffer, beside the state of the machine.\<close>

record console_state = apic_state +
  console :: term_state

text \<open>Every message has a format, at most one string, which is the first argument, and numbers. The call
  runs in a memory of its own with the format, the string, the array \<open>text\<close> and the local array of
  \<open>sprintf\<close> at separate places; all that is left of it afterwards is the string in \<open>text\<close>.\<close>

definition message_memory :: "string \<Rightarrow> u8 list option \<Rightarrow> memory" where
  "message_memory fmt str =
     put_bytes (put_bytes (\<lambda>_. 0) 0x1000 (chars fmt))
       0x10000 (case str of None \<Rightarrow> [] | Some cs \<Rightarrow> cs)"

definition message_args :: "u8 list option \<Rightarrow> u64 list \<Rightarrow> u64 list" where
  "message_args str nums = (case str of None \<Rightarrow> [] | Some cs \<Rightarrow> [0x10000]) @ nums"

definition sprintf_text :: "string \<Rightarrow> u8 list option \<Rightarrow> u64 list \<Rightarrow> u8 list result" where
  "sprintf_text fmt str nums =
     rbind (sprintf 0x2000 (message_memory fmt str) 0x3000 0x1000 (message_args str nums)) (\<lambda>(n, m).
     rbind (strlen m 0x3000) (\<lambda>len. Inr (map (\<lambda>i. m (0x3000 + of_nat i)) [0..<unat len])))"

definition print_line ::
  "string \<Rightarrow> u8 list option \<Rightarrow> u64 list \<Rightarrow> 'a console_state_scheme \<Rightarrow> 'a console_state_scheme result" where
  "print_line fmt str nums s =
     rbind (sprintf_text fmt str nums) (\<lambda>text.
     rbind (write_line text 0xFFFFFF (console s)) (\<lambda>t. Inr (s\<lparr>console := t\<rparr>)))"

definition panic_screen :: "u8 list \<Rightarrow> term_state \<Rightarrow> term_state result" where
  "panic_screen message t =
     rbind (write_line_bg (chars ''!! KERNEL PANIC OCCURRED !!'') 0xFFFFFF 0xe50000 (set_cursor 0 0 t)) (\<lambda>t1.
     rbind (sprintf_text ''Error message: %s'' (Some message) []) (\<lambda>text.
       write_line_bg text 0xFFFFFF 0xe50000 t1))"

definition panic :: "u8 list \<Rightarrow> 'a console_state_scheme \<Rightarrow> 'b result" where
  "panic message s =
     rbind (panic_screen message (console s)) (\<lambda>t. halt_forever (s\<lparr>console := t\<rparr>))"

section \<open>What is printed\<close>

lemma digit_char_ascii: "d < 10 \<Longrightarrow> digit_char d < 128"
proof -
  have "\<forall>d \<in> set [0..<10]. digit_char d < 128" by code_simp
  then show "d < 10 \<Longrightarrow> digit_char d < 128" by auto
qed

lemma hex_char_ascii: "hex_char caps (x AND 0xF) < 128"
proof -
  have *: "\<forall>k \<in> set [0..<16]. \<forall>caps \<in> {True, False}. hex_char caps (of_nat k) < 128" by code_simp
  have "unat (x AND 0xF) \<in> set [0..<16]" using nibble_less [of x] by (simp add: word_less_nat_alt)
  from bspec [OF bspec [OF * this], of caps] show ?thesis by simp
qed

lemma number_text_ascii:
  "\<forall>c \<in> set (itoa_text (sint (w :: u32)) 10). c < 128" "\<forall>c \<in> set (htoa_text n caps). c < 128"
proof -
  have "c < 128" if c: "c \<in> set (garbled (rev (map digit_char (digits_of 10 k))))" for c k
  proof -
    obtain d where "d \<in> set (digits_of 10 k)" "c = digit_char d"
      using set_garbled [of "rev (map digit_char (digits_of 10 k))"] c by auto
    then show ?thesis using digit_char_ascii digits_of_less [of 10 d k] by simp
  qed
  then show "\<forall>c \<in> set (itoa_text (sint w) 10). c < 128" by (auto simp: itoa_text_def)
  have "\<forall>c \<in> set (hex_digits k n caps st). c < 128" for k st
    by (induction k arbitrary: st) (simp_all add: Let_def hex_char_ascii)
  then show "\<forall>c \<in> set (htoa_text n caps). c < 128" by (simp add: htoa_text_def hex_char_ascii)
qed

lemma render_ascii:
  assumes "render strs f args = Some out" "\<forall>c \<in> set f. c < 128"
    and "\<And>a cs. strs a = Some cs \<Longrightarrow> \<forall>c \<in> set cs. c < 128"
  shows "\<forall>c \<in> set out. c < 128"
  using assms
proof (induction strs f args arbitrary: out rule: render.induct)
  case (2 strs c f args)
  then show ?case
    using number_text_ascii by (fastforce simp: prepend_Some dest: in_tl split: if_splits list.splits)
qed simp

text \<open>Messages that \<open>sprintf\<close> can print come out as the text that their format stands for.\<close>

definition message_strings :: "u8 list option \<Rightarrow> u64 \<Rightarrow> u8 list option" where
  "message_strings str a = (if a = 0x10000 then str else None)"

lemma string_at_put:
  assumes "0 \<notin> set cs" "length cs < 2 ^ 64" "m (p + of_nat (length cs)) = 0"
  shows "string_at (put_bytes m p cs) p cs"
  using assms put_bytes_at [of cs m p] by (simp add: string_at_def put_bytes_eq in_range_def unat_of_nat)

lemma sprintf_text_renders:
  assumes out: "render (message_strings str) (chars fmt) (message_args str nums) = Some out"
    and fmt: "0 \<notin> set (chars fmt)" "length fmt < 0xF00"
    and str: "\<And>cs. str = Some cs \<Longrightarrow> 0 \<notin> set cs \<and> length cs < 0xF00" and len: "length out < 0xF00"
  shows "sprintf_text fmt str nums = Inr out"
proof -
  define cs where "cs = (case str of None \<Rightarrow> [] | Some cs \<Rightarrow> cs)"
  have cs: "0 \<notin> set cs" "length cs < 0xF00" using str by (auto simp: cs_def split: option.splits)
  define m0 m where "m0 = put_bytes (\<lambda>_. 0) 0x1000 (chars fmt)" and "m = put_bytes m0 0x10000 cs"
  have n: "length (chars fmt) < 0xF00" using fmt(2) by (simp add: chars_def)
  have far: "m0 x = 0" if "0x10000 \<le> unat x" for x
  proof -
    have "\<not> in_range x 0x1000 (length (chars fmt))"
      using that n by (simp add: in_range_def unat_sub word_le_nat_alt)
    then show ?thesis using n by (simp add: m0_def put_bytes_eq)
  qed
  have end_cs: "unat (0x10000 + of_nat (length cs) :: u64) = 0x10000 + length cs"
    using cs(2) by (subst unat_add_u64) (simp_all add: unat_of_nat)
  have s1: "string_at m0 0x1000 (chars fmt)"
    unfolding m0_def using fmt(1) n by (intro string_at_put) simp_all
  have s2: "string_at m 0x10000 cs"
    unfolding m_def using cs end_cs by (intro string_at_put far) simp_all
  have "m x = m0 x" if x: "in_range x 0x1000 (length (chars fmt) + 1)" for x
  proof -
    have "\<not> in_range x 0x10000 (length cs)"
      using apartI(1) [of "0x1000" "length (chars fmt) + 1" "0x10000" "length cs"] x n cs(2) by (auto simp: apart_def)
    then show ?thesis using cs(2) by (simp add: m_def put_bytes_eq)
  qed
  then have s3: "string_at m 0x1000 (chars fmt)" using s1 n by (subst string_at_outside) simp_all
  have ready: "print_ready 0x2000 (message_strings str) (chars fmt) (length out + 1) m 0x3000 0x1000"
  proof -
    have "apart 0x3000 (length out + 1) 0x1000 (length (chars fmt) + 1)"
      "apart 0x2000 34 0x1000 (length (chars fmt) + 1)" "apart 0x3000 (length out + 1) 0x2000 34"
      using n len by (simp_all add: apartI(2))
    moreover have "apart 0x3000 (length out + 1) 0x10000 (length cs + 1)" "apart 0x2000 34 0x10000 (length cs + 1)"
      using cs(2) len by (simp_all add: apartI(1))
    ultimately show ?thesis
      using n s3 s2 len cs unfolding print_ready_def by (auto simp: message_strings_def cs_def)
  qed
  have mem: "message_memory fmt str = m"
    by (simp add: message_memory_def m_def m0_def cs_def)
  obtain m' where m': "sprintf 0x2000 m 0x3000 0x1000 (message_args str nums) = Inr (int (length out), m')"
      "string_at m' 0x3000 out"
    using sprintf_run [OF out _ _ ready] len by auto
  have "map (\<lambda>i. m' (0x3000 + of_nat i)) [0..<length out] = out"
    using m'(2) by (intro nth_equalityI) (simp_all add: string_at_def bytes_at_def)
  then show ?thesis
    using m' len strlen_string [OF m'(2)] by (simp add: sprintf_text_def mem unat_of_nat)
qed

text \<open>A message of the kernel: everything \<open>sprintf_text\<close> needs, and only ASCII characters.\<close>

definition good_message :: "string \<Rightarrow> u8 list option \<Rightarrow> u64 list \<Rightarrow> bool" where
  "good_message fmt str nums \<longleftrightarrow>
     (\<forall>c \<in> set (chars fmt). c \<noteq> 0 \<and> c < 128) \<and> length fmt < 0xF00 \<and>
     (\<forall>cs. str = Some cs \<longrightarrow> (\<forall>c \<in> set cs. c \<noteq> 0 \<and> c < 128) \<and> length cs < 0xF00) \<and>
     (\<exists>out. render (message_strings str) (chars fmt) (message_args str nums) = Some out \<and> length out < 0xF00)"

lemma good_message_text:
  assumes "good_message fmt str nums"
  obtains out where "sprintf_text fmt str nums = Inr out" "\<forall>c \<in> set out. c < 128"
proof -
  obtain out where out: "render (message_strings str) (chars fmt) (message_args str nums) = Some out" "length out < 0xF00"
    using assms unfolding good_message_def by blast
  have "sprintf_text fmt str nums = Inr out"
    by (rule sprintf_text_renders [OF out(1) _ _ _ out(2)]) (use assms in \<open>auto simp: good_message_def\<close>)
  moreover have "\<forall>c \<in> set out. c < 128"
    by (rule render_ascii [OF out(1)]) (use assms in \<open>auto simp: good_message_def message_strings_def split: if_splits\<close>)
  ultimately show thesis by (rule that)
qed

lemma print_line_shows:
  fixes s :: "'a console_state_scheme"
  assumes "good_message fmt str nums" "term_ok (console s)"
  obtains t F where "print_line fmt str nums s = Inr (s\<lparr>console := t\<rparr>)" "term_ok t" "draws (gfx (console s)) (gfx t) F"
proof -
  obtain out where out: "sprintf_text fmt str nums = Inr out" "\<forall>c \<in> set out. c < 128"
    by (rule good_message_text [OF assms(1)])
  obtain t F where "write_line out 0xFFFFFF (console s) = Inr t" "draws (gfx (console s)) (gfx t) F" "term_ok t"
    by (rule shows_textD [OF write_line_draws(2) [OF out(2)] assms(2)])
  then show thesis using that out(1) by (simp add: print_line_def)
qed

text \<open>The rest of a format with one number at its end.\<close>

lemma render_number:
  assumes "0x25 \<notin> set u" "d = 0x64 \<or> d = 0x69"
  shows "render strs (u @ [0x25, d]) (a # as) = Some (u @ itoa_text (sint (ucast a :: u32)) 10)"
proof -
  have "render strs [0x25, d] (a # as) = Some (itoa_text (sint (ucast a :: u32)) 10)"
    using assms(2) by (auto simp: prepend_def)
  then show ?thesis using render_plain [OF assms(1)] by (simp add: prepend_def)
qed

lemma good_number_message:
  assumes fmt: "chars fmt = u @ [0x25, 0x64]" and u: "\<forall>c \<in> set u. c \<noteq> 0 \<and> c \<noteq> 0x25 \<and> c < 128" "length u < 0x800"
  shows "good_message fmt None [v]"
proof -
  have "length fmt = length (chars fmt)" by (simp add: chars_def)
  then have "length fmt < 0xF00" using fmt u(2) by simp
  moreover have "render (message_strings None) (chars fmt) (message_args None [v]) =
      Some (u @ itoa_text (sint (ucast v :: u32)) 10)"
    unfolding fmt message_args_def using u(1) by (simp only: option.case append_Nil) (intro render_number, auto)
  moreover have "length (u @ itoa_text (sint (ucast v :: u32)) 10) < 0xF00"
    using itoa_text_int(1) [of "ucast v"] u(2) by simp
  ultimately show ?thesis using u(1) by (auto simp: good_message_def fmt)
qed

section \<open>Panic\<close>

lemma panic_text:
  assumes "\<forall>c \<in> set msg. c \<noteq> 0 \<and> c < 128" "length msg \<le> 239"
  shows "sprintf_text ''Error message: %s'' (Some msg) [] = Inr (chars ''Error message: '' @ msg)"
proof -
  have fmt: "chars ''Error message: %s'' = chars ''Error message: '' @ [0x25, 0x73]" by code_simp
  have plain: "0x25 \<notin> set (chars ''Error message: '')" "0 \<notin> set (chars ''Error message: %s'')" by code_simp+
  have "render (message_strings (Some msg)) [0x25, 0x73] (message_args (Some msg) []) = Some msg"
    by (simp add: message_args_def message_strings_def prepend_def)
  then have out: "render (message_strings (Some msg)) (chars ''Error message: %s'') (message_args (Some msg) []) =
      Some (chars ''Error message: '' @ msg)"
    unfolding fmt render_plain [OF plain(1)] by (simp add: prepend_def)
  show ?thesis
    by (rule sprintf_text_renders [OF out plain(2)]) (use assms in \<open>auto simp: chars_def\<close>)
qed

lemma panic_screen_shows:
  assumes "term_ok t" and "\<forall>c \<in> set msg. c \<noteq> 0 \<and> c < 128" and "length msg \<le> 239"
  obtains t' where "panic_screen msg t = Inr t'" "term_ok t'"
    "\<And>a. \<not> in_framebuffer (mode (gfx t)) a \<Longrightarrow> vmem (gfx t') a = vmem (gfx t) a"
proof -
  have ascii: "\<forall>c \<in> set (chars ''!! KERNEL PANIC OCCURRED !!''). c < 128"
    "\<forall>c \<in> set (chars ''Error message: ''). c < 128" by code_simp+
  then have line: "\<forall>c \<in> set (chars ''Error message: '' @ msg). c < 128" using assms(2) by auto
  have "term_ok (set_cursor 0 0 t)" using assms(1) by (simp add: term_ok_def set_cursor_def)
  then obtain t1 F where t1: "write_line_bg (chars ''!! KERNEL PANIC OCCURRED !!'') 0xFFFFFF 0xe50000
      (set_cursor 0 0 t) = Inr t1" "draws (gfx (set_cursor 0 0 t)) (gfx t1) F" "term_ok t1"
    by (rule shows_textD [OF write_line_draws(1) [OF ascii(1)]])
  obtain t2 G where t2: "write_line_bg (chars ''Error message: '' @ msg) 0xFFFFFF 0xe50000 t1 = Inr t2"
    "draws (gfx t1) (gfx t2) G" "term_ok t2"
    by (rule shows_textD [OF write_line_draws(1) [OF line] t1(3)])
  have "panic_screen msg t = Inr t2"
    unfolding panic_screen_def t1(1) panic_text [OF assms(2,3)] rbind_Inr t2(1) ..
  then show thesis using that t1(2) t2(2,3) by (auto simp: draws_def set_cursor_def)
qed

text \<open>\<open>panic\<close> never returns. On a screen of whole character cells, and for a message of ASCII characters
  that fits the array \<open>text\<close> behind its prefix, it writes the two lines, changes no byte outside the frame
  buffer, and stops the processor; the text is the prefix and the message, unabridged.\<close>

theorem panic_halts:
  assumes "term_ok (console s)" and "\<forall>c \<in> set msg. c \<noteq> 0 \<and> c < 128" and "length msg \<le> 239"
  shows "panic msg s = Inl Halted \<and>
    sprintf_text ''Error message: %s'' (Some msg) [] = Inr (chars ''Error message: '' @ msg) \<and>
    (\<exists>t. panic_screen msg (console s) = Inr t \<and> term_ok t \<and>
      (\<forall>a. \<not> in_framebuffer (mode (gfx (console s))) a \<longrightarrow> vmem (gfx t) a = vmem (gfx (console s)) a))"
proof -
  obtain t where t: "panic_screen msg (console s) = Inr t" "term_ok t"
    "\<And>a. \<not> in_framebuffer (mode (gfx (console s))) a \<Longrightarrow> vmem (gfx t) a = vmem (gfx (console s)) a"
    by (rule panic_screen_shows [OF assms]) (rule that)
  show ?thesis using t panic_text [OF assms(2,3)] by (auto simp: panic_def halt_forever_def)
qed

definition demo_console :: console_state where
  "demo_console = apic_state.extend demo_machine (console_state.fields demo_term)"

lemma demo_console_term [simp]: "console demo_console = demo_term"
  by (simp add: demo_console_def apic_state.defs console_state.defs)

theorem panic_halts_witness:
  "panic (chars ''ACPI not supported'') demo_console = Inl Halted"
proof (rule panic_halts [THEN conjunct1])
  show "term_ok (console demo_console)" using demo_term_ok by simp
  show "\<forall>c \<in> set (chars ''ACPI not supported''). c \<noteq> 0 \<and> c < 128" by code_simp
  show "length (chars ''ACPI not supported'') \<le> 239" by code_simp
qed

end
