(* ===== verification/FirstFit.thy ===== *)
theory FirstFit
  imports VirtualMemory
begin

text \<open>
  More about the order of the free pages than the page-table code needs: a stronger invariant gives another
  interpretation of its interface. Here are managers of at most 32 pages whose taken pages come before the
  free ones, for which an allocation of a block can be followed after pages have been mapped.
\<close>

text \<open>Every stronger invariant that one-page allocations keep, and that depends on the memory only through
  the allocator's records, serves the page-table code as well.\<close>

lemma page_allocator_with:
  fixes wf :: "'a pmm_state_scheme \<Rightarrow> bool"
  assumes wf: "\<And>s. wf s \<Longrightarrow> pmm_wf s" and alloc: "\<And>s p s'. wf s \<Longrightarrow> pmm_alloc 1 s = Inr (p, s') \<Longrightarrow> wf s'"
    and marks: "\<And>s m. wf s \<Longrightarrow> pmm_wf (s\<lparr>ram := m\<rparr>) \<Longrightarrow>
      (\<And>i. 8192 \<le> i \<Longrightarrow> i < bitmap_len s \<Longrightarrow> page_marked (s\<lparr>ram := m\<rparr>) i = page_marked s i) \<Longrightarrow> wf (s\<lparr>ram := m\<rparr>)"
  shows "page_allocator (pmm_alloc 1) wf pmm_used pmm_own"
proof
  fix s s' :: "'a pmm_state_scheme" and p x y m
  show "\<exists>p s'. pmm_alloc 1 s = Inr (p, s')" by (rule pmm.alloc_returns)
  show "pmm_own s' = pmm_own s" if "pmm_alloc 1 s = Inr (p, s')" using that by (rule pmm.alloc_own)
  show "x div 4096 = y div 4096 \<Longrightarrow> pmm_used s x = pmm_used s y" by (rule pmm.used_page)
  show "pmm_own (s\<lparr>ram := m\<rparr>) = pmm_own s" by (rule pmm.own_ram)
  show "wf s'" if "wf s" "pmm_alloc 1 s = Inr (p, s')" using that by (rule alloc)
  show "wf (s\<lparr>ram := m\<rparr>) \<and> pmm_used (s\<lparr>ram := m\<rparr>) = pmm_used s"
    if own: "\<And>x. pmm_own s x \<Longrightarrow> m x = ram s x" and s: "wf s"
  proof -
    have "page_marked (s\<lparr>ram := m\<rparr>) i = page_marked s i" if "8192 \<le> i" "i < bitmap_len s" for i
      using own wf [OF s] that by (intro page_marked_cong) auto
    then show ?thesis using pmm.used_ram [OF own wf [OF s]] marks [OF s] by blast
  qed
  show "\<exists>m'. pmm_alloc 1 (s\<lparr>ram := m\<rparr>) = Inr (p, s'\<lparr>ram := m'\<rparr>) \<and> (\<forall>x. pmm_own s x \<longrightarrow> m' x = ram s' x)"
    if "wf s" "\<And>x. pmm_own s x \<Longrightarrow> m x = ram s x" "pmm_alloc 1 s = Inr (p, s')"
    using pmm.alloc_local [OF wf that(2,3)] that(1) by blast
  show "aligned 12 p \<and> unat p < 2 ^ 47" if "wf s" "pmm_alloc 1 s = Inr (p, s')"
    using pmm.alloc_aligned [OF wf that(2)] that(1) by blast
qed (auto dest: wf pmm.alloc_null pmm.alloc_fresh pmm.alloc_marks pmm.alloc_keeps pmm.alloc_ram pmm.own_used)

text \<open>Managers of at most 32 pages whose taken pages come first.\<close>

definition first_fit :: "'a pmm_state_scheme \<Rightarrow> bool" where
  "first_fit s \<longleftrightarrow> pmm_wf s \<and> 8192 \<le> bitmap_len s \<and> bitmap_len s \<le> 8224 \<and>
     (\<exists>j. 8192 \<le> j \<and> j \<le> bitmap_len s \<and> (\<forall>i. 8192 \<le> i \<longrightarrow> i < bitmap_len s \<longrightarrow> page_marked s i = (i < j)))"

lemma first_fitD:
  assumes "first_fit s"
  obtains j where "pmm_wf s" "8192 \<le> bitmap_len s" "bitmap_len s \<le> 8224" "8192 \<le> j" "j \<le> bitmap_len s"
    "\<And>i. 8192 \<le> i \<Longrightarrow> i < bitmap_len s \<Longrightarrow> page_marked s i \<longleftrightarrow> i < j"
  using assms unfolding first_fit_def by blast

lemma first_fit_alloc:
  assumes ff: "first_fit s" and run: "pmm_alloc 1 s = Inr (p, s')"
  shows "first_fit s'"
proof (rule first_fitD [OF ff])
  fix j
  assume j: "pmm_wf s" "8192 \<le> bitmap_len s" "bitmap_len s \<le> 8224" "8192 \<le> j" "j \<le> bitmap_len s"
    and marks: "\<And>i. 8192 \<le> i \<Longrightarrow> i < bitmap_len s \<Longrightarrow> page_marked s i \<longleftrightarrow> i < j"
  show "first_fit s'"
    using run
  proof (cases rule: pmm_alloc_cases)
    case exhausted
    then show ?thesis using ff by simp
  next
    case (found idx)
    then have "\<not> page_marked s idx"
      by (auto simp: bitmap_is_free_iff page_marked_def dest!: spec [of _ 0])
    then have "j < bitmap_len s" using marks [of idx] found(1,2) by (auto simp: first_page_eq)
    then have room: "unat j + unat (1 :: u64) \<le> unat (bitmap_len s)" by (simp add: word_less_nat_alt)
    note step = pmm_alloc_prefix [OF j(1-4) marks room one_neq_zero]
    have s': "s' = pmm_take j 1 s" using step(1) run by simp
    have u: "unat (j + 1) = unat j + 1" using \<open>j < bitmap_len s\<close> by (rule word_Suc_le)
    then have "8192 \<le> j + 1" "j + 1 \<le> bitmap_len s" using j(4) room by (simp_all add: word_le_nat_alt)
    then show ?thesis
      using j step(2) pmm_wf_take [OF j(1)] unfolding first_fit_def s' by (auto intro!: exI [of _ "j + 1"])
  qed
qed

interpretation boot: page_allocator "pmm_alloc 1" first_fit pmm_used pmm_own
  by (rule page_allocator_with [OF _ first_fit_alloc]) (auto simp: first_fit_def)

text \<open>Its invariant is the one of \<open>pmm\<close>, with the pages in this order.\<close>

lemma boot_inv: "boot.vinv s r \<longleftrightarrow> space_ok s r \<and> first_fit s"
  by (auto simp: vmm_inv_def first_fit_def)

text \<open>Mapping one page.\<close>

lemma map_page_first_fit:
  fixes s :: "'a pmm_state_scheme"
  assumes "space_ok s r" "first_fit s" and perms: "perms_ok perms" and unmapped: "hw_walk (ram s) r v = Unmapped"
    and can: "can_alloc (pmm_alloc 1) (n + 3) s"
  obtains s' where "map_pages (pmm_alloc 1) r v phys 1 perms s = Inr (True, s')" "space_ok s' r" "first_fit s'"
    "can_alloc (pmm_alloc 1) n s'" "pmm.grows s s' r"
    "\<And>w. hw_walk (ram s') r w = (if page_number w = page_number v then Page4K (leaf_entry phys perms)
       else hw_walk (ram s) r w)"
proof -
  have inv: "boot.vinv s r" using assms(1,2) by (simp add: boot_inv)
  have nl: "tree_walk (ram s) r v \<noteq> Page2M e" for e using unmapped by (simp add: space_walk [OF assms(1)])
  from inv perms nl show thesis
  proof (cases rule: boot.map_page_cases [where n = 0 and phys = phys])
    case exhausted
    then show ?thesis using can_alloc_mono [OF can, of 3] by simp
  next
    case (mapped s')
    have s': "space_ok s' r" "first_fit s'" using mapped(2) by (simp_all add: boot_inv)
    have "map_pages (pmm_alloc 1) r v phys 1 perms s = Inr (True, s')"
      using mapped(1) by (simp add: map_pages_def)
    then show ?thesis
      using that [OF _ s' mapped(4) [OF can]] mapped(3,5) space_walk [OF s'(1)] space_walk [OF assms(1)] by simp
  qed
qed

lemma map_large_first_fit:
  fixes s :: "'a pmm_state_scheme"
  assumes "space_ok s r" "first_fit s" and perms: "perms_ok perms" and can: "can_alloc (pmm_alloc 1) (n + 2) s"
  obtains s' where "map_huge_pages (pmm_alloc 1) r v phys 1 perms s = Inr (True, s')" "space_ok s' r" "first_fit s'"
    "can_alloc (pmm_alloc 1) n s'" "pmm.grows s s' r"
    "\<And>w. hw_walk (ram s') r w = (if block_number 21 w = block_number 21 v then Page2M (huge_entry phys perms)
       else hw_walk (ram s) r w)"
proof -
  have inv: "boot.vinv s r" using assms(1,2) by (simp add: boot_inv)
  from inv perms show thesis
  proof (cases rule: boot.map_huge_page_cases [where n = 0 and phys = phys and v = v])
    case exhausted
    then show ?thesis using can_alloc_mono [OF can, of 2] by simp
  next
    case (mapped s')
    have s': "space_ok s' r" "first_fit s'" using mapped(2) by (simp_all add: boot_inv)
    have "map_huge_pages (pmm_alloc 1) r v phys 1 perms s = Inr (True, s')"
      using mapped(1) by (simp add: map_huge_pages_def)
    then show ?thesis
      using that [OF _ s' mapped(4) [OF can]] mapped(3,7) space_walk [OF s'(1)] space_walk [OF assms(1)] by simp
  qed
qed

text \<open>The next pages are free, and lie next to each other.\<close>

lemma first_fit_room:
  fixes s :: "'a pmm_state_scheme"
  assumes "first_fit s" "can_alloc (pmm_alloc 1) n s" "8192 \<le> j" "j \<le> bitmap_len s"
    and "\<And>i. 8192 \<le> i \<Longrightarrow> i < bitmap_len s \<Longrightarrow> page_marked s i \<longleftrightarrow> i < j"
  shows "unat j + n \<le> unat (bitmap_len s)"
  using assms
proof (induction n arbitrary: s j)
  case 0
  then show ?case by (simp add: word_le_nat_alt)
next
  case (Suc n)
  obtain p s' where run: "pmm_alloc 1 s = Inr (p, s')" "p \<noteq> 0" "can_alloc (pmm_alloc 1) n s'"
    using Suc.prems(2) by (auto simp: can_alloc.simps split: sum.splits)
  have wf: "pmm_wf s" "8192 \<le> bitmap_len s" "bitmap_len s \<le> 8224" using Suc.prems(1) by (simp_all add: first_fit_def)
  have "j \<noteq> bitmap_len s"
  proof
    assume j: "j = bitmap_len s"
    from run(1) show False
    proof (cases rule: pmm_alloc_cases)
      case (found idx)
      then show ?thesis using Suc.prems(5) [of idx] j
        by (auto simp: first_page_eq bitmap_is_free_iff page_marked_def dest!: spec [of _ 0])
    qed (use run(2) in simp)
  qed
  then have jl: "j < bitmap_len s" using Suc.prems(4) by simp
  then have room: "unat j + unat (1 :: u64) \<le> unat (bitmap_len s)" by (simp add: word_less_nat_alt)
  note step = pmm_alloc_prefix [OF wf Suc.prems(3,5) room one_neq_zero]
  have s': "s' = pmm_take j 1 s" using step(1) run(1) by simp
  have u: "unat (j + 1) = unat j + 1" using jl by (rule word_Suc_le)
  have "unat (j + 1) + n \<le> unat (bitmap_len s')"
  proof (rule Suc.IH [OF first_fit_alloc [OF Suc.prems(1) run(1)] run(3)])
    show "8192 \<le> j + 1" "j + 1 \<le> bitmap_len s'" using Suc.prems(3) u room by (simp_all add: word_le_nat_alt s')
    show "page_marked s' i \<longleftrightarrow> i < j + 1" if "8192 \<le> i" "i < bitmap_len s'" for i
      using step(2) [of i] that by (simp add: s')
  qed
  then show ?case using u by (simp add: s')
qed

lemma first_fit_block:
  fixes s :: "'a pmm_state_scheme"
  assumes ff: "first_fit s" and can: "can_alloc (pmm_alloc 1) n s" and c: "unat c \<le> n" "c \<noteq> 0"
  obtains p s' where "pmm_alloc c s = Inr (p, s')" "p \<noteq> 0" "unat p div 4096 + unat c \<le> unat (bitmap_len s)"
proof (rule first_fitD [OF ff])
  fix j
  assume j: "pmm_wf s" "8192 \<le> bitmap_len s" "bitmap_len s \<le> 8224" "8192 \<le> j" "j \<le> bitmap_len s"
    and marks: "\<And>i. 8192 \<le> i \<Longrightarrow> i < bitmap_len s \<Longrightarrow> page_marked s i \<longleftrightarrow> i < j"
  have room: "unat j + unat c \<le> unat (bitmap_len s)" using first_fit_room [OF ff can j(4,5) marks] c(1) by simp
  note step = pmm_alloc_prefix [OF j(1-4) marks room c(2)]
  have "0 < unat c" using c(2) by (simp add: unat_gt_0)
  then have "j < bitmap_len s" using room by (simp add: word_less_nat_alt)
  then have "unat (j * page_size) = unat j * 4096" using unat_page [OF _ j(1)] by blast
  then show thesis using that [OF step(1,3)] room by simp
qed

lemma fresh_space_fit:
  assumes "first_fit s0" "pmm_alloc 1 s0 = Inr (small_root, s)"
  shows "first_fit (fresh_space s0)"
proof -
  have "pmm_wf s0" using assms(1) by (simp add: first_fit_def)
  note keeps = fresh_space_keeps [OF this assms(2)]
  show ?thesis
    using boot.used_ram [OF keeps first_fit_alloc [OF assms]] assms(2) by (simp add: fresh_space_def)
qed

end
