(* ===== verification/Smp.thy ===== *)
theory Smp
  imports Console FirstFit
begin

text \<open>
  The other processors, \<open>hardware/cpu/smp/smp.cpp\<close>: the trampoline on which they start, and the sequence
  of interrupts with which each of them is started.
\<close>

unbundle bit_operations_syntax

section \<open>State and operations\<close>

text \<open>The symbols of the linker script and of \<open>trampoline.asm\<close>.\<close>

record smp_symbols =
  trampoline_start :: u64
  trampoline_end :: u64
  smp_entry :: u64

record cpu_entry =
  lapic_id :: u32
  bsp :: bool

text \<open>The globals \<open>trampoline_booted\<close> and \<open>trampoline_stack\<close>.\<close>

record smp_state = console_state +
  trampoline_booted :: bool
  trampoline_stack :: u64

definition set_booted :: "'a smp_state_scheme \<Rightarrow> 'a smp_state_scheme" where
  "set_booted s = s\<lparr>trampoline_booted := True\<rparr>"

text \<open>The other processors are part of the environment: after the given accesses, and with so many
  rounds left in the loop, one of them has called \<open>set_booted\<close>.\<close>

type_synonym processors = "io_event list \<Rightarrow> nat \<Rightarrow> bool"

text \<open>The loop with \<open>timeout\<close> rounds left; the inner loop only passes time.\<close>

primrec poll_boot :: "nat \<Rightarrow> processors \<Rightarrow> 'a smp_state_scheme \<Rightarrow> bool \<times> 'a smp_state_scheme" where
  "poll_boot 0 ap s = (False, s)"
| "poll_boot (Suc timeout) ap s =
     (let s1 = (if ap (io_trace s) (Suc timeout) then set_booted s else s)
      in if trampoline_booted s1 then (True, s1) else poll_boot timeout ap s1)"

definition wait_for_boot :: "processors \<Rightarrow> 'a smp_state_scheme \<Rightarrow> bool \<times> 'a smp_state_scheme" where
  "wait_for_boot ap s = poll_boot 100 ap s"

definition get_len :: "smp_symbols \<Rightarrow> u64" where
  "get_len sy = trampoline_end sy - trampoline_start sy"

definition smp_init :: "smp_symbols \<Rightarrow> 'a smp_state_scheme \<Rightarrow> 'a smp_state_scheme result" where
  "smp_init sy s =
     (let len = get_len sy
      in rbind (map_pages (pmm_alloc 1) (get_current_context s) (trampoline_start sy) (trampoline_start sy)
                  ((len + page_size - 1) div page_size) (VMM_PRESENT OR VMM_WRITE) s) (\<lambda>(b, s1).
           virt_memcpy_n (unat len) (trampoline_start sy) (0x400000 + virtual_physical_base) s1))"

text \<open>\<open>DM_SIPI | (((uintptr_t)&smp_entry >> 12) & 0xFF)\<close>, as the \<open>uint32_t\<close> parameter of \<open>send_ipi\<close>.\<close>

definition sipi_flags :: "smp_symbols \<Rightarrow> u32" where
  "sipi_flags sy = ucast (ucast DM_SIPI OR (drop_bit 12 (smp_entry sy) AND 0xFF))"

definition boot_cpu ::
  "devices \<Rightarrow> processors \<Rightarrow> smp_symbols \<Rightarrow> cpu_entry \<Rightarrow> 'a smp_state_scheme \<Rightarrow> 'a smp_state_scheme result" where
  "boot_cpu dev ap sy cpu s =
     (if bsp cpu then Inr s
      else
        rbind (pmm_alloc (0x10000 div page_size) s) (\<lambda>(p, s1).
        let s2 = s1\<lparr>trampoline_stack := p + virtual_physical_base\<rparr>
        in if trampoline_stack s2 = 0
           then print_line ''[SMP] Failed to allocate stack for CPU with lapic ID %d'' None [ucast (lapic_id cpu)] s2
           else
             rbind (send_ipi dev (lapic_id cpu) (TM_LEVEL OR LEVELASSERT OR DM_INIT) s2) (\<lambda>s3.
             rbind (send_ipi dev (lapic_id cpu) (sipi_flags sy) s3) (\<lambda>s4.
             let (booted, s5) = wait_for_boot ap s4
             in rbind (if \<not> booted then send_ipi dev (lapic_id cpu) (sipi_flags sy) s5 else Inr s5) (\<lambda>s6.
                let (booted', s7) = wait_for_boot ap s6
                in rbind (if booted'
                          then print_line ''[SMP] Sucessfully booted CPU with lapic ID %d'' None [ucast (lapic_id cpu)] s7
                          else print_line ''[SMP] Failed to boot CPU with lapic ID %d'' None [ucast (lapic_id cpu)] s7)
                     (\<lambda>s8. Inr (s8\<lparr>trampoline_booted := False\<rparr>)))))))"

section \<open>Waiting\<close>

text \<open>Some processor answers within so many rounds.\<close>

definition answers :: "processors \<Rightarrow> io_event list \<Rightarrow> nat \<Rightarrow> bool" where
  "answers ap tr n \<longleftrightarrow> (\<exists>k < n. ap tr (Suc k))"

lemma answers_Suc: "answers ap tr (Suc n) \<longleftrightarrow> ap tr (Suc n) \<or> answers ap tr n"
  by (auto simp: answers_def less_Suc_eq)

lemma poll_boot_eq:
  "\<not> trampoline_booted s \<Longrightarrow>
   poll_boot n ap s = (if answers ap (io_trace s) n then (True, set_booted s) else (False, s))"
proof (induction n)
  case 0
  then show ?case by (simp add: answers_def)
next
  case (Suc n)
  then show ?case by (simp add: answers_Suc Let_def) (simp add: set_booted_def)
qed

lemma set_booted_again: "trampoline_booted s \<Longrightarrow> set_booted s = s"
  by (cases s) (simp add: set_booted_def)

lemma poll_boot_booted: "trampoline_booted s \<Longrightarrow> 0 < n \<Longrightarrow> poll_boot n ap s = (True, s)"
  using set_booted_again [of s] by (cases n) simp_all

lemma wait_for_boot_eq:
  "wait_for_boot ap s =
     (if trampoline_booted s \<or> answers ap (io_trace s) 100 then (True, set_booted s) else (False, s))"
  by (cases "trampoline_booted s") (simp_all add: wait_for_boot_def poll_boot_eq poll_boot_booted set_booted_again)

section \<open>Starting a processor\<close>

definition smp_ok :: "'a smp_state_scheme \<Rightarrow> bool" where
  "smp_ok s \<longleftrightarrow> space_ok s (cr3 s) \<and> apic_ready s \<and> term_ok (console s)"

text \<open>The controller never shows the pending bit.\<close>

definition idle :: "devices \<Rightarrow> u64 \<Rightarrow> bool" where
  "idle dev p \<longleftrightarrow> (\<forall>tr. dev tr (Mmio p) 4 AND PENDING = 0)"

definition after_ipi :: "devices \<Rightarrow> u64 \<Rightarrow> u32 \<Rightarrow> u32 \<Rightarrow> io_event list \<Rightarrow> io_event list" where
  "after_ipi dev p target flags tr =
     (let t = tr @ [Wrote (Mmio (p + 0x10)) 4 (push_bit 24 target), Wrote (Mmio p) 4 flags]
      in t @ [Read (Mmio p) 4 (dev t (Mmio p) 4)])"

lemma send_ipi_idle:
  fixes s :: "'a apic_state_scheme"
  assumes "apic_ready s" "idle dev (icr_addr s)"
  shows "send_ipi dev target flags s = Inr (s\<lparr>io_trace := after_ipi dev (icr_addr s) target flags (io_trace s)\<rparr>)"
proof -
  have p: "icr_addr s = hw_frame (msrs s apic_base) + 0x300" by (simp add: icr_addr_def icr_low_def)
  let ?tr = "io_trace s @ [Wrote (Mmio (icr_addr s + 0x10)) 4 (push_bit 24 target), Wrote (Mmio (icr_addr s)) 4 flags]"
  have "\<not> busy dev (icr_addr s) ?tr 0 \<and> (\<forall>k < 0. busy dev (icr_addr s) ?tr k)"
    using assms(2) by (simp add: busy_def idle_def)
  then have "send_ipi dev target flags s = Inr (s\<lparr>io_trace := poll_trace dev (icr_addr s) ?tr (Suc 0)\<rparr>)"
    using send_ipi_run [OF assms(1) p refl, of dev target flags] by blast
  then show ?thesis by (simp add: after_ipi_def Let_def)
qed

lemma send_ipi_smp:
  fixes s :: "'a smp_state_scheme"
  assumes "smp_ok s" "idle dev (icr_addr s)"
  shows "send_ipi dev target flags s = Inr (s\<lparr>io_trace := after_ipi dev (icr_addr s) target flags (io_trace s)\<rparr>)"
    and "smp_ok (s\<lparr>io_trace := tr\<rparr>)"
  using send_ipi_idle [of s dev target flags] assms space_ok_same(1) [of "s\<lparr>io_trace := tr\<rparr>" s "cr3 s"]
  by (simp_all add: smp_ok_def)

text \<open>Only what the three messages print differs.\<close>

lemma smp_messages:
  "good_message ''[SMP] Failed to allocate stack for CPU with lapic ID %d'' None [v]"
  "good_message ''[SMP] Sucessfully booted CPU with lapic ID %d'' None [v]"
  "good_message ''[SMP] Failed to boot CPU with lapic ID %d'' None [v]"
proof -
  show "good_message ''[SMP] Failed to allocate stack for CPU with lapic ID %d'' None [v]"
    by (rule good_number_message [where u = "chars ''[SMP] Failed to allocate stack for CPU with lapic ID ''"]) code_simp+
  show "good_message ''[SMP] Sucessfully booted CPU with lapic ID %d'' None [v]"
    by (rule good_number_message [where u = "chars ''[SMP] Sucessfully booted CPU with lapic ID ''"]) code_simp+
  show "good_message ''[SMP] Failed to boot CPU with lapic ID %d'' None [v]"
    by (rule good_number_message [where u = "chars ''[SMP] Failed to boot CPU with lapic ID ''"]) code_simp+
qed

lemma pmm_alloc_none:
  assumes wf: "pmm_wf s" and run: "pmm_alloc c s = Inr (0, s')"
  shows "s' = s"
  using run
proof (cases rule: pmm_alloc_cases)
  case (found idx)
  have "unat (idx * page_size) = unat idx * 4096" using unat_page [OF found(2) wf] .
  moreover have "8192 \<le> unat idx" using found(1) by (simp add: first_page_eq word_le_nat_alt)
  ultimately show ?thesis using found(3) by simp
qed simp

text \<open>Taking the stack leaves everything else working.\<close>

lemma take_stack:
  fixes s :: "'a smp_state_scheme"
  assumes "smp_ok s" "pmm_alloc c s = Inr (p, s1)" "p \<noteq> 0 \<longrightarrow> unat p div 4096 + unat c \<le> unat (bitmap_len s)"
  shows "smp_ok (s1\<lparr>trampoline_stack := q\<rparr>)" "io_trace s1 = io_trace s" "msrs s1 = msrs s"
    "trampoline_booted s1 = trampoline_booted s" "console s1 = console s" "unat p < 2 ^ 44 + 1"
    "hw_walk (ram s1) (cr3 s1) = hw_walk (ram s) (cr3 s)"
proof -
  have frame: "cr3 s1 = cr3 s \<and> io_trace s1 = io_trace s \<and> msrs s1 = msrs s \<and> console s1 = console s \<and>
      lapic_base s1 = lapic_base s \<and> trampoline_booted s1 = trampoline_booted s"
    using assms(2) by (cases rule: pmm_alloc_cases) (simp_all add: pmm_take_def)
  have space: "space_ok s1 (cr3 s) \<and> hw_walk (ram s1) (cr3 s) = hw_walk (ram s) (cr3 s) \<and> unat p < 2 ^ 44 + 1"
  proof (cases "p = 0")
    case True
    have wf: "pmm_wf s" using assms(1) by (simp add: smp_ok_def vmm_inv_def)
    have "s1 = s" using pmm_alloc_none [OF wf] assms(2) True by simp
    then show ?thesis using assms(1) True by (simp add: smp_ok_def)
  next
    case False
    have inv: "space_ok s (cr3 s)" and wf: "pmm_wf s" using assms(1) by (simp_all add: smp_ok_def vmm_inv_def)
    have fits: "unat p div 4096 + unat c \<le> unat (bitmap_len s)" using assms(3) False by simp
    show ?thesis
      using pmm_alloc_space(1,2) [OF inv assms(2) False fits] block_bound [OF wf assms(2) False fits] by simp
  qed
  show "hw_walk (ram s1) (cr3 s1) = hw_walk (ram s) (cr3 s)" using space frame by simp
  then have "apic_ready s1"
    using assms(1) frame hw_translate_walk [of "ram s1" "cr3 s1" "ram s"] by (simp add: smp_ok_def apic_ready_def)
  then show "smp_ok (s1\<lparr>trampoline_stack := q\<rparr>)"
    using assms(1) frame space space_ok_same(1) [of "s1\<lparr>trampoline_stack := q\<rparr>" s1 "cr3 s"]
    by (simp add: smp_ok_def apic_ready_def)
  show "io_trace s1 = io_trace s" "msrs s1 = msrs s" "trampoline_booted s1 = trampoline_booted s"
    "console s1 = console s" "unat p < 2 ^ 44 + 1"
    using space frame by simp_all
qed

text \<open>The accesses that start one processor: the INIT interrupt, the start-up interrupt, and a second
  start-up interrupt if no processor answered the first in time.\<close>

definition start_trace :: "devices \<Rightarrow> processors \<Rightarrow> u64 \<Rightarrow> u32 \<Rightarrow> u32 \<Rightarrow> io_event list \<Rightarrow> io_event list" where
  "start_trace dev ap p target sipi tr =
     (let tr1 = after_ipi dev p target (TM_LEVEL OR LEVELASSERT OR DM_INIT) tr;
          tr2 = after_ipi dev p target sipi tr1
      in if answers ap tr2 100 then tr2 else after_ipi dev p target sipi tr2)"

lemma boot_cpu_run:
  fixes s :: "'a smp_state_scheme"
  assumes ok: "smp_ok s" and idle: "idle dev (icr_addr s)" and "\<not> bsp cpu" "\<not> trampoline_booted s"
    and alloc: "pmm_alloc 16 s = Inr (p, s1)" and fits: "p \<noteq> 0 \<longrightarrow> unat p div 4096 + 16 \<le> unat (bitmap_len s)"
  obtains t where "boot_cpu dev ap sy cpu s = Inr (s1\<lparr>trampoline_stack := p + virtual_physical_base, console := t,
      io_trace := start_trace dev ap (icr_addr s) (lapic_id cpu) (sipi_flags sy) (io_trace s)\<rparr>)"
    "term_ok t" "smp_ok (s1\<lparr>trampoline_stack := p + virtual_physical_base\<rparr>)"
proof -
  let ?k = "icr_addr s"
  let ?msg = "\<lambda>booted. if booted then ''[SMP] Sucessfully booted CPU with lapic ID %d''
                         else ''[SMP] Failed to boot CPU with lapic ID %d''"
  define tr1 where "tr1 = after_ipi dev ?k (lapic_id cpu) (TM_LEVEL OR LEVELASSERT OR DM_INIT) (io_trace s)"
  define tr2 where "tr2 = after_ipi dev ?k (lapic_id cpu) (sipi_flags sy) tr1"
  define tr3 where "tr3 = after_ipi dev ?k (lapic_id cpu) (sipi_flags sy) tr2"
  have "p \<noteq> 0 \<longrightarrow> unat p div 4096 + unat (16 :: u64) \<le> unat (bitmap_len s)" using fits by simp
  note take = take_stack [OF ok alloc this]
  define s2 where "s2 = s1\<lparr>trampoline_stack := p + virtual_physical_base\<rparr>"
  have s2: "smp_ok s2" "io_trace s2 = io_trace s" "icr_addr s2 = ?k" "\<not> trampoline_booted s2" "term_ok (console s2)"
    using take ok assms(4) by (simp_all add: s2_def icr_addr_def smp_ok_def)
  have "unat (p + virtual_physical_base) = unat p + unat virtual_physical_base"
    using take(6) by (subst unat_add_u64) (simp_all add: mm_consts)
  then have stack: "p + virtual_physical_base \<noteq> 0" by (auto simp: mm_consts)
  define after where "after = (\<lambda>tr. s2\<lparr>io_trace := tr\<rparr>)"
  have a: "smp_ok (after tr)" "icr_addr (after tr) = ?k" "io_trace (after tr) = tr" "\<not> trampoline_booted (after tr)"
    "console (after tr) = console s2" for tr
    using send_ipi_smp(2) [OF s2(1)] idle s2 by (simp_all add: after_def)
  have ipi: "send_ipi dev v fl (after tr) = Inr (after (after_ipi dev ?k v fl tr))" for v fl tr
    using send_ipi_smp(1) [OF a(1)] idle a(2,3) by (simp add: after_def)
  have ipi2: "send_ipi dev v fl s2 = Inr (after (after_ipi dev ?k v fl (io_trace s)))" for v fl
    using send_ipi_smp(1) [OF s2(1)] idle s2(2,3) by (simp add: after_def)
  define fin where "fin = (\<lambda>b u. rbind
      (if b then print_line ''[SMP] Sucessfully booted CPU with lapic ID %d'' None [ucast (lapic_id cpu)] u
       else print_line ''[SMP] Failed to boot CPU with lapic ID %d'' None [ucast (lapic_id cpu)] u)
      (\<lambda>s8 :: 'a smp_state_scheme. Inr (s8\<lparr>trampoline_booted := False\<rparr>) :: 'a smp_state_scheme result))"
  have said: "\<exists>t. fin b u = Inr (s2\<lparr>console := t, io_trace := tr\<rparr>) \<and> term_ok t"
    if u: "u = after tr \<or> u = set_booted (after tr)" for b u tr
  proof -
    have "term_ok (console u)" using u s2(5) a(5) by (auto simp: set_booted_def)
    moreover have "good_message (?msg b) None [ucast (lapic_id cpu)]" using smp_messages by simp
    ultimately obtain t F where t: "print_line (?msg b) None [ucast (lapic_id cpu)] u = Inr (u\<lparr>console := t\<rparr>)" "term_ok t"
      using print_line_shows by blast
    have "u\<lparr>console := t, trampoline_booted := False\<rparr> = s2\<lparr>console := t, io_trace := tr\<rparr>"
      using u s2(4) by (cases s2) (auto simp: after_def set_booted_def)
    then show ?thesis using t unfolding fin_def by (cases b) auto
  qed
  have wait: "wait_for_boot ap (after tr) = (if answers ap tr 100 then (True, set_booted (after tr)) else (False, after tr))"
    "wait_for_boot ap (set_booted (after tr)) = (True, set_booted (after tr))" for tr
    using a by (simp_all add: wait_for_boot_eq set_booted_def)
  define b where "b \<longleftrightarrow> answers ap tr2 100 \<or> answers ap tr3 100"
  define u where "u = (if answers ap tr2 100 then set_booted (after tr2)
    else if answers ap tr3 100 then set_booted (after tr3) else after tr3)"
  have run: "boot_cpu dev ap sy cpu s = fin b u"
    using assms(3) alloc stack
    by (simp add: boot_cpu_def mm_consts(3) Let_def ipi2 ipi wait tr1_def [symmetric] tr2_def [symmetric]
        tr3_def [symmetric] fin_def b_def u_def flip: s2_def)
  have tr: "start_trace dev ap ?k (lapic_id cpu) (sipi_flags sy) (io_trace s) = (if answers ap tr2 100 then tr2 else tr3)"
    by (simp add: start_trace_def Let_def tr3_def tr2_def tr1_def)
  have "u = after (if answers ap tr2 100 then tr2 else tr3) \<or> u = set_booted (after (if answers ap tr2 100 then tr2 else tr3))"
    by (simp add: u_def)
  note end_ok = said [OF this, of b]
  have "\<exists>t. boot_cpu dev ap sy cpu s = Inr (s2\<lparr>console := t,
      io_trace := start_trace dev ap ?k (lapic_id cpu) (sipi_flags sy) (io_trace s)\<rparr>) \<and> term_ok t"
    unfolding run tr by (rule end_ok)
  then obtain t where "boot_cpu dev ap sy cpu s = Inr (s2\<lparr>console := t,
      io_trace := start_trace dev ap ?k (lapic_id cpu) (sipi_flags sy) (io_trace s)\<rparr>)" "term_ok t"
    by (elim exE conjE)
  then show thesis using that [of t] s2(1) unfolding s2_def by (simp only: simp_thms)
qed

section \<open>Properties\<close>

lemma smp_ok_end:
  fixes s :: "'a smp_state_scheme"
  assumes "smp_ok s" "term_ok t"
  shows "smp_ok (s\<lparr>console := t, io_trace := tr\<rparr>)"
  using assms space_ok_same(1) [of "s\<lparr>console := t, io_trace := tr\<rparr>" s "cr3 s"]
  by (simp add: smp_ok_def apic_ready_def)

text \<open>The bits behind the last page never complete a block for a stack. Allocations keep this.\<close>

definition stacks_fit :: "'a pmm_state_scheme \<Rightarrow> bool" where
  "stacks_fit s \<longleftrightarrow> (\<forall>i. first_page \<le> i \<longrightarrow> i < bitmap_len s \<longrightarrow> bitmap_is_free (ram s) (bitmap s) i 16 \<longrightarrow>
     unat i + 16 \<le> unat (bitmap_len s))"

lemma stacks_fit_same: "ram s = ram t \<Longrightarrow> bitmap s = bitmap t \<Longrightarrow> bitmap_len s = bitmap_len t \<Longrightarrow> stacks_fit s = stacks_fit t"
  by (simp add: stacks_fit_def)

lemma stacks_fit_alloc:
  assumes wf: "pmm_wf s" and fit: "stacks_fit s" and run: "pmm_alloc 16 s = Inr (p, s')"
  shows "stacks_fit s'" and "p \<noteq> 0 \<longrightarrow> unat p div 4096 + 16 \<le> unat (bitmap_len s)"
proof -
  have "stacks_fit s' \<and> (p \<noteq> 0 \<longrightarrow> unat p div 4096 + 16 \<le> unat (bitmap_len s))"
    using run
  proof (cases rule: pmm_alloc_cases)
    case exhausted
    then show ?thesis using fit by simp
  next
    case (found idx)
    have "bitmap_is_free (ram s) (bitmap s) i 16" if "bitmap_is_free (ram s') (bitmap s') i 16" for i
      using that page_marked_take [OF pmm_wf_aligned [OF wf], of idx 16]
      by (simp add: found(6) bitmap_is_free_iff page_marked_def)
    moreover have "bitmap_len s' = bitmap_len s" by (simp add: found(6))
    ultimately have "stacks_fit s'" using fit by (simp add: stacks_fit_def)
    moreover have "unat p = unat idx * 4096" using unat_page [OF found(2) wf] found(3) by simp
    ultimately show ?thesis using fit found(1,2,4) by (simp add: stacks_fit_def)
  qed
  then show "stacks_fit s'" "p \<noteq> 0 \<longrightarrow> unat p div 4096 + 16 \<le> unat (bitmap_len s)" by blast+
qed

text \<open>So it is when the bit that is read for the first page behind the end is the bit of a page in use.\<close>

definition end_marked :: "'a pmm_state_scheme \<Rightarrow> bool" where
  "end_marked s \<longleftrightarrow> (\<exists>q < bitmap_len s. slot q = slot (bitmap_len s) \<and> page_marked s q)"

lemma end_marked_stacks:
  assumes end_marked: "end_marked s"
  shows "stacks_fit s"
  unfolding stacks_fit_def
proof (intro allI impI, rule ccontr)
  fix i assume i: "first_page \<le> i" "i < bitmap_len s" "bitmap_is_free (ram s) (bitmap s) i 16"
    "\<not> unat i + 16 \<le> unat (bitmap_len s)"
  define k where "k = unat (bitmap_len s) - unat i"
  have u: "unat i < unat (bitmap_len s)" using i(2) by (simp add: word_less_nat_alt)
  then have k: "k < 16" using i(4) by (simp add: k_def)
  have "i + of_nat k = of_nat (unat i) + of_nat k" by simp
  also have "\<dots> = of_nat (unat i + k)" by (simp only: of_nat_add)
  also have "unat i + k = unat (bitmap_len s)" using u by (simp add: k_def)
  finally have "i + of_nat k = bitmap_len s" by simp
  moreover have "page_marked s (bitmap_len s)" using end_marked page_marked_slot unfolding end_marked_def by blast
  ultimately show False using i(3) k by (auto simp: bitmap_is_free_iff page_marked_def dest!: spec [of _ k])
qed

lemma end_marked_grows:
  assumes "end_marked s" "\<And>x. pmm_used s x \<Longrightarrow> pmm_used s' x" "bitmap_len s' = bitmap_len s" "unat (bitmap_len s) < 2 ^ 52"
  shows "end_marked s'"
proof -
  obtain q where q: "q < bitmap_len s" "slot q = slot (bitmap_len s)" "page_marked s q"
    using assms(1) by (auto simp: end_marked_def)
  have "unat q * 4096 < 2 ^ 64" using q(1) assms(4) by (simp add: word_less_nat_alt)
  then have "unat (q * page_size) = unat q * 4096" by (subst unat_mult_u64) (simp_all add: mm_consts)
  then have page: "q * page_size div page_size = q" by (simp add: word_unat_eq_iff unat_div mm_consts)
  have "pmm_used s (q * page_size)" using q(3) by (simp add: pmm_used_def page)
  then have "pmm_used s' (q * page_size)" by (rule assms(2))
  then have "page_marked s' q" using assms(3) q(1) by (simp add: pmm_used_def page)
  then show ?thesis using q(1,2) assms(3) by (auto simp: end_marked_def)
qed

text \<open>When the next processor can be started.\<close>

definition smp_ready :: "devices \<Rightarrow> 'a smp_state_scheme \<Rightarrow> bool" where
  "smp_ready dev s \<longleftrightarrow> smp_ok s \<and> stacks_fit s \<and> idle dev (icr_addr s) \<and> \<not> trampoline_booted s"

lemma smp_readyD:
  "smp_ready dev s \<Longrightarrow> smp_ok s \<and> stacks_fit s \<and> idle dev (icr_addr s) \<and> \<not> trampoline_booted s \<and> pmm_wf s"
  by (simp add: smp_ready_def smp_ok_def vmm_inv_def)

lemma boot_cpu_ready:
  fixes s :: "'a smp_state_scheme"
  assumes ready: "smp_ready dev s" and "\<not> bsp cpu" and alloc: "pmm_alloc 16 s = Inr (p, s1)"
  obtains t s' where "boot_cpu dev ap sy cpu s = Inr s'" "smp_ready dev s'"
    "s' = s1\<lparr>trampoline_stack := p + virtual_physical_base, console := t,
      io_trace := start_trace dev ap (icr_addr s) (lapic_id cpu) (sipi_flags sy) (io_trace s)\<rparr>"
proof -
  note r = smp_readyD [OF ready]
  have wf: "pmm_wf s" and fit: "stacks_fit s" using r by simp_all
  note fits = stacks_fit_alloc [OF wf fit alloc]
  let ?s1 = "s1\<lparr>trampoline_stack := p + virtual_physical_base\<rparr>"
  let ?tr = "start_trace dev ap (icr_addr s) (lapic_id cpu) (sipi_flags sy) (io_trace s)"
  obtain t where run: "boot_cpu dev ap sy cpu s = Inr (?s1\<lparr>console := t, io_trace := ?tr\<rparr>)" and t: "term_ok t" "smp_ok ?s1"
    using boot_cpu_run [OF _ _ assms(2) _ alloc fits(2)] r by blast
  have "unat (16 :: u64) = 16" by simp
  then have "msrs s1 = msrs s \<and> trampoline_booted s1 = trampoline_booted s"
    using take_stack(3,4) [OF _ alloc] r fits(2) by simp
  then have "smp_ready dev (?s1\<lparr>console := t, io_trace := ?tr\<rparr>)"
    using smp_ok_end [OF t(2,1), of ?tr] r fits(1) stacks_fit_same [of "?s1\<lparr>console := t, io_trace := ?tr\<rparr>" s1]
    by (simp add: smp_ready_def icr_addr_def)
  with run show thesis by (rule that) simp
qed

lemma boot_cpu_memory:
  fixes s :: "'a smp_state_scheme"
  assumes ready: "smp_ready dev s" and run: "boot_cpu dev ap sy cpu s = Inr s'"
  shows "hw_walk (ram s') (cr3 s') = hw_walk (ram s) (cr3 s)" "pmm_own s' = pmm_own s" "\<not> pmm_own s x \<Longrightarrow> ram s' x = ram s x"
proof -
  note r = smp_readyD [OF ready]
  have "hw_walk (ram s') (cr3 s') = hw_walk (ram s) (cr3 s) \<and> pmm_own s' = pmm_own s \<and>
    (\<not> pmm_own s x \<longrightarrow> ram s' x = ram s x)"
  proof (cases "bsp cpu")
    case True
    then show ?thesis using run by (simp add: boot_cpu_def)
  next
    case False
    obtain p s1 where alloc: "pmm_alloc 16 s = Inr (p, s1)" using pmm_alloc_returns by blast
    obtain t tr where s': "s' = s1\<lparr>trampoline_stack := p + virtual_physical_base, console := t, io_trace := tr\<rparr>"
      using boot_cpu_ready [OF ready False alloc] run by (metis Inr_inject)
    have wf: "pmm_wf s" and fit: "stacks_fit s" using r by simp_all
    have fits: "p \<noteq> 0 \<longrightarrow> unat p div 4096 + unat (16 :: u64) \<le> unat (bitmap_len s)"
      using stacks_fit_alloc(2) [OF wf fit alloc] by simp
    have own: "pmm_own s' = pmm_own s1" using space_ok_same(2) [of s' s1] s' by simp
    have "hw_walk (ram s') (cr3 s') = hw_walk (ram s) (cr3 s)"
      using take_stack(7) [OF _ alloc fits] r s' by simp
    moreover have "pmm_own s1 = pmm_own s \<and> (\<not> pmm_own s x \<longrightarrow> ram s1 x = ram s x)"
    proof (cases "p = 0")
      case True
      then have "s1 = s" using alloc pmm_alloc_none [OF wf] by simp
      then show ?thesis by simp
    next
      case p: False
      then show ?thesis using pmm_alloc_block(2,7) [OF wf alloc p] fits by blast
    qed
    ultimately show ?thesis using own s' by simp
  qed
  then show "hw_walk (ram s') (cr3 s') = hw_walk (ram s) (cr3 s)" "pmm_own s' = pmm_own s"
    "\<not> pmm_own s x \<Longrightarrow> ram s' x = ram s x" by blast+
qed

text \<open>C31: \<open>boot_cpu\<close> returns for every processor. A processor that is not the one running gets sixteen
  pages for its stack, the INIT interrupt and the start-up interrupt with the page of the trampoline, and
  the start-up interrupt once more exactly when it has not answered within the 100 rounds of the wait;
  the flag is clear again for the next processor, and only what is printed depends on the answer. When
  no pages are left the code does the same: its test for a null stack is made after the window of
  physical memory has been added, and never succeeds.\<close>

theorem boot_cpu_starts:
  fixes s :: "'a smp_state_scheme"
  assumes "smp_ready dev s" and "pmm_alloc 16 s = Inr (p, s1)"
  shows "if bsp cpu then boot_cpu dev ap sy cpu s = Inr s
    else \<exists>t s'. boot_cpu dev ap sy cpu s = Inr s' \<and> smp_ready dev s' \<and>
      s' = s1\<lparr>trampoline_stack := p + virtual_physical_base, console := t,
        io_trace := start_trace dev ap (icr_addr s) (lapic_id cpu) (sipi_flags sy) (io_trace s)\<rparr>"
proof (cases "bsp cpu")
  case True
  then show ?thesis by (simp add: boot_cpu_def)
next
  case False
  then show ?thesis using boot_cpu_ready [OF assms(1) False assms(2)] by (metis (no_types))
qed

section \<open>A machine for the witnesses\<close>

text \<open>32 pages, the first for the bitmap and the second for the root table; the bits of the pages of the
  trampoline and of its image are set too. The rest of physical memory is given.\<close>

definition demo_ram :: "memory \<Rightarrow> memory" where
  "demo_ram m x = (if x div 4096 = 0x2000
     then if x = 0x2000400 \<or> x = 0x2000080 then 1 else if x = 0x2000000 then 3 else 0 else m x)"

definition demo_smp_boot :: "memory \<Rightarrow> smp_state" where
  "demo_smp_boot m = console_state.extend
     (demo_console\<lparr>ram := demo_ram m, bitmap_len := 8224, cr3 := small_root, msrs := (\<lambda>_. 0xFEE00900),
        lapic_base := virtual_kernel_base\<rparr>)
     \<lparr>trampoline_booted = False, trampoline_stack = 0\<rparr>"

definition demo_map :: "u64 \<Rightarrow> u64 \<Rightarrow> smp_state \<Rightarrow> smp_state" where
  "demo_map v p s = (case map_pages (pmm_alloc 1) (cr3 s) v p 1 VMM_WRITE s of Inl _ \<Rightarrow> s | Inr (b, s') \<Rightarrow> s')"

definition demo_smp :: "memory \<Rightarrow> smp_state" where
  "demo_smp m = demo_map virtual_kernel_base 0xFEE00000 (fresh_space (demo_smp_boot m))"

lemma demo_smp_boot_fields [simp]:
  "ram (demo_smp_boot m) = demo_ram m" "bitmap (demo_smp_boot m) = 0x2000000 + virtual_physical_base"
  "bitmap_len (demo_smp_boot m) = 8224"
  "cr3 (demo_smp_boot m) = small_root" "msrs (demo_smp_boot m) = (\<lambda>_. 0xFEE00900)" "io_trace (demo_smp_boot m) = []"
  "lapic_base (demo_smp_boot m) = virtual_kernel_base" "console (demo_smp_boot m) = demo_term"
  "\<not> trampoline_booted (demo_smp_boot m)"
  by (simp_all add: demo_smp_boot_def demo_console_def demo_machine_def apic_state.defs console_state.defs
      smp_state.defs medium_pmm_def small_pmm_def memory_base_def)

lemma demo_bitmap: "demo_ram m (0x2000000 + of_nat k) = demo_ram (\<lambda>_. 0) (0x2000000 + of_nat k)" if "k < 4096"
proof -
  have "unat (0x2000000 + of_nat k :: u64) = 0x2000000 + k" using that by (subst unat_add_u64) (simp_all add: unat_of_nat)
  then have "(0x2000000 + of_nat k :: u64) div 4096 = 0x2000" using that by (simp add: word_unat_eq_iff unat_div)
  then show ?thesis by (simp add: demo_ram_def)
qed

lemma demo_smp_marks:
  "load64 (demo_ram m) 0x2000400 = 1" "load64 (demo_ram m) 0x2000080 = 1" "load64 (demo_ram m) 0x2000000 = 3"
proof -
  have *: "load64 (demo_ram m) (0x2000000 + of_nat k) = load64 (demo_ram (\<lambda>_. 0)) (0x2000000 + of_nat k)"
    if "k + 8 \<le> 4096" for k
  proof (rule load64_cong)
    fix x assume "in_range x (0x2000000 + of_nat k) 8"
    then have "x = 0x2000000 + of_nat (k + unat (x - (0x2000000 + of_nat k)))" "k + unat (x - (0x2000000 + of_nat k)) < 4096"
      using that by (simp_all add: in_range_def)
    then show "demo_ram m x = demo_ram (\<lambda>_. 0) x" using demo_bitmap by metis
  qed
  have "load64 (demo_ram (\<lambda>_. 0)) 0x2000400 = 1" "load64 (demo_ram (\<lambda>_. 0)) 0x2000080 = 1"
    "load64 (demo_ram (\<lambda>_. 0)) 0x2000000 = 3" by code_simp+
  then show "load64 (demo_ram m) 0x2000400 = 1" "load64 (demo_ram m) 0x2000080 = 1" "load64 (demo_ram m) 0x2000000 = 3"
    using *[of 1024] *[of 128] *[of 0] by simp_all
qed

lemma demo_smp_marked:
  "8192 \<le> i \<Longrightarrow> i < 8224 \<Longrightarrow> page_marked (demo_smp_boot m) i \<longleftrightarrow> i < 8193"
  "page_marked (demo_smp_boot m) 0" "page_marked (demo_smp_boot m) 1" "page_marked (demo_smp_boot m) 1024"
proof -
  have slots: "bitmap_slot (0x2000000 + virtual_physical_base) 128 = 0x2000400"
    "bitmap_slot (0x2000000 + virtual_physical_base) 16 = 0x2000080"
    "bitmap_slot (0x2000000 + virtual_physical_base) 0 = 0x2000000"
    by (simp_all add: bitmap_slot_def phys_of_def)
  show "page_marked (demo_smp_boot m) i \<longleftrightarrow> i < 8193" if i: "8192 \<le> i" "i < 8224"
  proof -
    have "unat i div 64 = 128" using i by (simp add: word_le_nat_alt word_less_nat_alt)
    then have off: "i div 64 = 128" by (simp add: word_unat_eq_iff unat_div)
    have "unat i mod 32 = unat i - 8192"
      using i by (simp add: word_le_nat_alt word_less_nat_alt mod_nat_eqI)
    then show ?thesis
      using i unfolding page_marked_def bit_read_iff off demo_smp_boot_fields slots demo_smp_marks
      by (auto simp: bit_1_iff word_le_nat_alt word_less_nat_alt word_unat_eq_iff
          dest!: spec [of _ "unat i - 8192"])
  qed
  have three: "bit (3 :: u64) k \<longleftrightarrow> k < 2" for k
  proof -
    have "bit (3 :: u64) k \<longleftrightarrow> bit (mask 2 :: u64) k" by (simp add: mask_eq_exp_minus_1)
    then show ?thesis unfolding bit_mask_iff by auto
  qed
  show "page_marked (demo_smp_boot m) 0" "page_marked (demo_smp_boot m) 1" "page_marked (demo_smp_boot m) 1024"
    by (auto simp: page_marked_def bit_read_iff slots demo_smp_marks three bit_1_iff min_def split: if_splits)
qed

lemma demo_smp_boot_wf: "pmm_wf (demo_smp_boot m)"
proof (rule pmm_wf_marked_bitmap)
  show "page_marked (demo_smp_boot m) (first_page + of_nat k)"
    if "k < unat (bitmap_pages (bitmap_len (demo_smp_boot m)))" for k
    using that demo_smp_marked(1) [of 8192] by (simp add: first_page_eq bitmap_pages_def mm_consts)
qed (simp_all add: bitmap_fits_def mm_consts)

lemma demo_smp_boot_fit: "first_fit (demo_smp_boot m)"
  using demo_smp_boot_wf demo_smp_marked(1) unfolding first_fit_def by (auto intro!: exI [of _ 8193])

lemma demo_smp_root: "pmm_alloc 1 (demo_smp_boot m) = Inr (small_root, pmm_take 8193 1 (demo_smp_boot m))"
  using prefix_run [OF demo_smp_boot_wf, where j = 8193 and c = 1] demo_smp_marked(1) by (simp add: mm_consts small_root_def)

text \<open>Mapping pages leaves the rest of the machine alone.\<close>

lemma map_pages_keeps_smp:
  fixes s :: "'a smp_state_scheme"
  assumes "map_pages (pmm_alloc 1) r v phys count perms s = Inr (b, s')"
  shows "cr3 s' = cr3 s" "io_trace s' = io_trace s" "msrs s' = msrs s" "lapic_base s' = lapic_base s"
    "console s' = console s" "trampoline_booted s' = trampoline_booted s" "trampoline_stack s' = trampoline_stack s"
    "bitmap_len s' = bitmap_len s"
proof -
  define g where "g = (\<lambda>s :: 'a smp_state_scheme. (lapic_base s, console s, trampoline_booted s, trampoline_stack s, bitmap_len s))"
  have "\<forall>s p s'. pmm_alloc 1 s = Inr (p, s') \<longrightarrow> g s' = g s"
    by (auto elim!: pmm_alloc_cases simp: pmm_take_def g_def)
  then have "g s' = g s" by (rule map_pages_n_frame [OF _ _ assms [unfolded map_pages_def]]) (simp add: g_def)
  then show "lapic_base s' = lapic_base s" "console s' = console s" "trampoline_booted s' = trampoline_booted s"
    "trampoline_stack s' = trampoline_stack s" "bitmap_len s' = bitmap_len s" by (simp_all add: g_def)
qed (use map_pages_keeps [OF assms] in simp_all)

text \<open>What stays the same while its page tables are filled: \<open>n\<close> pages are left, and data is not changed.\<close>

definition demo_good :: "memory \<Rightarrow> nat \<Rightarrow> smp_state \<Rightarrow> bool" where
  "demo_good m n s \<longleftrightarrow> space_ok s small_root \<and> cr3 s = small_root \<and> first_fit s \<and> can_alloc (pmm_alloc 1) n s \<and>
     bitmap_len s = 8224 \<and> msrs s = (\<lambda>_. 0xFEE00900) \<and> io_trace s = [] \<and> lapic_base s = virtual_kernel_base \<and>
     console s = demo_term \<and> \<not> trampoline_booted s \<and>
     (\<forall>x. pmm_data (fresh_space (demo_smp_boot m)) small_root x \<longrightarrow> pmm_data s small_root x \<and>
       ram s x = ram (fresh_space (demo_smp_boot m)) x)"

lemma demo_good_boot: "demo_good m 30 (fresh_space (demo_smp_boot m))"
proof -
  have root: "returned (pmm_alloc 1 (demo_smp_boot m)) = Some small_root" by (simp add: demo_smp_root returned_def)
  have "can_alloc (pmm_alloc 1) (Suc 30) (demo_smp_boot m)"
    by (rule can_alloc_prefix [OF demo_smp_boot_wf, where j = 8193]) (simp_all add: demo_smp_marked(1))
  then show ?thesis
    using fresh_space_can_alloc [OF demo_smp_boot_wf root] fresh_space_fit [OF demo_smp_boot_fit demo_smp_root]
      fresh_space_ok(1) [OF demo_smp_boot_wf root]
    by (simp add: demo_good_def) (simp add: fresh_space_def demo_smp_root pmm_take_def)
qed

lemma demo_good_map:
  assumes good: "demo_good m (n + 3) s" and unmapped: "hw_walk (ram s) small_root v = Unmapped"
  shows "demo_good m n (demo_map v p s)"
    and "hw_walk (ram (demo_map v p s)) small_root w = (if page_number w = page_number v
      then Page4K (leaf_entry p VMM_WRITE) else hw_walk (ram s) small_root w)"
proof -
  have perms: "perms_ok VMM_WRITE" by (simp add: perms_ok_def VMM_WRITE_def)
  have g: "space_ok s small_root" "first_fit s" "can_alloc (pmm_alloc 1) (n + 3) s" "cr3 s = small_root"
    using good by (simp_all add: demo_good_def)
  obtain s' where s': "map_pages (pmm_alloc 1) small_root v p 1 VMM_WRITE s = Inr (True, s')"
    "space_ok s' small_root" "first_fit s'" "can_alloc (pmm_alloc 1) n s'" "pmm.grows s s' small_root"
    "\<And>w. hw_walk (ram s') small_root w = (if page_number w = page_number v
       then Page4K (leaf_entry p VMM_WRITE) else hw_walk (ram s) small_root w)"
    by (rule map_page_first_fit [where phys = p, OF g(1,2) perms unmapped g(3)]) (rule that)
  have eq: "demo_map v p s = s'" by (simp add: demo_map_def g(4) s'(1))
  show "hw_walk (ram (demo_map v p s)) small_root w = (if page_number w = page_number v
      then Page4K (leaf_entry p VMM_WRITE) else hw_walk (ram s) small_root w)"
    by (simp add: eq s'(6))
  show "demo_good m n (demo_map v p s)"
    using good s'(2-4) map_pages_keeps_smp [OF s'(1)] pmm.grows_data [OF s'(5)]
    by (simp add: eq demo_good_def)
qed

text \<open>Data of the machine: what lies behind its pages, and the marked pages.\<close>

lemma demo_own: "pmm_own (demo_smp_boot m) x \<Longrightarrow> unat x div 4096 = 0x2000"
proof -
  assume "pmm_own (demo_smp_boot m) x"
  then have k: "unat (x - 0x2000000) < 4096" by (simp add: pmm_own_def in_range_def bitmap_bytes_def phys_of_def)
  have "unat ((x - 0x2000000) + 0x2000000) = unat (x - 0x2000000) + 0x2000000"
    using k by (subst unat_add_u64) simp_all
  then have "unat x = unat (x - 0x2000000) + 0x2000000" by simp
  then show ?thesis using k by simp
qed

lemma demo_data:
  assumes far: "8224 \<le> unat x div 4096 \<or> unat x div 4096 \<in> {0, 1, 1024}"
  shows "pmm_data (fresh_space (demo_smp_boot m)) small_root x" "ram (fresh_space (demo_smp_boot m)) x = m x"
proof -
  let ?b = "demo_smp_boot m"
  let ?t = "pmm_take 8193 1 ?b"
  have f: "fresh_space ?b = ?t\<lparr>ram := memset (ram ?t) small_root 0 4096\<rparr>"
    by (simp add: fresh_space_def demo_smp_root)
  have page: "unat (x div page_size) = unat x div 4096" by (simp add: unat_div mm_consts)
  have idx: "x div page_size = of_nat (unat x div 4096)" unfolding page [symmetric] by simp
  have own: "\<not> pmm_own ?b x" using demo_own [of m x] far by auto
  have used: "pmm_used ?b x"
    using far
  proof
    assume "8224 \<le> unat x div 4096"
    then show ?thesis by (simp add: pmm_used_def word_less_nat_alt page)
  qed (auto simp: pmm_used_def idx demo_smp_marked)
  have root: "unat small_root div 4096 = 8193" by (simp add: small_root_def)
  then have ne: "x div 4096 \<noteq> small_root div 4096"
    using far by (auto simp: word_unat_eq_iff unat_div)
  then have out: "\<not> x - small_root < 4096"
    using page_byte [of small_root x] by (auto simp: in_range_def word_less_nat_alt)
  have "pmm_used ?t x" "pmm_own ?t = pmm_own ?b"
    using pmm.alloc_keeps [OF demo_smp_boot_wf demo_smp_root used] pmm.alloc_own [OF demo_smp_root] by simp_all
  moreover have "pmm_used (fresh_space ?b) = pmm_used ?t"
    using pmm.used_ram [OF fresh_space_keeps [OF demo_smp_boot_wf demo_smp_root] pmm.alloc_wf [OF demo_smp_boot_wf demo_smp_root]]
    by (simp add: f)
  moreover have "pmm_own (fresh_space ?b) = pmm_own ?t" by (simp add: f pmm.own_ram)
  moreover have "table_frames (ram (fresh_space ?b)) small_root = {small_root}"
    using pmm.fresh_root_frames [OF demo_smp_boot_wf demo_smp_root] by (simp add: f)
  ultimately show "pmm_data (fresh_space ?b) small_root x"
    using own ne by (auto simp: pmm.data_byte_def)
  have "ram ?t x = ram ?b x"
    using pmm.alloc_ram [OF demo_smp_boot_wf demo_smp_root own] .
  moreover have "x div 4096 \<noteq> 0x2000" using far by (auto simp: word_unat_eq_iff unat_div)
  ultimately show "ram (fresh_space ?b) x = m x" by (simp add: f memset_eq out demo_ram_def)
qed

text \<open>The registers of the controller can be reached, and blocks of sixteen pages end with the memory.\<close>

lemma demo_good_data:
  assumes "demo_good m n s" "8224 \<le> unat x div 4096 \<or> unat x div 4096 \<in> {0, 1, 1024}"
  shows "pmm_data s small_root x" "ram s x = m x"
  using assms(1) demo_data [OF assms(2), of m] by (simp_all add: demo_good_def)

lemma quiet_idle: "idle (\<lambda>_ _ _. 0) p"
  by (simp add: idle_def)

lemma demo_good_end:
  assumes good: "demo_good m n s"
  shows "end_marked s"
proof -
  have g: "space_ok s small_root" "first_fit s" "bitmap_len s = 8224" using good by (simp_all add: demo_good_def)
  have "small_root \<in> table_frames (ram s) small_root" by (rule table_framesI [OF valid_path_Nil]) simp
  then have "pmm_used s small_root" using g(1) by (simp add: vmm_inv_def)
  then have "page_marked s 8193" using g(3) by (simp add: pmm_used_def small_root_def mm_consts)
  moreover obtain j where "\<And>i. 8192 \<le> i \<Longrightarrow> i < bitmap_len s \<Longrightarrow> page_marked s i \<longleftrightarrow> i < j"
    by (rule first_fitD [OF g(2)]) (rule that)
  ultimately have "8193 < j" "page_marked s 8192 \<longleftrightarrow> 8192 < j" using g(3) by simp_all
  then have "page_marked s 8192" using less_trans [of 8192 8193 j] by simp
  moreover have "slot 8192 = slot 8224" by (simp add: slot_def)
  ultimately show ?thesis using g(3) by (auto simp: end_marked_def intro!: exI [of _ 8192])
qed

lemma write_perms: "perms_ok VMM_WRITE"
  by (simp add: perms_ok_def VMM_WRITE_def)

lemma demo_good_ready:
  assumes good: "demo_good m n s"
    and walk: "\<And>w. page_number w = page_number virtual_kernel_base \<Longrightarrow>
      hw_walk (ram s) small_root w = Page4K (leaf_entry 0xFEE00000 VMM_WRITE)"
  shows "smp_ready (\<lambda>_ _ _. 0) s"
proof -
  have "hw_translate (ram s) small_root (virtual_kernel_base + of_nat i) = Some (0xFEE00000 + of_nat i)"
    if "i < 4096" for i
    using write_perms walk that by (intro page_translate [where perms = VMM_WRITE]) (simp_all add: aligned_def mm_consts)
  moreover have "hw_frame 0xFEE00900 = 0xFEE00000" by (simp add: hw_frame_def)
  moreover have "bit (0xFEE00900 :: u64) 11" by code_simp
  ultimately show ?thesis
    using good demo_term_ok end_marked_stacks [OF demo_good_end [OF good]] quiet_idle
    by (simp add: smp_ready_def smp_ok_def apic_ready_def demo_good_def)
qed

lemma demo_smp_good:
  shows "demo_good m 27 (demo_smp m)"
    and "hw_walk (ram (demo_smp m)) small_root w = (if page_number w = page_number virtual_kernel_base
      then Page4K (leaf_entry 0xFEE00000 VMM_WRITE) else Unmapped)"
proof -
  have root: "returned (pmm_alloc 1 (demo_smp_boot m)) = Some small_root" by (simp add: demo_smp_root returned_def)
  note unmapped = fresh_space_ok(2) [OF demo_smp_boot_wf root]
  have "demo_good m (27 + 3) (fresh_space (demo_smp_boot m))" using demo_good_boot by simp
  note good = demo_good_map [OF this unmapped, where p = "0xFEE00000"]
  show "demo_good m 27 (demo_smp m)" using good(1) by (simp add: demo_smp_def)
  show "hw_walk (ram (demo_smp m)) small_root w = (if page_number w = page_number virtual_kernel_base
      then Page4K (leaf_entry 0xFEE00000 VMM_WRITE) else Unmapped)"
    using good(2) [of virtual_kernel_base w] unmapped by (simp add: demo_smp_def)
qed

lemma demo_smp_ready: "smp_ready (\<lambda>_ _ _. 0) (demo_smp m)"
  using demo_smp_good(2) by (intro demo_good_ready [OF demo_smp_good(1)]) simp

theorem boot_cpu_starts_witness:
  "\<exists>p s1 s'. pmm_alloc 16 (demo_smp (\<lambda>_. 0)) = Inr (p, s1) \<and> p \<noteq> 0 \<and>
     boot_cpu (\<lambda>_ _ _. 0) (\<lambda>_ _. True) \<lparr>trampoline_start = 0x1000, trampoline_end = 0x1100, smp_entry = 0x1000\<rparr>
       \<lparr>lapic_id = 1, bsp = False\<rparr> (demo_smp (\<lambda>_. 0)) = Inr s' \<and> trampoline_stack s' = p + virtual_physical_base"
proof -
  have good: "first_fit (demo_smp (\<lambda>_. 0))" "can_alloc (pmm_alloc 1) 27 (demo_smp (\<lambda>_. 0))"
    using demo_smp_good(1) by (simp_all add: demo_good_def)
  obtain p s1 where alloc: "pmm_alloc 16 (demo_smp (\<lambda>_. 0)) = Inr (p, s1)" "p \<noteq> 0"
    by (rule first_fit_block [OF good, of 16]) simp_all
  have "trampoline_stack s' = p + virtual_physical_base"
    if "s' = s1\<lparr>trampoline_stack := p + virtual_physical_base, console := t, io_trace := tr\<rparr>" for s' t tr
    using that by simp
  then show ?thesis
    using boot_cpu_starts [OF demo_smp_ready alloc(1), where cpu = "\<lparr>lapic_id = 1, bsp = False\<rparr>"] alloc by fastforce
qed

end
