(* ===== verification/Trampoline.thy ===== *)
theory Trampoline
  imports Smp
begin

text \<open>
  \<open>Smp::init\<close>: the pages of the trampoline are mapped at their physical addresses and its image is copied
  there, through the page tables.
\<close>

unbundle bit_operations_syntax

section \<open>The trampoline\<close>

text \<open>Copying through the page tables between disjoint ranges, into data.\<close>

lemma virt_memcpy_data:
  fixes s :: "'a vmm_state_scheme"
  assumes "space_ok s (cr3 s)" "maps_to s d n f" "maps_to s src n g"
    and "\<And>i. i < n \<Longrightarrow> pmm_data s (cr3 s) (f i)" "inj_on f {..<n}" "f ` {..<n} \<inter> g ` {..<n} = {}"
  shows "\<exists>m. virt_memcpy_n n d src s = Inr (s\<lparr>ram := m\<rparr>) \<and> (\<forall>i < n. m (f i) = ram s (g i)) \<and>
    (\<forall>x. x \<notin> f ` {..<n} \<longrightarrow> m x = ram s x)"
  using assms
proof (induction n arbitrary: s d src f g)
  case 0
  then show ?case by (intro exI [of _ "ram s"]) simp
next
  case (Suc n)
  define s1 where "s1 = s\<lparr>ram := (ram s)(f 0 := ram s (g 0))\<rparr>"
  have tr: "hw_translate (ram s) (cr3 s) d = Some (f 0)" "hw_translate (ram s) (cr3 s) src = Some (g 0)"
    and rest: "maps_to s (d + 1) n (\<lambda>i. f (Suc i))" "maps_to s (src + 1) n (\<lambda>i. g (Suc i))"
    using Suc.prems(2,3) by (simp_all add: maps_to_Suc)
  have "((ram s)(f 0 := ram s (g 0))) x = ram s x" if "\<not> pmm_data s (cr3 s) x" for x
    using that Suc.prems(4) [of 0] by auto
  note st = data_store [of s "cr3 s" "(ram s)(f 0 := ram s (g 0))", OF Suc.prems(1) this, folded s1_def]
  have c: "cr3 s1 = cr3 s" by (simp add: s1_def)
  have sets: "{..<Suc n} = insert 0 (Suc ` {..<n})" by (rule lessThan_Suc_eq_insert_0)
  have apart: "f 0 \<noteq> g (Suc i)" if "i < n" for i using Suc.prems(6) that by (auto simp: sets)
  have f0: "f 0 \<notin> (\<lambda>i. f (Suc i)) ` {..<n}" using Suc.prems(5) by (auto simp: inj_on_def)
  have "\<exists>m. virt_memcpy_n n (d + 1) (src + 1) s1 = Inr (s1\<lparr>ram := m\<rparr>) \<and> (\<forall>i < n. m (f (Suc i)) = ram s1 (g (Suc i))) \<and>
    (\<forall>x. x \<notin> (\<lambda>i. f (Suc i)) ` {..<n} \<longrightarrow> m x = ram s1 x)"
  proof (rule Suc.IH)
    show "space_ok s1 (cr3 s1)" using st(1) c by simp
    show "maps_to s1 (d + 1) n (\<lambda>i. f (Suc i))" "maps_to s1 (src + 1) n (\<lambda>i. g (Suc i))"
      using rest st(2) maps_to_cong [of s1 s] by (simp_all add: s1_def)
    show "pmm_data s1 (cr3 s1) (f (Suc i))" if "i < n" for i
      using that st(3) Suc.prems(4) [of "Suc i"] c by simp
    show "inj_on (\<lambda>i. f (Suc i)) {..<n}" using Suc.prems(5) by (auto simp: inj_on_def)
    show "(\<lambda>i. f (Suc i)) ` {..<n} \<inter> (\<lambda>i. g (Suc i)) ` {..<n} = {}" using Suc.prems(6) by (force simp: sets)
  qed
  then obtain m where m: "virt_memcpy_n n (d + 1) (src + 1) s1 = Inr (s1\<lparr>ram := m\<rparr>)"
    "\<And>i. i < n \<Longrightarrow> m (f (Suc i)) = ram s1 (g (Suc i))"
    "\<And>x. x \<notin> (\<lambda>i. f (Suc i)) ` {..<n} \<Longrightarrow> m x = ram s1 x" by blast
  have im: "f ` {..<Suc n} = insert (f 0) ((\<lambda>i. f (Suc i)) ` {..<n})" by (simp add: sets image_image)
  have "virt_memcpy_n (Suc n) d src s = Inr (s\<lparr>ram := m\<rparr>)"
    using m(1) tr by (simp add: virt_store8_def virt_load8_def s1_def)
  moreover have "m (f i) = ram s (g i)" if "i < Suc n" for i
    using that m(2) m(3) [OF f0] apart [symmetric] by (cases i) (simp_all add: s1_def)
  moreover have "m x = ram s x" if "x \<notin> f ` {..<Suc n}" for x
    using that m(3) [of x] by (simp add: im s1_def)
  ultimately show ?case by blast
qed

text \<open>The upper half of the address space lies behind every range of the lower half.\<close>

lemma steps_upper:
  assumes "aligned 12 v" "unat v + 4096 * n \<le> 2 ^ 47" "virtual_physical_base \<le> w"
  shows "\<not> steps 12 v w < n"
proof -
  define d where "d = uint w div 2 ^ 12 - uint v div 2 ^ 12"
  have w: "0xFFFF800000000000 \<le> uint w" "uint w < 2 ^ 64"
    using assms(3) uint_lt2p [of w] by (simp_all add: word_le_def mm_consts)
  have uv: "uint v = int (unat v)" by (rule uint_nat)
  have "int (unat v + 4096 * n) \<le> int (2 ^ 47)" using assms(2) by (simp only: of_nat_le_iff)
  then have v: "uint v + 4096 * int n \<le> 2 ^ 47" "0 \<le> uint v" unfolding uv by simp_all
  have "0xFFFF800000000 \<le> uint w div 2 ^ 12" "uint w div 2 ^ 12 < 4503599627370496" using w by simp_all
  moreover have "uint v div 2 ^ 12 + int n \<le> 34359738368" "0 \<le> uint v div 2 ^ 12"
    using v by (simp_all add: pos_imp_zdiv_nonneg_iff)
  ultimately have d: "int n \<le> d - 0xFFFF000000000" "d - 0xFFFF000000000 < 68719476736" unfolding d_def by linarith+
  have "d mod 2 ^ 36 = (d - 0xFFFF000000000) mod 2 ^ 36" by (simp add: mod_eq_dvd_iff)
  also have "\<dots> = d - 0xFFFF000000000" using d by (intro mod_pos_pos_trivial) simp_all
  finally have "int n \<le> int (steps 12 v w)" using d(1) by (simp add: int_steps d_def)
  then show ?thesis by simp
qed

text \<open>The pages that \<open>init\<close> maps.\<close>

definition trampoline_pages :: "smp_symbols \<Rightarrow> u64" where
  "trampoline_pages sy = (get_len sy + page_size - 1) div page_size"

lemma unat_trampoline_pages:
  assumes "unat (get_len sy) < 2 ^ 46"
  shows "unat (trampoline_pages sy) = (unat (get_len sy) + 4095) div 4096"
proof -
  have "unat (get_len sy + 0xFFF) = unat (get_len sy) + 4095" using assms by (subst unat_add_u64) simp_all
  moreover have "get_len sy + page_size - 1 = get_len sy + 0xFFF" by (simp add: mm_consts)
  ultimately show ?thesis unfolding trampoline_pages_def by (simp only: unat_div page_size_def) simp
qed

text \<open>What the copy needs: room for the page tables, a range of the lower half that is not mapped by
  large pages and whose frames are not used for tables or the allocator's records, and an image in the
  window of physical memory, apart from it.\<close>

definition trampoline_ok :: "smp_symbols \<Rightarrow> 'a smp_state_scheme \<Rightarrow> bool" where
  "trampoline_ok sy s \<longleftrightarrow>
     aligned 12 (trampoline_start sy) \<and> unat (get_len sy) < 2 ^ 22 \<and>
     unat (trampoline_start sy) + 4096 * unat (trampoline_pages sy) \<le> 0x400000 \<and>
     can_alloc (pmm_alloc 1) (3 * unat (trampoline_pages sy)) s \<and>
     (\<forall>v e. unat v < 0x400000 \<longrightarrow> hw_walk (ram s) (cr3 s) v \<noteq> Page2M e) \<and>
     (\<forall>i < unat (get_len sy). pmm_data s (cr3 s) (trampoline_start sy + of_nat i)) \<and>
     (\<forall>i < unat (get_len sy). pmm_data s (cr3 s) (0x400000 + of_nat i)) \<and>
     maps_to s (0x400000 + virtual_physical_base) (unat (get_len sy)) (\<lambda>i. 0x400000 + of_nat i)"

lemma smp_init_run:
  fixes s :: "'a smp_state_scheme"
  assumes inv: "space_ok s (cr3 s)" and ok: "trampoline_ok sy s"
  obtains s' where "smp_init sy s = Inr s'" "space_ok s' (cr3 s')" "cr3 s' = cr3 s"
    "\<And>i. i < unat (get_len sy) \<Longrightarrow> ram s' (trampoline_start sy + of_nat i) = ram s (0x400000 + of_nat i)"
    "\<And>i. i < unat (get_len sy) \<Longrightarrow>
       hw_translate (ram s') (cr3 s') (trampoline_start sy + of_nat i) = Some (trampoline_start sy + of_nat i)"
    "\<And>v. virtual_physical_base \<le> v \<Longrightarrow> hw_walk (ram s') (cr3 s') v = hw_walk (ram s) (cr3 s) v"
    "\<And>x. pmm_data s (cr3 s) x \<Longrightarrow> (\<And>i. i < unat (get_len sy) \<Longrightarrow> x \<noteq> trampoline_start sy + of_nat i) \<Longrightarrow>
       ram s' x = ram s x"
    "msrs s' = msrs s" "lapic_base s' = lapic_base s" "console s' = console s" "io_trace s' = io_trace s"
    "trampoline_booted s' = trampoline_booted s" "trampoline_stack s' = trampoline_stack s"
    "bitmap_len s' = bitmap_len s" "\<And>x. pmm_used s x \<Longrightarrow> pmm_used s' x" "pmm_own s' = pmm_own s"
proof -
  define ts n c where "ts = trampoline_start sy" and "n = unat (get_len sy)" and "c = trampoline_pages sy"
  have al: "aligned 12 ts" and len: "n < 2 ^ 22" and low: "unat ts + 4096 * unat c \<le> 0x400000"
    and can: "can_alloc (pmm_alloc 1) (3 * unat c) s"
    and small: "\<And>v e. unat v < 0x400000 \<Longrightarrow> hw_walk (ram s) (cr3 s) v \<noteq> Page2M e"
    and data: "\<And>i. i < n \<Longrightarrow> pmm_data s (cr3 s) (ts + of_nat i)" "\<And>i. i < n \<Longrightarrow> pmm_data s (cr3 s) (0x400000 + of_nat i)"
    and src: "maps_to s (0x400000 + virtual_physical_base) n (\<lambda>i. 0x400000 + of_nat i)"
    using ok unfolding trampoline_ok_def ts_def n_def c_def by blast+
  have c: "unat c = (n + 4095) div 4096" using unat_trampoline_pages [of sy] len by (simp add: c_def n_def)
  then have cover: "n \<le> 4096 * unat c" by simp
  have at: "unat (ts + of_nat i) = unat ts + i" "unat (0x400000 + of_nat i :: u64) = 0x400000 + i" if "i < n" for i
    using that cover low len by (simp_all add: unat_add_u64 unat_of_nat)
  have nl: "hw_walk (ram s) (cr3 s) (ts + of_nat k * 4096) \<noteq> Page2M e" if k: "k < unat c" for k e
  proof (rule small)
    have "unat (of_nat k * 4096 :: u64) = k * 4096" using k low by (subst unat_mult_u64) (simp_all add: unat_of_nat)
    then show "unat (ts + of_nat k * 4096) < 0x400000" using k low by (subst unat_add_u64) simp_all
  qed
  obtain s1 where run: "map_pages (pmm_alloc 1) (cr3 s) ts ts c (VMM_PRESENT OR VMM_WRITE) s = Inr (True, s1)"
    and inv1: "space_ok s1 (cr3 s)" and grows: "pmm.grows s s1 (cr3 s)"
    and walk: "hw_walk (ram s1) (cr3 s) = edit_range 12 ts (unat c)
      (\<lambda>k _. Page4K (leaf_entry (ts + of_nat k * 4096) (VMM_PRESENT OR VMM_WRITE))) (hw_walk (ram s) (cr3 s))"
    using map_pages_correct [OF inv heap_perms _ nl, where phys = ts and count = c] can low by auto
  note keeps = map_pages_keeps_smp [OF run]
  have upper: "hw_walk (ram s1) (cr3 s) v = hw_walk (ram s) (cr3 s) v" if "virtual_physical_base \<le> v" for v
    using steps_upper [OF al _ that, of "unat c"] low by (simp add: walk edit_range_def)
  have tr: "hw_translate (ram s1) (cr3 s) (ts + of_nat i) = Some (ts + of_nat i)" if i: "i < n" for i
  proof (rule leaf_translate [where n = "4096 * unat c" and perms = "VMM_PRESENT OR VMM_WRITE"])
    have "steps 12 ts (ts + of_nat i) = i div 4096"
      using steps_in_range(2) [OF al _ _, of "unat c" 0 i] low i cover by simp
    then show "hw_walk (ram s1) (cr3 s) (ts + of_nat i)
        = Page4K (leaf_entry (ts + of_nat (i div 4096) * 4096) (VMM_PRESENT OR VMM_WRITE))"
      using i cover by (simp add: walk edit_range_def div_less_iff_less_mult mult.commute)
  qed (use al low i cover heap_perms in simp_all)
  have high: "virtual_physical_base \<le> 0x400000 + virtual_physical_base + of_nat i" if "i < n" for i
  proof -
    have "unat (0x400000 + of_nat i + virtual_physical_base) = 0x400000 + i + unat virtual_physical_base"
      using at(2) [OF that] that len by (subst unat_add_u64) (simp_all add: mm_consts)
    then show ?thesis by (simp add: word_le_nat_alt ac_simps)
  qed
  have maps: "maps_to s1 ts n (\<lambda>i. ts + of_nat i)"
    "maps_to s1 (0x400000 + virtual_physical_base) n (\<lambda>i. 0x400000 + of_nat i)"
    using tr src high upper keeps(1) by (auto simp: maps_to_def hw_translate_def)
  have inj: "inj_on (\<lambda>i. ts + of_nat i) {..<n}"
    using at(1) by (intro inj_onI) (metis add_left_cancel lessThan_iff)
  have apart: "(\<lambda>i. ts + of_nat i) ` {..<n} \<inter> (\<lambda>i. 0x400000 + of_nat i) ` {..<n} = {}"
  proof -
    have "ts + of_nat i \<noteq> 0x400000 + of_nat j" if "i < n" "j < n" for i j
      using at(1) [OF that(1)] at(2) [OF that(2)] low cover that(1) by (auto dest!: arg_cong [of _ _ unat])
    then show ?thesis by auto
  qed
  have data1: "pmm_data s1 (cr3 s1) (ts + of_nat i)" if "i < n" for i
    using pmm.grows_data(1) [OF grows data(1) [OF that]] keeps(1) by simp
  obtain m where m: "virt_memcpy_n n ts (0x400000 + virtual_physical_base) s1 = Inr (s1\<lparr>ram := m\<rparr>)"
    "\<And>i. i < n \<Longrightarrow> m (ts + of_nat i) = ram s1 (0x400000 + of_nat i)"
    "\<And>x. x \<notin> (\<lambda>i. ts + of_nat i) ` {..<n} \<Longrightarrow> m x = ram s1 x"
    using virt_memcpy_data [OF _ maps data1 inj apart] inv1 keeps(1) by auto
  have "m x = ram s1 x" if "\<not> pmm_data s1 (cr3 s) x" for x
    using that data1 keeps(1) by (intro m(3)) auto
  note st = data_store [OF inv1 this]
  show thesis
  proof (rule that [of "s1\<lparr>ram := m\<rparr>"])
    show "smp_init sy s = Inr (s1\<lparr>ram := m\<rparr>)"
      using run m(1) by (simp add: smp_init_def get_current_context_def ts_def n_def c_def trampoline_pages_def Let_def)
    show "space_ok (s1\<lparr>ram := m\<rparr>) (cr3 (s1\<lparr>ram := m\<rparr>))" using st(1) keeps(1) by simp
    show "ram (s1\<lparr>ram := m\<rparr>) (trampoline_start sy + of_nat i) = ram s (0x400000 + of_nat i)"
      if "i < unat (get_len sy)" for i
      using m(2) [of i] pmm.grows_data(2) [OF grows data(2), of i] that by (simp add: n_def ts_def)
    show "hw_translate (ram (s1\<lparr>ram := m\<rparr>)) (cr3 (s1\<lparr>ram := m\<rparr>)) (trampoline_start sy + of_nat i)
        = Some (trampoline_start sy + of_nat i)" if "i < unat (get_len sy)" for i
      using tr [of i] hw_translate_walk [OF st(2)] keeps(1) that by (simp add: n_def ts_def)
    show "hw_walk (ram (s1\<lparr>ram := m\<rparr>)) (cr3 (s1\<lparr>ram := m\<rparr>)) v = hw_walk (ram s) (cr3 s) v"
      if "virtual_physical_base \<le> v" for v
      using st(2) upper [OF that] keeps(1) by simp
    show "ram (s1\<lparr>ram := m\<rparr>) x = ram s x"
      if "pmm_data s (cr3 s) x" "\<And>i. i < unat (get_len sy) \<Longrightarrow> x \<noteq> trampoline_start sy + of_nat i" for x
      using m(3) [of x] pmm.grows_data(2) [OF grows that(1)] that(2) by (auto simp: n_def ts_def)
    show "pmm_used (s1\<lparr>ram := m\<rparr>) x" if "pmm_used s x" for x
      using st(4) grows that by (simp add: pmm.grows_def)
    show "pmm_own (s1\<lparr>ram := m\<rparr>) = pmm_own s"
      using grows by (simp add: pmm.own_ram pmm.grows_def)
  qed (use keeps in simp_all)
qed

lemma trampoline_smp_ok:
  fixes s :: "'a smp_state_scheme"
  assumes ok: "smp_ok s" and lapic: "virtual_physical_base \<le> lapic_base s" "unat (lapic_base s) + 4096 \<le> 2 ^ 64"
    and s': "space_ok s' (cr3 s')" "msrs s' = msrs s" "lapic_base s' = lapic_base s" "console s' = console s"
    and walk: "\<And>v. virtual_physical_base \<le> v \<Longrightarrow> hw_walk (ram s') (cr3 s') v = hw_walk (ram s) (cr3 s) v"
  shows "smp_ok s'"
proof -
  have "virtual_physical_base \<le> lapic_base s + of_nat i" if "i < 4096" for i
  proof -
    have "unat (lapic_base s + of_nat i) = unat (lapic_base s) + i"
      using that lapic(2) by (subst unat_add_u64) (simp_all add: unat_of_nat)
    then show ?thesis using lapic(1) by (simp add: word_le_nat_alt)
  qed
  then have "apic_ready s'" using ok s'(2,3) walk by (simp add: smp_ok_def apic_ready_def hw_translate_def)
  then show ?thesis using ok s' by (simp add: smp_ok_def)
qed

text \<open>C40: \<open>Smp::init\<close> makes the pages of the trampoline addressable at their own physical addresses and
  fills them with the image that the boot loader left at physical \<open>0x400000\<close>; no other data changes, the
  upper half of the address space is as before, and the machine is still able to start processors.\<close>

theorem smp_init_loads_trampoline:
  fixes s :: "'a smp_state_scheme"
  assumes "smp_ok s" and "trampoline_ok sy s"
    and "virtual_physical_base \<le> lapic_base s" "unat (lapic_base s) + 4096 \<le> 2 ^ 64"
  shows "\<exists>s'. smp_init sy s = Inr s' \<and> smp_ok s' \<and>
    (\<forall>i < unat (get_len sy).
       hw_translate (ram s') (cr3 s') (trampoline_start sy + of_nat i) = Some (trampoline_start sy + of_nat i) \<and>
       ram s' (trampoline_start sy + of_nat i) = ram s (0x400000 + of_nat i)) \<and>
    (\<forall>x. pmm_data s (cr3 s) x \<and> (\<forall>i < unat (get_len sy). x \<noteq> trampoline_start sy + of_nat i) \<longrightarrow> ram s' x = ram s x) \<and>
    (\<forall>v. virtual_physical_base \<le> v \<longrightarrow> hw_walk (ram s') (cr3 s') v = hw_walk (ram s) (cr3 s) v)"
proof -
  have "space_ok s (cr3 s)" using assms(1) by (simp add: smp_ok_def)
  from smp_init_run [OF this assms(2)] show ?thesis
    using trampoline_smp_ok [OF assms(1,3,4)] by metis
qed

text \<open>A trampoline of 256 bytes, whose image holds the numbers of its bytes.\<close>

definition demo_symbols :: smp_symbols where
  "demo_symbols = \<lparr>trampoline_start = 0x1000, trampoline_end = 0x1100, smp_entry = 0x1000\<rparr>"

definition demo_image :: memory where
  "demo_image x = ucast x"

definition demo_trampoline :: "memory \<Rightarrow> smp_state" where
  "demo_trampoline m = demo_map (0x400000 + virtual_physical_base) 0x400000 (demo_smp m)"

lemma demo_symbols_len [simp]: "get_len demo_symbols = 256" "trampoline_start demo_symbols = 0x1000"
  "trampoline_pages demo_symbols = 1"
  by (simp_all add: demo_symbols_def get_len_def trampoline_pages_def mm_consts)

lemma demo_trampoline_good:
  shows "demo_good m 24 (demo_trampoline m)"
    and "hw_walk (ram (demo_trampoline m)) small_root w = (if page_number w = page_number (0x400000 + virtual_physical_base)
      then Page4K (leaf_entry 0x400000 VMM_WRITE)
      else if page_number w = page_number virtual_kernel_base then Page4K (leaf_entry 0xFEE00000 VMM_WRITE) else Unmapped)"
proof -
  have "page_number (0x400000 + virtual_physical_base) \<noteq> page_number virtual_kernel_base"
    by (simp add: mm_consts) code_simp
  then have unmapped: "hw_walk (ram (demo_smp m)) small_root (0x400000 + virtual_physical_base) = Unmapped"
    by (simp add: demo_smp_good(2))
  have "demo_good m (24 + 3) (demo_smp m)" using demo_smp_good(1) by simp
  note good = demo_good_map [OF this unmapped, where p = "0x400000"]
  show "demo_good m 24 (demo_trampoline m)" using good(1) by (simp add: demo_trampoline_def)
  show "hw_walk (ram (demo_trampoline m)) small_root w = (if page_number w = page_number (0x400000 + virtual_physical_base)
      then Page4K (leaf_entry 0x400000 VMM_WRITE)
      else if page_number w = page_number virtual_kernel_base then Page4K (leaf_entry 0xFEE00000 VMM_WRITE) else Unmapped)"
    using good(2) [of w] demo_smp_good(2) by (simp add: demo_trampoline_def)
qed

lemma lower_not_upper:
  assumes "unat v < 2 ^ 46" "virtual_physical_base \<le> w"
  shows "page_number v \<noteq> page_number w"
proof -
  have "steps 12 0 v < 2 ^ 34" using steps_in_range(1) [of 0 "2 ^ 34" v] assms(1) by simp
  moreover have "\<not> steps 12 0 w < 2 ^ 34" using steps_upper [of 0 "2 ^ 34" w] assms(2) by simp
  ultimately show ?thesis unfolding steps_def by metis
qed

lemma demo_good_trampoline:
  assumes good: "demo_good m n s" "3 \<le> n"
    and image: "\<And>w. page_number w = page_number (0x400000 + virtual_physical_base) \<Longrightarrow>
      hw_walk (ram s) small_root w = Page4K (leaf_entry 0x400000 VMM_WRITE)"
    and low: "\<And>v e. unat v < 0x400000 \<Longrightarrow> hw_walk (ram s) small_root v \<noteq> Page2M e"
  shows "trampoline_ok demo_symbols s"
proof -
  have g: "cr3 s = small_root" "can_alloc (pmm_alloc 1) 3 s"
    using good can_alloc_mono [of _ n s 3] by (simp_all add: demo_good_def)
  have page: "unat (0x1000 + of_nat i :: u64) div 4096 = 1" "unat (0x400000 + of_nat i :: u64) div 4096 = 1024"
    if "i < 256" for i
  proof -
    have "unat (0x1000 + of_nat i :: u64) = 0x1000 + i" "unat (0x400000 + of_nat i :: u64) = 0x400000 + i"
      using that by (simp_all add: unat_add_u64 unat_of_nat)
    then show "unat (0x1000 + of_nat i :: u64) div 4096 = 1" "unat (0x400000 + of_nat i :: u64) div 4096 = 1024"
      using that by simp_all
  qed
  have "hw_translate (ram s) small_root (0x400000 + virtual_physical_base + of_nat i) = Some (0x400000 + of_nat i)"
    if "i < 4096" for i
    using that write_perms image by (intro page_translate [where perms = VMM_WRITE]) (simp_all add: aligned_def mm_consts)
  then show ?thesis
    using g demo_good_data [OF good(1)] page low
    unfolding trampoline_ok_def by (auto simp: aligned_def maps_to_def)
qed

lemma demo_trampoline_ok: "trampoline_ok demo_symbols (demo_trampoline m)"
proof (rule demo_good_trampoline [OF demo_trampoline_good(1)])
  fix v e assume v: "unat (v :: u64) < 0x400000"
  have "virtual_physical_base \<le> virtual_kernel_base" "virtual_physical_base \<le> 0x400000 + virtual_physical_base"
    by (simp_all add: mm_consts)
  then show "hw_walk (ram (demo_trampoline m)) small_root v \<noteq> Page2M e"
    using lower_not_upper [of v] v by (simp add: demo_trampoline_good(2))
qed (simp_all add: demo_trampoline_good(2))

theorem smp_init_loads_trampoline_witness:
  "\<exists>s'. smp_init demo_symbols (demo_trampoline demo_image) = Inr s' \<and> smp_ok s' \<and> ram s' 0x1042 = 0x42 \<and>
     hw_translate (ram s') (cr3 s') 0x1042 = Some 0x1042"
proof -
  let ?s = "demo_trampoline demo_image"
  have "smp_ready (\<lambda>_ _ _. 0) ?s"
  proof (rule demo_good_ready [OF demo_trampoline_good(1)])
    have "page_number (0x400000 + virtual_physical_base) \<noteq> page_number virtual_kernel_base"
      by (simp add: mm_consts) code_simp
    then show "hw_walk (ram ?s) small_root w = Page4K (leaf_entry 0xFEE00000 VMM_WRITE)"
      if "page_number w = page_number virtual_kernel_base" for w
      using that by (simp add: demo_trampoline_good(2))
  qed
  then have ok: "smp_ok ?s" by (simp add: smp_ready_def)
  have lapic: "virtual_physical_base \<le> lapic_base ?s" "unat (lapic_base ?s) + 4096 \<le> 2 ^ 64"
    using demo_trampoline_good(1) [of demo_image] by (simp_all add: demo_good_def mm_consts)
  have image: "ram ?s 0x400042 = 0x42"
    using demo_good_data(2) [OF demo_trampoline_good(1) [of demo_image], of "0x400042"] by (simp add: demo_image_def)
  obtain s' where s': "smp_init demo_symbols ?s = Inr s'" "smp_ok s'"
    "\<forall>i < 256. hw_translate (ram s') (cr3 s') (0x1000 + of_nat i) = Some (0x1000 + of_nat i) \<and>
      ram s' (0x1000 + of_nat i) = ram ?s (0x400000 + of_nat i)"
    using smp_init_loads_trampoline [OF ok demo_trampoline_ok lapic] unfolding demo_symbols_len by auto
  have "hw_translate (ram s') (cr3 s') (0x1000 + of_nat 0x42) = Some (0x1000 + of_nat 0x42) \<and>
      ram s' (0x1000 + of_nat 0x42) = ram ?s (0x400000 + of_nat 0x42)"
    using s'(3) by (rule allE [of _ "0x42"]) simp
  then show ?thesis using s'(1,2) image by auto
qed

end
