(* ===== verification/Acpi.thy ===== *)
theory Acpi
  imports Trampoline AcpiTables
begin

text \<open>
  The second half of \<open>hardware/acpi/acpi.cpp\<close>: \<open>Acpi::init\<close>, which finds the root pointer, announces it,
  and starts the processors that the table of interrupt controllers lists.
\<close>

unbundle bit_operations_syntax

section \<open>State and operations\<close>

text \<open>The globals \<open>rsdp_info\<close> and \<open>madt\<close>.\<close>

record acpi_state = smp_state +
  rsdp :: rsdp_info
  madt :: u64

text \<open>The kernel reads the tables through its page tables.\<close>

definition kernel_reader :: "'a vmm_state_scheme \<Rightarrow> reader" where
  "kernel_reader s = (\<lambda>v. virt_load8 v s)"

definition bios_detect_rsdp :: "literals \<Rightarrow> 'a acpi_state_scheme \<Rightarrow> rsdp_info result" where
  "bios_detect_rsdp lit s =
     rbind (detect_rsdp_areas (kernel_reader s) lit) (\<lambda>info.
       if rsdp_version info = 0 then panic (chars ''ACPI not supported'') s else Inr info)"

text \<open>One round of the loop over the table: \<open>None\<close> for \<open>continue\<close>, otherwise what is added to
  \<open>offset\<close>. The function that starts a processor and the reader are given.\<close>

definition madt_entry ::
  "(cpu_entry \<Rightarrow> 's \<Rightarrow> 's result) \<Rightarrow> ('s \<Rightarrow> reader) \<Rightarrow> cpuid \<Rightarrow> u64 \<Rightarrow> 's \<Rightarrow> (u64 option \<times> 's) result" where
  "madt_entry boot view cpuid p s =
     rbind (read_member InterruptController ''type'' (view s) p) (\<lambda>t.
     rbind (if ucast t = LAPIC
            then rbind (read_member LocalApic ''flags'' (view s) p) (\<lambda>flags.
              if flags AND 1 = 0 then Inr (True, s)
              else rbind (read_member LocalApic ''id'' (view s) p) (\<lambda>n.
                let (a, b, c, d) = cpuid 1
                in rbind (boot \<lparr>lapic_id = ucast n, bsp = (drop_bit 24 b AND 0xFF = ucast n)\<rparr> s) (\<lambda>s1.
                   Inr (False, s1))))
            else Inr (False, s)) (\<lambda>(again, s1).
     if again then Inr (None, s1)
     else rbind (read_member InterruptController ''length'' (view s1) p) (\<lambda>len. Inr (Some len, s1))))"

partial_function (option) madt_loop ::
  "(cpu_entry \<Rightarrow> 's \<Rightarrow> 's result) \<Rightarrow> ('s \<Rightarrow> reader) \<Rightarrow> cpuid \<Rightarrow> u64 \<Rightarrow> u64 \<Rightarrow> u64 \<Rightarrow> 's \<Rightarrow> 's result option" where
  "madt_loop boot view cpuid list table_size offset s =
     (if offset < table_size
      then (case madt_entry boot view cpuid (list + offset) s of
              Inl e \<Rightarrow> Some (Inl e)
            | Inr (step, s1) \<Rightarrow>
                madt_loop boot view cpuid list table_size
                  (case step of None \<Rightarrow> offset | Some len \<Rightarrow> offset + len) s1)
      else Some (Inr s))"

definition acpi_init ::
  "devices \<Rightarrow> processors \<Rightarrow> cpuid \<Rightarrow> literals \<Rightarrow> smp_symbols \<Rightarrow> 'a acpi_state_scheme \<Rightarrow> 'a acpi_state_scheme result" where
  "acpi_init dev ap cpuid lit sy s =
     rbind (bios_detect_rsdp lit s) (\<lambda>info.
     let s1 = s\<lparr>rsdp := info\<rparr>
     in rbind (print_line ''[ACPI] Detected ACPI with OEM ID %s and version %d''
                (Some (takeWhile (\<lambda>c. c \<noteq> 0) (rsdp_oem_id (rsdp s1)))) [of_int (rsdp_version (rsdp s1))] s1) (\<lambda>s2.
     rbind (get_table (kernel_reader s2) (rsdp s2) (lit ''APIC'')) (\<lambda>table.
     let s3 = s2\<lparr>madt := table\<rparr>
     in rbind (read_member SdtHeader ''length'' (kernel_reader s3) (madt s3)) (\<lambda>len.
        let table_size = len - of_nat (size_of MadtHeader);
            list = madt s3 + of_nat (size_of MadtHeader)
        in rbind (apic_init s3) (\<lambda>s4.
           rbind (smp_init sy s4) (\<lambda>s5.
           loop_result (madt_loop (boot_cpu dev ap sy) kernel_reader cpuid list table_size 0 s5)))))))"

section \<open>Starting the processors\<close>

text \<open>What the loop over the table needs of the function that starts a processor: from a state in which
  processors can be started it returns such a state, and the bytes of the table stay readable and the
  same.\<close>

locale cpu_starter =
  fixes boot :: "cpu_entry \<Rightarrow> 's \<Rightarrow> 's result"
    and ready :: "'s \<Rightarrow> bool"
    and view :: "'s \<Rightarrow> reader"
    and lasting :: "'s \<Rightarrow> u64 \<Rightarrow> bool"
  assumes boot_returns: "ready s \<Longrightarrow> \<exists>s'. boot cpu s = Inr s' \<and> ready s'"
    and boot_keeps: "ready s \<Longrightarrow> boot cpu s = Inr s' \<Longrightarrow> lasting s a \<Longrightarrow> lasting s' a \<and> view s' a = view s a"

text \<open>The processors of a list, one after the other.\<close>

primrec boot_all :: "(cpu_entry \<Rightarrow> 's \<Rightarrow> 's result) \<Rightarrow> cpu_entry list \<Rightarrow> 's \<Rightarrow> 's result" where
  "boot_all boot [] s = Inr s"
| "boot_all boot (cpu # cpus) s = rbind (boot cpu s) (boot_all boot cpus)"

text \<open>An entry of the table as its bytes, which begin with the type and the length; whether it is a
  processor that may be used, and which.\<close>

definition entry_ok :: "u8 list \<Rightarrow> bool" where
  "entry_ok e \<longleftrightarrow> 2 \<le> length e \<and> unat (e ! 1) = length e \<and> (e ! 0 = LAPIC \<longrightarrow> 8 \<le> length e)"

definition enabled :: "u8 list \<Rightarrow> bool" where
  "enabled e \<longleftrightarrow> e ! 0 = LAPIC \<longrightarrow> bit (e ! 4) 0"

definition entry_cpus :: "cpuid \<Rightarrow> u8 list \<Rightarrow> cpu_entry list" where
  "entry_cpus cpuid e =
     (if e ! 0 = LAPIC
      then [\<lparr>lapic_id = ucast (e ! 3), bsp = (drop_bit 24 (fst (snd (cpuid 1))) AND 0xFF = ucast (e ! 3))\<rparr>]
      else [])"

text \<open>The bytes can be read, and stay.\<close>

definition holds_bytes :: "('s \<Rightarrow> reader) \<Rightarrow> ('s \<Rightarrow> u64 \<Rightarrow> bool) \<Rightarrow> u64 \<Rightarrow> u8 list \<Rightarrow> 's \<Rightarrow> bool" where
  "holds_bytes view lasting p bs s \<longleftrightarrow>
     (\<forall>i < length bs. view s (p + of_nat i) = Inr (bs ! i) \<and> lasting s (p + of_nat i))"

lemma holds_bytes_append:
  "holds_bytes view lasting p (xs @ ys) s \<longleftrightarrow>
     holds_bytes view lasting p xs s \<and> holds_bytes view lasting (p + of_nat (length xs)) ys s"
proof -
  have "i < length (xs @ ys) \<longleftrightarrow> i < length xs \<or> (\<exists>j < length ys. i = length xs + j)" for i
    by (auto simp: le_Suc_ex not_less intro!: exI [of _ "i - length xs"])
  then show ?thesis unfolding holds_bytes_def by (auto simp: nth_append ac_simps)
qed

lemma read_byte: "rd p = Inr b \<Longrightarrow> read_n (Suc 0) rd p = Inr (ucast b)"
  by simp

lemma holds_byte: "holds_bytes view lasting p bs s \<Longrightarrow> i < length bs \<Longrightarrow> view s (p + of_nat i) = Inr (bs ! i)"
  by (simp add: holds_bytes_def)

lemma odd_flags:
  assumes "holds_bytes view lasting p e s" "8 \<le> length e"
  shows "\<exists>flags. read_n 4 (view s) (p + 4) = Inr flags \<and> (flags AND 1 = 0 \<longleftrightarrow> \<not> bit (e ! 4) 0)"
proof -
  define m where "m x = (case view s x of Inr b \<Rightarrow> b | Inl _ \<Rightarrow> 0)" for x
  have at: "view s (p + of_nat i) = Inr (e ! i)" if "i < 8" for i
    using holds_byte [OF assms(1), of i] that assms(2) by simp
  have "reads (view s) m (p + 4) 4"
  proof (unfold reads_def, intro allI impI)
    fix i :: nat assume "i < 4"
    then show "view s (p + 4 + of_nat i) = Inr (m (p + 4 + of_nat i))"
      using at [of "4 + i"] by (simp add: m_def add.assoc)
  qed
  then have "read_n 4 (view s) (p + 4) = Inr (load_le 4 m (p + 4))" by (rule read_n_reads)
  moreover have "load_le 4 m (p + 4) AND 1 = 0 \<longleftrightarrow> \<not> bit (load_le 4 m (p + 4)) 0"
    by (simp add: and_one_eq even_iff_mod_2_eq_zero bit_0)
  moreover have "m (p + 4) = e ! 4" using at [of 4] by (simp add: m_def)
  ultimately show ?thesis by (simp add: bit_load_le)
qed

lemma ucast_byte [simp]: "ucast (ucast (b :: u8) :: u64) = (ucast b :: u32)" "ucast (ucast (b :: u8) :: u64) = b"
  by (rule bit_word_eqI, auto simp: bit_simps dest: bit_imp_le_length)+

context cpu_starter
begin

lemma boot_all_keeps:
  assumes "ready s"
  shows "\<exists>s'. boot_all boot cpus s = Inr s' \<and> ready s' \<and> (\<forall>a. lasting s a \<longrightarrow> lasting s' a \<and> view s' a = view s a)"
  using assms
proof (induction cpus arbitrary: s)
  case (Cons cpu cpus)
  obtain s1 where s1: "boot cpu s = Inr s1" "ready s1" using boot_returns [OF Cons.prems] by blast
  then obtain s' where "boot_all boot cpus s1 = Inr s'" "ready s'"
    "\<forall>a. lasting s1 a \<longrightarrow> lasting s' a \<and> view s' a = view s1 a" using Cons.IH by blast
  then show ?case using s1 boot_keeps [OF Cons.prems s1(1)] by auto
qed simp

lemma holds_bytes_keeps:
  "holds_bytes view lasting p bs s \<Longrightarrow> (\<forall>a. lasting s a \<longrightarrow> lasting s' a \<and> view s' a = view s a) \<Longrightarrow>
   holds_bytes view lasting p bs s'"
  by (simp add: holds_bytes_def)

lemma madt_entry_disabled:
  assumes "entry_ok e" "\<not> enabled e" "holds_bytes view lasting p e s"
  shows "madt_entry boot view cpuid p s = Inr (None, s)"
proof -
  have e: "e ! 0 = LAPIC" "8 \<le> length e" "\<not> bit (e ! 4) 0" using assms(1,2) by (auto simp: entry_ok_def enabled_def)
  have "view s p = Inr (e ! 0)" using holds_byte [OF assms(3), of 0] e(2) by (cases e) auto
  then show ?thesis
    using odd_flags [OF assms(3) e(2)] e(1,3) by (auto simp: madt_entry_def members read_byte simp del: read_n.simps)
qed

lemma madt_entry_boots:
  assumes "entry_ok e" "enabled e" "holds_bytes view lasting p e s" "ready s"
  shows "\<exists>s'. madt_entry boot view cpuid p s = Inr (Some (of_nat (length e)), s') \<and>
    boot_all boot (entry_cpus cpuid e) s = Inr s' \<and> ready s' \<and>
    (\<forall>a. lasting s a \<longrightarrow> lasting s' a \<and> view s' a = view s a)"
proof -
  obtain s' where s': "boot_all boot (entry_cpus cpuid e) s = Inr s'" "ready s'"
    "\<forall>a. lasting s a \<longrightarrow> lasting s' a \<and> view s' a = view s a"
    using boot_all_keeps [OF assms(4)] by blast
  have n: "2 \<le> length e" "unat (e ! 1) = length e" using assms(1) by (simp_all add: entry_ok_def)
  then have "e \<noteq> []" by auto
  with n have b: "view s p = Inr (e ! 0)" "view s (p + 1) = Inr (e ! 1)"
    using holds_byte [OF assms(3), of 0] holds_byte [OF assms(3), of 1] by auto
  then have b': "view s' (p + 1) = Inr (e ! 1)"
    using holds_byte [OF holds_bytes_keeps [OF assms(3) s'(3)], of 1] n by simp
  have "(ucast (e ! 1) :: u64) = of_nat (length e)" by (simp add: n(2) [symmetric] word_unat_eq_iff unat_of_nat)
  then have len: "read_n 1 (view s') (p + 1) = Inr (of_nat (length e))" using b' by (simp add: read_byte del: read_n.simps)
  have "madt_entry boot view cpuid p s = Inr (Some (of_nat (length e)), s')"
  proof (cases "e ! 0 = LAPIC")
    case True
    then have e: "8 \<le> length e" "bit (e ! 4) 0" using assms(1,2) by (auto simp: entry_ok_def enabled_def)
    have "view s (p + 3) = Inr (e ! 3)" using holds_byte [OF assms(3), of 3] e(1) by simp
    moreover obtain flags where "read_n 4 (view s) (p + 4) = Inr flags" "flags AND 1 \<noteq> 0"
      using odd_flags [OF assms(3) e(1)] e(2) by blast
    ultimately show ?thesis
      using True s'(1) len b(1)
      by (auto simp: madt_entry_def members read_byte entry_cpus_def split_beta rbind_eq_Inr simp del: read_n.simps)
  next
    case False
    then have "s' = s" using s'(1) by (simp add: entry_cpus_def)
    then show ?thesis using False len b(1) by (simp add: madt_entry_def members read_byte del: read_n.simps)
  qed
  then show ?thesis using s' by blast
qed

lemma madt_loop_boots:
  assumes "\<forall>e \<in> set es. entry_ok e \<and> enabled e" "holds_bytes view lasting (list + of_nat k) (concat es) s" "ready s"
    and "k + length (concat es) \<le> n" "n < 2 ^ 64"
  shows "\<exists>s'. boot_all boot (concat (map (entry_cpus cpuid) es)) s = Inr s' \<and> ready s' \<and>
    (\<forall>a. lasting s a \<longrightarrow> lasting s' a \<and> view s' a = view s a) \<and>
    madt_loop boot view cpuid list (of_nat n) (of_nat k) s =
      madt_loop boot view cpuid list (of_nat n) (of_nat (k + length (concat es))) s'"
  using assms(1-4)
proof (induction es arbitrary: k s)
  case Nil
  then show ?case by simp
next
  case (Cons e es)
  have e: "entry_ok e" "enabled e" "2 \<le> length e" using Cons.prems(1) by (simp_all add: entry_ok_def)
  have at: "holds_bytes view lasting (list + of_nat k) e s"
    "holds_bytes view lasting (list + of_nat (k + length e)) (concat es) s"
    using Cons.prems(2) by (simp_all add: holds_bytes_append add.assoc)
  obtain s1 where s1: "madt_entry boot view cpuid (list + of_nat k) s = Inr (Some (of_nat (length e)), s1)"
    "boot_all boot (entry_cpus cpuid e) s = Inr s1" "ready s1"
    "\<forall>a. lasting s a \<longrightarrow> lasting s1 a \<and> view s1 a = view s a"
    using madt_entry_boots [OF e(1,2) at(1) Cons.prems(3)] by blast
  have "k < n" using Cons.prems(4) e(3) by simp
  then have "(of_nat k :: u64) < of_nat n" using assms(5) by (simp add: word_less_nat_alt unat_of_nat)
  then have step: "madt_loop boot view cpuid list (of_nat n) (of_nat k) s =
      madt_loop boot view cpuid list (of_nat n) (of_nat (k + length e)) s1"
    using s1(1) by (subst madt_loop.simps) simp
  obtain s' where s': "boot_all boot (concat (map (entry_cpus cpuid) es)) s1 = Inr s'" "ready s'"
    "\<forall>a. lasting s1 a \<longrightarrow> lasting s' a \<and> view s' a = view s1 a"
    "madt_loop boot view cpuid list (of_nat n) (of_nat (k + length e)) s1 =
      madt_loop boot view cpuid list (of_nat n) (of_nat (k + length e + length (concat es))) s'"
    using Cons.IH [OF _ holds_bytes_keeps [OF at(2) s1(4)] s1(3)] Cons.prems(1,4) by auto
  have "boot_all boot (xs @ ys) s = rbind (boot_all boot xs s) (boot_all boot ys)" for xs ys s
    by (induction xs arbitrary: s) (auto simp: rbind_assoc intro!: arg_cong [of _ _ "rbind _"])
  then have "boot_all boot (concat (map (entry_cpus cpuid) (e # es))) s = Inr s'" using s1(2) s'(1) by simp
  moreover have "\<forall>a. lasting s a \<longrightarrow> lasting s' a \<and> view s' a = view s a" using s1(4) s'(3) by simp
  moreover have "madt_loop boot view cpuid list (of_nat n) (of_nat k) s =
      madt_loop boot view cpuid list (of_nat n) (of_nat (k + length (concat (e # es)))) s'"
    unfolding step s'(4) by (simp add: add.assoc)
  ultimately show ?case using s'(2) by blast
qed

lemma madt_loop_stuck:
  assumes "madt_entry boot view cpuid (list + offset) s = Inr (None, s)" "offset < n"
  shows "madt_loop boot view cpuid list n offset s = None"
proof -
  have False if run: "madt_loop boot view cpuid list n offset s = Some r" for r
  proof -
    have "\<not> ((boot, view, cpuid, list, n, offset, s) = (boot, view, cpuid, list, n, offset, s))"
      by (rule madt_loop.raw_induct [where P = "\<lambda>b v c l n' off t r.
          \<not> ((b, v, c, l, n', off, t) = (boot, view, cpuid, list, n, offset, s))", OF _ run])
        (use assms in \<open>force split: if_splits\<close>)
    then show False by simp
  qed
  then show ?thesis by (cases "madt_loop boot view cpuid list n offset s") auto
qed

text \<open>The whole table.\<close>

lemma madt_loop_all:
  assumes "\<forall>e \<in> set es. entry_ok e \<and> enabled e" "holds_bytes view lasting list (concat es) s" "ready s"
    and "length (concat es) < 2 ^ 64"
  shows "\<exists>s'. boot_all boot (concat (map (entry_cpus cpuid) es)) s = Inr s' \<and> ready s' \<and>
    madt_loop boot view cpuid list (of_nat (length (concat es))) 0 s = Some (Inr s')"
  using madt_loop_boots [of es list 0 s "length (concat es)" cpuid] assms
  by (auto simp: madt_loop.simps [of boot view cpuid list n n for n])

lemma madt_loop_disabled:
  assumes "\<forall>e \<in> set es. entry_ok e \<and> enabled e" "entry_ok e" "\<not> enabled e"
    and "holds_bytes view lasting list (concat es @ e) s" "ready s"
    and "length (concat es) < n" "n < 2 ^ 64"
  shows "madt_loop boot view cpuid list (of_nat n) 0 s = None"
proof -
  have at: "holds_bytes view lasting (list + of_nat 0) (concat es) s"
    "holds_bytes view lasting (list + of_nat (length (concat es))) e s"
    using assms(4) by (simp_all add: holds_bytes_append)
  obtain s' where s': "\<forall>a. lasting s a \<longrightarrow> lasting s' a \<and> view s' a = view s a"
    "madt_loop boot view cpuid list (of_nat n) (of_nat 0) s =
      madt_loop boot view cpuid list (of_nat n) (of_nat (length (concat es))) s'"
    using madt_loop_boots [OF assms(1) at(1) assms(5) _ assms(7)] assms(6) by auto
  have "(of_nat (length (concat es)) :: u64) < of_nat n" using assms(6,7) by (simp add: word_less_nat_alt unat_of_nat)
  then have "madt_loop boot view cpuid list (of_nat n) (of_nat (length (concat es))) s' = None"
    using madt_entry_disabled [OF assms(2,3) holds_bytes_keeps [OF at(2) s'(1)]] by (intro madt_loop_stuck)
  then show ?thesis using s'(2) by simp
qed

end

section \<open>Starting the processors of this kernel\<close>

text \<open>A byte that no allocation changes: mapped, and not part of the allocator's records.\<close>

definition lasting_byte :: "'a vmm_state_scheme \<Rightarrow> u64 \<Rightarrow> bool" where
  "lasting_byte s a \<longleftrightarrow> (\<exists>p. hw_translate (ram s) (cr3 s) a = Some p \<and> \<not> pmm_own s p)"

interpretation aps: cpu_starter "boot_cpu dev ap sy" "smp_ready dev" kernel_reader lasting_byte for dev ap sy
proof unfold_locales
  fix s :: "'a smp_state_scheme" and cpu
  assume ready: "smp_ready dev s"
  show "\<exists>s'. boot_cpu dev ap sy cpu s = Inr s' \<and> smp_ready dev s'"
  proof (cases "bsp cpu")
    case True
    then show ?thesis using ready by (simp add: boot_cpu_def)
  next
    case False
    obtain p s1 where alloc: "pmm_alloc 16 s = Inr (p, s1)" using pmm_alloc_returns by blast
    then show ?thesis using boot_cpu_ready [OF ready False alloc] by metis
  qed
next
  fix s s' :: "'a smp_state_scheme" and cpu a
  assume ready: "smp_ready dev s" and run: "boot_cpu dev ap sy cpu s = Inr s'" and a: "lasting_byte s a"
  note mem = boot_cpu_memory [OF ready run]
  show "lasting_byte s' a \<and> kernel_reader s' a = kernel_reader s a"
    using a mem by (auto simp: lasting_byte_def kernel_reader_def virt_load8_def hw_translate_def)
qed

end
