(* ===== verification/AcpiInit.thy ===== *)
theory AcpiInit
  imports Acpi
begin

text \<open>
  \<open>Acpi::init\<close> as a whole: on a machine as \<open>Vmm::init\<close> leaves it, it enables the controller, loads the
  trampoline, and starts the processors of the table one after the other.
\<close>

unbundle bit_operations_syntax

section \<open>The announcement\<close>

lemma render_string:
  assumes "0x25 \<notin> set u" "strs a = Some cs" "render strs f args = Some out"
  shows "render strs (u @ 0x25 # 0x73 # f) (a # args) = Some (u @ cs @ out)"
  using assms(2,3) unfolding render_plain [OF assms(1)] by (simp add: prepend_def)

lemma announcement:
  fixes s :: "'a console_state_scheme"
  assumes "\<forall>c \<in> set oem. c \<noteq> 0 \<and> c < 128" "length oem < 0x100" "term_ok (console s)"
  obtains t where "print_line ''[ACPI] Detected ACPI with OEM ID %s and version %d'' (Some oem) [v] s = Inr (s\<lparr>console := t\<rparr>)"
    "term_ok t"
proof -
  define fmt where "fmt = ''[ACPI] Detected ACPI with OEM ID %s and version %d''"
  define u w where "u = chars ''[ACPI] Detected ACPI with OEM ID ''" and "w = chars '' and version ''"
  have fmt: "chars fmt = u @ 0x25 # 0x73 # w @ [0x25, 0x64]" unfolding fmt_def u_def w_def by code_simp
  have plain: "\<forall>c \<in> set u. c \<noteq> 0 \<and> c \<noteq> 0x25 \<and> c < 128" "\<forall>c \<in> set w. c \<noteq> 0 \<and> c \<noteq> 0x25 \<and> c < 128"
    "length u < 0x100" "length w < 0x100"
    unfolding u_def w_def by code_simp+
  have len: "length fmt = length u + length w + 4"
    using arg_cong [OF fmt, of length] by (simp add: chars_def)
  have strs: "message_strings (Some oem) 0x10000 = Some oem" by (simp add: message_strings_def)
  have "render (message_strings (Some oem)) (chars fmt) (message_args (Some oem) [v]) =
      Some (u @ oem @ w @ itoa_text (sint (ucast v :: u32)) 10)"
    unfolding fmt message_args_def using plain(1,2) strs
    by (simp only: option.case append.simps) (intro render_string render_number, auto)
  moreover have "length (itoa_text (sint (ucast v :: u32)) 10) \<le> 33" using itoa_text_int(1) [of "ucast v"] by simp
  ultimately have "good_message fmt (Some oem) [v]"
    using assms(1,2) plain len unfolding good_message_def by (auto simp: fmt)
  from print_line_shows [OF this assms(3)] show thesis using that unfolding fmt_def by metis
qed

lemma announce_tables:
  fixes s :: "'a console_state_scheme"
  assumes "\<forall>c \<in> set oem. c < 128" "length oem < 0x100" "term_ok (console s)"
  shows "\<exists>t. print_line ''[ACPI] Detected ACPI with OEM ID %s and version %d'' (Some (takeWhile (\<lambda>c. c \<noteq> 0) oem)) [v] s
      = Inr (s\<lparr>console := t\<rparr>) \<and> term_ok t"
proof -
  have "\<forall>c \<in> set (takeWhile (\<lambda>c. c \<noteq> 0) oem). c \<noteq> 0 \<and> c < 128" "length (takeWhile (\<lambda>c. c \<noteq> 0) oem) < 0x100"
    using assms(1,2) length_takeWhile_le [of "\<lambda>c. c \<noteq> 0" oem] by (auto dest: set_takeWhileD)
  from announcement [OF this assms(3)] show ?thesis by metis
qed

section \<open>Frames\<close>

lemma virt_memcpy_frame:
  assumes "\<And>s m. g (s\<lparr>ram := m\<rparr>) = g s" "virt_memcpy_n n d src s = Inr s'"
  shows "g s' = g s"
  using assms(2)
proof (induction n arbitrary: d src s)
  case (Suc n)
  then obtain b s1 where s1: "virt_store8 d b s = Inr s1" "virt_memcpy_n n (d + 1) (src + 1) s1 = Inr s'"
    by (auto simp: rbind_eq_Inr)
  have "g s1 = g s" using s1(1) assms(1) by (auto simp: virt_store8_def split: option.splits)
  then show ?case using Suc.IH [OF s1(2)] by simp
qed simp

lemma smp_init_frame:
  fixes s :: "'a smp_state_scheme"
  assumes "\<forall>s p s'. pmm_alloc 1 s = Inr (p, s') \<longrightarrow> g s' = g s" "\<And>s m. g (s\<lparr>ram := m\<rparr>) = g s"
    and "smp_init sy s = Inr s'"
  shows "g s' = g s"
proof -
  obtain b s1 where "map_pages_n (unat ((get_len sy + page_size - 1) div page_size)) (pmm_alloc 1)
      (get_current_context s) (trampoline_start sy) (trampoline_start sy) (VMM_PRESENT OR VMM_WRITE) s = Inr (b, s1)"
    "virt_memcpy_n (unat (get_len sy)) (trampoline_start sy) (0x400000 + virtual_physical_base) s1 = Inr s'"
    using assms(3) by (auto simp: smp_init_def Let_def rbind_eq_Inr map_pages_def)
  then have "g s1 = g s" "g s' = g s1"
    using map_pages_n_frame [OF assms(1,2)] virt_memcpy_frame [of g, OF assms(2)] by blast+
  then show ?thesis by simp
qed

text \<open>What neither changes, in \<open>smp.cpp\<close> and in \<open>acpi.cpp\<close>.\<close>

lemma smp_keeps:
  fixes s :: "'a smp_state_scheme"
  assumes "apic_init s = Inr s1"
  shows "console s1 = console s \<and> trampoline_booted s1 = trampoline_booted s \<and> bitmap_len s1 = bitmap_len s"
proof -
  define g where "g = (\<lambda>s :: 'a smp_state_scheme. (console s, trampoline_booted s, bitmap_len s))"
  have alloc: "\<forall>s p s'. pmm_alloc 1 s = Inr (p, s') \<longrightarrow> g s' = g s"
    by (auto elim!: pmm_alloc_cases simp: pmm_take_def g_def)
  have "g s1 = g s" by (rule apic_init_frame [OF alloc _ _ _ assms]) (simp_all add: g_def)
  then show ?thesis by (simp add: g_def)
qed

lemma acpi_keeps:
  fixes s :: "'a acpi_state_scheme"
  assumes "apic_init s = Inr s1 \<or> smp_init sy s = Inr s1"
  shows "rsdp s1 = rsdp s \<and> madt s1 = madt s"
proof -
  define g where "g = (\<lambda>s :: 'a acpi_state_scheme. (rsdp s, madt s))"
  have alloc: "\<forall>s p s'. pmm_alloc 1 s = Inr (p, s') \<longrightarrow> g s' = g s"
    by (auto elim!: pmm_alloc_cases simp: pmm_take_def g_def)
  have "g s1 = g s"
    using assms
  proof
    assume run: "apic_init s = Inr s1"
    show ?thesis by (rule apic_init_frame [OF alloc _ _ _ run]) (simp_all add: g_def)
  next
    assume run: "smp_init sy s = Inr s1"
    show ?thesis by (rule smp_init_frame [OF alloc _ run]) (simp add: g_def)
  qed
  then show ?thesis by (simp add: g_def)
qed

section \<open>From the boot to the loop\<close>

definition acpi_ready :: "devices \<Rightarrow> smp_symbols \<Rightarrow> 'a smp_state_scheme \<Rightarrow> bool" where
  "acpi_ready dev sy s \<longleftrightarrow>
     space_ok s (cr3 s) \<and> term_ok (console s) \<and> end_marked s \<and> \<not> trampoline_booted s \<and>
     hw_walk (ram s) (cr3 s) virtual_kernel_base = Page2M (huge_entry 0 3) \<and>
     unat (msrs s apic_base) < 2 ^ 46 \<and> idle dev (icr_addr s) \<and>
     can_alloc (pmm_alloc 1) (3 * unat (trampoline_pages sy) + 3) s \<and> trampoline_ok sy s"

lemma pmm_data_same:
  fixes s :: "'a pmm_state_scheme" and t :: "'b pmm_state_scheme"
  assumes "ram s = ram t" "bitmap s = bitmap t" "bitmap_len s = bitmap_len t"
  shows "pmm_data s r x = pmm_data t r x"
  using space_ok_same(2,3) [OF assms] assms(1) by (simp add: pmm.data_byte_def)

lemma acpi_ready_same:
  fixes s :: "'a smp_state_scheme" and t :: "'b smp_state_scheme"
  assumes ready: "acpi_ready dev sy s" and same: "ram t = ram s" "bitmap t = bitmap s" "bitmap_len t = bitmap_len s" "cr3 t = cr3 s"
    and "msrs t = msrs s" "term_ok (console t)" "trampoline_booted t = trampoline_booted s"
  shows "acpi_ready dev sy t"
proof -
  have "trampoline_ok sy t = trampoline_ok sy s"
    unfolding trampoline_ok_def maps_to_def can_alloc_same [OF same(1-3)] same pmm_data_same [OF same(1-3)] ..
  moreover have "end_marked t = end_marked s" by (simp add: end_marked_def page_marked_def same)
  moreover have "space_ok t (cr3 s) = space_ok s (cr3 s)" by (rule space_ok_same(1) [OF same(1-3)])
  moreover have "can_alloc (pmm_alloc 1) n t = can_alloc (pmm_alloc 1) n s" for n by (rule can_alloc_same [OF same(1-3)])
  moreover have "icr_addr t = icr_addr s" using assms(6) by (simp add: icr_addr_def)
  ultimately show ?thesis using ready assms(6-8) unfolding acpi_ready_def same by simp
qed

text \<open>A byte of a table: mapped outside the first large page of the kernel window, on a page that is in
  use, and not overwritten by the trampoline.\<close>

definition table_byte :: "smp_symbols \<Rightarrow> 'a smp_state_scheme \<Rightarrow> u64 \<Rightarrow> u8 \<Rightarrow> bool" where
  "table_byte sy s a b \<longleftrightarrow>
     virtual_physical_base \<le> a \<and> block_number 21 a \<noteq> block_number 21 virtual_kernel_base \<and>
     (\<exists>p. hw_translate (ram s) (cr3 s) a = Some p \<and> pmm_data s (cr3 s) p \<and> ram s p = b \<and>
       (\<forall>i < unat (get_len sy). p \<noteq> trampoline_start sy + of_nat i))"

lemma window_blocks:
  assumes "i < 2 ^ 22"
  shows "block_number 21 (0x400000 + virtual_physical_base + of_nat i) \<noteq> block_number 21 virtual_kernel_base"
proof -
  define w where "w = 0x400000 + virtual_physical_base + of_nat i"
  have base: "w = of_nat i + 0xFFFF800000400000" by (simp add: w_def mm_consts)
  have "unat (of_nat i :: u64) = i" using assms by (simp add: unat_of_nat)
  then have "unat w = i + 0xFFFF800000400000" unfolding base using assms by (subst unat_add_u64) simp_all
  then have w: "uint w = int i + 0xFFFF800000400000" unfolding uint_nat by simp
  have "int (steps 21 virtual_physical_base w) = ((int i + 0xFFFF800000400000) div 2 ^ 21 - 0xFFFF800000000000 div 2 ^ 21) mod 2 ^ 27"
    unfolding int_steps w by (simp add: mm_consts)
  also have "\<dots> \<le> 4"
  proof -
    have "(int i + 0xFFFF800000400000) div 2 ^ 21 \<le> (2 ^ 22 + 0xFFFF800000400000) div 2 ^ 21"
      "0xFFFF800000400000 div 2 ^ 21 \<le> (int i + 0xFFFF800000400000) div 2 ^ 21"
      using assms by (intro zdiv_mono1, simp_all)+
    then show ?thesis by (subst mod_pos_pos_trivial) simp_all
  qed
  finally have "steps 21 virtual_physical_base w < 2048" by simp
  moreover have "\<not> steps 21 virtual_physical_base virtual_kernel_base < 2048"
    using int_steps [of 21 virtual_physical_base virtual_kernel_base] by (simp add: mm_consts)
  ultimately show ?thesis unfolding w_def [symmetric] steps_def by metis
qed

lemma block_of_page: "page_number v = page_number w \<Longrightarrow> block_number 21 v = block_number 21 w"
proof -
  assume "page_number v = page_number w"
  then have "drop_bit 9 (page_number v) = drop_bit 9 (page_number w)" by simp
  then show ?thesis by (simp add: block_number_def drop_bit_drop_bit)
qed

lemma acpi_after_init:
  fixes s :: "'a smp_state_scheme"
  assumes ready: "acpi_ready dev sy s"
  obtains s1 s2 where "apic_init s = Inr s1" "smp_init sy s1 = Inr s2" "smp_ready dev s2" "icr_addr s2 = icr_addr s"
    "io_trace s2 = io_trace s"
    "\<And>a b. table_byte sy s a b \<Longrightarrow> kernel_reader s2 a = Inr b \<and> lasting_byte s2 a"
proof -
  let ?n = "unat (trampoline_pages sy)" and ?kb = virtual_kernel_base
  have r: "space_ok s (cr3 s)" "term_ok (console s)" "end_marked s" "\<not> trampoline_booted s"
    "hw_walk (ram s) (cr3 s) ?kb = Page2M (huge_entry 0 3)" "unat (msrs s apic_base) < 2 ^ 46"
    "idle dev (icr_addr s)" "can_alloc (pmm_alloc 1) (3 * ?n + 3) s" and tramp: "trampoline_ok sy s"
    using ready unfolding acpi_ready_def by blast+
  obtain s1 where s1: "apic_init s = Inr s1" "apic_ready s1" "space_ok s1 (cr3 s1)" "lapic_base s1 = ?kb"
    "lapic_frame s1 = Some (hw_frame (msrs s apic_base))" "cr3 s1 = cr3 s" "io_trace s1 = io_trace s"
    "can_alloc (pmm_alloc 1) (3 * ?n) s1" "pmm.grows s s1 (cr3 s)"
    "\<And>v. hw_walk (ram s1) (cr3 s1) v = (if page_number v = page_number ?kb
       then Page4K (leaf_entry (hw_frame (msrs s apic_base)) VMM_WRITE)
       else if block_number 21 v = block_number 21 ?kb then Unmapped else hw_walk (ram s) (cr3 s) v)"
    using apic_init_maps [OF r(1,8,5,6)] by blast
  have frame: "console s1 = console s" "trampoline_booted s1 = trampoline_booted s" "bitmap_len s1 = bitmap_len s"
    using smp_keeps [OF s1(1)] by simp_all
  have wf: "unat (bitmap_len s) < 2 ^ 52" using r(1) by (simp add: vmm_inv_def pmm_wf_def)
  have ok1: "smp_ok s1" using s1(2,3) r(2) frame by (simp add: smp_ok_def)
  have same: "hw_walk (ram s1) (cr3 s1) v = hw_walk (ram s) (cr3 s) v"
    if "block_number 21 v \<noteq> block_number 21 ?kb" for v
    using that block_of_page [of v ?kb] by (auto simp: s1(10))
  have tramp1: "trampoline_ok sy s1"
    using tramp s1(8) pmm.grows_data(1) [OF s1(9)] same [OF window_blocks] s1(6,10)
    unfolding trampoline_ok_def maps_to_def hw_translate_def by (auto split: if_splits)
  obtain s2 where s2: "smp_init sy s1 = Inr s2" "space_ok s2 (cr3 s2)" "cr3 s2 = cr3 s1"
    "\<And>v. virtual_physical_base \<le> v \<Longrightarrow> hw_walk (ram s2) (cr3 s2) v = hw_walk (ram s1) (cr3 s1) v"
    "\<And>x. pmm_data s1 (cr3 s1) x \<Longrightarrow> (\<And>i. i < unat (get_len sy) \<Longrightarrow> x \<noteq> trampoline_start sy + of_nat i) \<Longrightarrow>
       ram s2 x = ram s1 x"
    "msrs s2 = msrs s1" "lapic_base s2 = lapic_base s1" "console s2 = console s1" "io_trace s2 = io_trace s1"
    "trampoline_booted s2 = trampoline_booted s1" "bitmap_len s2 = bitmap_len s1"
    "\<And>x. pmm_used s1 x \<Longrightarrow> pmm_used s2 x" "pmm_own s2 = pmm_own s1"
    using smp_init_run [OF s1(3) tramp1] by metis
  have msr1: "hw_frame (msrs s1 apic_base) = hw_frame (msrs s apic_base)"
    using s1(5) by (simp add: lapic_frame_def split: if_splits)
  have "smp_ok s2"
    by (rule trampoline_smp_ok [OF ok1 _ _ s2(2,6,7,8,4)]) (simp_all add: s1(4) mm_consts)
  moreover have "end_marked s1"
    using r(3) frame(3) wf s1(9) by (intro end_marked_grows [of s s1]) (simp_all add: pmm.grows_def)
  then have "end_marked s2"
    using s2(11,12) frame(3) wf by (intro end_marked_grows [of s1 s2]) simp_all
  moreover have "icr_addr s2 = icr_addr s" by (simp add: icr_addr_def s2(6) msr1)
  ultimately have "smp_ready dev s2"
    using r(4,7) s2(10) frame(2) end_marked_stacks by (simp add: smp_ready_def)
  moreover have "kernel_reader s2 a = Inr b \<and> lasting_byte s2 a" if byte: "table_byte sy s a b" for a b
  proof -
    obtain p where a: "virtual_physical_base \<le> a" "block_number 21 a \<noteq> block_number 21 ?kb"
      and p: "hw_translate (ram s) (cr3 s) a = Some p" "pmm_data s (cr3 s) p" "ram s p = b"
        "\<And>i. i < unat (get_len sy) \<Longrightarrow> p \<noteq> trampoline_start sy + of_nat i"
      using byte unfolding table_byte_def by blast
    have "hw_translate (ram s2) (cr3 s2) a = Some p"
      using s2(4) [OF a(1)] same [OF a(2)] p(1) by (simp add: hw_translate_def)
    moreover note keep = pmm.grows_data [OF s1(9) p(2)]
    then have "ram s2 p = b" using s2(5) [of p] p(3,4) s1(6) by simp
    moreover have "\<not> pmm_own s2 p" using keep(1) s2(13) by (simp add: pmm.data_byte_def)
    ultimately show ?thesis by (simp add: kernel_reader_def virt_load8_def lasting_byte_def)
  qed
  ultimately show thesis
    using that [OF s1(1) s2(1)] s1(7) s2(9) \<open>icr_addr s2 = icr_addr s\<close> by simp
qed

section \<open>The accesses of the loop\<close>

definition boot_trace :: "devices \<Rightarrow> processors \<Rightarrow> u64 \<Rightarrow> u32 \<Rightarrow> cpu_entry list \<Rightarrow> io_event list \<Rightarrow> io_event list" where
  "boot_trace dev ap p sipi cpus tr =
     fold (\<lambda>cpu tr. if bsp cpu then tr else start_trace dev ap p (lapic_id cpu) sipi tr) cpus tr"

lemma boot_cpu_step:
  fixes s :: "'a acpi_state_scheme"
  assumes ready: "smp_ready dev s" and run: "boot_cpu dev ap sy cpu s = Inr s'"
  shows "icr_addr s' = icr_addr s" "rsdp s' = rsdp s" "madt s' = madt s"
    "io_trace s' = boot_trace dev ap (icr_addr s) (sipi_flags sy) [cpu] (io_trace s)"
proof -
  have "icr_addr s' = icr_addr s \<and> rsdp s' = rsdp s \<and> madt s' = madt s \<and>
    io_trace s' = boot_trace dev ap (icr_addr s) (sipi_flags sy) [cpu] (io_trace s)"
  proof (cases "bsp cpu")
    case True
    then show ?thesis using run by (simp add: boot_cpu_def boot_trace_def)
  next
    case False
    obtain p s1 where alloc: "pmm_alloc 16 s = Inr (p, s1)" using pmm_alloc_returns by blast
    obtain t where s': "s' = s1\<lparr>trampoline_stack := p + virtual_physical_base, console := t,
        io_trace := start_trace dev ap (icr_addr s) (lapic_id cpu) (sipi_flags sy) (io_trace s)\<rparr>"
      using boot_cpu_ready [OF ready False alloc] run by (metis Inr_inject)
    have "rsdp s1 = rsdp s \<and> madt s1 = madt s \<and> msrs s1 = msrs s"
      using alloc by (cases rule: pmm_alloc_cases) (simp_all add: pmm_take_def)
    then show ?thesis using False by (simp add: s' icr_addr_def boot_trace_def)
  qed
  then show "icr_addr s' = icr_addr s" "rsdp s' = rsdp s" "madt s' = madt s"
    "io_trace s' = boot_trace dev ap (icr_addr s) (sipi_flags sy) [cpu] (io_trace s)" by blast+
qed

lemma boot_all_trace:
  fixes s :: "'a acpi_state_scheme"
  assumes "smp_ready dev s" "boot_all (boot_cpu dev ap sy) cpus s = Inr s'"
  shows "rsdp s' = rsdp s \<and> madt s' = madt s \<and>
    io_trace s' = boot_trace dev ap (icr_addr s) (sipi_flags sy) cpus (io_trace s)"
  using assms
proof (induction cpus arbitrary: s)
  case (Cons cpu cpus)
  obtain s1 where s1: "boot_cpu dev ap sy cpu s = Inr s1" "boot_all (boot_cpu dev ap sy) cpus s1 = Inr s'"
    using Cons.prems(2) by (auto simp: rbind_eq_Inr)
  have "smp_ready dev s1" using aps.boot_returns [OF Cons.prems(1)] s1(1) by (metis Inr_inject)
  then show ?case
    using Cons.IH [OF _ s1(2)] boot_cpu_step [OF Cons.prems(1) s1(1)] by (simp add: boot_trace_def)
qed (simp add: boot_trace_def)

section \<open>Up to the loop\<close>

lemma acpi_init_reaches_loop:
  fixes s :: "'a acpi_state_scheme"
  assumes "acpi_ready dev sy s"
    and "detect_rsdp_areas (kernel_reader s) lit = Inr info" "rsdp_version info \<noteq> 0"
    and "\<forall>c \<in> set (rsdp_oem_id info). c < 128" "length (rsdp_oem_id info) < 0x100"
    and "get_table (kernel_reader s) info (lit ''APIC'') = Inr table"
    and "read_member SdtHeader ''length'' (kernel_reader s) table = Inr (of_nat (44 + length bs))"
    and "\<forall>i < length bs. table_byte sy s (table + 44 + of_nat i) (bs ! i)"
  obtains s' where "smp_ready dev s'" "holds_bytes kernel_reader lasting_byte (table + 44) bs s'"
    "acpi_init dev ap cpuid lit sy s =
       loop_result (madt_loop (boot_cpu dev ap sy) kernel_reader cpuid (table + 44) (of_nat (length bs)) 0 s')"
    "rsdp s' = info" "madt s' = table" "icr_addr s' = icr_addr s" "io_trace s' = io_trace s"
proof -
  obtain t where t: "print_line ''[ACPI] Detected ACPI with OEM ID %s and version %d''
      (Some (takeWhile (\<lambda>c. c \<noteq> 0) (rsdp_oem_id info))) [of_int (rsdp_version info)] (s\<lparr>rsdp := info\<rparr>)
      = Inr (s\<lparr>rsdp := info, console := t\<rparr>)" "term_ok t"
    using announce_tables [OF assms(4,5), of "s\<lparr>rsdp := info\<rparr>"] assms(1) by (auto simp: acpi_ready_def)
  define s3 where "s3 = s\<lparr>rsdp := info, console := t, madt := table\<rparr>"
  have view: "kernel_reader (s\<lparr>rsdp := info, console := t\<rparr>) = kernel_reader s" "kernel_reader s3 = kernel_reader s"
    by (simp_all add: kernel_reader_def virt_load8_def s3_def fun_eq_iff split: option.split)
  have same: "ram s3 = ram s" "bitmap s3 = bitmap s" "bitmap_len s3 = bitmap_len s" "cr3 s3 = cr3 s"
    by (simp_all add: s3_def)
  have bytes: "table_byte sy s3 a b = table_byte sy s a b" for a b
    by (simp add: table_byte_def same pmm_data_same [OF same(1-3)])
  have ready: "acpi_ready dev sy s3"
    by (rule acpi_ready_same [OF assms(1) same]) (simp_all add: s3_def t(2))
  obtain s4 s5 where s5: "apic_init s3 = Inr s4" "smp_init sy s4 = Inr s5" "smp_ready dev s5" "icr_addr s5 = icr_addr s3"
    "io_trace s5 = io_trace s3" "\<And>a b. table_byte sy s3 a b \<Longrightarrow> kernel_reader s5 a = Inr b \<and> lasting_byte s5 a"
    by (rule acpi_after_init [OF ready]) (rule that)
  have bytes5: "holds_bytes kernel_reader lasting_byte (table + 44) bs s5"
    using assms(8) s5(6) unfolding holds_bytes_def bytes by blast
  have run: "acpi_init dev ap cpuid lit sy s =
       loop_result (madt_loop (boot_cpu dev ap sy) kernel_reader cpuid (table + 44) (of_nat (length bs)) 0 s5)"
    using assms(2,3,6,7) t(1) view s5(1,2)
    by (simp add: acpi_init_def bios_detect_rsdp_def Let_def flip: s3_def)
  have "rsdp s5 = info" "madt s5 = table" "icr_addr s3 = icr_addr s" "io_trace s3 = io_trace s"
    using acpi_keeps [of s3 s4 sy] acpi_keeps [of s4 s5 sy] s5(1,2) by (simp_all add: s3_def icr_addr_def)
  then show thesis using that [OF s5(3) bytes5 run] s5(4,5) by simp
qed

end
