(* ===== verification/AcpiBoot.thy ===== *)
theory AcpiBoot
  imports AcpiInit
begin

text \<open>
  The properties of \<open>Acpi::init\<close>: it starts the enabled processors in the order of the table, it does not
  return when the table lists one that is not enabled, and what it does without its tables. The witnesses
  run it on one concrete machine, which is built first.
\<close>

section \<open>A machine with tables\<close>

text \<open>The tables: a root pointer and the segment of the BIOS data area in the first page; an RSDT, a table
  of interrupt controllers, and the literals in another one. The processor with identifier 0 runs, the one
  with identifier 1 is to be started, and there is an I/O controller between them.\<close>

definition demo_entries :: "u8 list list" where
  "demo_entries = [[0, 8, 0, 0, 1, 0, 0, 0], [1, 12, 2, 0, 0, 0, 0xC0, 0xFE, 0, 0, 0, 0], [0, 8, 1, 1, 1, 0, 0, 0]]"

primrec byte_of :: "u8 list \<Rightarrow> u64 \<Rightarrow> u8" where
  "byte_of [] k = 0"
| "byte_of (b # bs) k = (if k = 0 then b else byte_of bs (k - 1))"

definition area :: "u64 \<Rightarrow> u64 \<Rightarrow> u8 list \<Rightarrow> memory \<Rightarrow> memory" where
  "area p n bs m x = (if x - p < n then byte_of bs (x - p) else m x)"

lemma byte_of_nth: "i < length bs \<Longrightarrow> length bs < 2 ^ 64 \<Longrightarrow> byte_of bs (of_nat i) = bs ! i"
proof (induction bs arbitrary: i)
  case (Cons b bs)
  have "(of_nat i :: u64) = 0 \<longleftrightarrow> i = 0" using Cons.prems by (simp add: word_unat_eq_iff unat_of_nat)
  then show ?case using Cons by (cases i) simp_all
qed simp

definition demo_contents :: "string \<Rightarrow> u8 list \<Rightarrow> memory" where
  "demo_contents signature bs =
     area 0x7FE012C 28 bs (area 0x7FE0100 8 (chars signature @ [72, 0, 0, 0])
       (area 0x7FE0024 4 [0, 1, 0xFE, 7] (area 0x7FE0000 8 (chars ''RSDT'' @ [40, 0, 0, 0])
         (area 0x7FE0800 12 (chars ''RSD PTR APIC'') (area 0x10 20 demo_rsdp (\<lambda>_. 0))))))"

definition demo_lit :: literals where
  "demo_lit str = virtual_physical_base + (if str = ''RSD PTR '' then 0x7FE0800 else 0x7FE0808)"

definition demo_cpuid :: cpuid where
  "demo_cpuid leaf = (0, 0, 0, 0)"

text \<open>The large page at the start of the kernel window, and three pages of the window of physical memory.\<close>

definition demo_large :: "smp_state \<Rightarrow> smp_state" where
  "demo_large s = (case map_huge_pages (pmm_alloc 1) (cr3 s) virtual_kernel_base 0 1 3 s of
     Inl _ \<Rightarrow> s | Inr (b, s') \<Rightarrow> s')"

definition demo_booted :: "memory \<Rightarrow> smp_state" where
  "demo_booted m =
     demo_map (0x7FE0000 + virtual_physical_base) 0x7FE0000 (demo_map virtual_physical_base 0
       (demo_map (0x400000 + virtual_physical_base) 0x400000 (demo_large (fresh_space (demo_smp_boot m)))))"

definition demo_acpi :: "string \<Rightarrow> u8 list \<Rightarrow> acpi_state" where
  "demo_acpi signature bs = smp_state.extend (demo_booted (demo_contents signature bs)) \<lparr>rsdp = no_info, madt = 0\<rparr>"

text \<open>All of these mappings keep the machine good.\<close>

lemma map_huge_keeps_smp:
  fixes s :: "'a smp_state_scheme"
  assumes "map_huge_pages (pmm_alloc 1) r v phys count perms s = Inr (b, s')"
  shows "cr3 s' = cr3 s \<and> io_trace s' = io_trace s \<and> msrs s' = msrs s \<and> lapic_base s' = lapic_base s \<and>
    console s' = console s \<and> trampoline_booted s' = trampoline_booted s \<and> bitmap_len s' = bitmap_len s"
proof -
  define g where "g = (\<lambda>s :: 'a smp_state_scheme.
    (cr3 s, io_trace s, msrs s, lapic_base s, console s, trampoline_booted s, bitmap_len s))"
  have "\<forall>s p s'. pmm_alloc 1 s = Inr (p, s') \<longrightarrow> g s' = g s"
    by (auto elim!: pmm_alloc_cases simp: pmm_take_def g_def)
  then have "g s' = g s" by (rule map_huge_pages_n_frame [OF _ _ assms [unfolded map_huge_pages_def]]) (simp add: g_def)
  then show ?thesis by (simp add: g_def)
qed

lemma demo_good_large:
  assumes good: "demo_good m (n + 2) s"
  shows "demo_good m n (demo_large s)"
    and "hw_walk (ram (demo_large s)) small_root w = (if block_number 21 w = block_number 21 virtual_kernel_base
      then Page2M (huge_entry 0 3) else hw_walk (ram s) small_root w)"
proof -
  have perms: "perms_ok 3" by (simp add: perms_ok_def)
  have g: "space_ok s small_root" "first_fit s" "can_alloc (pmm_alloc 1) (n + 2) s" "cr3 s = small_root"
    using good by (simp_all add: demo_good_def)
  obtain s' where s': "map_huge_pages (pmm_alloc 1) small_root virtual_kernel_base 0 1 3 s = Inr (True, s')"
    "space_ok s' small_root" "first_fit s'" "can_alloc (pmm_alloc 1) n s'" "pmm.grows s s' small_root"
    "\<And>w. hw_walk (ram s') small_root w = (if block_number 21 w = block_number 21 virtual_kernel_base
       then Page2M (huge_entry 0 3) else hw_walk (ram s) small_root w)"
    by (rule map_large_first_fit [where phys = 0 and v = virtual_kernel_base, OF g(1,2) perms g(3)]) (rule that)
  have eq: "demo_large s = s'" by (simp add: demo_large_def g(4) s'(1))
  show "hw_walk (ram (demo_large s)) small_root w = (if block_number 21 w = block_number 21 virtual_kernel_base
      then Page2M (huge_entry 0 3) else hw_walk (ram s) small_root w)"
    by (simp add: eq s'(6))
  show "demo_good m n (demo_large s)"
    using good s'(2-4) map_huge_keeps_smp [OF s'(1)] pmm.grows_data [OF s'(5)]
    by (simp add: eq demo_good_def)
qed

text \<open>Where the pages of the window lie.\<close>

lemma demo_pages:
  "page_number (0x400000 + virtual_physical_base) \<noteq> page_number virtual_physical_base"
  "page_number (0x7FE0000 + virtual_physical_base) \<noteq> page_number virtual_physical_base"
  "page_number (0x7FE0000 + virtual_physical_base) \<noteq> page_number (0x400000 + virtual_physical_base)"
  "block_number 21 (0x400000 + virtual_physical_base) \<noteq> block_number 21 virtual_kernel_base"
  "block_number 21 virtual_physical_base \<noteq> block_number 21 virtual_kernel_base"
  "block_number 21 (0x7FE0000 + virtual_physical_base) \<noteq> block_number 21 virtual_kernel_base"
  by (simp_all add: mm_consts) code_simp+

lemma demo_booted_good:
  shows "demo_good m 19 (demo_booted m)"
    and "hw_walk (ram (demo_booted m)) small_root w =
      (if page_number w = page_number (0x7FE0000 + virtual_physical_base) then Page4K (leaf_entry 0x7FE0000 VMM_WRITE)
       else if page_number w = page_number virtual_physical_base then Page4K (leaf_entry 0 VMM_WRITE)
       else if page_number w = page_number (0x400000 + virtual_physical_base) then Page4K (leaf_entry 0x400000 VMM_WRITE)
       else if block_number 21 w = block_number 21 virtual_kernel_base then Page2M (huge_entry 0 3)
       else Unmapped)"
proof -
  let ?s0 = "fresh_space (demo_smp_boot m)" and ?vp = virtual_physical_base
  have root: "returned (pmm_alloc 1 (demo_smp_boot m)) = Some small_root" by (simp add: demo_smp_root returned_def)
  note empty = fresh_space_ok(2) [OF demo_smp_boot_wf root]
  define s1 s2 s3 where "s1 = demo_large ?s0" and "s2 = demo_map (0x400000 + ?vp) 0x400000 s1" and "s3 = demo_map ?vp 0 s2"
  have "demo_good m (28 + 2) ?s0" using demo_good_boot by simp
  note g1 = demo_good_large [OF this, folded s1_def]
  have "demo_good m (25 + 3) s1" using g1(1) by simp
  note g2 = demo_good_map [OF this, where v = "0x400000 + ?vp" and p = "0x400000", folded s2_def]
  have u1: "hw_walk (ram s1) small_root (0x400000 + ?vp) = Unmapped" using g1(2) empty demo_pages by simp
  have "demo_good m (22 + 3) s2" using g2(1) [OF u1] by simp
  note g3 = demo_good_map [OF this, where v = ?vp and p = 0, folded s3_def]
  have u2: "hw_walk (ram s2) small_root ?vp = Unmapped" using g2(2) [OF u1] g1(2) empty demo_pages by simp
  have "demo_good m (19 + 3) s3" using g3(1) [OF u2] by simp
  note g4 = demo_good_map [OF this, where v = "0x7FE0000 + ?vp" and p = "0x7FE0000"]
  have u3: "hw_walk (ram s3) small_root (0x7FE0000 + ?vp) = Unmapped"
    using g3(2) [OF u2] g2(2) [OF u1] g1(2) empty demo_pages by simp
  have eq: "demo_booted m = demo_map (0x7FE0000 + ?vp) 0x7FE0000 s3" by (simp add: demo_booted_def s1_def s2_def s3_def)
  show "demo_good m 19 (demo_booted m)" unfolding eq by (rule g4(1) [OF u3])
  show "hw_walk (ram (demo_booted m)) small_root w =
      (if page_number w = page_number (0x7FE0000 + ?vp) then Page4K (leaf_entry 0x7FE0000 VMM_WRITE)
       else if page_number w = page_number ?vp then Page4K (leaf_entry 0 VMM_WRITE)
       else if page_number w = page_number (0x400000 + ?vp) then Page4K (leaf_entry 0x400000 VMM_WRITE)
       else if block_number 21 w = block_number 21 virtual_kernel_base then Page2M (huge_entry 0 3)
       else Unmapped)"
    unfolding eq g4(2) [OF u3] g3(2) [OF u2] g2(2) [OF u1] g1(2) empty by simp
qed

lemma demo_booted_ready: "acpi_ready (\<lambda>_ _ _. 0) demo_symbols (demo_booted m)"
proof -
  let ?s = "demo_booted m"
  note good = demo_booted_good(1) [of m]
  have g: "space_ok ?s small_root" "cr3 ?s = small_root" "can_alloc (pmm_alloc 1) 19 ?s" "msrs ?s = (\<lambda>_. 0xFEE00900)"
    "console ?s = demo_term" "\<not> trampoline_booted ?s"
    using good by (simp_all add: demo_good_def)
  have kb: "page_number virtual_kernel_base \<noteq> page_number (0x7FE0000 + virtual_physical_base)"
    "page_number virtual_kernel_base \<noteq> page_number virtual_physical_base"
    "page_number virtual_kernel_base \<noteq> page_number (0x400000 + virtual_physical_base)"
    using demo_pages(4-6) block_of_page [of virtual_kernel_base] by metis+
  have "hw_walk (ram ?s) small_root virtual_kernel_base = Page2M (huge_entry 0 3)"
    by (simp add: demo_booted_good(2) kb)
  moreover have "trampoline_ok demo_symbols ?s"
  proof (rule demo_good_trampoline [OF good])
    fix v e assume v: "unat (v :: u64) < 0x400000"
    have "steps 21 virtual_kernel_base v \<noteq> 0" using low_steps(2) [of v] v by simp
    then show "hw_walk (ram ?s) small_root v \<noteq> Page2M e"
      by (auto simp: demo_booted_good(2) steps_0)
  qed (use demo_pages in \<open>simp_all add: demo_booted_good(2)\<close>)
  ultimately show ?thesis
    using g demo_good_end [OF good] demo_term_ok quiet_idle can_alloc_mono [OF g(3), of 6]
    by (simp add: acpi_ready_def)
qed

text \<open>What is read through the window of physical memory.\<close>

lemma demo_window:
  assumes f: "f = 0 \<or> f = 0x7FE0000" and i: "i < 4096"
  shows "hw_translate (ram (demo_booted m)) small_root (f + virtual_physical_base + of_nat i) = Some (f + of_nat i)"
    and "pmm_data (demo_booted m) small_root (f + of_nat i)" "ram (demo_booted m) (f + of_nat i) = m (f + of_nat i)"
proof -
  have al: "aligned 12 f" "aligned 12 (f + virtual_physical_base)" "unat f + 4096 \<le> 2 ^ 47"
    "unat (f + virtual_physical_base) + 4096 \<le> 2 ^ 64"
    using f by (auto simp: aligned_def mm_consts)
  have "hw_walk (ram (demo_booted m)) small_root w = Page4K (leaf_entry f VMM_WRITE)"
    if "page_number w = page_number (f + virtual_physical_base)" for w
    using f that demo_pages(2) by (auto simp: demo_booted_good(2))
  then show "hw_translate (ram (demo_booted m)) small_root (f + virtual_physical_base + of_nat i) = Some (f + of_nat i)"
    using al write_perms i by (intro page_translate [where perms = VMM_WRITE]) simp_all
  have "unat (f + of_nat i) = unat f + i" using f i by (auto simp: unat_of_nat intro!: trans [OF unat_add_u64])
  then have "8224 \<le> unat (f + of_nat i) div 4096 \<or> unat (f + of_nat i) div 4096 \<in> {0, 1, 1024}"
    using f i by auto
  then show "pmm_data (demo_booted m) small_root (f + of_nat i)" "ram (demo_booted m) (f + of_nat i) = m (f + of_nat i)"
    using demo_good_data [OF demo_booted_good(1)] by blast+
qed

definition demo_window_memory :: "string \<Rightarrow> u8 list \<Rightarrow> memory" where
  "demo_window_memory signature bs x = demo_contents signature bs (x - virtual_physical_base)"

lemma demo_acpi_fields [simp]:
  "ram (demo_acpi signature bs) = ram (demo_booted (demo_contents signature bs))" "cr3 (demo_acpi signature bs) = small_root"
  "bitmap (demo_acpi signature bs) = bitmap (demo_booted (demo_contents signature bs))" "bitmap_len (demo_acpi signature bs) = bitmap_len (demo_booted (demo_contents signature bs))"
  "msrs (demo_acpi signature bs) = msrs (demo_booted (demo_contents signature bs))" "console (demo_acpi signature bs) = demo_term"
  "trampoline_booted (demo_acpi signature bs) = trampoline_booted (demo_booted (demo_contents signature bs))" "io_trace (demo_acpi signature bs) = []"
  using demo_booted_good(1) [of "demo_contents signature bs"] by (simp_all add: demo_acpi_def smp_state.defs demo_good_def)

lemma demo_acpi_ready: "acpi_ready (\<lambda>_ _ _. 0) demo_symbols (demo_acpi signature bs)"
  by (rule acpi_ready_same [OF demo_booted_ready [of "demo_contents signature bs"]])
    (use demo_booted_good(1) [of "demo_contents signature bs"] demo_term_ok in \<open>simp_all add: demo_good_def\<close>)

lemma demo_reads:
  assumes f: "f = 0 \<or> f = 0x7FE0000" and n: "k + n \<le> 4096"
  shows "reads (kernel_reader (demo_acpi signature bs)) (demo_window_memory signature bs) (f + virtual_physical_base + of_nat k) n"
  unfolding reads_def
proof (intro allI impI)
  fix i assume i: "i < n"
  then have ki: "k + i < 4096" using n by simp
  have "f + virtual_physical_base + of_nat k + of_nat i = f + virtual_physical_base + of_nat (k + i)"
    by (simp add: ac_simps)
  moreover have "f + virtual_physical_base + of_nat (k + i) - virtual_physical_base = f + of_nat (k + i)" by simp
  ultimately show "kernel_reader (demo_acpi signature bs) (f + virtual_physical_base + of_nat k + of_nat i)
      = Inr ((demo_window_memory signature bs) (f + virtual_physical_base + of_nat k + of_nat i))"
    using demo_window [OF f ki, of "demo_contents signature bs"]
    by (simp only: kernel_reader_def virt_load8_def demo_acpi_fields demo_window_memory_def option.case)
qed

lemma demo_literals:
  "literal_at (kernel_reader (demo_acpi signature bs)) (demo_window_memory signature bs) demo_lit ''RSD PTR ''"
  "reads (kernel_reader (demo_acpi signature bs)) (demo_window_memory signature bs) (demo_lit ''APIC'') 4"
proof -
  have lit: "demo_lit ''RSD PTR '' = 0x7FE0000 + virtual_physical_base + of_nat 0x800"
    "demo_lit ''APIC'' = 0x7FE0000 + virtual_physical_base + of_nat 0x808"
    by (simp_all add: demo_lit_def mm_consts)
  have "bytes_at (demo_window_memory signature bs) (demo_lit ''RSD PTR '') (chars ''RSD PTR '')" by code_simp
  then show "literal_at (kernel_reader (demo_acpi signature bs)) (demo_window_memory signature bs) demo_lit ''RSD PTR ''"
    unfolding literal_at_def lit by (intro conjI demo_reads) simp_all
  show "reads (kernel_reader (demo_acpi signature bs)) (demo_window_memory signature bs) (demo_lit ''APIC'') 4"
    unfolding lit by (intro demo_reads) simp_all
qed

definition demo_info :: rsdp_info where
  "demo_info = \<lparr>rsdp_version = 1, rsdp_address = virtual_physical_base + 16,
     sdt_address = virtual_physical_base + 0x7FE0000, rsdp_oem_id = chars ''BOCHS '' @ [0]\<rparr>"

lemma demo_detect: "detect_rsdp_areas (kernel_reader (demo_acpi signature bs)) demo_lit = Inr demo_info"
proof -
  let ?rd = "kernel_reader (demo_acpi signature bs)" and ?vm = "demo_window_memory signature bs"
  have slots: "\<not> rsdp_valid ?vm (rsdp_slot 0 0)" "rsdp_valid ?vm (rsdp_slot 0 1)" by code_simp+
  have upt: "[0..<64] = 0 # 1 # [2..<64]" by (simp add: upt_conv_Cons)
  have ebda: "0x40E + virtual_physical_base = 0 + virtual_physical_base + of_nat 0x40E" by simp
  have word: "read_n 2 ?rd (0x40E + virtual_physical_base) = Inr (load_le 2 ?vm (0x40E + virtual_physical_base))"
    unfolding ebda by (intro read_n_reads demo_reads) simp_all
  have area: "reads ?rd ?vm (0 + virtual_physical_base) (16 * 64 + 16)"
    using demo_reads [of 0 0 "16 * 64 + 16"] by simp
  have "detect_rsdp ?rd demo_lit 0 (16 * of_nat 64) =
      Inr (case find (\<lambda>j. rsdp_valid ?vm (rsdp_slot 0 j)) [0..<64] of None \<Rightarrow> no_info | Some j \<Rightarrow> rsdp_contents ?vm (rsdp_slot 0 j))"
    by (rule detect_rsdp_finds [OF demo_literals(1) area]) simp
  then have found: "detect_rsdp ?rd demo_lit 0 0x400 = Inr (rsdp_contents ?vm (rsdp_slot 0 1))"
    unfolding upt using slots by simp
  note word found
  moreover have "load_le 2 ?vm (0x40E + virtual_physical_base) = 0" by code_simp
  moreover have "rsdp_contents ?vm (rsdp_slot 0 1) = demo_info" by code_simp
  ultimately show ?thesis by (simp add: detect_rsdp_areas_def demo_info_def)
qed

lemma demo_table:
  "get_table (kernel_reader (demo_acpi signature bs)) demo_info (demo_lit ''APIC'') =
    Inr (if same_signature (demo_window_memory signature bs) (demo_lit ''APIC'') (0x7FE0100 + virtual_physical_base)
         then 0x7FE0100 + virtual_physical_base else 0)"
proof -
  let ?rd = "kernel_reader (demo_acpi signature bs)" and ?vm = "demo_window_memory signature bs"
  have sdt: "sdt_address demo_info = 0x7FE0000 + virtual_physical_base + of_nat 0" "rsdp_version demo_info = 1"
    by (simp_all add: demo_info_def)
  have v: "rsdp_version demo_info \<in> {1, 2}" "(4 :: nat) = (if rsdp_version demo_info = 1 then 4 else 8)" by (simp_all add: sdt)
  have len: "unat (load_le 4 ?vm (sdt_address demo_info + 4)) = 36 + 4 * 1" by code_simp
  have r: "reads ?rd ?vm (sdt_address demo_info) (36 + 4 * 1)" unfolding sdt by (intro demo_reads) simp_all
  have list: "table_list 1 4 ?vm (sdt_address demo_info + 36) = [0x7FE0100 + virtual_physical_base]" by code_simp
  have h: "reads ?rd ?vm h 4" if "h \<in> set (table_list 1 4 ?vm (sdt_address demo_info + 36))" for h
  proof -
    have "h = 0x7FE0000 + virtual_physical_base + of_nat 0x100" using that unfolding list by simp
    then show ?thesis by (simp only:) (intro demo_reads, simp_all)
  qed
  show ?thesis
    using get_table_prefix [OF v len _ r h demo_literals(2)] unfolding list by (simp add: sdt(2) split: option.splits)
qed

lemma demo_entries_read:
  assumes n: "length bs = 28"
  shows "read_member SdtHeader ''length'' (kernel_reader (demo_acpi ''APIC'' bs)) (0x7FE0100 + virtual_physical_base)
      = Inr (of_nat (44 + length bs))"
    and "\<forall>i < length bs. table_byte demo_symbols (demo_acpi ''APIC'' bs)
      (0x7FE0100 + virtual_physical_base + 44 + of_nat i) (bs ! i)"
proof -
  let ?rd = "kernel_reader (demo_acpi ''APIC'' bs)" and ?vm = "demo_window_memory ''APIC'' bs"
  let ?t = "0x7FE0100 + virtual_physical_base"
  show "read_member SdtHeader ''length'' ?rd ?t = Inr (of_nat (44 + length bs))"
  proof -
    have "?t + 4 = 0x7FE0000 + virtual_physical_base + of_nat 0x104" by (simp add: mm_consts)
    then have "read_n 4 ?rd (?t + 4) = Inr (load_le 4 ?vm (?t + 4))"
      by (simp only:) (intro read_n_reads demo_reads, simp_all)
    moreover have "load_le 4 ?vm (?t + 4) = 72" by code_simp
    ultimately show ?thesis by (simp add: members n)
  qed
  show "\<forall>i < length bs. table_byte demo_symbols (demo_acpi ''APIC'' bs) (?t + 44 + of_nat i) (bs ! i)"
  proof (intro allI impI)
    fix i assume i: "i < length bs"
    then have k: "0x12C + i < 4096" by (simp add: n)
    have a: "?t + 44 + of_nat i = 0x7FE0000 + virtual_physical_base + of_nat (0x12C + i)" by simp
    have page: "page_number (0x7FE0000 + virtual_physical_base + of_nat (0x12C + i)) = page_number (0x7FE0000 + virtual_physical_base)"
      using k by (intro page_number_offset) (simp_all add: aligned_def mm_consts)
    define w :: u64 where "w = of_nat (0x12C + i)"
    have w: "unat w = 0x12C + i" unfolding w_def using k by (simp add: unat_of_nat del: of_nat_add)
    have base: "0x7FE0000 + virtual_physical_base = (0xFFFF800007FE0000 :: u64)" by (simp add: mm_consts)
    have "unat (0x7FE0000 + virtual_physical_base + w) = 0xFFFF800007FE0000 + (0x12C + i)"
      unfolding base using k w by (subst unat_add_u64) simp_all
    moreover have "unat (0x7FE0000 + w) = 0x7FE0000 + (0x12C + i)" using k w by (subst unat_add_u64) simp_all
    ultimately have u: "unat (0x7FE0000 + virtual_physical_base + of_nat (0x12C + i)) = 0xFFFF800007FE0000 + (0x12C + i)"
      "unat (0x7FE0000 + of_nat (0x12C + i) :: u64) = 0x7FE0000 + (0x12C + i)"
      unfolding w_def by blast+
    have "demo_contents ''APIC'' bs (0x7FE0000 + of_nat (0x12C + i)) = bs ! i"
      using byte_of_nth [of i "bs"] i by (simp add: demo_contents_def area_def n word_less_nat_alt unat_of_nat)
    moreover have "0x7FE0000 + of_nat (0x12C + i) \<noteq> (0x1000 + of_nat j :: u64)" if "j < 256" for j
    proof -
      have "unat (0x1000 + of_nat j :: u64) = 0x1000 + j" using that by (subst unat_add_u64) (simp_all add: unat_of_nat)
      then have "unat (0x7FE0000 + of_nat (0x12C + i) :: u64) \<noteq> unat (0x1000 + of_nat j :: u64)"
        unfolding u(2) using that by simp
      then show ?thesis by metis
    qed
    moreover have "virtual_physical_base \<le> 0x7FE0000 + virtual_physical_base + of_nat (0x12C + i)"
      unfolding word_le_nat_alt u(1) by (simp add: mm_consts)
    ultimately show "table_byte demo_symbols (demo_acpi ''APIC'' bs) (?t + 44 + of_nat i) (bs ! i)"
      unfolding a table_byte_def
      using demo_window [of "0x7FE0000" "0x12C + i" "demo_contents ''APIC'' bs"] k block_of_page [OF page] demo_pages(6)
        pmm_data_same [of "demo_acpi ''APIC'' bs" "demo_booted (demo_contents ''APIC'' bs)"]
      by (simp del: of_nat_add)
  qed
qed

section \<open>Properties\<close>

text \<open>C32: \<open>Acpi::init\<close> on a machine as \<open>Vmm::init\<close> leaves it. When the firmware's tables can be read and
  every processor they list is enabled, it returns: the controller is enabled, the trampoline loaded, and
  the processors of the table, this one excepted, have been started in the order of the table; the accesses
  to the controller are those of the starts, one after the other, and nothing else.\<close>

theorem acpi_init_starts_processors:
  fixes s :: "'a acpi_state_scheme"
  assumes "acpi_ready dev sy s"
    and "detect_rsdp_areas (kernel_reader s) lit = Inr info" "rsdp_version info \<noteq> 0"
    and "\<forall>c \<in> set (rsdp_oem_id info). c < 128" "length (rsdp_oem_id info) < 0x100"
    and "get_table (kernel_reader s) info (lit ''APIC'') = Inr table"
    and "read_member SdtHeader ''length'' (kernel_reader s) table = Inr (of_nat (44 + length (concat es)))"
    and "\<forall>e \<in> set es. entry_ok e \<and> enabled e" "length (concat es) < 2 ^ 32"
    and "\<forall>i < length (concat es). table_byte sy s (table + 44 + of_nat i) (concat es ! i)"
  shows "\<exists>s'. acpi_init dev ap cpuid lit sy s = Inr s' \<and> smp_ready dev s' \<and> rsdp s' = info \<and> madt s' = table \<and>
    io_trace s' = boot_trace dev ap (icr_addr s) (sipi_flags sy) (concat (map (entry_cpus cpuid) es)) (io_trace s)"
proof -
  obtain s1 where s1: "smp_ready dev s1" "holds_bytes kernel_reader lasting_byte (table + 44) (concat es) s1"
    "acpi_init dev ap cpuid lit sy s =
       loop_result (madt_loop (boot_cpu dev ap sy) kernel_reader cpuid (table + 44) (of_nat (length (concat es))) 0 s1)"
    "rsdp s1 = info" "madt s1 = table" "icr_addr s1 = icr_addr s" "io_trace s1 = io_trace s"
    by (rule acpi_init_reaches_loop [OF assms(1-7,10)]) (rule that)
  obtain s' where s': "boot_all (boot_cpu dev ap sy) (concat (map (entry_cpus cpuid) es)) s1 = Inr s'"
    "smp_ready dev s'" "madt_loop (boot_cpu dev ap sy) kernel_reader cpuid (table + 44) (of_nat (length (concat es))) 0 s1
      = Some (Inr s')"
    using aps.madt_loop_all [OF assms(8) s1(2,1)] assms(9) by fastforce
  then show ?thesis using s1(3-7) boot_all_trace [OF s1(1) s'(1)] by auto
qed

theorem acpi_init_starts_processors_witness:
  "\<exists>s'. acpi_init (\<lambda>_ _ _. 0) (\<lambda>_ _. True) demo_cpuid demo_lit demo_symbols (demo_acpi ''APIC'' (concat demo_entries)) = Inr s' \<and>
     madt s' = 0x7FE0100 + virtual_physical_base \<and>
     io_trace s' = start_trace (\<lambda>_ _ _. 0) (\<lambda>_ _. True) 0xFEE00300 1 0x601 []"
proof -
  let ?rd = "kernel_reader (demo_acpi ''APIC'' (concat demo_entries))" and ?vm = "demo_window_memory ''APIC'' (concat demo_entries)" and ?t = "0x7FE0100 + virtual_physical_base"
  have n: "length (concat demo_entries) = 28" by code_simp
  have info: "rsdp_version demo_info \<noteq> 0" "\<forall>c \<in> set (rsdp_oem_id demo_info). c < 128" "length (rsdp_oem_id demo_info) < 0x100"
    by code_simp+
  have entries: "\<forall>e \<in> set demo_entries. entry_ok e \<and> enabled e" "length (concat demo_entries) < 2 ^ 32"
    by code_simp (simp add: n)
  have "same_signature ?vm (demo_lit ''APIC'') ?t" unfolding same_signature_def by code_simp
  then have table: "get_table ?rd demo_info (demo_lit ''APIC'') = Inr ?t" by (simp add: demo_table)
  have cpus: "concat (map (entry_cpus demo_cpuid) demo_entries) = [\<lparr>lapic_id = 0, bsp = True\<rparr>, \<lparr>lapic_id = 1, bsp = False\<rparr>]"
    by code_simp
  have "icr_addr (demo_acpi ''APIC'' (concat demo_entries)) = 0xFEE00300"
    using demo_booted_good(1) [of "demo_contents ''APIC'' (concat demo_entries)"] by (simp add: icr_addr_def icr_low_def hw_frame_def demo_good_def)
  moreover have "sipi_flags demo_symbols = 0x601" by code_simp
  ultimately show ?thesis
    using acpi_init_starts_processors [OF demo_acpi_ready demo_detect info(1) info(2) info(3) table demo_entries_read(1) [OF n] entries demo_entries_read(2) [OF n],
        where ap = "\<lambda>_ _. True" and cpuid = demo_cpuid]
    unfolding cpus by (auto simp: boot_trace_def)
qed

text \<open>C33: but when the table lists a processor that is not enabled, \<open>Acpi::init\<close> does not return: the
  \<open>continue\<close> of the loop skips the addition to \<open>offset\<close>, and the same entry is read for ever. The processors
  listed before it have been started by then.\<close>

theorem disabled_processor_hangs:
  fixes s :: "'a acpi_state_scheme"
  assumes "acpi_ready dev sy s"
    and "detect_rsdp_areas (kernel_reader s) lit = Inr info" "rsdp_version info \<noteq> 0"
    and "\<forall>c \<in> set (rsdp_oem_id info). c < 128" "length (rsdp_oem_id info) < 0x100"
    and "get_table (kernel_reader s) info (lit ''APIC'') = Inr table"
    and "read_member SdtHeader ''length'' (kernel_reader s) table = Inr (of_nat (44 + length (concat es @ e @ rest)))"
    and "\<forall>e \<in> set es. entry_ok e \<and> enabled e" "entry_ok e" "\<not> enabled e" "length (concat es @ e @ rest) < 2 ^ 32"
    and "\<forall>i < length (concat es @ e @ rest). table_byte sy s (table + 44 + of_nat i) ((concat es @ e @ rest) ! i)"
  shows "acpi_init dev ap cpuid lit sy s = Inl Diverges"
proof -
  obtain s1 where s1: "smp_ready dev s1" "holds_bytes kernel_reader lasting_byte (table + 44) (concat es @ e @ rest) s1"
    "acpi_init dev ap cpuid lit sy s =
       loop_result (madt_loop (boot_cpu dev ap sy) kernel_reader cpuid (table + 44) (of_nat (length (concat es @ e @ rest))) 0 s1)"
    by (rule acpi_init_reaches_loop [OF assms(1-7,12)]) (rule that)
  have "holds_bytes kernel_reader lasting_byte (table + 44) (concat es @ e) s1"
    using s1(2) by (simp add: holds_bytes_append)
  moreover have "length (concat es) < length (concat es @ e @ rest)" using assms(9) by (auto simp: entry_ok_def)
  ultimately have "madt_loop (boot_cpu dev ap sy) kernel_reader cpuid (table + 44)
      (of_nat (length (concat es @ e @ rest))) 0 s1 = None"
    using assms(11) by (intro aps.madt_loop_disabled [OF assms(8,9,10) _ s1(1)]) simp_all
  then show ?thesis using s1(3) by simp
qed

text \<open>The same machine whose second processor is disabled.\<close>

theorem disabled_processor_hangs_witness:
  "acpi_init (\<lambda>_ _ _. 0) (\<lambda>_ _. True) demo_cpuid demo_lit demo_symbols
     (demo_acpi ''APIC'' (concat [[0, 8, 0, 0, 1, 0, 0, 0]] @ [0, 8, 1, 1, 0, 0, 0, 0]
       @ [1, 12, 2, 0, 0, 0, 0xC0, 0xFE, 0, 0, 0, 0])) = Inl Diverges"
proof -
  define es :: "u8 list list" where "es = [[0, 8, 0, 0, 1, 0, 0, 0]]"
  define e rest :: "u8 list" where "e = [0, 8, 1, 1, 0, 0, 0, 0]" and "rest = [1, 12, 2, 0, 0, 0, 0xC0, 0xFE, 0, 0, 0, 0]"
  have n: "length (concat es @ e @ rest) = 28" by (simp add: es_def e_def rest_def)
  have info: "rsdp_version demo_info \<noteq> 0" "\<forall>c \<in> set (rsdp_oem_id demo_info). c < 128" "length (rsdp_oem_id demo_info) < 0x100"
    by code_simp+
  have ok: "\<forall>e \<in> set es. entry_ok e \<and> enabled e" "entry_ok e" "\<not> enabled e"
    unfolding es_def e_def by code_simp+
  have "same_signature (demo_window_memory ''APIC'' (concat es @ e @ rest)) (demo_lit ''APIC'') (0x7FE0100 + virtual_physical_base)"
    unfolding same_signature_def by code_simp
  then have table: "get_table (kernel_reader (demo_acpi ''APIC'' (concat es @ e @ rest))) demo_info (demo_lit ''APIC'')
      = Inr (0x7FE0100 + virtual_physical_base)" by (simp add: demo_table)
  have "length (concat es @ e @ rest) < 2 ^ 32" unfolding n by simp
  from disabled_processor_hangs [OF demo_acpi_ready demo_detect info table demo_entries_read(1) [OF n] ok this demo_entries_read(2) [OF n]]
  show ?thesis unfolding es_def e_def rest_def .
qed

text \<open>C34: the two ways in which the tables can be missing. Without a root pointer the kernel panics,
  and stops; without a table of interrupt controllers it reads the length of the table through the null
  pointer that \<open>get_table\<close> returned, which faults in every address space that does not map the first page,
  as the one of \<open>Vmm::init\<close>. No access is made to the controller before.\<close>

theorem acpi_init_missing_tables:
  fixes s :: "'a acpi_state_scheme"
  assumes "term_ok (console s)" and "detect_rsdp_areas (kernel_reader s) lit = Inr info"
    and "\<forall>c \<in> set (rsdp_oem_id info). c < 128" "length (rsdp_oem_id info) < 0x100"
  shows "(rsdp_version info = 0 \<longrightarrow> acpi_init dev ap cpuid lit sy s = Inl Halted) \<and>
    (rsdp_version info \<noteq> 0 \<and> get_table (kernel_reader s) info (lit ''APIC'') = Inr 0 \<and>
       hw_walk (ram s) (cr3 s) 4 = Unmapped \<longrightarrow>
     acpi_init dev ap cpuid lit sy s = Inl PageFault)"
proof (intro conjI impI)
  assume v: "rsdp_version info = 0"
  have msg: "\<forall>c \<in> set (chars ''ACPI not supported''). c \<noteq> 0 \<and> c < 128" "length (chars ''ACPI not supported'') \<le> 239"
    by code_simp+
  obtain t where "panic_screen (chars ''ACPI not supported'') (console s) = Inr t"
    using panic_screen_shows [OF assms(1) msg] by blast
  then show "acpi_init dev ap cpuid lit sy s = Inl Halted"
    using assms(2) v by (simp add: acpi_init_def bios_detect_rsdp_def panic_def halt_forever_def)
next
  assume v: "rsdp_version info \<noteq> 0 \<and> get_table (kernel_reader s) info (lit ''APIC'') = Inr 0 \<and>
       hw_walk (ram s) (cr3 s) 4 = Unmapped"
  obtain t where t: "print_line ''[ACPI] Detected ACPI with OEM ID %s and version %d''
      (Some (takeWhile (\<lambda>c. c \<noteq> 0) (rsdp_oem_id info))) [of_int (rsdp_version info)] (s\<lparr>rsdp := info\<rparr>)
      = Inr (s\<lparr>rsdp := info, console := t\<rparr>)"
    using announce_tables [OF assms(3,4), of "s\<lparr>rsdp := info\<rparr>"] assms(1) by auto
  have view: "kernel_reader (s\<lparr>rsdp := info, console := t\<rparr>) = kernel_reader s"
    "kernel_reader (s\<lparr>rsdp := info, console := t, madt := 0\<rparr>) = kernel_reader s"
    by (simp_all add: kernel_reader_def virt_load8_def fun_eq_iff split: option.split)
  have "read_member SdtHeader ''length'' (kernel_reader s) 0 = Inl PageFault"
    using v by (simp add: members kernel_reader_def virt_load8_def hw_translate_def numeral_eq_Suc)
  then show "acpi_init dev ap cpuid lit sy s = Inl PageFault"
    using assms(2) v t view by (simp add: acpi_init_def bios_detect_rsdp_def Let_def)
qed

text \<open>The same machine whose only table is another one.\<close>

theorem acpi_init_missing_tables_witness:
  "acpi_init (\<lambda>_ _ _. 0) (\<lambda>_ _. True) demo_cpuid demo_lit demo_symbols (demo_acpi ''FACP'' (concat demo_entries)) = Inl PageFault"
proof -
  let ?s = "demo_acpi ''FACP'' (concat demo_entries)"
  let ?rd = "kernel_reader ?s" and ?vm = "demo_window_memory ''FACP'' (concat demo_entries)"
  have info: "\<forall>c \<in> set (rsdp_oem_id demo_info). c < 128" "length (rsdp_oem_id demo_info) < 0x100" "rsdp_version demo_info \<noteq> 0"
    by code_simp+
  have "\<not> same_signature ?vm (demo_lit ''APIC'') (0x7FE0100 + virtual_physical_base)"
    unfolding same_signature_def by code_simp
  then have "get_table ?rd demo_info (demo_lit ''APIC'') = Inr 0" by (simp add: demo_table)
  moreover have "hw_walk (ram ?s) (cr3 ?s) 4 = Unmapped"
  proof -
    have "virtual_physical_base \<le> 0x7FE0000 + virtual_physical_base" "virtual_physical_base \<le> 0x400000 + virtual_physical_base"
      by (simp_all add: mm_consts)
    then have "page_number 4 \<noteq> page_number (0x7FE0000 + virtual_physical_base)" "page_number 4 \<noteq> page_number virtual_physical_base"
      "page_number 4 \<noteq> page_number (0x400000 + virtual_physical_base)"
      by (simp_all add: lower_not_upper)
    moreover have "steps 21 virtual_kernel_base 4 \<noteq> 0" using low_steps(2) [of 4] by simp
    ultimately show ?thesis by (simp add: demo_booted_good(2) steps_0)
  qed
  ultimately show ?thesis
    using acpi_init_missing_tables [of ?s demo_lit demo_info] demo_detect demo_term_ok info by simp
qed

end
