(* ===== verification/Structures.thy ===== *)
theory Structures
  imports AcpiTables
begin

text \<open>
  The structures that \<open>multiboot.hpp\<close>, \<open>hardware/acpi/acpi.hpp\<close> and \<open>hardware/devices/pci.hpp\<close> declare for
  data that others write: the boot loader's information, the fixed ACPI table and the headers of the
  configuration space, compared with the places that their specifications give to the members.
\<close>

section \<open>The boot loader's structures\<close>

definition Header :: layout where
  "Header = natural
     [(''magic'', 4, 4), (''flags'', 4, 4), (''checksum'', 4, 4), (''header_addr'', 4, 4), (''load_addr'', 4, 4),
      (''load_end_addr'', 4, 4), (''bss_end_addr'', 4, 4), (''entry_addr'', 4, 4), (''mode_type'', 4, 4),
      (''width'', 4, 4), (''height'', 4, 4), (''depth'', 4, 4)]"

definition AoutSymbolTable :: layout where
  "AoutSymbolTable = natural [(''tabsize'', 4, 4), (''strsize'', 4, 4), (''addr'', 4, 4), (''reserved'', 4, 4)]"

definition ElfSectionHeaderTable :: layout where
  "ElfSectionHeaderTable = natural [(''num'', 4, 4), (''size'', 4, 4), (''addr'', 4, 4), (''shndx'', 4, 4)]"

text \<open>A union is one member, as large and as aligned as the largest of its own. The unnamed one at the end
  holds a palette, with padding behind its number of colours, or six bytes.\<close>

definition PaletteInfo :: layout where
  "PaletteInfo = natural [(''framebuffer_palette_addr'', 4, 4), (''framebuffer_palette_num_colors'', 2, 2)]"

definition Info :: layout where
  "Info = natural
     [(''flags'', 4, 4), (''mem_lower'', 4, 4), (''mem_upper'', 4, 4), (''boot_device'', 4, 4), (''cmdline'', 4, 4),
      (''mods_count'', 4, 4), (''mods_addr'', 4, 4),
      (''u'', max (size_of AoutSymbolTable) (size_of ElfSectionHeaderTable), 4),
      (''mmap_length'', 4, 4), (''mmap_addr'', 4, 4), (''drives_length'', 4, 4), (''drives_addr'', 4, 4),
      (''config_table'', 4, 4), (''boot_loader_name'', 4, 4), (''apm_table'', 4, 4), (''vbe_control_info'', 4, 4),
      (''vbe_mode_info'', 4, 4), (''vbe_mode'', 2, 2), (''vbe_interface_seg'', 2, 2), (''vbe_interface_off'', 2, 2),
      (''vbe_interface_len'', 2, 2), (''framebuffer_addr'', 8, 8), (''framebuffer_pitch'', 4, 4),
      (''framebuffer_width'', 4, 4), (''framebuffer_height'', 4, 4), (''framebuffer_bpp'', 1, 1),
      (''framebuffer_type'', 1, 1), (''color_info'', max (size_of PaletteInfo) 6, 4)]"

definition Color :: layout where
  "Color = natural [(''red'', 1, 1), (''green'', 1, 1), (''blue'', 1, 1)]"

definition MemoryMap :: layout where
  "MemoryMap = [(''size'', 4), (''addr'', 8), (''len'', 8), (''type'', 4)]"

definition Module :: layout where
  "Module = natural [(''mod_start'', 4, 4), (''mod_end'', 4, 4), (''cmdline'', 4, 4), (''pad'', 4, 4)]"

definition ApmInfo :: layout where
  "ApmInfo = natural
     [(''version'', 2, 2), (''cseg'', 2, 2), (''offset'', 4, 4), (''cseg_16'', 2, 2), (''dseg'', 2, 2),
      (''flags'', 2, 2), (''cseg_len'', 2, 2), (''cseg_16_len'', 2, 2), (''dseg_len'', 2, 2)]"

section \<open>The fixed ACPI table\<close>

definition GenericAddress :: layout where
  "GenericAddress =
     [(''address_space'', 1), (''bit_width'', 1), (''bit_offset'', 1), (''access_size'', 1), (''base'', 8)]"

definition FadtHeader :: layout where
  "FadtHeader =
     [(''header'', size_of SdtHeader), (''firmware_control'', 4), (''dsdt'', 4), (''reserved'', 1),
      (''power_management_profile'', 1), (''sci_interrupt'', 2), (''smi_command_port'', 4), (''acpi_enable'', 1),
      (''acpi_disable'', 1), (''s4_bios_req'', 1), (''pstate__control'', 1), (''pm1a_event_block'', 4),
      (''pm1b_event_block'', 4), (''pm1a_control_block'', 4), (''pm1b_control_block'', 4),
      (''pm2_control_block'', 4), (''pm_timer_block'', 4), (''gpe0_block'', 4), (''gpe1_block'', 4),
      (''pm1_event_length'', 1), (''pm1_control_length'', 1), (''pm2_control_length'', 1),
      (''pm_timer_length'', 1), (''gpe0_length'', 1), (''gpe1_length'', 1), (''gpe1_base'', 1),
      (''cstate_control'', 1), (''worst_c2_latency'', 2), (''worst_c3_latency'', 2), (''flush_size'', 2),
      (''flush_stride'', 2), (''duty_offset'', 1), (''duty_width'', 1), (''day_alarm'', 1), (''month_alarm'', 1),
      (''century'', 1), (''boot_architecture_flags'', 2), (''reserved2'', 1), (''flags'', 4),
      (''reset_reg'', size_of GenericAddress), (''reset_value'', 1), (''reserved3'', 3),
      (''x_firmware_control'', 8), (''x_dsdt'', 8), (''x_pm1a_event_block'', size_of GenericAddress),
      (''x_pm1b_event_block'', size_of GenericAddress), (''x_pm1a_control_block'', size_of GenericAddress),
      (''x_pm1b_control_block'', size_of GenericAddress), (''x_pm2_control_block'', size_of GenericAddress),
      (''x_pm_timer_block'', size_of GenericAddress), (''x_gpe0_block'', size_of GenericAddress),
      (''x_gpe1_block'', size_of GenericAddress)]"

section \<open>The headers of the configuration space\<close>

definition Device :: layout where
  "Device =
     [(''device_id'', 2), (''vendor_id'', 2), (''class_code'', 1), (''subclass'', 1), (''prog_if'', 1),
      (''revision_id'', 1), (''bist'', 1), (''header_type'', 1), (''latency_timer'', 1), (''cache_line_size'', 1)]"

definition NonBridge :: layout where
  "NonBridge =
     [(''device'', size_of Device), (''bar0'', 4), (''bar1'', 4), (''bar2'', 4), (''bar3'', 4), (''bar4'', 4),
      (''bar5'', 4), (''cardbus_cis_pointer'', 4), (''subsystem_id'', 2), (''subsystem_vendor_id'', 2),
      (''expansion_rom_base'', 4), (''reserved'', 2), (''reserved2'', 1), (''capabilities_pointer'', 1),
      (''reserved3'', 4), (''max_latency'', 1), (''min_grant'', 1), (''interrupt_pin'', 1), (''interrupt_line'', 1)]"

definition PciToPciBridge :: layout where
  "PciToPciBridge =
     [(''device'', size_of Device), (''bar0'', 4), (''bar1'', 4), (''secondary_latency_timer'', 1),
      (''subordinate_bus_num'', 1), (''secondary_bus_num'', 1), (''primary_bus_num'', 1), (''secondary_status'', 2),
      (''io_limit'', 1), (''io_base'', 1), (''memory_limit'', 2), (''memory_base'', 2),
      (''prefetchable_mem_limit'', 2), (''prefetchable_mem_base'', 2), (''io_base_upper_32bits'', 4),
      (''io_limit_upper_32bits'', 4), (''io_limit_upper_16bits'', 2), (''io_base_upper_16bits'', 2),
      (''reserved'', 2), (''reserved2'', 1), (''capability_pointer'', 1), (''expansion_rom_base'', 4),
      (''bridge_control'', 2), (''interrupt_pin'', 1), (''interrupt_line'', 1)]"

definition PciToCardbusBridge :: layout where
  "PciToCardbusBridge =
     [(''device'', size_of Device), (''cardbus_socket_base'', 4), (''secondary_status'', 2), (''reserved'', 1),
      (''capabilities_list_offset'', 1), (''cardbus_latency_timer'', 1), (''subordinate_bus_num'', 1),
      (''cardbus_bus_num'', 1), (''pci_bus_num'', 1), (''memory_base0'', 4), (''memory_limit0'', 4),
      (''memory_base1'', 4), (''memory_limit1'', 4), (''io_base0'', 4), (''io_limit0'', 4), (''io_base1'', 4),
      (''io_limit1'', 4), (''bridge_control'', 2), (''interrupt_pin'', 1), (''interrupt_line'', 1),
      (''subsystem_id'', 2), (''subsystem_vendor_id'', 2), (''pc_card_legacy_mode_base'', 4)]"

section \<open>Properties\<close>

text \<open>The offsets of the members in the order of the structure, and what the specifications say: the
  multiboot specification for \<open>Info\<close>, ACPI for the fixed table, and PCI for the first sixteen bytes of
  every header, where \<open>command\<close> and \<open>status\<close> follow the two identifiers.\<close>

fun offsets_from :: "nat \<Rightarrow> layout \<Rightarrow> nat list" where
  "offsets_from k [] = []"
| "offsets_from k ((f, n) # l) = (if f = [] then [] else [k]) @ offsets_from (k + n) l"

definition offsets :: "layout \<Rightarrow> nat list" where
  "offsets l = offsets_from 0 l"

lemma offsets_from_offset_of:
  "distinct (filter (\<lambda>f. f \<noteq> []) (map fst l)) \<Longrightarrow>
   offsets_from k l = map (\<lambda>f. k + offset_of l f) (filter (\<lambda>f. f \<noteq> []) (map fst l))"
  by (induction k l rule: offsets_from.induct) (auto simp: ac_simps intro!: map_cong)

definition multiboot_info_offsets :: "nat list" where
  "multiboot_info_offsets =
     [0, 4, 8, 12, 16, 20, 24, 28, 44, 48, 52, 56, 60, 64, 68, 72, 76, 80, 82, 84, 86, 88, 96, 100, 104, 108, 109, 110]"

definition fadt_offsets :: "nat list" where
  "fadt_offsets =
     [0, 36, 40, 44, 45, 46, 48, 52, 53, 54, 55, 56, 60, 64, 68, 72, 76, 80, 84, 88, 89, 90, 91, 92, 93, 94, 95,
      96, 98, 100, 102, 104, 105, 106, 107, 108, 109, 111, 112, 116, 128, 129, 132, 140, 148, 160, 172, 184, 196,
      208, 220, 232]"

definition pci_header_offset :: "string \<Rightarrow> nat" where
  "pci_header_offset f = the (map_of
     [(''vendor_id'', 0), (''device_id'', 2), (''command'', 4), (''status'', 6), (''revision_id'', 8), (''prog_if'', 9),
      (''subclass'', 10), (''class_code'', 11), (''cache_line_size'', 12), (''latency_timer'', 13), (''header_type'', 14),
      (''bist'', 15)] f)"

lemma pad_Cons:
  "pad_members off ((f, n, a) # l) =
     ('''', (a - off mod a) mod a) # (f, n) # pad_members (off + (a - off mod a) mod a + n) l"
  by (simp add: Let_def)

lemmas natural_eval = natural_def pad_Cons size_of_def Let_def

text \<open>\<open>Multiboot::Info\<close> has every member at the place that the boot loader uses, except the last, the
  colour information, which the compiler moves from 110 to 112; \<open>FadtHeader\<close> has all 244 bytes of the ACPI
  table with every member in its place. In \<open>Pci::Device\<close> no member is at its place in the configuration
  space: the members of each doubleword stand in the reverse order, and the doubleword of \<open>command\<close> and
  \<open>status\<close> is missing, so the three headers behind it are four bytes too short as well.\<close>

theorem structures_against_specifications:
  "butlast (offsets Info) = butlast multiboot_info_offsets \<and> last (offsets Info) = 112 \<and>
   offsets MemoryMap = [0, 4, 12, 20] \<and> offsets FadtHeader = fadt_offsets \<and> size_of FadtHeader = 244 \<and>
   list_all (\<lambda>f. offset_of Device f \<noteq> pci_header_offset f) (map fst Device) \<and>
   map size_of [Device, NonBridge, PciToPciBridge, PciToCardbusBridge] = [16 - 4, 64 - 4, 64 - 4, 72 - 4]"
proof (intro conjI)
  show "butlast (offsets Info) = butlast multiboot_info_offsets" "last (offsets Info) = 112"
    by (simp_all add: Info_def PaletteInfo_def AoutSymbolTable_def ElfSectionHeaderTable_def natural_eval
        offsets_def multiboot_info_offsets_def del: pad_members.simps(2))
  show "offsets MemoryMap = [0, 4, 12, 20]" by (simp add: MemoryMap_def offsets_def)
  show "offsets FadtHeader = fadt_offsets" "size_of FadtHeader = 244"
    by (simp_all add: FadtHeader_def GenericAddress_def offsets_def fadt_offsets_def size_of_def SdtHeader_def)
  show "list_all (\<lambda>f. offset_of Device f \<noteq> pci_header_offset f) (map fst Device)"
    by (simp add: Device_def pci_header_offset_def)
  show "map size_of [Device, NonBridge, PciToPciBridge, PciToCardbusBridge] = [16 - 4, 64 - 4, 64 - 4, 72 - 4]"
    by (simp add: Device_def NonBridge_def PciToPciBridge_def PciToCardbusBridge_def size_of_def)
qed

end
