(* ===== verification/Pci.thy ===== *)
theory Pci
  imports AcpiInit KernelList Structures
begin

text \<open>
  The configuration space of PCI devices, \<open>hardware/devices/pci.cpp\<close>: the two ways to reach it, through a
  pair of ports and through windows of physical memory, the list of those windows, and \<open>Pci::init\<close>,
  which fills it from the firmware's table.
\<close>

unbundle bit_operations_syntax

section \<open>State\<close>

text \<open>An element of the list, a copy of the table's entry; a node that was just allocated holds zeroes.\<close>

datatype mcfg_entry =
  Mcfg (ecm_base: u64) (mcfg_segment: u16) (start_bus_number: u8) (end_bus_number: u8) (mcfg_reserved: u32)

instantiation mcfg_entry :: zero
begin

definition zero_mcfg_entry :: mcfg_entry where
  "zero_mcfg_entry = Mcfg 0 0 0 0 0"

instance ..

end

text \<open>The globals \<open>mcfg_entries\<close>, whose nodes and head are kept here, and \<open>internal_read\<close> and
  \<open>internal_write\<close>, which are always changed together: both point to the functions for ports, or both to
  those for memory.\<close>

record pci_state = acpi_state +
  mcfg_links :: "u64 \<rightharpoonup> mcfg_entry node_link"
  mcfg_head :: u64
  pci_mmapped :: bool

definition mcfg_entries :: "'a pci_state_scheme \<Rightarrow> (mcfg_entry, 'a pci_state_scheme) list_state" where
  "mcfg_entries s = \<lparr>heap = s, links = mcfg_links s, list_head = mcfg_head s\<rparr>"

definition put_mcfg_entries :: "(mcfg_entry, 'a pci_state_scheme) list_state \<Rightarrow> 'a pci_state_scheme" where
  "put_mcfg_entries l = (heap l)\<lparr>mcfg_links := links l, mcfg_head := list_head l\<rparr>"

section \<open>Configuration space through ports\<close>

definition config_address :: "u8 \<Rightarrow> u8 \<Rightarrow> u8 \<Rightarrow> u8 \<Rightarrow> u32" where
  "config_address bus slot_no func offset =
     push_bit 16 (ucast bus) OR push_bit 11 (ucast slot_no) OR push_bit 8 (ucast func) OR
     (ucast offset AND 0xFC) OR push_bit 31 1"

definition iomap_read ::
  "devices \<Rightarrow> u16 \<Rightarrow> u8 \<Rightarrow> u8 \<Rightarrow> u8 \<Rightarrow> u8 \<Rightarrow> 'a device_state_scheme \<Rightarrow> u32 \<times> 'a device_state_scheme" where
  "iomap_read dev segment bus slot_no func offset s =
     ind dev (0xCFC + ucast offset mod 4) (outd 0xCF8 (config_address bus slot_no func offset) s)"

definition iomap_write ::
  "u16 \<Rightarrow> u8 \<Rightarrow> u8 \<Rightarrow> u8 \<Rightarrow> u8 \<Rightarrow> u32 \<Rightarrow> 'a device_state_scheme \<Rightarrow> 'a device_state_scheme" where
  "iomap_write segment bus slot_no func offset v s =
     outd (0xCFC + ucast offset mod 4) v (outd 0xCF8 (config_address bus slot_no func offset) s)"

section \<open>Configuration space in memory\<close>

text \<open>The address of a register. The shifts are those of \<open>int\<close>, whose value is sign-extended when it is
  added to the base.\<close>

definition ecam_address :: "mcfg_entry \<Rightarrow> u8 \<Rightarrow> u8 \<Rightarrow> u8 \<Rightarrow> u8 \<Rightarrow> u64" where
  "ecam_address entry bus slot_no func offset =
     (ecm_base entry +
       scast (push_bit 20 (ucast bus - ucast (start_bus_number entry)) OR push_bit 25 (ucast slot_no) OR
              push_bit 12 (ucast func) :: u32)) OR ucast offset"

text \<open>The condition under which an entry is passed over.\<close>

definition mcfg_skipped :: "mcfg_entry \<Rightarrow> u16 \<Rightarrow> u8 \<Rightarrow> bool" where
  "mcfg_skipped entry segment bus \<longleftrightarrow>
     mcfg_segment entry \<noteq> segment \<and> bus \<le> start_bus_number entry \<and> bus \<ge> end_bus_number entry"

text \<open>An access goes to a device when its physical address lies in a window. A request for configuration
  space has at most four bytes: a quadword is moved in two of them, the lower half first.\<close>

definition pci_load32 ::
  "devices \<Rightarrow> (u64 \<Rightarrow> bool) \<Rightarrow> u64 \<Rightarrow> 'a device_state_scheme \<Rightarrow> (u32 \<times> 'a device_state_scheme) result" where
  "pci_load32 dev window v s =
     (case hw_translate (ram s) (cr3 s) v of
        None \<Rightarrow> Inl PageFault
      | Some p \<Rightarrow> if window p then Inr (io_read dev (Mmio p) 4 s) else dev_load32 dev v s)"

definition pci_store32 ::
  "(u64 \<Rightarrow> bool) \<Rightarrow> u64 \<Rightarrow> u32 \<Rightarrow> 'a device_state_scheme \<Rightarrow> 'a device_state_scheme result" where
  "pci_store32 window v w s =
     (case hw_translate (ram s) (cr3 s) v of
        None \<Rightarrow> Inl PageFault
      | Some p \<Rightarrow> if window p then Inr (io_write (Mmio p) 4 w s) else dev_store32 v w s)"

definition window_load64 ::
  "devices \<Rightarrow> (u64 \<Rightarrow> bool) \<Rightarrow> u64 \<Rightarrow> 'a device_state_scheme \<Rightarrow> u64 \<times> 'a device_state_scheme" where
  "window_load64 dev window p s =
     (if window p then
        let (low, s1) = io_read dev (Mmio p) 4 s;
            (high, s2) = io_read dev (Mmio (p + 4)) 4 s1
        in (ucast low OR push_bit 32 (ucast high), s2)
      else (load64 (ram s) p, s))"

definition window_store64 ::
  "(u64 \<Rightarrow> bool) \<Rightarrow> u64 \<Rightarrow> u64 \<Rightarrow> 'a device_state_scheme \<Rightarrow> 'a device_state_scheme" where
  "window_store64 window p v s =
     (if window p then io_write (Mmio (p + 4)) 4 (ucast (drop_bit 32 v)) (io_write (Mmio p) 4 (ucast v) s)
      else s\<lparr>ram := store64 (ram s) p v\<rparr>)"

primrec window_clear :: "nat \<Rightarrow> (u64 \<Rightarrow> bool) \<Rightarrow> u64 \<Rightarrow> 'a device_state_scheme \<Rightarrow> 'a device_state_scheme" where
  "window_clear 0 window p s = s"
| "window_clear (Suc n) window p s =
     window_clear n window (p + 1) (if window p then io_write (Mmio p) 1 0 s else s\<lparr>ram := (ram s)(p := 0)\<rparr>)"

text \<open>\<open>map_pages\<close> for one page, whose accesses of the tables go through the window as well: where a large
  page covers the address, the kernel takes what the large page shows for a page table.\<close>

definition window_get_or_alloc_ent ::
  "devices \<Rightarrow> (u64 \<Rightarrow> bool) \<Rightarrow> u64 \<Rightarrow> u64 \<Rightarrow> u32 \<Rightarrow> 'a device_state_scheme \<Rightarrow>
   (u64 \<times> 'a device_state_scheme) result" where
  "window_get_or_alloc_ent dev window tab off flags s =
     (if tab = 0 then Inl NullDeref
      else
        let (e, s0) = window_load64 dev window (ent_addr tab off) s;
            ea = e AND address_mask
        in if ea = 0 then
             rbind (pmm_alloc 1 s0) (\<lambda>(p, s1).
               let s2 = window_store64 window (ent_addr tab off) p s1
               in if p = 0 then Inr (0, s2)
                  else
                    let (e2, s3) = window_load64 dev window (ent_addr tab off) s2;
                        s4 = window_store64 window (ent_addr tab off) (e2 OR flag_bits (flags OR VMM_PRESENT)) s3
                    in Inr (p + virtual_physical_base,
                            window_clear 4096 window (phys_of (p + virtual_physical_base)) s4))
           else Inr (ea + virtual_physical_base, s0))"

definition window_map_page ::
  "devices \<Rightarrow> (u64 \<Rightarrow> bool) \<Rightarrow> u64 \<Rightarrow> u64 \<Rightarrow> u64 \<Rightarrow> u32 \<Rightarrow> 'a device_state_scheme \<Rightarrow>
   'a device_state_scheme result" where
  "window_map_page dev window pml4 virt phys perms s =
     (let offs = virtual_to_entries virt;
          pml4_virt = pml4 + virtual_physical_base
      in rbind (window_get_or_alloc_ent dev window pml4_virt (pml4_idx offs) perms s) (\<lambda>(pdp_virt, s1).
         rbind (window_get_or_alloc_ent dev window pdp_virt (pdp_idx offs) perms s1) (\<lambda>(pd_virt, s2).
         rbind (window_get_or_alloc_ent dev window pd_virt (pd_idx offs) perms s2) (\<lambda>(pt_virt, s3).
           if pt_virt = 0 then Inl NullDeref
           else Inr (window_store64 window (ent_addr pt_virt (pt_idx offs))
                       (phys OR flag_bits perms OR flag_bits VMM_PRESENT) s3)))))"

text \<open>The bodies of the two loops, which map the page of the register and access it.\<close>

definition mmap_load ::
  "devices \<Rightarrow> (u64 \<Rightarrow> bool) \<Rightarrow> mcfg_entry \<Rightarrow> u8 \<Rightarrow> u8 \<Rightarrow> u8 \<Rightarrow> u8 \<Rightarrow> 'a device_state_scheme \<Rightarrow>
   (u32 \<times> 'a device_state_scheme) result" where
  "mmap_load dev window entry bus slot_no func offset s =
     (let addr = ecam_address entry bus slot_no func offset;
          addr_virtual = addr + virtual_physical_base
      in rbind (window_map_page dev window (get_current_context s) addr_virtual addr VMM_WRITE s)
           (pci_load32 dev window addr_virtual))"

definition mmap_store ::
  "devices \<Rightarrow> (u64 \<Rightarrow> bool) \<Rightarrow> mcfg_entry \<Rightarrow> u8 \<Rightarrow> u8 \<Rightarrow> u8 \<Rightarrow> u8 \<Rightarrow> u32 \<Rightarrow> 'a device_state_scheme \<Rightarrow>
   'a device_state_scheme result" where
  "mmap_store dev window entry bus slot_no func offset v s =
     (let addr = ecam_address entry bus slot_no func offset;
          addr_virtual = addr + virtual_physical_base
      in rbind (window_map_page dev window (get_current_context s) addr_virtual addr VMM_WRITE s)
           (pci_store32 window addr_virtual v))"

primrec mmap_read_from ::
  "devices \<Rightarrow> (u64 \<Rightarrow> bool) \<Rightarrow> u16 \<Rightarrow> u8 \<Rightarrow> u8 \<Rightarrow> u8 \<Rightarrow> u8 \<Rightarrow> mcfg_entry list \<Rightarrow> 'a device_state_scheme \<Rightarrow>
   (u32 \<times> 'a device_state_scheme) result" where
  "mmap_read_from dev window segment bus slot_no func offset [] s = Inr (0, s)"
| "mmap_read_from dev window segment bus slot_no func offset (entry # entries) s =
     (if mcfg_skipped entry segment bus
      then mmap_read_from dev window segment bus slot_no func offset entries s
      else mmap_load dev window entry bus slot_no func offset s)"

primrec mmap_write_from ::
  "devices \<Rightarrow> (u64 \<Rightarrow> bool) \<Rightarrow> u16 \<Rightarrow> u8 \<Rightarrow> u8 \<Rightarrow> u8 \<Rightarrow> u8 \<Rightarrow> u32 \<Rightarrow> mcfg_entry list \<Rightarrow> 'a device_state_scheme \<Rightarrow>
   'a device_state_scheme result" where
  "mmap_write_from dev window segment bus slot_no func offset v [] s = Inr s"
| "mmap_write_from dev window segment bus slot_no func offset v (entry # entries) s =
     (if mcfg_skipped entry segment bus
      then mmap_write_from dev window segment bus slot_no func offset v entries s
      else rbind (mmap_store dev window entry bus slot_no func offset v s)
             (mmap_write_from dev window segment bus slot_no func offset v entries))"

text \<open>Without a window this is \<open>map_pages\<close>.\<close>

lemma window_clear_ram: "window_clear n (\<lambda>_. False) p s = s\<lparr>ram := memset_n n (ram s) p 0\<rparr>"
  by (induction n arbitrary: p s) simp_all

lemma window_get_or_alloc_ent_ram:
  "window_get_or_alloc_ent dev (\<lambda>_. False) tab off flags s = get_or_alloc_ent (pmm_alloc 1) tab off flags s"
  by (auto simp: window_get_or_alloc_ent_def get_or_alloc_ent_def window_load64_def window_store64_def
      window_clear_ram memset_def ent_def set_ent_def Let_def rbind_def split: sum.splits)

lemma window_map_page_ram:
  "window_map_page dev (\<lambda>_. False) pml4 virt phys perms s =
     rbind (map_pages (pmm_alloc 1) pml4 virt phys 1 perms s) (\<lambda>(b, s1). Inr s1)"
  by (auto simp: window_map_page_def map_pages_def window_get_or_alloc_ent_ram window_store64_def put_ent_def set_ent_def
      rbind_def Let_def split: sum.splits)

text \<open>The loops are written \<open>for (const auto& entry : mcfg_entries)\<close>, but \<open>LinkedList\<close> declares no \<open>begin\<close>
  and \<open>end\<close>: the iteration, which gives the elements it visits, is a parameter.\<close>

type_synonym 'h iteration = "(mcfg_entry, 'h) list_state \<Rightarrow> mcfg_entry list"

definition iterates :: "'h iteration \<Rightarrow> bool" where
  "iterates iter \<longleftrightarrow> (\<forall>l ps es. list_at l ps es \<longrightarrow> iter l = es)"

definition mmap_read ::
  "devices \<Rightarrow> (u64 \<Rightarrow> bool) \<Rightarrow> 'a pci_state_scheme iteration \<Rightarrow> u16 \<Rightarrow> u8 \<Rightarrow> u8 \<Rightarrow> u8 \<Rightarrow> u8 \<Rightarrow>
   'a pci_state_scheme \<Rightarrow> (u32 \<times> 'a pci_state_scheme) result" where
  "mmap_read dev window iter segment bus slot_no func offset s =
     mmap_read_from dev window segment bus slot_no func offset (iter (mcfg_entries s)) s"

definition mmap_write ::
  "devices \<Rightarrow> (u64 \<Rightarrow> bool) \<Rightarrow> 'a pci_state_scheme iteration \<Rightarrow> u16 \<Rightarrow> u8 \<Rightarrow> u8 \<Rightarrow> u8 \<Rightarrow> u8 \<Rightarrow> u32 \<Rightarrow>
   'a pci_state_scheme \<Rightarrow> 'a pci_state_scheme result" where
  "mmap_write dev window iter segment bus slot_no func offset v s =
     mmap_write_from dev window segment bus slot_no func offset v (iter (mcfg_entries s)) s"

section \<open>The interface\<close>

definition internal_read ::
  "devices \<Rightarrow> (u64 \<Rightarrow> bool) \<Rightarrow> 'a pci_state_scheme iteration \<Rightarrow> u16 \<Rightarrow> u8 \<Rightarrow> u8 \<Rightarrow> u8 \<Rightarrow> u8 \<Rightarrow>
   'a pci_state_scheme \<Rightarrow> (u32 \<times> 'a pci_state_scheme) result" where
  "internal_read dev window iter segment bus slot_no func offset s =
     (if pci_mmapped s then mmap_read dev window iter segment bus slot_no func offset s
      else Inr (iomap_read dev segment bus slot_no func offset s))"

definition internal_write ::
  "devices \<Rightarrow> (u64 \<Rightarrow> bool) \<Rightarrow> 'a pci_state_scheme iteration \<Rightarrow> u16 \<Rightarrow> u8 \<Rightarrow> u8 \<Rightarrow> u8 \<Rightarrow> u8 \<Rightarrow> u32 \<Rightarrow>
   'a pci_state_scheme \<Rightarrow> 'a pci_state_scheme result" where
  "internal_write dev window iter segment bus slot_no func offset v s =
     (if pci_mmapped s then mmap_write dev window iter segment bus slot_no func offset v s
      else Inr (iomap_write segment bus slot_no func offset v s))"

definition pci_read ::
  "devices \<Rightarrow> (u64 \<Rightarrow> bool) \<Rightarrow> 'a pci_state_scheme iteration \<Rightarrow> u8 \<Rightarrow> u8 \<Rightarrow> u8 \<Rightarrow> u8 \<Rightarrow>
   'a pci_state_scheme \<Rightarrow> (u32 \<times> 'a pci_state_scheme) result" where
  "pci_read dev window iter bus slot_no func offset s = internal_read dev window iter 0 bus slot_no func offset s"

definition pci_read_segment ::
  "devices \<Rightarrow> (u64 \<Rightarrow> bool) \<Rightarrow> 'a pci_state_scheme iteration \<Rightarrow> u16 \<Rightarrow> u8 \<Rightarrow> u8 \<Rightarrow> u8 \<Rightarrow> u8 \<Rightarrow>
   'a pci_state_scheme \<Rightarrow> (u32 \<times> 'a pci_state_scheme) result" where
  "pci_read_segment dev window iter segment bus slot_no func offset s =
     internal_read dev window iter segment bus slot_no func offset s"

definition pci_write ::
  "devices \<Rightarrow> (u64 \<Rightarrow> bool) \<Rightarrow> 'a pci_state_scheme iteration \<Rightarrow> u8 \<Rightarrow> u8 \<Rightarrow> u8 \<Rightarrow> u8 \<Rightarrow> u32 \<Rightarrow>
   'a pci_state_scheme \<Rightarrow> 'a pci_state_scheme result" where
  "pci_write dev window iter bus slot_no func offset v s = internal_write dev window iter 0 bus slot_no func offset v s"

definition pci_write_segment ::
  "devices \<Rightarrow> (u64 \<Rightarrow> bool) \<Rightarrow> 'a pci_state_scheme iteration \<Rightarrow> u16 \<Rightarrow> u8 \<Rightarrow> u8 \<Rightarrow> u8 \<Rightarrow> u8 \<Rightarrow> u32 \<Rightarrow>
   'a pci_state_scheme \<Rightarrow> 'a pci_state_scheme result" where
  "pci_write_segment dev window iter segment bus slot_no func offset v s =
     internal_write dev window iter segment bus slot_no func offset v s"

definition class_code_to_str :: "u8 \<Rightarrow> string" where
  "class_code_to_str class_code =
     (if class_code = 0 then ''Unclassified''
      else if class_code = 1 then ''Mass Storage Controller''
      else if class_code = 2 then ''Network Controller''
      else if class_code = 3 then ''Display Controller''
      else if class_code = 4 then ''Multimedia controller''
      else if class_code = 5 then ''Memory Controller''
      else if class_code = 6 then ''Bridge Device''
      else if class_code = 8 then ''Base System Peripheral''
      else if class_code = 9 then ''Input Device Controller''
      else if class_code = 10 then ''Docking Station''
      else if class_code = 12 then ''Serial Bus Controller''
      else if class_code = 13 then ''Wireless Controller''
      else if class_code = 255 then ''Unassigned Class (Vendor specific)''
      else ''Unknown'')"

section \<open>Initialisation\<close>

definition read_mcfg_entry :: "reader \<Rightarrow> u64 \<Rightarrow> mcfg_entry result" where
  "read_mcfg_entry rd p =
     rbind (read_member McfgEntry ''ecm_base'' rd p) (\<lambda>base.
     rbind (read_member McfgEntry ''segment'' rd p) (\<lambda>segment.
     rbind (read_member McfgEntry ''start_bus_number'' rd p) (\<lambda>first.
     rbind (read_member McfgEntry ''end_bus_number'' rd p) (\<lambda>last.
     rbind (read_member McfgEntry ''reserved'' rd p) (\<lambda>reserved.
       Inr (Mcfg base (ucast segment) (ucast first) (ucast last) (ucast reserved)))))))"

text \<open>One round of the loop over the table: the entry at \<open>p\<close> is appended, and read again for the message.\<close>

definition pci_init_entry :: "u64 \<Rightarrow> u64 \<Rightarrow> 'a pci_state_scheme \<Rightarrow> 'a pci_state_scheme result" where
  "pci_init_entry i p s =
     rbind (read_mcfg_entry (kernel_reader s) p) (\<lambda>entry.
     rbind (push_back (calloc mcfg_link_size) entry (mcfg_entries s)) (\<lambda>l.
     let s1 = put_mcfg_entries l
     in rbind (read_mcfg_entry (kernel_reader s1) p) (\<lambda>e.
          print_line ''[DEVMGR] MCFG entry #%d %p: %d:%d:0:0 - %d:%d:0:0'' None
            [i, ecm_base e, ucast (mcfg_segment e), ucast (start_bus_number e),
             ucast (mcfg_segment e), ucast (end_bus_number e)] s1)))"

primrec pci_init_entries :: "nat \<Rightarrow> u64 \<Rightarrow> u64 \<Rightarrow> 'a pci_state_scheme \<Rightarrow> 'a pci_state_scheme result" where
  "pci_init_entries 0 i p s = Inr s"
| "pci_init_entries (Suc n) i p s =
     rbind (pci_init_entry i p s) (pci_init_entries n (i + 1) (p + of_nat (size_of McfgEntry)))"

definition pci_init :: "literals \<Rightarrow> 'a pci_state_scheme \<Rightarrow> 'a pci_state_scheme result" where
  "pci_init lit s =
     rbind (get_table (kernel_reader s) (rsdp s) (lit ''MCFG'')) (\<lambda>mcfg.
       if mcfg \<noteq> 0
       then
         rbind (read_member SdtHeader ''length'' (kernel_reader s) mcfg) (\<lambda>len.
         let entry_len = (len - (of_nat (size_of SdtHeader) + 8)) div of_nat (size_of McfgEntry)
         in rbind (pci_init_entries (unat entry_len) 0 (mcfg + of_nat (offset_of McfgHeader ''entries'')) s) (\<lambda>s1.
            Inr (s1\<lparr>pci_mmapped := True\<rparr>)))
       else print_line ''[DEVMGR] No PCI Express support'' None [] s)"

section \<open>The registers behind the ports\<close>

text \<open>A host bridge: the address it has latched, and the registers of all functions, which keep what is
  written to them.\<close>

record host_bridge =
  config_latch :: u32
  config_regs :: "u32 \<Rightarrow> u32"

fun host_step :: "io_event \<Rightarrow> host_bridge \<Rightarrow> host_bridge" where
  "host_step (Wrote (Port port) n v) h =
     (if port = 0xCF8 \<and> n = 4 then h\<lparr>config_latch := v\<rparr>
      else if port = 0xCFC \<and> n = 4 \<and> bit (config_latch h) 31
      then h\<lparr>config_regs := (config_regs h)(config_latch h := v)\<rparr>
      else h)"
| "host_step _ h = h"

definition host_after :: "host_bridge \<Rightarrow> io_event list \<Rightarrow> host_bridge" where
  "host_after h tr = fold host_step tr h"

definition pci_host :: "host_bridge \<Rightarrow> devices \<Rightarrow> bool" where
  "pci_host h dev \<longleftrightarrow> (\<forall>tr. dev tr (Port 0xCFC) 4 =
     (let g = host_after h tr in if bit (config_latch g) 31 then config_regs g (config_latch g) else 0xFFFFFFFF))"

text \<open>The configuration space as an array: a function of at most 32 devices on a bus, of at most 8
  functions of a device, and of a doubleword in the 256 bytes.\<close>

definition register_ok :: "u8 \<times> u8 \<times> u8 \<times> u8 \<Rightarrow> bool" where
  "register_ok = (\<lambda>(bus, slot_no, func, offset). slot_no < 32 \<and> func < 8 \<and> offset mod 4 = 0)"

definition config_space :: "host_bridge \<Rightarrow> 'a device_state_scheme \<Rightarrow> u8 \<times> u8 \<times> u8 \<times> u8 \<Rightarrow> u32" where
  "config_space h s =
     (\<lambda>(bus, slot_no, func, offset).
        config_regs (host_after h (io_trace s)) (config_address bus slot_no func offset))"

lemma less_bits: "unat (w :: u8) < 2 ^ n \<Longrightarrow> bit w k \<Longrightarrow> k < n"
proof -
  assume "unat w < 2 ^ n" "bit w k"
  then have "bit (take_bit n (unat w)) k" by (simp add: take_bit_nat_eq_self bit_unsigned_iff)
  then show "k < n" by (simp add: bit_take_bit_iff)
qed

lemma mod_4_bits: "(w :: u8) mod 4 = 0 \<Longrightarrow> bit w k \<Longrightarrow> 2 \<le> k"
proof (rule ccontr)
  assume m: "w mod 4 = 0" "bit w k" "\<not> 2 \<le> k"
  have "take_bit 2 w = 0" using m(1) by (simp add: take_bit_eq_mod)
  then have "\<not> bit (take_bit 2 w) k" by simp
  then show False using m(2,3) by (simp add: bit_take_bit_iff)
qed

lemma config_address_bit:
  assumes "register_ok (bus, slot_no, func, offset)" "k < 32"
  shows "bit (config_address bus slot_no func offset) k \<longleftrightarrow>
    (if k < 8 then bit offset k else if k < 11 then bit func (k - 8)
     else if k < 16 then bit slot_no (k - 11) else if k < 24 then bit bus (k - 16) else k = 31)"
proof -
  have bits: "\<And>j. bit slot_no j \<Longrightarrow> j < 5" "\<And>j. bit func j \<Longrightarrow> j < 3" "\<And>j. bit offset j \<Longrightarrow> 2 \<le> j"
    "\<And>(w :: u8) j. bit w j \<Longrightarrow> j < 8"
    using assms(1) less_bits [of slot_no 5] less_bits [of func 3] mod_4_bits [of offset]
    by (auto simp: register_ok_def word_less_nat_alt dest: bit_imp_le_length)
  have "\<forall>k \<in> set [0..<32]. bit (0xFC :: u32) k \<longleftrightarrow> 2 \<le> k \<and> k < 8" by code_simp
  then have fc: "bit (0xFC :: u32) k \<longleftrightarrow> 2 \<le> k \<and> k < 8"
    using assms(2) by simp
  show ?thesis
    unfolding config_address_def bit_or_iff bit_and_iff bit_push_bit_iff bit_ucast_iff bit_1_iff fc
    using assms(2) bits(1) [of "k - 11"] bits(2) [of "k - 8"] bits(3) [of k]
      bits(4) [of offset k] bits(4) [of func "k - 8"] bits(4) [of slot_no "k - 11"] bits(4) [of bus "k - 16"]
    by auto
qed

lemma config_address_inj:
  assumes "register_ok r" "register_ok r'"
    and "(case r of (bus, slot_no, func, offset) \<Rightarrow> config_address bus slot_no func offset) =
      (case r' of (bus, slot_no, func, offset) \<Rightarrow> config_address bus slot_no func offset)"
  shows "r = r'"
proof -
  obtain b d f k b' d' f' k' where r: "r = (b, d, f, k)" "r' = (b', d', f', k')" by (cases r; cases r') auto
  have eq: "bit (config_address b d f k) j = bit (config_address b' d' f' k') j" for j using assms(3) by (simp add: r)
  have 1: "bit b j = bit b' j" if "j < 8" for j
    using eq [of "16 + j"] that assms(1,2) by (simp add: r config_address_bit)
  have 2: "bit d j = bit d' j" if "j < 5" for j
    using eq [of "11 + j"] that assms(1,2) by (simp add: r config_address_bit)
  have 3: "bit f j = bit f' j" if "j < 3" for j
    using eq [of "8 + j"] that assms(1,2) by (simp add: r config_address_bit)
  have 4: "bit k j = bit k' j" if "j < 8" for j
    using eq [of j] that assms(1,2) by (simp add: r config_address_bit)
  have "bit d j = bit d' j" "bit f j = bit f' j" for j
    using 2 [of j] 3 [of j] assms(1,2) less_bits [of d 5 j] less_bits [of d' 5 j] less_bits [of f 3 j] less_bits [of f' 3 j]
    by (auto simp: r register_ok_def word_less_nat_alt)
  then show ?thesis using 1 4 by (simp add: r bit_eq_iff bit_imp_le_length)
qed

lemma unat_ucast8: "8 \<le> LENGTH('a) \<Longrightarrow> unat (ucast (w :: u8) :: 'a::len word) = unat w"
proof -
  assume "8 \<le> LENGTH('a)"
  then have "(2 :: nat) ^ 8 \<le> 2 ^ LENGTH('a)" by (rule power_increasing) simp
  then have "unat w < 2 ^ LENGTH('a)" using unsigned_less [of w, where 'a = nat] by simp
  then show ?thesis by (simp add: unsigned_ucast_eq take_bit_nat_eq_self)
qed

lemma aligned_port: "(offset :: u8) mod 4 = 0 \<Longrightarrow> (ucast offset mod 4 :: u16) = 0"
proof -
  assume "offset mod 4 = 0"
  then have "unat offset mod 4 = 0" using unat_mod [of offset 4] by simp
  then show ?thesis by (simp add: word_unat_eq_iff unat_mod unat_ucast8)
qed

lemma iomap_trace:
  assumes "register_ok (bus, slot_no, func, offset)"
  shows "io_trace (iomap_write segment bus slot_no func offset v s) =
      io_trace s @ [Wrote (Port 0xCF8) 4 (config_address bus slot_no func offset), Wrote (Port 0xCFC) 4 v]"
    and "iomap_read dev segment bus slot_no func offset s =
      io_read dev (Port 0xCFC) 4 (outd 0xCF8 (config_address bus slot_no func offset) s)"
  using assms aligned_port [of offset]
  by (simp_all add: register_ok_def iomap_write_def iomap_read_def outd_def io_write_def ind_def)

lemma config_address_enabled:
  "register_ok (bus, slot_no, func, offset) \<Longrightarrow> bit (config_address bus slot_no func offset) 31"
  by (simp add: config_address_bit)

section \<open>The registers in the windows\<close>

lemma ecam_value:
  assumes "start_bus_number e \<le> bus" "(slot_no :: u8) < 32" "(func :: u8) < 8"
  shows "unat (push_bit 20 (ucast bus - ucast (start_bus_number e)) OR push_bit 25 (ucast slot_no) OR
      push_bit 12 (ucast func) :: u32) =
    2 ^ 20 * (unat (bus - start_bus_number e) OR 32 * unat slot_no) + 2 ^ 12 * unat func"
proof -
  define d where "d = bus - start_bus_number e"
  define x where "x = unat d OR push_bit 5 (unat slot_no)"
  have "unat d = unat bus - unat (start_bus_number e)" using assms(1) by (simp add: d_def unat_sub)
  then have "unat (ucast bus - ucast (start_bus_number e) :: u32) = unat d"
    using assms(1) by (subst unat_sub) (simp_all add: word_le_nat_alt unat_ucast8)
  then have d: "(ucast bus - ucast (start_bus_number e) :: u32) = ucast d"
    by (simp add: word_unat_eq_iff unat_ucast8)
  have small: "unat d < 2 ^ 8" "unat slot_no < 2 ^ 5" "unat func < 2 ^ 3"
    using assms(2,3) unsigned_less [of d, where 'a = nat] by (simp_all add: word_less_nat_alt)
  have shift: "unat (push_bit n (ucast w) :: u32) = push_bit n (unat w)" if "unat w < 2 ^ k" "n + k \<le> 32"
    for w :: u8 and n k
  proof -
    have "unat w * 2 ^ n < 2 ^ k * 2 ^ n" using that(1) by simp
    also have "\<dots> = 2 ^ (n + k)" by (simp add: power_add)
    also have "\<dots> \<le> 2 ^ 32" by (rule power_increasing) (use that(2) in simp_all)
    finally have "take_bit 32 (push_bit n (unat w)) = push_bit n (unat w)"
      by (simp add: push_bit_eq_mult take_bit_nat_eq_self)
    then show ?thesis by (simp add: unsigned_push_bit_eq unat_ucast8)
  qed
  have "push_bit 20 (unat d) OR push_bit 25 (unat slot_no) = push_bit 20 x"
    by (rule bit_eqI) (auto simp: x_def bit_simps)
  then have "unat (push_bit 20 (ucast d) OR push_bit 25 (ucast slot_no) OR push_bit 12 (ucast func) :: u32) =
      push_bit 20 x OR push_bit 12 (unat func)"
    using shift [OF small(1), of 20] shift [OF small(2), of 25] shift [OF small(3), of 12]
    by (simp add: unsigned_or_eq or.assoc [symmetric])
  also have "\<dots> = push_bit 20 x + push_bit 12 (unat func)"
  proof (rule disjunctive_add_eq_or [symmetric])
    show "push_bit 20 x AND push_bit 12 (unat func) = 0"
      using less_bits [OF small(3)] by (intro bit_eqI) (fastforce simp: bit_simps)
  qed
  finally show ?thesis by (simp add: d d_def [symmetric] x_def push_bit_eq_mult mult.commute)
qed

lemma or_nat_bounds: "(a :: nat) \<le> a OR b" "a < 2 ^ n \<Longrightarrow> b < 2 ^ n \<Longrightarrow> a OR b < 2 ^ n"
proof -
  have "int a \<le> int a OR int b" by (simp add: or_greater_eq)
  then show "a \<le> a OR b" by (simp add: of_nat_or_eq [symmetric])
  assume "a < 2 ^ n" "b < 2 ^ n"
  then have "a OR b = take_bit n (a OR b)" by (simp add: take_bit_or take_bit_nat_eq_self)
  also have "\<dots> < 2 ^ n" by (rule take_bit_nat_less_exp)
  finally show "a OR b < 2 ^ n" .
qed

lemma scast_small: "unat (w :: u32) < 2 ^ 31 \<Longrightarrow> unat (scast w :: u64) = unat w"
proof -
  assume w: "unat w < 2 ^ 31"
  have top: "\<not> bit w 31"
  proof
    assume "bit w 31"
    then have "bit (take_bit 31 (unat w)) 31" using w by (simp add: take_bit_nat_eq_self bit_unsigned_iff)
    then show False by (simp only: bit_take_bit_iff) simp
  qed
  have "(scast w :: u64) = ucast w"
  proof (rule bit_word_eqI)
    fix k
    show "bit (scast w :: u64) k = bit (ucast w :: u64) k"
      using top by (cases "k \<le> 31") (auto simp: bit_signed_iff bit_ucast_iff min_def dest: bit_imp_le_length)
  qed
  moreover have "unat w < 2 ^ 64" using w by simp
  ultimately show ?thesis by (simp add: unsigned_ucast_eq take_bit_nat_eq_self)
qed

text \<open>The bus that a register is looked for on, counted from the first one: the device number is shifted
  into the bits of the bus.\<close>

definition ecam_bus :: "mcfg_entry \<Rightarrow> u8 \<Rightarrow> u8 \<Rightarrow> nat" where
  "ecam_bus e bus slot_no = unat (bus - start_bus_number e) OR 32 * unat slot_no"

lemma ecam_address_value:
  assumes "aligned 12 (ecm_base e)" "unat (ecm_base e) + 2 ^ 31 \<le> 2 ^ 64"
    and "start_bus_number e \<le> bus" "slot_no < 32" "func < 8"
  shows "ecam_bus e bus slot_no < 1024"
    and "unat (ecam_address e bus slot_no func offset) =
      unat (ecm_base e) + 2 ^ 20 * ecam_bus e bus slot_no + 2 ^ 12 * unat func + unat offset"
proof -
  define w where "w = (push_bit 20 (ucast bus - ucast (start_bus_number e)) OR push_bit 25 (ucast slot_no) OR
      push_bit 12 (ucast func) :: u32)"
  have small: "unat (bus - start_bus_number e) < 2 ^ 10" "32 * unat slot_no < 2 ^ 10" "unat func < 8" "unat offset < 256"
    using assms(4,5) unsigned_less [of "bus - start_bus_number e", where 'a = nat] unsigned_less [of offset, where 'a = nat]
    by (simp_all add: word_less_nat_alt)
  show b: "ecam_bus e bus slot_no < 1024" using or_nat_bounds(2) [OF small(1,2)] by (simp add: ecam_bus_def)
  have w: "unat w = 2 ^ 20 * ecam_bus e bus slot_no + 2 ^ 12 * unat func"
    unfolding w_def ecam_bus_def by (rule ecam_value [OF assms(3-5)])
  have "unat w < 2 ^ 31" using b small(3) w by simp
  then have sum: "unat (ecm_base e + scast w) = unat (ecm_base e) + unat w"
    using assms(2) by (subst unat_add_u64) (simp_all add: scast_small)
  have "2 ^ 12 dvd unat (ecm_base e) + unat w"
    using assms(1) w by (simp add: aligned_def)
  then have al: "aligned 12 (ecm_base e + scast w)" by (simp add: aligned_def sum)
  have "(ecm_base e + scast w) OR ucast offset = (ecm_base e + scast w) + ucast offset"
  proof (rule disjunctive_add_eq_or [symmetric])
    show "(ecm_base e + scast w) AND ucast offset = 0"
      using bit_aligned [OF al] by (intro bit_word_eqI) (auto simp: bit_and_iff bit_ucast_iff dest: bit_imp_le_length)
  qed
  moreover have "unat (ecm_base e + scast w + ucast offset) = unat (ecm_base e) + unat w + unat offset"
    using assms(2) small(3,4) w b sum by (subst unat_add_u64) simp_all
  ultimately show "unat (ecam_address e bus slot_no func offset) =
      unat (ecm_base e) + 2 ^ 20 * ecam_bus e bus slot_no + 2 ^ 12 * unat func + unat offset"
    unfolding ecam_address_def w_def [symmetric] w by simp
qed

section \<open>Properties\<close>

text \<open>C35: behind a host bridge the port functions are the loads and stores of an array of registers, indexed
  by bus, device, function and doubleword: \<open>iomap_read\<close> returns the register and changes none,
  \<open>iomap_write\<close> replaces exactly the one that is addressed, whatever segment is asked for.\<close>

theorem iomap_refines_registers:
  assumes "pci_host h dev" and "register_ok (bus, slot_no, func, offset)"
  shows "fst (iomap_read dev segment bus slot_no func offset s) = config_space h s (bus, slot_no, func, offset) \<and>
    config_space h (snd (iomap_read dev segment bus slot_no func offset s)) = config_space h s \<and>
    (\<forall>r. register_ok r \<longrightarrow> config_space h (iomap_write segment bus slot_no func offset v s) r =
      (if r = (bus, slot_no, func, offset) then v else config_space h s r))"
proof (intro conjI allI impI)
  note enabled = config_address_enabled [OF assms(2)]
  show "fst (iomap_read dev segment bus slot_no func offset s) = config_space h s (bus, slot_no, func, offset)"
    using assms(1) enabled
    by (simp add: iomap_trace [OF assms(2)] io_read_def outd_def io_write_def pci_host_def host_after_def
        config_space_def Let_def take_bit_word_eq_self)
  show "config_space h (snd (iomap_read dev segment bus slot_no func offset s)) = config_space h s"
    by (simp add: iomap_trace [OF assms(2)] io_read_def outd_def io_write_def host_after_def config_space_def Let_def fun_eq_iff)
  fix r assume r: "register_ok r"
  have "(case r of (bus, slot_no, func, offset) \<Rightarrow> config_address bus slot_no func offset) \<noteq>
      config_address bus slot_no func offset" if "r \<noteq> (bus, slot_no, func, offset)"
    using config_address_inj [OF r assms(2)] that by auto
  then show "config_space h (iomap_write segment bus slot_no func offset v s) r =
      (if r = (bus, slot_no, func, offset) then v else config_space h s r)"
    using enabled by (auto simp: iomap_trace [OF assms(2)] host_after_def config_space_def Let_def split: prod.splits)
qed

definition demo_bridge :: host_bridge where
  "demo_bridge = \<lparr>config_latch = 0, config_regs = (\<lambda>a. if a = 0x80000000 then 0x12378086 else 0)\<rparr>"

definition demo_bridge_devices :: devices where
  "demo_bridge_devices tr p n =
     (let g = host_after demo_bridge tr in if bit (config_latch g) 31 then config_regs g (config_latch g) else 0xFFFFFFFF)"

definition demo_ports :: device_state where
  "demo_ports = \<lparr>ram = (\<lambda>_. 0), bitmap = 0, free_pages = 0, total_pages = 0, bitmap_len = 0, kernel_pml4 = 0, cr3 = 0,
     mm_lock = 0, heap_top = 0, io_trace = [], msrs = (\<lambda>_. 0)\<rparr>"

theorem iomap_refines_registers_witness:
  "fst (iomap_read demo_bridge_devices 0 0 0 0 0 demo_ports) = 0x12378086 \<and>
   config_space demo_bridge (iomap_write 0 0 1 0 4 7 demo_ports) (0, 1, 0, 4) = 7"
proof -
  have "pci_host demo_bridge demo_bridge_devices" by (simp add: pci_host_def demo_bridge_devices_def)
  note w = iomap_refines_registers [OF this]
  have ok: "register_ok (0, 0, 0, 0)" "register_ok (0, 1, 0, 4)" by code_simp+
  have "config_space demo_bridge demo_ports (0, 0, 0, 0) = 0x12378086" by code_simp
  then show ?thesis using w [OF ok(1), of 0 demo_ports 0] w [OF ok(2), of 0 demo_ports 7] ok(2) by simp
qed

text \<open>C37: the address of a register of a bus that the entry covers. It lies at most 1 GiB above the base, so
  no sum wraps; but the device number is shifted by 25 where the specification has 15: only device 0 is
  found at its place, and the others are looked for on device 0 of the bus whose number has the device
  number in its upper bits, inside the window only when the entry has that many buses. There the two
  devices, on the bus asked for and device 0 of the other bus, share every address.\<close>

theorem ecam_address_bounds:
  assumes "aligned 12 (ecm_base e)" "unat (ecm_base e) + 2 ^ 31 \<le> 2 ^ 64"
    and "start_bus_number e \<le> bus" "bus \<le> end_bus_number e" "slot_no < 32" "func < 8"
  shows "let a = unat (ecam_address e bus slot_no func offset);
      specified = unat (ecm_base e) + 2 ^ 20 * unat (bus - start_bus_number e) + 2 ^ 15 * unat slot_no +
        2 ^ 12 * unat func + unat offset;
      buses = unat (end_bus_number e - start_bus_number e) + 1;
      other = start_bus_number e + of_nat (ecam_bus e bus slot_no)
    in unat (ecm_base e) \<le> a \<and> a < unat (ecm_base e) + 2 ^ 30 \<and> (a = specified \<longleftrightarrow> slot_no = 0) \<and>
      a = unat (ecm_base e) + 2 ^ 20 * ecam_bus e bus slot_no + 2 ^ 12 * unat func + unat offset \<and>
      (a < unat (ecm_base e) + 2 ^ 20 * buses \<longleftrightarrow> ecam_bus e bus slot_no < buses) \<and>
      (32 * unat slot_no \<ge> buses \<longrightarrow> unat (ecm_base e) + 2 ^ 20 * buses \<le> a) \<and>
      (ecam_bus e bus slot_no < buses \<longrightarrow> start_bus_number e \<le> other \<and> other \<le> end_bus_number e \<and>
         ecam_address e other 0 func offset = ecam_address e bus slot_no func offset)"
proof -
  note v = ecam_address_value(1) [OF assms(1-3,5,6)] ecam_address_value(2) [OF assms(1-3,5,6), of offset]
  have small: "unat func < 8" "unat offset < 256" "unat slot_no < 32"
    using assms(5,6) unsigned_less [of offset, where 'a = nat] by (simp_all add: word_less_nat_alt)
  have ge: "unat (bus - start_bus_number e) \<le> ecam_bus e bus slot_no" "32 * unat slot_no \<le> ecam_bus e bus slot_no"
    unfolding ecam_bus_def using or_nat_bounds(1) by (metis, metis or.commute)
  have zero: "slot_no = 0 \<longleftrightarrow> unat slot_no = 0" by (simp add: unat_eq_zero)
  have here: "ecam_bus e bus slot_no = unat (bus - start_bus_number e)" if "slot_no = 0"
    using that by (simp add: ecam_bus_def)
  have other: "2 ^ 20 * x \<noteq> 2 ^ 20 * d + 2 ^ 15 * k" if "d \<le> x" "0 < k" "k < 32" for x d k :: nat
  proof
    assume "2 ^ 20 * x = 2 ^ 20 * d + 2 ^ 15 * k"
    then have eq: "32 * x = 32 * d + k" by simp
    then have "x < d + 1" using that(3) by linarith
    then show False using eq that(2) by linarith
  qed
  have "2 ^ 20 * ecam_bus e bus slot_no = 2 ^ 20 * unat (bus - start_bus_number e) + 2 ^ 15 * unat slot_no \<longleftrightarrow> slot_no = 0"
  proof (cases "slot_no = 0")
    case True
    then show ?thesis using here by simp
  next
    case False
    then have "0 < unat slot_no" using zero by simp
    from other [OF ge(1) this small(3)] False show ?thesis by simp
  qed
  moreover have "start_bus_number e \<le> other \<and> other \<le> end_bus_number e \<and>
      ecam_address e other 0 func offset = ecam_address e bus slot_no func offset"
    if "ecam_bus e bus slot_no < unat (end_bus_number e - start_bus_number e) + 1"
      and "other = start_bus_number e + of_nat (ecam_bus e bus slot_no)" for other
  proof -
    have "start_bus_number e \<le> end_bus_number e" using assms(3,4) by simp
    then have "unat (end_bus_number e - start_bus_number e) = unat (end_bus_number e) - unat (start_bus_number e)"
      by (simp add: unat_sub)
    moreover have "unat (end_bus_number e) < 256" using unsigned_less [of "end_bus_number e", where 'a = nat] by simp
    ultimately have sum: "unat (start_bus_number e) + ecam_bus e bus slot_no \<le> unat (end_bus_number e)"
      "ecam_bus e bus slot_no < 256"
      using that(1) \<open>start_bus_number e \<le> end_bus_number e\<close> by (simp_all add: word_le_nat_alt)
    have u: "unat other = unat (start_bus_number e) + ecam_bus e bus slot_no"
      using sum \<open>unat (end_bus_number e) < 256\<close> unfolding that(2)
      by (simp add: unat_word_ariths unat_of_nat)
    then have le: "start_bus_number e \<le> other" "other \<le> end_bus_number e"
      using sum(1) by (simp_all add: word_le_nat_alt)
    have "ecam_bus e other 0 = ecam_bus e bus slot_no" using u le(1) by (simp add: ecam_bus_def unat_sub)
    with ecam_address_value(2) [OF assms(1,2) le(1) _ assms(6), of 0 offset] v(2) le show ?thesis
      by (simp add: word_unat_eq_iff)
  qed
  ultimately show ?thesis unfolding Let_def v(2) using v(1) ge(2) small by auto
qed

definition demo_mcfg :: mcfg_entry where
  "demo_mcfg = Mcfg 0xB0000000 0 0 255 0"

theorem ecam_address_bounds_witness:
  "unat (ecam_address demo_mcfg 0 31 0 0) \<ge> 0xB0000000 + 2 ^ 20 * 256"
proof -
  have e: "ecm_base demo_mcfg = 0xB0000000" "start_bus_number demo_mcfg = 0" "end_bus_number demo_mcfg = 255"
    by (simp_all add: demo_mcfg_def)
  have "aligned 12 (ecm_base demo_mcfg)" by (simp add: e aligned_def)
  from ecam_address_bounds [OF this, of 0 31 0 0] show ?thesis by (simp add: e Let_def)
qed

end
