(* ===== verification/PciInit.thy ===== *)
theory PciInit
  imports Pci AcpiBoot
begin

text \<open>
  \<open>Pci::init\<close> on the kernel heap: the entries of the firmware's table become the elements of the list,
  while the allocations leave the table readable.
\<close>

unbundle bit_operations_syntax

section \<open>What an allocation leaves alone\<close>

text \<open>A byte of a table: in the upper half, mapped to data.\<close>

definition upper_byte :: "'a vmm_state_scheme \<Rightarrow> u64 \<Rightarrow> u8 \<Rightarrow> bool" where
  "upper_byte s a b \<longleftrightarrow> virtual_physical_base \<le> a \<and>
     (\<exists>x. hw_translate (ram s) (cr3 s) a = Some x \<and> pmm_data s (cr3 s) x \<and> ram s x = b)"

lemma upper_byte_reads: "upper_byte s a b \<Longrightarrow> kernel_reader s a = Inr b"
  by (auto simp: upper_byte_def kernel_reader_def virt_load8_def)

lemma calloc_keeps_upper:
  fixes s :: "'a heap_state_scheme"
  assumes room: "malloc_room s n p" and run: "calloc n s = Inr (a, s')" and byte: "upper_byte s v b"
  shows "upper_byte s' v b"
proof -
  define c where "c = block_pages (block_bytes n)"
  obtain s1 where r: "heap_inv s" "unat n < 2 ^ 48" "p \<noteq> 0" "unat p div 4096 + unat c \<le> unat (bitmap_len s)"
    "unat (heap_top s) + 4096 * unat c \<le> 2 ^ 46" "pmm_alloc c s = Inr (p, s1)"
    "can_alloc (pmm_alloc 1) (3 * unat c) s1"
    using room by (auto simp: malloc_room_def Let_def c_def)
  have wf: "pmm_wf s" using heap_invD(1) [OF r(1)] by (simp add: vmm_inv_def)
  note blk = block_aligned [OF wf r(6,3,4)] block_bound [OF wf r(6,3,4)]
  obtain s2 where s2: "malloc n s = Inr (heap_top s + of_nat (block_gap n) + 16, s2)" "heap_inv s2"
    "heap_extended s s2 p c"
    by (rule malloc_block [OF c_def r(1,2,6,3,4,7,5)]) (rule that)
  have e: "space_ok s2 (cr3 s)" "cr3 s2 = cr3 s"
    "\<And>v. hw_walk (ram s2) (cr3 s) v = (if steps 12 (heap_top s) v < unat c
       then Page4K (leaf_entry (p + of_nat (steps 12 (heap_top s) v) * 4096) (VMM_PRESENT OR VMM_WRITE))
       else hw_walk (ram s) (cr3 s) v)"
    "\<And>x. pmm_data s (cr3 s) x \<Longrightarrow> pmm_data s2 (cr3 s) x \<and> ram s2 x = ram s x"
    "\<And>i. i < 4096 * unat c \<Longrightarrow> pmm_data s2 (cr3 s) (p + of_nat i) \<and> \<not> pmm_data s (cr3 s) (p + of_nat i)"
    using s2(3) by (simp_all add: heap_extended_def)
  define k where "k = block_gap n + 16"
  define f where "f = (\<lambda>i. p + of_nat (k + i) :: u64)"
  have lay: "block_gap n + unat (block_bytes n) = 4096 * unat c" "unat n + 16 \<le> unat (block_bytes n)"
    using block_layout [OF r(2)] by (simp_all add: c_def)
  then have ki: "k + i < 4096 * unat c" if "i < unat n" for i using that by (simp add: k_def)
  have top: "heap_top s + of_nat (block_gap n) + 16 = heap_top s + of_nat k" by (simp add: k_def)
  have map: "maps_to s2 (heap_top s + of_nat k) (length (replicate (unat n) (0 :: u8))) f"
    using extended_new [OF r(1) s2(3) blk r(5) ki]
    by (simp add: maps_to_def f_def heap_map_def add.assoc)
  have data: "pmm_data s2 (cr3 s2) (f i) \<and> \<not> pmm_data s (cr3 s) (f i)" if "i < unat n" for i
    using e(5) [OF ki [OF that]] by (simp add: f_def e(2))
  have inj: "inj_on f {..<length (replicate (unat n) (0 :: u8))}"
  proof (rule inj_onI)
    fix i j assume ij: "i \<in> {..<length (replicate (unat n) (0 :: u8))}" "j \<in> {..<length (replicate (unat n) (0 :: u8))}" "f i = f j"
    then have "(of_nat i :: u64) = of_nat j" by (simp add: f_def)
    moreover have "i < 2 ^ 64" "j < 2 ^ 64" using ij(1,2) unat_u64_less [of n] by simp_all
    ultimately show "i = j" by (simp add: word_of_nat_eq_iff take_bit_nat_eq_self)
  qed
  have space: "space_ok s2 (cr3 s2)" using e(1,2) by simp
  have "pmm_data s2 (cr3 s2) (f i)" if "i < length (replicate (unat n) (0 :: u8))" for i using data that e(2) by simp
  from virt_store_list_data [OF space map this inj] obtain m where
    m: "virt_store_list (replicate (unat n) 0) (heap_top s + of_nat k) s2 = Inr (s2\<lparr>ram := m\<rparr>)"
    "\<And>x. x \<notin> f ` {..<unat n} \<Longrightarrow> m x = ram s2 x"
    unfolding length_replicate by blast
  have s': "s' = s2\<lparr>ram := m\<rparr>" using run s2(1) m(1) top by (simp add: calloc_def virt_memset_list)
  have "m x = ram s2 x" if "\<not> pmm_data s2 (cr3 s2) x" for x
    by (rule m(2)) (use that data e(2) in auto)
  note st = data_store [OF space this]
  obtain x where x: "virtual_physical_base \<le> v" "hw_translate (ram s) (cr3 s) v = Some x" "pmm_data s (cr3 s) x" "ram s x = b"
    using byte by (auto simp: upper_byte_def)
  have "\<not> steps 12 (heap_top s) v < unat c"
    using heap_invD(2) [OF r(1)] r(5) x(1) by (intro steps_upper) simp_all
  then have "hw_walk (ram s2) (cr3 s) v = hw_walk (ram s) (cr3 s) v" by (simp add: e(3))
  moreover have "m x = ram s2 x" using x(3) data by (intro m(2)) auto
  ultimately show ?thesis
    using x e(1,2) e(4) [OF x(3)] st by (simp add: upper_byte_def s' hw_translate_def)
qed

lemma upper_byte_same:
  fixes s :: "'a vmm_state_scheme" and t :: "'b vmm_state_scheme"
  assumes "ram t = ram s" "bitmap t = bitmap s" "bitmap_len t = bitmap_len s" "cr3 t = cr3 s"
  shows "upper_byte t a b = upper_byte s a b"
  unfolding upper_byte_def assms(1,4) pmm_data_same [OF assms(1-3)] ..

lemma heap_inv_same:
  fixes s :: "'a heap_state_scheme" and t :: "'b heap_state_scheme"
  assumes "ram t = ram s" "bitmap t = bitmap s" "bitmap_len t = bitmap_len s" "cr3 t = cr3 s"
    and "heap_top t = heap_top s" "mm_lock t = mm_lock s"
  shows "heap_inv t = heap_inv s"
  unfolding heap_inv_def heap_addr_def heap_map_def assms(1,4-6) space_ok_same(1) [OF assms(1-3)]
    pmm_data_same [OF assms(1-3)] ..

section \<open>Entries of the table\<close>

lemma read_n_bytes:
  assumes "\<And>i. i < n \<Longrightarrow> rd (a + of_nat i) = Inr (le_bytes n w ! i)" "n \<le> 8"
  shows "read_n n rd a = Inr (take_bit (8 * n) w)"
  using assms
proof (induction n arbitrary: a w)
  case (Suc n)
  have "rd (a + 1 + of_nat i) = Inr (le_bytes n (drop_bit 8 w) ! i)" if "i < n" for i
    using Suc.prems(1) [of "Suc i"] that by (simp add: ac_simps)
  then have "read_n n rd (a + 1) = Inr (take_bit (8 * n) (drop_bit 8 w))"
    using Suc.prems(2) by (intro Suc.IH) simp_all
  moreover have "rd a = Inr (ucast w)" using Suc.prems(1) [of 0] by simp
  moreover have "ucast (ucast w :: u8) OR push_bit 8 (take_bit (8 * n) (drop_bit 8 w)) = take_bit (8 * Suc n) w"
    using Suc.prems(2) by (intro bit_word_eqI) (auto simp: bit_simps)
  ultimately show ?case by simp
qed simp

definition mcfg_bytes :: "mcfg_entry \<Rightarrow> u8 list" where
  "mcfg_bytes e = le_bytes 8 (ecm_base e) @ le_bytes 2 (ucast (mcfg_segment e)) @
     [start_bus_number e, end_bus_number e] @ le_bytes 4 (ucast (mcfg_reserved e))"

lemma length_mcfg_bytes [simp]: "length (mcfg_bytes e) = 16"
  by (simp add: mcfg_bytes_def)

lemma read_mcfg_bytes:
  assumes "\<And>i. i < 16 \<Longrightarrow> rd (p + of_nat i) = Inr (mcfg_bytes e ! i)"
  shows "read_mcfg_entry rd p = Inr e"
proof -
  have part: "rd (p + of_nat k + of_nat i) = Inr (xs ! i)"
    if "mcfg_bytes e = us @ xs @ vs" "length us = k" "i < length xs" for us xs vs k i
  proof -
    have "length (us @ xs @ vs) = 16" using that(1) by (metis length_mcfg_bytes)
    then have "k + i < 16" using that by simp
    from assms [OF this] show ?thesis using that by (simp add: nth_append add.assoc)
  qed
  have 1: "read_n 8 rd p = Inr (take_bit (8 * 8) (ecm_base e))"
    using part [of "[]" "le_bytes 8 (ecm_base e)" _ 0]
    by (intro read_n_bytes) (simp_all add: mcfg_bytes_def)
  have 2: "read_n 2 rd (p + 8) = Inr (take_bit (8 * 2) (ucast (mcfg_segment e)))"
    using part [of "le_bytes 8 (ecm_base e)" "le_bytes 2 (ucast (mcfg_segment e))" _ 8]
    by (intro read_n_bytes) (simp_all add: mcfg_bytes_def)
  have 3: "rd (p + 10) = Inr (start_bus_number e)" "rd (p + 11) = Inr (end_bus_number e)"
    using part [of "le_bytes 8 (ecm_base e) @ le_bytes 2 (ucast (mcfg_segment e))" "[start_bus_number e, end_bus_number e]" _ 10 0]
      part [of "le_bytes 8 (ecm_base e) @ le_bytes 2 (ucast (mcfg_segment e))" "[start_bus_number e, end_bus_number e]" _ 10 1]
    by (simp_all add: mcfg_bytes_def add.commute)
  have 4: "read_n 4 rd (p + 12) = Inr (take_bit (8 * 4) (ucast (mcfg_reserved e)))"
    using part [of "le_bytes 8 (ecm_base e) @ le_bytes 2 (ucast (mcfg_segment e)) @ [start_bus_number e, end_bus_number e]"
        "le_bytes 4 (ucast (mcfg_reserved e))" "[]" 12]
    by (intro read_n_bytes) (simp_all add: mcfg_bytes_def)
  have r: "read_member McfgEntry ''reserved'' rd p = read_n 4 rd (p + 12)" by (simp add: layouts)
  have u: "ucast (take_bit 16 (ucast x :: u64)) = x" "ucast (take_bit 32 (ucast y :: u64)) = y" "ucast (ucast z :: u64) = z"
    for x :: u16 and y :: u32 and z :: u8
    by (rule bit_word_eqI, auto simp: bit_simps dest: bit_imp_le_length)+
  show ?thesis
    using 1 2 3 4 by (cases e) (simp add: read_mcfg_entry_def members r u take_bit_word_eq_self)
qed

section \<open>The message\<close>

lemma render_directive:
  assumes "0x25 \<notin> set u"
  shows "render strs (u @ 0x25 # 0x64 # f) (a # args) =
      prepend (Some (u @ itoa_text (sint (ucast a :: u32)) 10)) (render strs f args)"
    and "render strs (u @ 0x25 # 0x70 # c # f) (a # args) =
      prepend (Some (u @ [0x30, 0x78] @ htoa_text a False)) (render strs f args)"
  unfolding render_plain [OF assms] by (cases "render strs f args"; simp add: prepend_def)+

lemma mcfg_message:
  "good_message ''[DEVMGR] MCFG entry #%d %p: %d:%d:0:0 - %d:%d:0:0'' None [i, m, a, b, c, d]"
proof -
  define fmt where "fmt = ''[DEVMGR] MCFG entry #%d %p: %d:%d:0:0 - %d:%d:0:0''"
  define u v where "u = chars ''[DEVMGR] MCFG entry #''" and "v = chars '':0:0 - ''"
  have fmt: "chars fmt = u @ 0x25 # 0x64 # [0x20] @ 0x25 # 0x70 # 0x3A # [0x20] @ 0x25 # 0x64 # [0x3A] @ 0x25 # 0x64 #
      v @ 0x25 # 0x64 # [0x3A] @ 0x25 # 0x64 # chars '':0:0''"
    unfolding fmt_def u_def v_def by code_simp
  have plain: "0x25 \<notin> set u" "0x25 \<notin> set v" "0x25 \<notin> set [0x20 :: u8]" "0x25 \<notin> set [0x3A :: u8]" "0x25 \<notin> set (chars '':0:0'')"
    "length u = 21" "length v = 7"
    unfolding u_def v_def by code_simp+
  define num where "num = (\<lambda>a :: u64. itoa_text (sint (ucast a :: u32)) 10)"
  have "render (message_strings None) (chars '':0:0'') [] = Some (chars '':0:0'')"
    using render_plain [OF plain(5), of _ "[]"] by (simp add: prepend_def)
  then have "render (message_strings None) (chars fmt) (message_args None [i, m, a, b, c, d]) =
      Some ((u @ num i) @ ([0x20] @ [0x30, 0x78] @ htoa_text m False) @ ([0x20] @ num a) @ ([0x3A] @ num b) @
        (v @ num c) @ ([0x3A] @ num d) @ chars '':0:0'')"
    unfolding fmt message_args_def option.case append_Nil
    by (simp only: render_directive [OF plain(1)] render_directive [OF plain(2)] render_directive [OF plain(3)]
        render_directive [OF plain(4)] num_def) (simp add: prepend_def)
  moreover have num: "length (num x) \<le> 33" for x using itoa_text_int(1) by (simp add: num_def)
  have "length ((u @ num i) @ ([0x20] @ [0x30, 0x78] @ htoa_text m False) @ ([0x20] @ num a) @ ([0x3A] @ num b) @
        (v @ num c) @ ([0x3A] @ num d) @ chars '':0:0'') < 0xF00"
    using htoa_text_string(1) [of m False] plain(6,7) num [of i] num [of a] num [of b] num [of c] num [of d]
    by (simp add: chars_def)
  moreover have "\<forall>c \<in> set (chars fmt). c \<noteq> 0 \<and> c < 128" "length fmt < 0xF00" unfolding fmt_def by code_simp+
  ultimately have "good_message fmt None [i, m, a, b, c, d]" by (simp add: good_message_def)
  then show ?thesis unfolding fmt_def .
qed

section \<open>The loop\<close>

text \<open>Room on the heap for \<open>n\<close> further nodes, whatever is printed between the allocations.\<close>

primrec pci_room :: "nat \<Rightarrow> 'a pci_state_scheme \<Rightarrow> bool" where
  "pci_room 0 s \<longleftrightarrow> heap_inv s"
| "pci_room (Suc n) s \<longleftrightarrow> (\<exists>p. malloc_room s mcfg_link_size p) \<and>
     (\<forall>a s' l h t. calloc mcfg_link_size s = Inr (a, s') \<longrightarrow>
        pci_room n (s'\<lparr>mcfg_links := l, mcfg_head := h, console := t\<rparr>))"

lemma calloc_keeps_console:
  fixes s :: "'a pci_state_scheme"
  assumes "calloc n s = Inr (a, s')"
  shows "console s' = console s" "pci_mmapped s' = pci_mmapped s" "io_trace s' = io_trace s"
proof -
  have alloc: "console s' = console s \<and> pci_mmapped s' = pci_mmapped s \<and> io_trace s' = io_trace s"
    if "pmm_alloc c s = Inr (p, s')" for c p and s s' :: "'a pci_state_scheme"
    using that by (auto elim!: pmm_alloc_cases simp: pmm_take_def)
  have "(console s', pci_mmapped s', io_trace s') = (console s, pci_mmapped s, io_trace s)"
    by (rule calloc_frame(2) [where g = "\<lambda>s. (console s, pci_mmapped s, io_trace s)", OF _ _ _ _ assms]) (simp_all add: alloc)
  then show "console s' = console s" "pci_mmapped s' = pci_mmapped s" "io_trace s' = io_trace s" by simp_all
qed

lemma pci_init_entry_run:
  fixes s :: "'a pci_state_scheme"
  assumes room: "pci_room (Suc n) s" and screen: "term_ok (console s)"
    and list: "list_at (mcfg_entries s) ps xs" "set ps \<subseteq> heap_live s"
    and bytes: "\<forall>j < 16. upper_byte s (p + of_nat j) (mcfg_bytes e ! j)"
  obtains s' ps' where "pci_init_entry i p s = Inr s'" "pci_room n s'" "term_ok (console s')"
    "list_at (mcfg_entries s') ps' (xs @ [e])" "set ps' \<subseteq> heap_live s'" "io_trace s' = io_trace s"
    "\<And>a b. upper_byte s a b \<Longrightarrow> upper_byte s' a b"
proof -
  obtain q where q: "malloc_room s mcfg_link_size q" using room by auto
  obtain a s1 where a: "calloc mcfg_link_size s = Inr (a, s1)" "a \<noteq> 0" "a \<notin> heap_live s"
    "insert a (heap_live s) \<subseteq> heap_live s1" using calloc_fresh [OF q] by blast
  have heap: "heap (mcfg_entries s) = s" by (simp add: mcfg_entries_def)
  have fresh: "a \<notin> set ps" using a(3) list(2) by blast
  have new: "calloc mcfg_link_size (heap (mcfg_entries s)) = Inr (a, s1)" by (simp add: heap a(1))
  obtain l where l: "push_back (calloc mcfg_link_size) e (mcfg_entries s) = Inr l" "list_at l (ps @ [a]) (xs @ [e])" "heap l = s1"
    by (rule push_back_at [where new = "calloc mcfg_link_size" and s = "mcfg_entries s" and v = e, OF list(1) new a(2) fresh]) (rule that)
  define s2 where "s2 = s1\<lparr>mcfg_links := links l, mcfg_head := list_head l\<rparr>"
  have put: "put_mcfg_entries l = s2" by (simp add: put_mcfg_entries_def l(3) s2_def)
  have keep: "upper_byte s2 v b" if "upper_byte s v b" for v b
    using calloc_keeps_upper [OF q a(1) that] by (subst upper_byte_same [of _ s1]) (simp_all add: s2_def)
  have read: "read_mcfg_entry (kernel_reader s) p = Inr e" "read_mcfg_entry (kernel_reader s2) p = Inr e"
    using bytes keep upper_byte_reads by (blast intro: read_mcfg_bytes)+
  have "term_ok (console s2)" using screen calloc_keeps_console(1) [OF a(1)] by (simp add: s2_def)
  from print_line_shows [OF mcfg_message this] obtain t where
    t: "print_line ''[DEVMGR] MCFG entry #%d %p: %d:%d:0:0 - %d:%d:0:0'' None
      [i, ecm_base e, ucast (mcfg_segment e), ucast (start_bus_number e), ucast (mcfg_segment e), ucast (end_bus_number e)] s2
      = Inr (s2\<lparr>console := t\<rparr>)" "term_ok t" by metis
  show thesis
  proof (rule that)
    show "pci_init_entry i p s = Inr (s2\<lparr>console := t\<rparr>)"
      unfolding pci_init_entry_def read(1) l(1) rbind_Inr Let_def put read(2) t(1) ..
    show "pci_room n (s2\<lparr>console := t\<rparr>)" using room a(1) by (simp add: s2_def)
    show "term_ok (console (s2\<lparr>console := t\<rparr>))" using t(2) by simp
    have "mcfg_entries (s2\<lparr>console := t\<rparr>) = l\<lparr>heap := s2\<lparr>console := t\<rparr>\<rparr>"
      by (simp add: mcfg_entries_def s2_def)
    then show "list_at (mcfg_entries (s2\<lparr>console := t\<rparr>)) (ps @ [a]) (xs @ [e])" using l(2) by simp
    have "heap_live (s2\<lparr>console := t\<rparr>) = heap_live s1" by (simp add: heap_live_def heap_addr_def s2_def)
    then show "set (ps @ [a]) \<subseteq> heap_live (s2\<lparr>console := t\<rparr>)" using a(4) list(2) by auto
    show "io_trace (s2\<lparr>console := t\<rparr>) = io_trace s" using calloc_keeps_console(3) [OF a(1)] by (simp add: s2_def)
    show "upper_byte (s2\<lparr>console := t\<rparr>) v b" if "upper_byte s v b" for v b
      using keep [OF that] by (subst upper_byte_same [of _ s2]) simp_all
  qed
qed

lemma pci_init_entries_run:
  fixes s :: "'a pci_state_scheme"
  assumes "pci_room (length es) s" "term_ok (console s)"
    and "list_at (mcfg_entries s) ps xs" "set ps \<subseteq> heap_live s"
    and "\<And>j. j < length (concat (map mcfg_bytes es)) \<Longrightarrow> upper_byte s (p + of_nat j) (concat (map mcfg_bytes es) ! j)"
  shows "\<exists>s' ps'. pci_init_entries (length es) i p s = Inr s' \<and> term_ok (console s') \<and>
    list_at (mcfg_entries s') ps' (xs @ es) \<and> io_trace s' = io_trace s \<and> heap_inv s'"
  using assms
proof (induction es arbitrary: s ps xs p i)
  case (Cons e es)
  let ?bs = "concat (map mcfg_bytes es)"
  have here: "\<forall>j < 16. upper_byte s (p + of_nat j) (mcfg_bytes e ! j)"
  proof (intro allI impI)
    fix j assume "j < (16 :: nat)"
    then show "upper_byte s (p + of_nat j) (mcfg_bytes e ! j)" using Cons.prems(5) [of j] by (simp add: nth_append)
  qed
  have there: "upper_byte s (p + 16 + of_nat j) (?bs ! j)" if "j < length ?bs" for j
    using Cons.prems(5) [of "16 + j"] that by (simp add: nth_append add.assoc)
  have room: "pci_room (Suc (length es)) s" using Cons.prems(1) by simp
  obtain s1 ps1 where s1: "pci_init_entry i p s = Inr s1" "pci_room (length es) s1" "term_ok (console s1)"
    "list_at (mcfg_entries s1) ps1 (xs @ [e])" "set ps1 \<subseteq> heap_live s1" "io_trace s1 = io_trace s"
    "\<And>a b. upper_byte s a b \<Longrightarrow> upper_byte s1 a b"
    by (rule pci_init_entry_run [OF room Cons.prems(2-4) here, of i]) (rule that)
  from Cons.IH [OF s1(2-5) s1(7) [OF there], of "i + 1"] s1(1,6) show ?case by simp
qed auto

lemma pci_init_run:
  fixes s :: "'a pci_state_scheme"
  assumes table: "get_table (kernel_reader s) (rsdp s) (lit ''MCFG'') = Inr table" "table \<noteq> 0"
    and len: "read_member SdtHeader ''length'' (kernel_reader s) table = Inr (of_nat (44 + 16 * length es + r))"
    and small: "r < 16" "length es < 2 ^ 27"
    and s: "pci_room (length es) s" "term_ok (console s)" "mcfg_head s = 0"
    and bytes: "\<And>j. j < length (concat (map mcfg_bytes es)) \<Longrightarrow>
      upper_byte s (table + 44 + of_nat j) (concat (map mcfg_bytes es) ! j)"
  obtains s' ps where "pci_init lit s = Inr s'" "pci_mmapped s'" "list_at (mcfg_entries s') ps es"
    "term_ok (console s')" "io_trace s' = io_trace s" "heap_inv s'"
proof -
  define n :: u64 where "n = of_nat (44 + 16 * length es + r)"
  have un: "unat n = 44 + 16 * length es + r" using small by (simp add: n_def unat_of_nat del: of_nat_add)
  then have "unat (n - 44) = 16 * length es + r" by (subst unat_sub) (simp_all add: word_le_nat_alt)
  then have entries: "unat ((n - 44) div 16) = length es" using small(1) by (simp add: unat_div)
  have empty: "list_at (mcfg_entries s) [] []"
    by (simp add: mcfg_entries_def s(3) list_at_def list_linked_def node_values_def numbered_def)
  obtain s1 ps where s1: "pci_init_entries (length es) 0 (table + 44) s = Inr s1" "term_ok (console s1)"
    "list_at (mcfg_entries s1) ps es" "io_trace s1 = io_trace s" "heap_inv s1"
    using pci_init_entries_run [OF s(1,2) empty _ bytes, of 0] by auto
  have run: "pci_init lit s = Inr (s1\<lparr>pci_mmapped := True\<rparr>)"
    using s1(1) len [folded n_def] entries by (simp add: pci_init_def table)
  have "mcfg_entries (s1\<lparr>pci_mmapped := True\<rparr>) = (mcfg_entries s1)\<lparr>heap := s1\<lparr>pci_mmapped := True\<rparr>\<rparr>"
    by (simp add: mcfg_entries_def)
  moreover have "heap_inv (s1\<lparr>pci_mmapped := True\<rparr>)"
    using s1(5) by (subst heap_inv_same [of _ s1]) simp_all
  ultimately show thesis using that [OF run, of ps] s1 by simp
qed

section \<open>A machine with a table of windows\<close>

text \<open>The page tables and the window of physical memory are those of the machine in \<open>AcpiBoot\<close>; the table
  names one window and has some bytes left at its end.\<close>

definition demo_mcfg_bytes :: "u8 list" where
  "demo_mcfg_bytes = mcfg_bytes demo_mcfg @ replicate 12 0"

definition demo_pci_contents :: memory where
  "demo_pci_contents = area 0x7FE0808 4 (chars ''MCFG'') (demo_contents ''MCFG'' demo_mcfg_bytes)"

definition demo_heaped :: "memory \<Rightarrow> smp_state" where
  "demo_heaped m = (demo_booted m)\<lparr>heap_top := memory_base, mm_lock := 0\<rparr>"

lemma demo_heaped_fields [simp]:
  "ram (demo_heaped m) = ram (demo_booted m)" "cr3 (demo_heaped m) = small_root"
  "bitmap (demo_heaped m) = bitmap (demo_booted m)" "bitmap_len (demo_heaped m) = bitmap_len (demo_booted m)"
  "heap_top (demo_heaped m) = memory_base" "mm_lock (demo_heaped m) = 0" "console (demo_heaped m) = demo_term"
  "io_trace (demo_heaped m) = []"
  using demo_booted_good(1) [of m] by (simp_all add: demo_heaped_def demo_good_def)

lemma demo_heaped_good:
  "heap_inv (demo_heaped m)" "first_fit (demo_heaped m)" "can_alloc (pmm_alloc 1) 19 (demo_heaped m)"
proof -
  note good = demo_booted_good [of m]
  have g: "space_ok (demo_booted m) small_root" "first_fit (demo_booted m)" "can_alloc (pmm_alloc 1) 19 (demo_booted m)"
    using good(1) by (simp_all add: demo_good_def)
  have same: "ram (demo_heaped m) = ram (demo_booted m)" "bitmap (demo_heaped m) = bitmap (demo_booted m)"
    "bitmap_len (demo_heaped m) = bitmap_len (demo_booted m)" by simp_all
  have low: "hw_walk (ram (demo_heaped m)) small_root v \<noteq> Page2M e" if "unat v < 2 ^ 47" for v e
  proof -
    have "steps 21 virtual_kernel_base v \<noteq> 0" using low_steps(2) [OF that] by simp
    then show ?thesis by (simp add: good(2) steps_0)
  qed
  have "\<not> heap_addr (demo_heaped m) v" for v by (auto simp: heap_addr_def)
  moreover have "aligned 12 memory_base" "unat memory_base \<le> 2 ^ 46" by (simp_all add: memory_base_def aligned_def)
  ultimately show "heap_inv (demo_heaped m)" using g(1) low space_ok_same(1) [OF same] by (simp add: heap_inv_def)
  show "first_fit (demo_heaped m)"
    using g(2) same space_ok_same [OF same] by (simp add: first_fit_def page_marked_def pmm_wf_def)
  show "can_alloc (pmm_alloc 1) 19 (demo_heaped m)" using g(3) can_alloc_same [OF same] by simp
qed

lemma demo_heaped_byte:
  assumes "k < 4096" and "m (0x7FE0000 + of_nat k) = b"
  shows "upper_byte (demo_heaped m) (0x7FE0000 + virtual_physical_base + of_nat k) b"
proof -
  have "unat (0x7FE0000 + virtual_physical_base + of_nat k) = unat (0x7FE0000 + virtual_physical_base) + k"
    using assms(1) by (subst unat_add_u64) (simp_all add: unat_of_nat mm_consts)
  then have "virtual_physical_base \<le> 0x7FE0000 + virtual_physical_base + of_nat k"
    by (simp add: word_le_nat_alt) (simp add: mm_consts)
  then show ?thesis
    using demo_window [of "0x7FE0000" k m, OF _ assms(1)] assms(2) pmm_data_same [of "demo_heaped m" "demo_booted m"]
    by (simp add: upper_byte_def)
qed

definition demo_pci :: pci_state where
  "demo_pci = acpi_state.extend
     (smp_state.extend (demo_heaped demo_pci_contents) \<lparr>rsdp = demo_info, madt = 0\<rparr>)
     \<lparr>mcfg_links = Map.empty, mcfg_head = 0, pci_mmapped = False\<rparr>"

lemma demo_pci_fields [simp]:
  "ram demo_pci = ram (demo_booted demo_pci_contents)" "cr3 demo_pci = small_root"
  "bitmap demo_pci = bitmap (demo_booted demo_pci_contents)" "bitmap_len demo_pci = bitmap_len (demo_booted demo_pci_contents)"
  "heap_top demo_pci = memory_base" "mm_lock demo_pci = 0" "console demo_pci = demo_term" "io_trace demo_pci = []"
  "rsdp demo_pci = demo_info" "mcfg_head demo_pci = 0" "mcfg_links demo_pci = Map.empty" "\<not> pci_mmapped demo_pci"
  by (simp_all add: demo_pci_def smp_state.defs acpi_state.defs)

text \<open>Room for a block of two pages.\<close>

lemma two_page_room:
  fixes s :: "'a heap_state_scheme"
  assumes inv: "heap_inv s" "first_fit s" "can_alloc (pmm_alloc 1) 8 s" "unat (heap_top s) + 0x2000 \<le> 2 ^ 46"
    and n: "block_pages (block_bytes n) = 2" "unat n < 2 ^ 48"
  shows "\<exists>p. malloc_room s n p"
proof (rule first_fitD [OF assms(2)])
  fix j assume j: "pmm_wf s" "8192 \<le> bitmap_len s" "bitmap_len s \<le> 8224" "8192 \<le> j" "j \<le> bitmap_len s"
    and marks: "\<And>i. 8192 \<le> i \<Longrightarrow> i < bitmap_len s \<Longrightarrow> page_marked s i \<longleftrightarrow> i < j"
  have room: "unat j + 8 \<le> unat (bitmap_len s)" by (rule first_fit_room [OF assms(2,3) j(4,5) marks])
  then have two: "unat j + unat (2 :: u64) \<le> unat (bitmap_len s)" by simp
  note step = pmm_alloc_prefix [OF j(1-4) marks two]
  have u: "unat (j + 2) = unat j + 2" using room by (subst unat_add_u64) (use unat_u64_less [of "bitmap_len s"] in simp_all)
  have "can_alloc (pmm_alloc 1) 6 (pmm_take j 2 s)"
  proof (rule can_alloc_prefix [of _ "j + 2"])
    show "page_marked (pmm_take j 2 s) i \<longleftrightarrow> i < j + 2" if "8192 \<le> i" "i < bitmap_len (pmm_take j 2 s)" for i
      using step(2) [of i] that by simp
  qed (use j room u in \<open>auto simp: pmm_wf_take word_le_nat_alt\<close>)
  moreover have "unat (j * page_size) = unat j * 4096"
    using room by (intro unat_page [OF _ j(1)]) (simp add: word_less_nat_alt)
  ultimately have "malloc_room s n (j * page_size)"
    using assms(1,4) step(1,3) room n by (simp add: malloc_room_def)
  then show ?thesis by blast
qed

lemma demo_pci_heap: "heap_inv demo_pci" "pci_room 1 demo_pci"
proof -
  note good = demo_heaped_good [of demo_pci_contents]
  have same: "ram demo_pci = ram (demo_heaped demo_pci_contents)" "bitmap demo_pci = bitmap (demo_heaped demo_pci_contents)"
    "bitmap_len demo_pci = bitmap_len (demo_heaped demo_pci_contents)" by simp_all
  show inv: "heap_inv demo_pci" using good(1) by (subst heap_inv_same [OF same]) simp_all
  have "first_fit demo_pci"
    using good(2) same space_ok_same [OF same] by (simp add: first_fit_def page_marked_def pmm_wf_def)
  moreover have "can_alloc (pmm_alloc 1) 8 demo_pci"
    using can_alloc_mono [OF good(3), of 8] can_alloc_same [OF same] by simp
  moreover have "block_pages (block_bytes mcfg_link_size) = 2" "unat mcfg_link_size < 2 ^ 48" by code_simp (simp add: mcfg_link_size_def)
  ultimately obtain q where q: "malloc_room demo_pci mcfg_link_size q"
    using two_page_room [OF inv] by (auto simp: memory_base_def)
  moreover have "heap_inv (s'\<lparr>mcfg_links := l, mcfg_head := h, console := t\<rparr>)"
    if "calloc mcfg_link_size demo_pci = Inr (a, s')" for a s' l h t
    using calloc_block [OF q] that by (subst heap_inv_same [of _ s']) auto
  ultimately show "pci_room 1 demo_pci" by auto
qed

lemma demo_pci_reads:
  assumes "f = 0 \<or> f = 0x7FE0000" and "k + n \<le> 4096"
  shows "reads (kernel_reader demo_pci) (\<lambda>x. demo_pci_contents (x - virtual_physical_base)) (f + virtual_physical_base + of_nat k) n"
  unfolding reads_def
proof (intro allI impI)
  fix i assume i: "i < n"
  then have ki: "k + i < 4096" using assms(2) by simp
  have a: "f + virtual_physical_base + of_nat k + of_nat i = f + virtual_physical_base + of_nat (k + i)"
    by (simp add: ac_simps)
  have "f + virtual_physical_base + of_nat (k + i) - virtual_physical_base = f + of_nat (k + i)" by simp
  then show "kernel_reader demo_pci (f + virtual_physical_base + of_nat k + of_nat i) =
      Inr (demo_pci_contents (f + virtual_physical_base + of_nat k + of_nat i - virtual_physical_base))"
    unfolding a using demo_window [OF assms(1) ki, of demo_pci_contents]
    by (simp only: kernel_reader_def virt_load8_def demo_pci_fields option.case)
qed

lemma demo_pci_table:
  "get_table (kernel_reader demo_pci) demo_info (demo_lit ''MCFG'') = Inr (0x7FE0100 + virtual_physical_base)"
proof -
  let ?rd = "kernel_reader demo_pci" and ?vm = "\<lambda>x. demo_pci_contents (x - virtual_physical_base)"
  have sdt: "sdt_address demo_info = 0x7FE0000 + virtual_physical_base + of_nat 0" "rsdp_version demo_info = 1"
    by (simp_all add: demo_info_def)
  have v: "rsdp_version demo_info \<in> {1, 2}" "(4 :: nat) = (if rsdp_version demo_info = 1 then 4 else 8)" by (simp_all add: sdt)
  have len: "unat (load_le 4 ?vm (sdt_address demo_info + 4)) = 36 + 4 * 1" by code_simp
  have r: "reads ?rd ?vm (sdt_address demo_info) (36 + 4 * 1)" unfolding sdt by (intro demo_pci_reads) simp_all
  have list: "table_list 1 4 ?vm (sdt_address demo_info + 36) = [0x7FE0100 + virtual_physical_base]" by code_simp
  have h: "reads ?rd ?vm h 4" if "h \<in> set (table_list 1 4 ?vm (sdt_address demo_info + 36))" for h
  proof -
    have "h = 0x7FE0000 + virtual_physical_base + of_nat 0x100" using that unfolding list by simp
    then show ?thesis by (simp only:) (intro demo_pci_reads, simp_all)
  qed
  have "demo_lit ''MCFG'' = 0x7FE0000 + virtual_physical_base + of_nat 0x808" by (simp add: demo_lit_def mm_consts)
  then have sig: "reads ?rd ?vm (demo_lit ''MCFG'') 4" by (simp only:) (intro demo_pci_reads, simp_all)
  have "same_signature ?vm (demo_lit ''MCFG'') (0x7FE0100 + virtual_physical_base)"
    unfolding same_signature_def by code_simp
  then show ?thesis using get_table_prefix [OF v len _ r h sig] unfolding list by (simp add: sdt(2))
qed

lemma demo_pci_bytes:
  assumes "j < 16"
  shows "upper_byte demo_pci (0x7FE0100 + virtual_physical_base + 44 + of_nat j) (mcfg_bytes demo_mcfg ! j)"
proof -
  have k: "0x12C + j < 4096" using assms by simp
  have a: "0x7FE0100 + virtual_physical_base + 44 + of_nat j = 0x7FE0000 + virtual_physical_base + of_nat (0x12C + j)" by simp
  have "list_all (\<lambda>j. demo_pci_contents (0x7FE012C + of_nat j) = mcfg_bytes demo_mcfg ! j) [0..<16]" by code_simp
  then have "demo_pci_contents (0x7FE012C + of_nat j) = mcfg_bytes demo_mcfg ! j"
    using assms unfolding list_all_iff by simp
  moreover have "0x7FE012C + of_nat j = (0x7FE0000 + of_nat (0x12C + j) :: u64)" by simp
  ultimately have "upper_byte (demo_heaped demo_pci_contents) (0x7FE0000 + virtual_physical_base + of_nat (0x12C + j)) (mcfg_bytes demo_mcfg ! j)"
    using demo_heaped_byte [OF k] by (simp only:)
  then show ?thesis unfolding a by (subst upper_byte_same [of _ "demo_heaped demo_pci_contents"]) simp_all
qed

section \<open>Properties\<close>

text \<open>C36: \<open>Pci::init\<close> on a machine whose firmware has a table of windows: with room on the kernel heap for a
  node per window it returns, the list holds the entries of the table in their order (bytes behind the last
  whole entry are ignored), whoever iterates over the list sees exactly these, and from then on the
  configuration space is reached through memory. No device has been accessed.\<close>

theorem pci_init_lists_windows:
  fixes s :: "'a pci_state_scheme"
  assumes "get_table (kernel_reader s) (rsdp s) (lit ''MCFG'') = Inr table" "table \<noteq> 0"
    and "read_member SdtHeader ''length'' (kernel_reader s) table = Inr (of_nat (44 + 16 * length es + r))"
    and "r < 16" "length es < 2 ^ 27"
    and "pci_room (length es) s" "term_ok (console s)" "mcfg_head s = 0"
    and "\<forall>j < 16 * length es. upper_byte s (table + 44 + of_nat j) (concat (map mcfg_bytes es) ! j)"
  shows "\<exists>s' ps. pci_init lit s = Inr s' \<and> pci_mmapped s' \<and> list_at (mcfg_entries s') ps es \<and>
    (\<forall>iter. iterates iter \<longrightarrow> iter (mcfg_entries s') = es) \<and> io_trace s' = io_trace s \<and> heap_inv s'"
proof -
  have "length (concat (map mcfg_bytes es)) = 16 * length es" by (induction es) simp_all
  then have bytes: "upper_byte s (table + 44 + of_nat j) (concat (map mcfg_bytes es) ! j)"
    if "j < length (concat (map mcfg_bytes es))" for j using assms(9) that by simp
  obtain s' ps where "pci_init lit s = Inr s'" "pci_mmapped s'" "list_at (mcfg_entries s') ps es"
    "term_ok (console s')" "io_trace s' = io_trace s" "heap_inv s'"
    by (rule pci_init_run [where es = es and s = s and lit = lit and r = r and table = table, OF assms(1-8) bytes]) (assumption, rule that)
  then show ?thesis by (auto simp: iterates_def)
qed

theorem pci_init_lists_windows_witness:
  "\<exists>s' ps. pci_init demo_lit demo_pci = Inr s' \<and> pci_mmapped s' \<and> list_at (mcfg_entries s') ps [demo_mcfg]"
proof -
  let ?t = "0x7FE0100 + virtual_physical_base"
  have "?t + 4 = 0x7FE0000 + virtual_physical_base + of_nat 0x104" by (simp add: mm_consts)
  then have "read_n 4 (kernel_reader demo_pci) (?t + 4) = Inr (load_le 4 (\<lambda>x. demo_pci_contents (x - virtual_physical_base)) (?t + 4))"
    by (simp only:) (intro read_n_reads demo_pci_reads, simp_all)
  moreover have "load_le 4 (\<lambda>x. demo_pci_contents (x - virtual_physical_base)) (?t + 4) = 72" by code_simp
  ultimately have len: "read_member SdtHeader ''length'' (kernel_reader demo_pci) ?t = Inr (of_nat (44 + 16 * length [demo_mcfg] + 12))"
    by (simp add: members)
  have "?t \<noteq> 0" "pci_room (length [demo_mcfg]) demo_pci" "term_ok (console demo_pci)" "mcfg_head demo_pci = 0"
    using demo_pci_heap(2) demo_term_ok by (simp_all add: mm_consts)
  moreover have "\<forall>j < 16 * length [demo_mcfg]. upper_byte demo_pci (?t + 44 + of_nat j) (concat (map mcfg_bytes [demo_mcfg]) ! j)"
    using demo_pci_bytes by simp
  ultimately show ?thesis
    using pci_init_lists_windows [of demo_pci demo_lit ?t "[demo_mcfg]" 12] demo_pci_table len by auto
qed

end
