(* ===== verification/PciAccess.thy ===== *)
theory PciAccess
  imports PciInit
begin

text \<open>
  Reads and writes through the windows: what \<open>mmap_read\<close> and \<open>mmap_write\<close> do where the kernel uses them,
  with the windows under the large pages of the direct map.
\<close>

unbundle bit_operations_syntax

section \<open>A page under a large page of the direct map\<close>

definition large_frame :: "u64 \<Rightarrow> u64" where
  "large_frame a = of_nat (unat a div 2 ^ 21) * 0x200000"

text \<open>The quadword that \<open>map_pages\<close> takes for the page-table entry of the address.\<close>

definition false_entry :: "u64 \<Rightarrow> u64" where
  "false_entry a = large_frame a + 8 * hw_index 0 (a + virtual_physical_base)"

definition direct_page :: "'a vmm_state_scheme \<Rightarrow> u64 \<Rightarrow> bool" where
  "direct_page s a \<longleftrightarrow> unat a < 2 ^ 47 \<and> 0x200000 \<le> unat a \<and>
     hw_walk (ram s) (cr3 s) (a + virtual_physical_base) = Page2M (huge_entry (large_frame a) 3) \<and>
     (\<forall>x. x div 4096 = large_frame a div 4096 \<longrightarrow> pmm_data s (cr3 s) x)"

lemma large_frame:
  assumes "unat a < 2 ^ 47"
  shows "frame_ok (large_frame a)" "entry_frame (huge_entry (large_frame a) 3) = large_frame a"
    "0x200000 \<le> unat a \<Longrightarrow> large_frame a \<noteq> 0"
proof -
  have "unat (of_nat (unat a div 2 ^ 21) :: u64) = unat a div 2 ^ 21"
    using assms by (simp add: unat_of_nat)
  then have u: "unat (large_frame a) = unat a div 2 ^ 21 * 2 ^ 21"
    using assms by (simp add: large_frame_def unat_mult_u64)
  have al: "aligned 12 (large_frame a)"
    unfolding aligned_def u by (intro dvd_mult le_imp_power_dvd) simp
  show ok: "frame_ok (large_frame a)" using u al assms by (simp add: frame_ok_def)
  have "huge_entry (large_frame a) 3 = large_frame a OR 0x83"
    by (simp add: huge_entry_def flag_bits_def vmm_flags or.assoc)
  then show "entry_frame (huge_entry (large_frame a) 3) = large_frame a"
    using ok by (simp add: entry_frame_flags frame_ok_def)
  show "large_frame a \<noteq> 0" if "0x200000 \<le> unat a"
    using that u by (auto simp flip: unat_eq_zero)
qed

text \<open>The windows hold none of the memory that the kernel uses for its tables and records.\<close>

definition window_apart :: "(u64 \<Rightarrow> bool) \<Rightarrow> 'a vmm_state_scheme \<Rightarrow> bool" where
  "window_apart window s \<longleftrightarrow> (\<forall>x. window x \<longrightarrow> pmm_data s (cr3 s) x)"

text \<open>The quadword that \<open>map_pages\<close> stores there: two requests to the device, or a change of memory.\<close>

definition false_entry_stored :: "(u64 \<Rightarrow> bool) \<Rightarrow> u64 \<Rightarrow> 'a device_state_scheme \<Rightarrow> 'a device_state_scheme" where
  "false_entry_stored window a s =
     (let f = false_entry a; q = leaf_entry a VMM_WRITE
      in if window f
         then s\<lparr>io_trace := io_trace s @ [Wrote (Mmio f) 4 (ucast q), Wrote (Mmio (f + 4)) 4 (ucast (drop_bit 32 q))]\<rparr>
         else s\<lparr>ram := store64 (ram s) f q\<rparr>)"

lemma false_entry_stored_eq:
  "window_store64 window (false_entry a) (leaf_entry a VMM_WRITE) s = false_entry_stored window a s"
  by (simp add: window_store64_def false_entry_stored_def io_write_def Let_def)

lemma false_entry_stored_same:
  "cr3 (false_entry_stored window a s) = cr3 s" "bitmap (false_entry_stored window a s) = bitmap s"
  "bitmap_len (false_entry_stored window a s) = bitmap_len s"
  by (simp_all add: false_entry_stored_def Let_def)

lemma direct_page_same:
  fixes s :: "'a vmm_state_scheme" and t :: "'b vmm_state_scheme"
  assumes "ram t = ram s" "bitmap t = bitmap s" "bitmap_len t = bitmap_len s" "cr3 t = cr3 s"
  shows "direct_page t a = direct_page s a" "window_apart window t = window_apart window s"
    "space_ok t (cr3 t) = space_ok s (cr3 s)"
  using space_ok_same(1) [OF assms(1-3)]
  unfolding direct_page_def window_apart_def assms(1,4) pmm_data_same [OF assms(1-3)] by simp_all

text \<open>The entries of the tables are in memory.\<close>

lemma window_table_entry:
  assumes "window_apart window s" "t \<in> table_frames (ram s) (cr3 s)" "frame_ok t" "i < 512"
    and "ent (ram s) (t + virtual_physical_base) i AND address_mask = f" "f \<noteq> 0"
  shows "window_get_or_alloc_ent dev window (t + virtual_physical_base) i flags s = Inr (f + virtual_physical_base, s)"
proof -
  have "aligned 12 t" using assms(3) by (simp add: frame_ok_def)
  moreover have "in_range (t + 8 * i) (t + 8 * i) 8" by (simp add: in_range_def)
  ultimately have "(t + 8 * i) div 4096 = t div 4096" by (rule slot_byte_page [OF _ assms(4)])
  then have "\<not> pmm_data s (cr3 s) (t + 8 * i)" using assms(2) by (auto simp: pmm.data_byte_def)
  then have "\<not> window (t + 8 * i)" using assms(1) by (auto simp: window_apart_def)
  then show ?thesis
    using assms(5,6) table_pointer_not_null [OF assms(3)]
    by (simp add: window_get_or_alloc_ent_def window_load64_def ent_def Let_def)
qed

lemma direct_page_map:
  fixes s :: "'a device_state_scheme"
  assumes space: "space_ok s (cr3 s)" and page: "direct_page s a" and apart: "window_apart window s"
  shows "window_map_page dev window (cr3 s) (a + virtual_physical_base) a VMM_WRITE s = Inr (false_entry_stored window a s)"
proof -
  let ?F = "large_frame a" and ?v = "a + virtual_physical_base"
  let ?o = "virtual_to_entries ?v"
  have a: "unat a < 2 ^ 47" "0x200000 \<le> unat a" "hw_walk (ram s) (cr3 s) ?v = Page2M (huge_entry ?F 3)"
    using page by (auto simp: direct_page_def)
  note f = large_frame(1,2) [OF a(1)] large_frame(3) [OF a(1,2)]
  obtain pdp pd where t: "cr3 s \<in> table_frames (ram s) (cr3 s)" "pdp \<in> table_frames (ram s) (cr3 s)"
    "pd \<in> table_frames (ram s) (cr3 s)" "frame_ok (cr3 s)" "frame_ok pdp" "frame_ok pd" "pdp \<noteq> 0" "pd \<noteq> 0"
    "ent (ram s) (cr3 s + virtual_physical_base) (pml4_idx ?o) AND address_mask = pdp"
    "ent (ram s) (pdp + virtual_physical_base) (pdp_idx ?o) AND address_mask = pd"
    "ent (ram s) (pd + virtual_physical_base) (pd_idx ?o) = huge_entry ?F 3"
    by (rule large_page_entries [OF space a(3)]) (rule that)
  have "ent (ram s) (pd + virtual_physical_base) (pd_idx ?o) AND address_mask = ?F"
    using f(2) unfolding t(11) entry_frame_def .
  note entries = window_table_entry [OF apart t(1,4) entries_less(1) t(9,7)]
    window_table_entry [OF apart t(2,5) entries_less(2) t(10,8)]
    window_table_entry [OF apart t(3,6) entries_less(3) this f(3)]
  have e: "false_entry a = ?F + 8 * pt_idx ?o" by (simp add: false_entry_def hw_index_entries)
  show ?thesis
    using table_pointer_not_null [OF f(1)]
    by (simp add: window_map_page_def Let_def entries leaf_entry_def flip: false_entry_stored_eq e)
qed

lemma direct_page_stored:
  fixes s :: "'a device_state_scheme"
  assumes space: "space_ok s (cr3 s)" and page: "direct_page s a" and apart: "window_apart window s"
  shows "hw_walk (ram (false_entry_stored window a s)) (cr3 s) = hw_walk (ram s) (cr3 s)"
    and "space_ok (false_entry_stored window a s) (cr3 s)"
    and "direct_page (false_entry_stored window a s) b = direct_page s b"
    and "window_apart window (false_entry_stored window a s)"
proof -
  let ?s = "false_entry_stored window a s" and ?v = "a + virtual_physical_base"
  have keep: "ram ?s x = ram s x" if "\<not> pmm_data s (cr3 s) x" for x
  proof -
    have "unat a < 2 ^ 47" "\<And>x. x div 4096 = large_frame a div 4096 \<Longrightarrow> pmm_data s (cr3 s) x"
      using page by (auto simp: direct_page_def)
    then have "\<not> in_range x (false_entry a) 8"
      using that slot_byte_page [of "large_frame a" "hw_index 0 ?v" x] large_frame(1) [of a] idx_less_512
      by (auto simp: false_entry_def frame_ok_def hw_index_def)
    then show ?thesis by (simp add: false_entry_stored_def store64_outside Let_def)
  qed
  note st = data_store [OF space, of "ram ?s", OF keep]
  show walk: "hw_walk (ram ?s) (cr3 s) = hw_walk (ram s) (cr3 s)" by (rule st(2))
  have same: "ram ?s = ram (s\<lparr>ram := ram ?s\<rparr>)" "bitmap ?s = bitmap (s\<lparr>ram := ram ?s\<rparr>)"
    "bitmap_len ?s = bitmap_len (s\<lparr>ram := ram ?s\<rparr>)" "cr3 ?s = cr3 (s\<lparr>ram := ram ?s\<rparr>)"
    by (simp_all add: false_entry_stored_same)
  note eq = direct_page_same [OF same]
  show "space_ok ?s (cr3 s)" using eq(3) st(1) by (simp add: false_entry_stored_same)
  show "direct_page ?s b = direct_page s b" unfolding eq(1) using st(2,3) by (simp add: direct_page_def)
  show "window_apart window ?s" unfolding eq(2) using st(3) apart by (simp add: window_apart_def)
qed

section \<open>One access\<close>

lemma direct_page_reaches:
  fixes s :: "'a device_state_scheme"
  assumes "space_ok s (cr3 s)" "direct_page s a" "window_apart window s"
  shows "hw_translate (ram (false_entry_stored window a s)) (cr3 (false_entry_stored window a s)) (a + virtual_physical_base) = Some a"
  using assms(2) direct_page_stored(1) [OF assms] unfolding false_entry_stored_same
  by (intro direct_translate) (simp_all add: direct_page_def large_frame_def)

lemma mmap_load_run:
  fixes s :: "'a device_state_scheme"
  assumes "space_ok s (cr3 s)" "direct_page s a" "window_apart window s" "window a"
    and a: "a = ecam_address e bus slot_no func offset"
  shows "mmap_load dev window e bus slot_no func offset s = Inr (io_read dev (Mmio a) 4 (false_entry_stored window a s))"
  using direct_page_map [OF assms(1-3)] direct_page_reaches [OF assms(1-3)] assms(4)
  by (simp add: mmap_load_def Let_def get_current_context_def pci_load32_def flip: a)

lemma mmap_store_run:
  fixes s :: "'a device_state_scheme"
  assumes "space_ok s (cr3 s)" "direct_page s a" "window_apart window s" "window a"
    and a: "a = ecam_address e bus slot_no func offset"
  shows "mmap_store dev window e bus slot_no func offset v s = Inr (io_write (Mmio a) 4 v (false_entry_stored window a s))"
  using direct_page_map [OF assms(1-3)] direct_page_reaches [OF assms(1-3)] assms(4)
  by (simp add: mmap_store_def Let_def get_current_context_def pci_store32_def flip: a)

text \<open>The entries that are not passed over.\<close>

definition mcfg_taken :: "u16 \<Rightarrow> u8 \<Rightarrow> mcfg_entry \<Rightarrow> bool" where
  "mcfg_taken segment bus e \<longleftrightarrow>
     mcfg_segment e = segment \<or> start_bus_number e < bus \<or> bus < end_bus_number e"

lemma skipped_taken: "mcfg_skipped e segment bus \<longleftrightarrow> \<not> mcfg_taken segment bus e"
  by (auto simp: mcfg_skipped_def mcfg_taken_def)

lemma several_buses_taken: "start_bus_number e < end_bus_number e \<Longrightarrow> mcfg_taken segment bus e"
  by (auto simp: mcfg_taken_def)

lemma mmap_read_from_run:
  fixes s :: "'a device_state_scheme"
  assumes "space_ok s (cr3 s)" "window_apart window s"
    and "\<forall>e \<in> set es. direct_page s (ecam_address e bus slot_no func offset) \<and> window (ecam_address e bus slot_no func offset)"
  shows "mmap_read_from dev window segment bus slot_no func offset es s =
    (case find (mcfg_taken segment bus) es of
       None \<Rightarrow> Inr (0, s)
     | Some e \<Rightarrow> let a = ecam_address e bus slot_no func offset
        in Inr (io_read dev (Mmio a) 4 (false_entry_stored window a s)))"
  using assms(3)
proof (induction es)
  case (Cons e es)
  then show ?case using mmap_load_run [OF assms(1) _ assms(2) _ refl, of e bus slot_no func offset]
    by (simp add: skipped_taken Let_def)
qed simp

text \<open>One step of the loop of \<open>mmap_write\<close>.\<close>

definition window_written :: "(u64 \<Rightarrow> bool) \<Rightarrow> u32 \<Rightarrow> u64 \<Rightarrow> 'a device_state_scheme \<Rightarrow> 'a device_state_scheme" where
  "window_written window v a s =
     (let s1 = false_entry_stored window a s in s1\<lparr>io_trace := io_trace s1 @ [Wrote (Mmio a) 4 v]\<rparr>)"

lemma mmap_write_from_run:
  fixes s :: "'a device_state_scheme"
  assumes "space_ok s (cr3 s)" "window_apart window s"
    and "\<forall>e \<in> set es. direct_page s (ecam_address e bus slot_no func offset) \<and> window (ecam_address e bus slot_no func offset)"
  shows "\<exists>s'. mmap_write_from dev window segment bus slot_no func offset v es s = Inr s' \<and>
    s' = fold (\<lambda>e. window_written window v (ecam_address e bus slot_no func offset)) (filter (mcfg_taken segment bus) es) s \<and>
    hw_walk (ram s') (cr3 s') = hw_walk (ram s) (cr3 s)"
  using assms
proof (induction es arbitrary: s)
  case (Cons e es)
  let ?a = "ecam_address e bus slot_no func offset"
  define s1 where "s1 = window_written window v ?a s"
  have e: "direct_page s ?a" "window ?a" using Cons.prems(3) by auto
  show ?case
  proof (cases "mcfg_taken segment bus e")
    case True
    have st: "mmap_store dev window e bus slot_no func offset v s = Inr s1"
      using mmap_store_run [where window = window, OF Cons.prems(1) e(1) Cons.prems(2) e(2) refl]
      by (simp add: s1_def window_written_def io_write_def Let_def)
    have same: "ram s1 = ram (false_entry_stored window ?a s)" "bitmap s1 = bitmap (false_entry_stored window ?a s)"
      "bitmap_len s1 = bitmap_len (false_entry_stored window ?a s)" "cr3 s1 = cr3 (false_entry_stored window ?a s)"
      by (simp_all add: s1_def window_written_def Let_def)
    note eq = direct_page_same [OF same] and stored = direct_page_stored [OF Cons.prems(1) e(1) Cons.prems(2)]
    have "space_ok s1 (cr3 s1)" "window_apart window s1"
      "\<forall>e \<in> set es. direct_page s1 (ecam_address e bus slot_no func offset) \<and> window (ecam_address e bus slot_no func offset)"
      unfolding eq using stored Cons.prems(3) by (simp_all add: false_entry_stored_same)
    note IH = Cons.IH [OF this]
    moreover have "hw_walk (ram s1) (cr3 s1) = hw_walk (ram s) (cr3 s)"
      unfolding same false_entry_stored_same by (rule stored(1))
    ultimately show ?thesis using True st by (simp add: skipped_taken s1_def [symmetric])
  next
    case False
    then show ?thesis using Cons.IH [OF Cons.prems(1,2)] Cons.prems(3) by (simp add: skipped_taken)
  qed
qed simp

section \<open>Properties\<close>

text \<open>C38: a read through the windows, which lie under large pages of the direct map. The first entry of the
  list answers that is not passed over, and without one the result is 0. An entry is passed over only when
  it is of another segment and the bus is at most its first and at least its last: an entry of more than
  one bus never is, whatever its segment and its buses. The access is a read of four bytes at the address
  computed from the entry, but not the first one: \<open>map_pages\<close> takes the start of the 2 MiB block for a page
  table, so before the read a page-table entry is stored there, in configuration space when that is part
  of the window. Nothing gets mapped: every translation stays what it was.\<close>

theorem mmap_read_first_window:
  fixes s :: "'a pci_state_scheme"
  assumes "iterates iter" "list_at (mcfg_entries s) ps es" "space_ok s (cr3 s)" "window_apart window s"
    and "\<forall>e \<in> set es. direct_page s (ecam_address e bus slot_no func offset) \<and> window (ecam_address e bus slot_no func offset)"
  shows "mmap_read dev window iter segment bus slot_no func offset s =
      (case find (mcfg_taken segment bus) es of
         None \<Rightarrow> Inr (0, s)
       | Some e \<Rightarrow> let a = ecam_address e bus slot_no func offset
          in Inr (io_read dev (Mmio a) 4 (false_entry_stored window a s))) \<and>
    (es \<noteq> [] \<and> start_bus_number (hd es) < end_bus_number (hd es) \<longrightarrow> find (mcfg_taken segment bus) es = Some (hd es)) \<and>
    (\<forall>v s'. mmap_read dev window iter segment bus slot_no func offset s = Inr (v, s') \<longrightarrow>
       hw_walk (ram s') (cr3 s') = hw_walk (ram s) (cr3 s))"
proof -
  have "iter (mcfg_entries s) = es" using assms(1,2) by (simp add: iterates_def)
  then have run: "mmap_read dev window iter segment bus slot_no func offset s =
      (case find (mcfg_taken segment bus) es of
         None \<Rightarrow> Inr (0, s)
       | Some e \<Rightarrow> let a = ecam_address e bus slot_no func offset
          in Inr (io_read dev (Mmio a) 4 (false_entry_stored window a s)))"
    using mmap_read_from_run [where window = window, OF assms(3-5)] by (simp only: mmap_read_def)
  have "hw_walk (ram s') (cr3 s') = hw_walk (ram s) (cr3 s)"
    if "mmap_read dev window iter segment bus slot_no func offset s = Inr (v, s')" for v s'
  proof (cases "find (mcfg_taken segment bus) es")
    case (Some e)
    then have "e \<in> set es" by (auto simp: find_Some_iff)
    then have "direct_page s (ecam_address e bus slot_no func offset)" using assms(5) by blast
    note walk = direct_page_stored(1) [OF assms(3) this assms(4)]
    show ?thesis using that Some walk by (auto simp: run Let_def io_read_def false_entry_stored_same)
  qed (use that in \<open>simp add: run\<close>)
  moreover have "find (mcfg_taken segment bus) es = Some (hd es)"
    if "es \<noteq> []" "start_bus_number (hd es) < end_bus_number (hd es)"
    using that by (cases es) (simp_all add: several_buses_taken)
  ultimately show ?thesis using run by blast
qed

text \<open>C39: a write through the windows is made once for every entry of the list that is not passed over, in
  their order: for every entry of more than one bus, whatever segment is meant. Each write is preceded by
  the store of a page-table entry at the start of its 2 MiB block, and nothing gets mapped.\<close>

theorem mmap_write_every_window:
  fixes s :: "'a pci_state_scheme"
  assumes "iterates iter" "list_at (mcfg_entries s) ps es" "space_ok s (cr3 s)" "window_apart window s"
    and "\<forall>e \<in> set es. direct_page s (ecam_address e bus slot_no func offset) \<and> window (ecam_address e bus slot_no func offset)"
  shows "\<exists>s'. mmap_write dev window iter segment bus slot_no func offset v s = Inr s' \<and>
    s' = fold (\<lambda>e s. let s1 = false_entry_stored window (ecam_address e bus slot_no func offset) s
           in s1\<lparr>io_trace := io_trace s1 @ [Wrote (Mmio (ecam_address e bus slot_no func offset)) 4 v]\<rparr>)
         (filter (mcfg_taken segment bus) es) s \<and>
    ((\<forall>e \<in> set es. start_bus_number e < end_bus_number e) \<longrightarrow> filter (mcfg_taken segment bus) es = es) \<and>
    hw_walk (ram s') (cr3 s') = hw_walk (ram s) (cr3 s)"
proof -
  have "iter (mcfg_entries s) = es" using assms(1,2) by (simp add: iterates_def)
  moreover have "filter (mcfg_taken segment bus) es = es" if "\<forall>e \<in> set es. start_bus_number e < end_bus_number e"
    using that several_buses_taken by (simp add: filter_id_conv)
  ultimately show ?thesis
    using mmap_write_from_run [where window = window, OF assms(3-5)] unfolding mmap_write_def window_written_def [symmetric]
    by blast
qed

section \<open>A machine whose window lies under a large page\<close>

text \<open>An iteration that follows the nodes.\<close>

partial_function (option) link_values :: "('v, 'h) list_state \<Rightarrow> u64 \<Rightarrow> 'v list option" where
  "link_values l p =
     (if p = 0 then Some []
      else case links l p of
          None \<Rightarrow> None
        | Some n \<Rightarrow> Option.bind (link_values l (link_next n)) (\<lambda>vs. Some (link_data n # vs)))"

definition follow :: "'h iteration" where
  "follow l = (case link_values l (list_head l) of None \<Rightarrow> [] | Some vs \<Rightarrow> vs)"

lemma link_values_path:
  "path (links l) p ps 0 \<Longrightarrow> node_values (links l) ps = map Some es \<Longrightarrow> link_values l p = Some es"
proof (induction ps arbitrary: p es)
  case (Cons q ps)
  then obtain n vs where n: "p = q" "q \<noteq> 0" "links l q = Some n" "path (links l) (link_next n) ps 0"
    "es = link_data n # vs" "node_values (links l) ps = map Some vs"
    by (auto split: option.splits)
  with Cons.IH [OF n(4,6)] show ?case by (subst link_values.simps) simp
qed (auto simp: link_values.simps)

lemma follow_iterates: "iterates follow"
  by (auto simp: iterates_def follow_def list_at_def list_linked_def dest: link_values_path)

definition demo_ecam :: smp_state where
  "demo_ecam =
     (let s = demo_booted (\<lambda>_. 0)
      in case map_huge_pages (pmm_alloc 1) (cr3 s) (0xB0000000 + virtual_physical_base) 0xB0000000 1 3 s of
           Inl e \<Rightarrow> s | Inr (b, s') \<Rightarrow> s')"

definition demo_windows :: pci_state where
  "demo_windows = acpi_state.extend (smp_state.extend demo_ecam \<lparr>rsdp = demo_info, madt = 0\<rparr>)
     \<lparr>mcfg_links = [0x1000 \<mapsto> \<lparr>link_data = demo_mcfg, link_next = 0, link_index = 0\<rparr>], mcfg_head = 0x1000, pci_mmapped = True\<rparr>"

lemma demo_windows_fields [simp]:
  "ram demo_windows = ram demo_ecam" "cr3 demo_windows = cr3 demo_ecam" "bitmap demo_windows = bitmap demo_ecam"
  "bitmap_len demo_windows = bitmap_len demo_ecam" "io_trace demo_windows = io_trace demo_ecam"
  by (simp_all add: demo_windows_def smp_state.defs acpi_state.defs)

lemma demo_windows_list: "list_at (mcfg_entries demo_windows) [0x1000] [demo_mcfg]"
  by (simp add: mcfg_entries_def demo_windows_def smp_state.defs acpi_state.defs list_at_def list_linked_def numbered_def)

lemma demo_ecam_run:
  "space_ok demo_ecam small_root" "cr3 demo_ecam = small_root"
  "block_number 21 w = block_number 21 (0xB0000000 + virtual_physical_base) \<Longrightarrow>
    hw_walk (ram demo_ecam) small_root w = Page2M (huge_entry 0xB0000000 3)"
  "8224 \<le> unat x div 4096 \<Longrightarrow> pmm_data demo_ecam small_root x" "io_trace demo_ecam = []"
proof -
  let ?s = "demo_booted (\<lambda>_. 0)" and ?v = "0xB0000000 + virtual_physical_base"
  note good = demo_booted_good(1) [of "\<lambda>_. 0"]
  have perms: "perms_ok 3" by (simp add: perms_ok_def)
  have g: "space_ok ?s small_root" "first_fit ?s" "can_alloc (pmm_alloc 1) 19 ?s" "cr3 ?s = small_root" "io_trace ?s = []"
    using good by (simp_all add: demo_good_def)
  have can: "can_alloc (pmm_alloc 1) (17 + 2) ?s" using g(3) by simp
  obtain s' where s': "map_huge_pages (pmm_alloc 1) small_root ?v 0xB0000000 1 3 ?s = Inr (True, s')"
    "space_ok s' small_root" "pmm.grows ?s s' small_root"
    "\<And>w. hw_walk (ram s') small_root w = (if block_number 21 w = block_number 21 ?v
       then Page2M (huge_entry 0xB0000000 3) else hw_walk (ram ?s) small_root w)"
    by (rule map_large_first_fit [where phys = "0xB0000000" and v = ?v, OF g(1,2) perms can]) (rule that)
  have eq: "demo_ecam = s'" by (simp add: demo_ecam_def g(4) s'(1))
  show "space_ok demo_ecam small_root" unfolding eq by (rule s'(2))
  show "cr3 demo_ecam = small_root" "io_trace demo_ecam = []"
    using map_huge_keeps_smp [OF s'(1)] g(4,5) by (simp_all add: eq)
  show "hw_walk (ram demo_ecam) small_root w = Page2M (huge_entry 0xB0000000 3)" if "block_number 21 w = block_number 21 ?v"
    using that s'(4) by (simp add: eq)
  show "pmm_data demo_ecam small_root x" if "8224 \<le> unat x div 4096"
    using pmm.grows_data(1) [OF s'(3)] demo_good_data [OF good] that unfolding eq by blast
qed

lemma steps_inj:
  assumes "steps b v w = steps b v w'"
  shows "block_number b w = block_number b w'"
proof -
  let ?N = "2 ^ (48 - b) :: int"
  have "(uint w div 2 ^ b - uint v div 2 ^ b) mod ?N = (uint w' div 2 ^ b - uint v div 2 ^ b) mod ?N"
    using arg_cong [where f = int, OF assms] by (simp only: int_steps)
  then have "uint w div 2 ^ b mod ?N = uint w' div 2 ^ b mod ?N" by (simp add: mod_eq_dvd_iff)
  then show ?thesis by (simp only: word_uint_eq_iff uint_block_number)
qed

lemma demo_windows_page:
  assumes "unat a div 2 ^ 21 = 1408"
  shows "space_ok demo_windows (cr3 demo_windows)" "direct_page demo_windows a"
proof -
  have same: "ram demo_windows = ram demo_ecam" "bitmap demo_windows = bitmap demo_ecam" "bitmap_len demo_windows = bitmap_len demo_ecam"
    by simp_all
  show "space_ok demo_windows (cr3 demo_windows)"
    using demo_ecam_run(1,2) space_ok_same(1) [OF same] by simp
  have f: "large_frame a = 0xB0000000" unfolding large_frame_def assms by simp
  have "unat a div 0x200000 = 1408" using assms by simp
  then have "1408 * 0x200000 \<le> unat a" "unat a < 1409 * 0x200000" by linarith+
  then have a: "unat a < 2 ^ 47" "0x200000 \<le> unat a" by simp_all
  have "steps 21 virtual_physical_base (a + virtual_physical_base) = steps 21 virtual_physical_base (0xB0000000 + virtual_physical_base)"
    using direct_steps(1) [OF a(1)] direct_steps(1) [of "0xB0000000"] assms by simp
  then have "block_number 21 (a + virtual_physical_base) = block_number 21 (0xB0000000 + virtual_physical_base)"
    by (rule steps_inj)
  moreover have "8224 \<le> unat x div 4096" if "x div 4096 = large_frame a div 4096" for x
    using arg_cong [where f = unat, OF that] by (simp add: f unat_div)
  ultimately show "direct_page demo_windows a"
    using a demo_ecam_run(2-4) pmm_data_same [OF same] by (simp add: direct_page_def f)
qed

definition demo_window :: "u64 \<Rightarrow> bool" where
  "demo_window p \<longleftrightarrow> 0xB0000000 \<le> p \<and> p < 0xC0000000"

definition demo_answer :: devices where
  "demo_answer tr p n = 0x12378086"

lemma demo_window_apart: "window_apart demo_window demo_windows"
proof -
  have same: "ram demo_windows = ram demo_ecam" "bitmap demo_windows = bitmap demo_ecam" "bitmap_len demo_windows = bitmap_len demo_ecam"
    by simp_all
  have "pmm_data demo_ecam small_root x" if "demo_window x" for x
  proof (rule demo_ecam_run(4))
    have "0xB0000000 \<le> unat x" using that by (simp add: demo_window_def word_le_nat_alt)
    then show "8224 \<le> unat x div 4096" by simp
  qed
  then show ?thesis using demo_ecam_run(2) pmm_data_same [OF same] by (simp add: window_apart_def)
qed

text \<open>The read of a register that lies at the start of a block, for a segment that no entry has: the device
  sees the entry that \<open>map_pages\<close> stores, and then the read.\<close>

theorem mmap_read_first_window_witness:
  "mmap_read demo_answer demo_window follow 5 0 0 0 0 demo_windows = Inr (0x12378086,
     demo_windows\<lparr>io_trace := [Wrote (Mmio 0xB0000000) 4 0xB0000003, Wrote (Mmio 0xB0000004) 4 0,
       Read (Mmio 0xB0000000) 4 0x12378086]\<rparr>)"
proof -
  have a: "ecam_address demo_mcfg 0 0 0 0 = 0xB0000000" by code_simp
  have bus: "start_bus_number demo_mcfg < end_bus_number demo_mcfg" by code_simp
  have w: "demo_window 0xB0000000" by code_simp
  have "unat (0xB0000000 :: u64) div 2 ^ 21 = 1408" by simp
  note page = demo_windows_page [OF this]
  have all: "\<forall>e \<in> set [demo_mcfg]. direct_page demo_windows (ecam_address e 0 0 0 0) \<and> demo_window (ecam_address e 0 0 0 0)"
    using w page(2) a by simp
  note run = mmap_read_first_window [OF follow_iterates demo_windows_list page(1) demo_window_apart all, where dev = demo_answer and segment = 5]
  have "find (mcfg_taken 5 0) [demo_mcfg] = Some demo_mcfg" using run bus by simp
  moreover have "hw_index 0 (0xB0000000 + virtual_physical_base) = 0" "large_frame 0xB0000000 = 0xB0000000"
    by code_simp (simp add: large_frame_def)
  then have "false_entry 0xB0000000 = 0xB0000000" "leaf_entry 0xB0000000 VMM_WRITE = 0xB0000003"
    by (simp add: false_entry_def) code_simp
  ultimately show ?thesis
    using run w by (simp add: a false_entry_stored_def io_read_def Let_def demo_answer_def demo_ecam_run(5))
qed

theorem mmap_write_every_window_witness:
  "mmap_write demo_answer demo_window follow 5 0 0 0 4 7 demo_windows = Inr (
     demo_windows\<lparr>io_trace := [Wrote (Mmio 0xB0000000) 4 0xB0000007, Wrote (Mmio 0xB0000004) 4 0,
       Wrote (Mmio 0xB0000004) 4 7]\<rparr>)"
proof -
  have a: "ecam_address demo_mcfg 0 0 0 4 = 0xB0000004" by code_simp
  have bus: "start_bus_number demo_mcfg < end_bus_number demo_mcfg" by code_simp
  have w: "demo_window 0xB0000004" "demo_window 0xB0000000" by code_simp+
  have "unat (0xB0000004 :: u64) div 2 ^ 21 = 1408" by simp
  note page = demo_windows_page [OF this]
  have all: "\<forall>e \<in> set [demo_mcfg]. direct_page demo_windows (ecam_address e 0 0 0 4) \<and> demo_window (ecam_address e 0 0 0 4)"
    using w page(2) a by simp
  note run = mmap_write_every_window [OF follow_iterates demo_windows_list page(1) demo_window_apart all,
      where dev = demo_answer and segment = 5 and v = 7]
  have "filter (mcfg_taken 5 0) [demo_mcfg] = [demo_mcfg]" using run bus by auto
  moreover have "hw_index 0 (0xB0000004 + virtual_physical_base) = 0" "large_frame 0xB0000004 = 0xB0000000"
    by code_simp (simp add: large_frame_def)
  then have "false_entry 0xB0000004 = 0xB0000000" "leaf_entry 0xB0000004 VMM_WRITE = 0xB0000007"
    by (simp add: false_entry_def) code_simp
  ultimately show ?thesis
    using run w by (simp add: a false_entry_stored_def Let_def demo_ecam_run(5))
qed

end
