(* ===== verification/BootMemory.thy ===== *)
theory BootMemory
  imports HeapSafety Apic
begin

text \<open>
  How the memory comes up: from the memory map that the boot loader leaves, through \<open>Pmm::init\<close> and
  \<open>Vmm::init\<close>, to an address space with an empty heap and a known number of pages to allocate.
\<close>

unbundle bit_operations_syntax

section \<open>Counting free pages\<close>

text \<open>Two pages can share a bit of the bitmap, so what can be allocated one by one is counted by the bits
  of the free pages.\<close>

definition free_slots :: "'a pmm_state_scheme \<Rightarrow> (u64 \<times> nat) set" where
  "free_slots s = slot ` {i. 8192 \<le> i \<and> i < bitmap_len s \<and> \<not> page_marked s i}"

lemma finite_free_slots [simp]: "finite (free_slots s)"
  by (simp add: free_slots_def)

lemma free_slots_take:
  assumes "aligned 3 (phys_of (bitmap s))"
  shows "card (free_slots s) \<le> card (free_slots (pmm_take idx c s)) + unat c"
proof -
  let ?T = "(\<lambda>k. slot (idx + of_nat k)) ` {..<unat c}"
  have "free_slots s \<subseteq> free_slots (pmm_take idx c s) \<union> ?T"
  proof
    fix x assume "x \<in> free_slots s"
    then obtain i where i: "x = slot i" "8192 \<le> i" "i < bitmap_len s" "\<not> page_marked s i" by (auto simp: free_slots_def)
    then show "x \<in> free_slots (pmm_take idx c s) \<union> ?T"
      using i(2-4) unfolding i(1) free_slots_def
      by (cases "slot i \<in> ?T") (force simp: page_marked_take [OF assms])+
  qed
  then have "card (free_slots s) \<le> card (free_slots (pmm_take idx c s) \<union> ?T)"
    by (intro card_mono) simp_all
  also have "\<dots> \<le> card (free_slots (pmm_take idx c s)) + card ?T" by (rule card_Un_le)
  also have "card ?T \<le> unat c" using card_image_le [of "{..<unat c}"] by simp
  finally show ?thesis by simp
qed

lemma free_slots_alloc:
  assumes "pmm_wf s" "pmm_alloc c s = Inr (p, s')"
  shows "card (free_slots s) \<le> card (free_slots s') + unat c"
  using assms(2)
proof (cases rule: pmm_alloc_cases)
  case (found idx)
  then show ?thesis using free_slots_take [OF pmm_wf_aligned [OF assms(1)]] by simp
qed simp

lemma can_alloc_slots:
  assumes "pmm_wf s" "n \<le> card (free_slots s)"
  shows "can_alloc (pmm_alloc 1) n s"
  using assms
proof (induction n arbitrary: s)
  case (Suc n)
  obtain p s' where run: "pmm_alloc 1 s = Inr (p, s')" using pmm_alloc_returns by blast
  have "free_slots s \<noteq> {}" using Suc.prems(2) by auto
  then obtain i where i: "8192 \<le> i" "i < bitmap_len s" "\<not> page_marked s i" by (auto simp: free_slots_def)
  have "p \<noteq> 0"
    using run
  proof (cases rule: pmm_alloc_cases)
    case exhausted
    then show ?thesis using i by (auto simp: first_page_eq bitmap_is_free_iff page_marked_def)
  next
    case (found idx)
    then have "unat p = unat idx * 4096" using unat_page [OF _ Suc.prems(1)] by simp
    moreover have "8192 \<le> unat idx" using found(1) by (simp add: first_page_eq word_le_nat_alt)
    ultimately show ?thesis by (auto simp flip: unat_eq_zero)
  qed
  moreover have "pmm_wf s'" using pmm_alloc_wf_any [OF run Suc.prems(1)] by simp
  moreover have "n \<le> card (free_slots s')" using free_slots_alloc [OF Suc.prems(1) run] Suc.prems(2) by simp
  ultimately show ?case using Suc.IH [of s'] run by (simp add: can_alloc.simps)
qed simp

text \<open>A bit stands for at most two pages.\<close>

lemma slot_pages:
  "unat i \<in> {64 * unat (fst (slot i)) + snd (slot i), 64 * unat (fst (slot i)) + snd (slot i) + 32}"
proof -
  have "unat i mod 64 mod 32 = unat i mod 32" by (simp add: mod_mod_cancel)
  moreover have "x mod 32 = x \<or> x mod 32 + 32 = x" if "x < 64" for x :: nat
    using that by (cases "x < 32") (simp_all add: le_mod_geq)
  ultimately have "unat i mod 64 = unat i mod 32 \<or> unat i mod 64 = unat i mod 32 + 32"
    by (metis mod_less_divisor zero_less_numeral)
  moreover have "unat i = 64 * (unat i div 64) + unat i mod 64" by simp
  ultimately have "unat i = 64 * (unat i div 64) + unat i mod 32 \<or> unat i = 64 * (unat i div 64) + unat i mod 32 + 32"
    by linarith
  then show ?thesis by (simp add: slot_def unat_div)
qed

lemma card_slots:
  assumes "finite A"
  shows "card A \<le> 2 * card (slot ` A)"
proof -
  let ?f = "\<lambda>x :: u64 \<times> nat. 64 * unat (fst x) + snd x"
  have "unat ` A \<subseteq> ?f ` (slot ` A) \<union> (\<lambda>x. ?f x + 32) ` (slot ` A)"
    using slot_pages by fastforce
  then have "card (unat ` A) \<le> card (?f ` (slot ` A) \<union> (\<lambda>x. ?f x + 32) ` (slot ` A))"
    using assms by (intro card_mono) simp_all
  also have "\<dots> \<le> card (?f ` (slot ` A)) + card ((\<lambda>x. ?f x + 32) ` (slot ` A))" by (rule card_Un_le)
  also have "\<dots> \<le> card (slot ` A) + card (slot ` A)"
    using assms by (intro add_mono card_image_le) simp_all
  also have "card (unat ` A) = card A" by (intro card_image) (simp add: inj_on_def word_unat_eq_iff)
  finally show ?thesis by simp
qed

lemma free_slots_range:
  assumes "\<And>i. lo \<le> i \<Longrightarrow> i < hi \<Longrightarrow> \<not> page_marked s (of_nat i)" "8192 \<le> lo" "hi \<le> unat (bitmap_len s)"
  shows "hi - lo \<le> 2 * card (free_slots s)"
proof -
  let ?A = "of_nat ` {lo..<hi} :: u64 set"
  have u: "unat (of_nat i :: u64) = i" if "i < hi" for i
    using that assms(3) unat_u64_less [of "bitmap_len s"] by (simp add: unat_of_nat)
  have "inj_on (of_nat :: nat \<Rightarrow> u64) {lo..<hi}"
  proof (rule inj_onI)
    fix i j assume ij: "i \<in> {lo..<hi}" "j \<in> {lo..<hi}" and eq: "(of_nat i :: u64) = of_nat j"
    have "i < hi" "j < hi" using ij by simp_all
    from trans [OF u [OF this(1), symmetric] trans [OF arg_cong [where f = unat, OF eq] u [OF this(2)]]]
    show "i = j" .
  qed
  then have "hi - lo = card ?A" by (simp add: card_image)
  also have "\<dots> \<le> 2 * card (slot ` ?A)" by (rule card_slots) simp
  finally have "hi - lo \<le> 2 * card (slot ` ?A)" .
  moreover have "slot ` ?A \<subseteq> free_slots s"
    unfolding free_slots_def
  proof (rule image_mono, rule subsetI, rule CollectI)
    fix x :: u64 assume "x \<in> ?A"
    then obtain i where i: "x = of_nat i" "lo \<le> i" "i < hi" by auto
    have x: "unat x = i" unfolding i(1) by (rule u [OF i(3)])
    have "8192 \<le> x" "x < bitmap_len s" using x i(2,3) assms(2,3) by (simp_all add: word_le_nat_alt word_less_nat_alt)
    then show "8192 \<le> x \<and> x < bitmap_len s \<and> \<not> page_marked s x" using assms(1) [OF i(2,3)] i(1) by blast
  qed
  then have "card (slot ` ?A) \<le> card (free_slots s)" by (intro card_mono) simp_all
  ultimately show ?thesis by linarith
qed

section \<open>The memory map\<close>

text \<open>\<open>usable_map mmap m\<close>: one region reaches from the start of the managed memory or below it to the end
  of page \<open>m\<close>; all other available regions end a page below the managed memory.\<close>

definition below_base :: "memory_map \<Rightarrow> bool" where
  "below_base e \<longleftrightarrow> (mm_type e = AVAILABLE \<longrightarrow> unat (mm_addr e) + unat (mm_len e) + 4096 \<le> unat memory_base)"

definition usable_map :: "memory_map list \<Rightarrow> nat \<Rightarrow> bool" where
  "usable_map mmap m \<longleftrightarrow> (\<exists>xs e ys. mmap = xs @ e # ys \<and> (\<forall>x \<in> set xs \<union> set ys. below_base x) \<and>
     mm_type e = AVAILABLE \<and> aligned 12 (mm_addr e) \<and> mm_addr e \<le> memory_base \<and>
     unat (mm_addr e) + unat (mm_len e) = 4096 * m)"

lemma find_memory_top_le:
  assumes "\<forall>x \<in> set xs. mm_type x = AVAILABLE \<longrightarrow> mm_addr x + mm_len x \<le> b" "hi \<le> b"
  shows "find_memory_top xs hi \<le> b"
  using assms by (induction xs arbitrary: hi) auto

lemma find_memory_top_same:
  assumes "\<forall>x \<in> set xs. mm_type x = AVAILABLE \<longrightarrow> mm_addr x + mm_len x \<le> hi"
  shows "find_memory_top xs hi = hi"
  using assms by (induction xs) auto

lemma find_memory_top_append: "find_memory_top (xs @ ys) hi = find_memory_top ys (find_memory_top xs hi)"
  by (induction xs arbitrary: hi) simp_all

lemma below_base_top:
  assumes "below_base e" "mm_type e = AVAILABLE"
  shows "mm_addr e + mm_len e \<le> memory_base"
proof -
  have b: "unat (mm_addr e) + unat (mm_len e) + 4096 \<le> 0x2000000" using assms by (simp add: below_base_def memory_base_def)
  then have "unat (mm_addr e + mm_len e) = unat (mm_addr e) + unat (mm_len e)" by (intro unat_add_u64) simp
  then show ?thesis using b by (simp add: word_le_nat_alt memory_base_def)
qed

lemma pmm_init_entry_below:
  assumes "below_base e"
  shows "pmm_init_entry bp e s = Inr s"
proof (cases "mm_type e = AVAILABLE")
  case True
  let ?start = "(mm_addr e + page_size - 1) div page_size * page_size" and ?len = "mm_len e div page_size * page_size"
  have b: "unat (mm_addr e) + unat (mm_len e) + 4096 \<le> 0x2000000" using assms True by (simp add: below_base_def memory_base_def)
  have "unat (mm_addr e + 4095) = unat (mm_addr e) + 4095" using b by (subst unat_add_u64) simp_all
  moreover have "mm_addr e + page_size - 1 = mm_addr e + 4095" by (simp add: page_size_def)
  ultimately have "unat ((mm_addr e + page_size - 1) div page_size) = (unat (mm_addr e) + 4095) div 4096"
    by (simp only: unat_div) (simp add: page_size_def)
  then have s: "unat ?start = (unat (mm_addr e) + 4095) div 4096 * 4096"
    using b by (subst unat_mult_u64) (simp_all add: page_size_def)
  have l: "unat ?len = unat (mm_len e) div 4096 * 4096"
    using b by (subst unat_mult_u64) (simp_all add: page_size_def unat_div)
  have "(unat (mm_addr e) + 4095) div 4096 * 4096 \<le> unat (mm_addr e) + 4095" "unat (mm_len e) div 4096 * 4096 \<le> unat (mm_len e)"
    by simp_all
  then have sum: "unat ?start + unat ?len < 0x2000000" using b unfolding s l by linarith
  then have "unat (?start + ?len) = unat ?start + unat ?len" by (intro unat_add_u64) simp
  then have "?start + ?len < memory_base" using sum by (simp add: word_less_nat_alt memory_base_def)
  then show ?thesis by (simp add: pmm_init_entry_def round_up_def round_down_def True)
qed (simp add: pmm_init_entry_def)

lemma pmm_init_entries_below: "\<forall>x \<in> set xs. below_base x \<Longrightarrow> pmm_init_entries bp (xs @ ys) s = pmm_init_entries bp ys s"
  by (induction xs) (simp_all add: pmm_init_entry_below)

text \<open>The region: the manager takes the pages behind the bytes of the bitmap.\<close>

definition region_start :: "nat \<Rightarrow> u64" where
  "region_start m = of_nat (0x2000000 + m div 8)"

definition region_pages :: "nat \<Rightarrow> u64" where
  "region_pages m = of_nat ((4096 * (m - 8192) - m div 8) div 4096)"

lemma unat_of_nat_less: "n < 2 ^ 64 \<Longrightarrow> unat (of_nat n :: u64) = n"
  by (simp add: unat_of_nat)

lemma pmm_init_entry_region:
  assumes e: "mm_type e = AVAILABLE" "aligned 12 (mm_addr e)" "mm_addr e \<le> memory_base"
      "unat (mm_addr e) + unat (mm_len e) = 4096 * m"
    and m: "8192 < m" "m < 2 ^ 32" "bitmap_len s = of_nat m"
  shows "pmm_init_entry memory_base e s = Inr (pmm_free (region_start m) (region_pages m) s)"
proof -
  obtain q where q: "unat (mm_addr e) = 4096 * q" using e(2) by (auto simp: aligned_def)
  have q8: "q \<le> 8192" using e(3) q by (simp add: word_le_nat_alt memory_base_def)
  have len: "unat (mm_len e) = 4096 * (m - q)" using e(4) q by (simp add: diff_mult_distrib2)
  have ps: "page_size \<noteq> 0" "unat page_size = 4096" by (simp_all add: page_size_def)
  have "unat (mm_addr e + 4095) = unat (mm_addr e) + 4095" using q q8 by (subst unat_add_u64) simp_all
  then have "unat ((mm_addr e + 4095) div page_size) = q" by (simp add: unat_div ps q)
  then have "unat ((mm_addr e + 4095) div page_size * page_size) = 4096 * q" using ps(2) q8 by (subst unat_mult_u64) simp_all
  moreover have p1: "mm_addr e + page_size - 1 = mm_addr e + 4095" by (simp add: page_size_def)
  ultimately have start: "(mm_addr e + page_size - 1) div page_size * page_size = mm_addr e"
    by (simp only: p1 word_unat_eq_iff q)
  have "unat (mm_len e div page_size) = m - q" by (simp add: unat_div ps len)
  then have "unat (mm_len e div page_size * page_size) = 4096 * (m - q)" using ps(2) m by (subst unat_mult_u64) simp_all
  then have len': "mm_len e div page_size * page_size = mm_len e" by (simp add: word_unat_eq_iff len)
  have "unat (mm_addr e + mm_len e) = 4096 * m" using e(4) m by (subst unat_add_u64) simp_all
  then have top: "mm_addr e + mm_len e = of_nat (4096 * m)"
    using m(2) by (subst word_unat_eq_iff, subst unat_of_nat_less) simp_all
  have big: "unat (of_nat (4096 * m) :: u64) = 4096 * m" using m(2) by (intro unat_of_nat_less) simp
  have above: "\<not> of_nat (4096 * m) < memory_base" using big m(1) by (simp add: word_less_nat_alt memory_base_def)
  have nz: "mm_len e \<noteq> 0" using len m(1) q8 by (auto simp flip: unat_eq_zero)
  let ?l = "of_nat (4096 * (m - 8192)) :: u64"
  have ul: "unat ?l = 4096 * (m - 8192)" using m(2) by (intro unat_of_nat_less) simp
  have "?l + memory_base = of_nat (4096 * (m - 8192) + 0x2000000)" by (simp add: memory_base_def)
  also have "4096 * (m - 8192) + 0x2000000 = 4096 * m" using m(1) by simp
  finally have l: "?l = of_nat (4096 * m) - memory_base" by (simp add: algebra_simps)
  have clamp: "(if mm_addr e < memory_base then (memory_base, mm_len e - (memory_base - mm_addr e)) else (mm_addr e, mm_len e))
      = (memory_base, ?l)"
    using e(3) unfolding l top [symmetric] by (auto simp: algebra_simps)
  have eighth: "of_nat m div 8 = (of_nat (m div 8) :: u64)"
    using m(2) by (simp add: word_unat_eq_iff unat_div unat_of_nat_less)
  have ue: "unat (of_nat (m div 8) :: u64) = m div 8" using m(2) by (intro unat_of_nat_less) simp
  have fits: "m div 8 \<le> 4096 * (m - 8192)"
  proof -
    have "m = m - 8192 + 8192" using m(1) by simp
    then have "m div 8 \<le> (m - 8192) + 1024" using m(1) by linarith
    also have "\<dots> \<le> 4096 * (m - 8192)" using m(1) by simp
    finally show ?thesis .
  qed
  have ov: "overlaps memory_base (of_nat (m div 8)) memory_base ?l"
  proof -
    have "unat (memory_base + of_nat (m div 8)) = 0x2000000 + m div 8"
      using m(2) ue by (subst unat_add_u64) (simp_all add: memory_base_def)
    moreover have "unat (memory_base + ?l) = 0x2000000 + 4096 * (m - 8192)"
      using m(2) ul by (subst unat_add_u64) (simp_all add: memory_base_def)
    ultimately show ?thesis using fits by (simp add: overlaps_def word_le_nat_alt del: of_nat_mult)
  qed
  have diff: "?l - of_nat (m div 8) = of_nat (4096 * (m - 8192) - m div 8)" using fits by (simp add: of_nat_diff)
  have pages: "of_nat (4096 * (m - 8192) - m div 8) div page_size = region_pages m"
    using m(2) by (simp add: word_unat_eq_iff unat_div ps region_pages_def unat_of_nat_less del: of_nat_diff of_nat_mult)
  have start2: "memory_base + of_nat (m div 8) = region_start m" by (simp add: region_start_def memory_base_def)
  show ?thesis
    unfolding pmm_init_entry_def e(1) simp_thms if_True round_up_def round_down_def if_not_P [OF ps(1)] rbind_Inr
      start len' top clamp Let_def prod.case m(3) eighth
    using nz above ov by (simp only: simp_thms if_True if_False m(3) eighth diff pages start2 less_irrefl)
qed

lemma region_free:
  assumes wf: "aligned 3 (phys_of (bitmap s))" and m: "8192 < m" "m < 2 ^ 32"
    and i: "8192 + (m div 8 + 4095) div 4096 \<le> i" "i < m - 1"
  shows "\<not> page_marked (pmm_free (region_start m) (region_pages m) s) (of_nat i)"
proof -
  define k where "k = i - (8192 + m div 8 div 4096)"
  have ps: "unat page_size = 4096" by (simp add: page_size_def)
  have us: "unat (region_start m) = 0x2000000 + m div 8" unfolding region_start_def
    using m(2) by (intro unat_of_nat_less) simp
  have "(0x2000000 + m div 8) div 4096 = 8192 + m div 8 div 4096" by simp
  then have "unat (region_start m div page_size) = 8192 + m div 8 div 4096" by (simp only: unat_div us ps)
  then have st: "region_start m div page_size = of_nat (8192 + m div 8 div 4096)"
    by (metis word_of_nat_eq_iff of_nat_unat ucast_id)
  have lo: "8192 + m div 8 div 4096 \<le> i" using i(1) by linarith
  have "(4096 * (m - 8192) - m div 8) div 4096 + (8192 + m div 8 div 4096) \<ge> m - 1" using m(1) by linarith
  then have k: "k < (4096 * (m - 8192) - m div 8) div 4096" unfolding k_def using i(2) lo by linarith
  have "unat (region_pages m) = (4096 * (m - 8192) - m div 8) div 4096" unfolding region_pages_def
    using m(2) by (intro unat_of_nat_less) simp
  then have "k < unat (region_pages m)" using k by simp
  moreover have "block_page (region_start m, region_pages m) k = of_nat i"
    using lo by (simp add: block_page_def st k_def flip: of_nat_add)
  ultimately have "slot (of_nat i) \<in> block_slots (region_start m, region_pages m)"
    unfolding in_block_slots by auto
  then show ?thesis by (simp add: page_marked_free [OF wf])
qed

text \<open>The pages that the bitmap of \<open>m\<close> pages takes; the manager gives as many away again, to itself.\<close>

definition bitmap_page_count :: "nat \<Rightarrow> nat" where
  "bitmap_page_count m = (m div 8 + 4095) div 4096"

lemma usable_top:
  assumes "usable_map mmap m" "8192 < m" "m < 2 ^ 32"
  shows "find_available_memory_top mmap = of_nat (4096 * m)"
proof -
  obtain xs e ys where u: "mmap = xs @ e # ys" "\<forall>x \<in> set xs \<union> set ys. below_base x" "mm_type e = AVAILABLE"
    "unat (mm_addr e) + unat (mm_len e) = 4096 * m" using assms(1) unfolding usable_map_def by blast
  have big: "unat (of_nat (4096 * m) :: u64) = 4096 * m" using assms(3) by (intro unat_of_nat_less) simp
  have "unat (mm_addr e + mm_len e) = 4096 * m" using u(4) assms(3) by (subst unat_add_u64) simp_all
  then have top: "mm_addr e + mm_len e = of_nat (4096 * m)" using big by (simp add: word_unat_eq_iff del: of_nat_mult)
  have base: "memory_base \<le> of_nat (4096 * m)" using big assms(2) by (simp add: word_le_nat_alt memory_base_def del: of_nat_mult)
  have "find_memory_top xs 0 \<le> memory_base" using u(2) below_base_top by (intro find_memory_top_le) auto
  moreover have "memory_base < of_nat (4096 * m)"
    using big assms(2) by (simp add: word_less_nat_alt memory_base_def del: of_nat_mult)
  ultimately have "find_memory_top xs 0 < of_nat (4096 * m)" by (rule le_less_trans)
  moreover have "find_memory_top ys (of_nat (4096 * m)) = of_nat (4096 * m)"
    using u(2) below_base_top base by (intro find_memory_top_same) (auto intro: order_trans)
  ultimately show ?thesis
    by (simp add: find_available_memory_top_def u(1,3) find_memory_top_append top del: of_nat_mult)
qed

lemma bitmap_aligned: "aligned 3 (phys_of (memory_base + virtual_physical_base))"
  by (simp add: phys_of_def mm_consts aligned_def)

lemma region_released:
  fixes s :: "'a pmm_state_scheme"
  assumes m: "8192 < m" "m < 2 ^ 32"
    and s4: "s4 = (pmm_free (region_start m) (region_pages m)
       (s\<lparr>bitmap := memory_base + virtual_physical_base, bitmap_len := l, ram := r\<rparr>))\<lparr>total_pages := t\<rparr>"
    and i: "8192 + bitmap_page_count m \<le> i" "i < m - 1"
  shows "\<not> page_marked s4 (of_nat i)"
  using region_free [OF _ m, of "s\<lparr>bitmap := memory_base + virtual_physical_base, bitmap_len := l, ram := r\<rparr>" i] i bitmap_aligned
  by (simp add: s4 bitmap_page_count_def page_marked_def)

text \<open>The stages of \<open>Pmm::init\<close> for such a map: the bitmap is filled, the region is released, and the pages of
  the bitmap are marked and taken.\<close>

lemma pmm_init_stages:
  fixes s :: "'a pmm_state_scheme"
  assumes "usable_map mmap m" and m: "8192 < m" "m < 2 ^ 32"
  obtains s4 s5 s6 c p where "pmm_init mmap s = Inr s6" "pmm_alloc c s5 = Inr (p, s6)" "unat c = bitmap_page_count m"
    "s4 = (pmm_free (region_start m) (region_pages m)
       (s\<lparr>bitmap := memory_base + virtual_physical_base, bitmap_len := of_nat m,
          ram := memset (ram s) memory_base 0xFF (of_nat m div 8)\<rparr>))\<lparr>total_pages := free_pages s4\<rparr>"
    "s5 = s4\<lparr>ram := bit_write (ram s4) (bitmap s4) first_page 1 c\<rparr>"
    "bitmap s4 = memory_base + virtual_physical_base" "bitmap_len s4 = of_nat m" "c = bitmap_pages (of_nat m)"
proof -
  obtain xs e ys where u: "mmap = xs @ e # ys" "\<forall>x \<in> set xs \<union> set ys. below_base x" "mm_type e = AVAILABLE"
    "aligned 12 (mm_addr e)" "mm_addr e \<le> memory_base" "unat (mm_addr e) + unat (mm_len e) = 4096 * m"
    using assms(1) unfolding usable_map_def by blast
  have um: "unat (of_nat m :: u64) = m" using m(2) by (intro unat_of_nat_less) simp
  have "unat (of_nat (4096 * m) + 4095 :: u64) = 4096 * m + 4095"
    using m(2) by (subst unat_add_u64) (simp_all add: unat_of_nat_less del: of_nat_mult)
  moreover have p1: "of_nat (4096 * m) + page_size - 1 = of_nat (4096 * m) + (4095 :: u64)" by (simp add: page_size_def)
  moreover have "unat page_size = 4096" by (simp add: page_size_def)
  ultimately have "unat ((of_nat (4096 * m) + page_size - 1) div page_size :: u64) = m"
    unfolding unat_div p1 by simp
  then have "(of_nat (4096 * m) + page_size - 1) div page_size = (of_nat m :: u64)"
    using um by (simp only: word_unat_eq_iff)
  moreover have "(ucast (ucast (of_nat m :: u64) :: u32) :: u64) = of_nat m"
    using m(2) um by (simp add: word_unat_eq_iff unsigned_ucast_eq unsigned_take_bit_eq take_bit_nat_eq_self)
  ultimately have pages: "(ucast (ucast ((find_available_memory_top mmap + page_size - 1) div page_size) :: u32) :: u64) = of_nat m"
    unfolding usable_top [OF assms(1) m(1,2)] by (simp only:)
  define s1 where "s1 = s\<lparr>bitmap := memory_base + virtual_physical_base, bitmap_len := of_nat m\<rparr>"
  define s2 where "s2 = s1\<lparr>ram := memset (ram s1) (phys_of (bitmap s1)) 0xFF (bitmap_len s1 div 8)\<rparr>"
  define s3 where "s3 = pmm_free (region_start m) (region_pages m) s2"
  have b2: "bitmap_len s2 = of_nat m" "bitmap s2 = memory_base + virtual_physical_base" by (simp_all add: s2_def s1_def)
  have below: "\<forall>x \<in> set xs. below_base x" "\<forall>x \<in> set ys. below_base x" using u(2) by auto
  have run3: "pmm_init_entries memory_base mmap s2 = Inr s3"
    unfolding u(1) pmm_init_entries_below [OF below(1)]
    using pmm_init_entries_below [OF below(2), of memory_base "[]"]
    by (simp add: pmm_init_entry_region [OF u(3-6) m(1,2) b2(1)] s3_def)
  define s4 where "s4 = s3\<lparr>total_pages := free_pages s3\<rparr>"
  define c where "c = bitmap_pages (of_nat m)"
  define s5 where "s5 = s4\<lparr>ram := bit_write (ram s4) (bitmap s4) first_page 1 c\<rparr>"
  obtain p s6 where s6: "pmm_alloc c s5 = Inr (p, s6)" using pmm_alloc_returns by blast
  have b4: "bitmap_len s4 = of_nat m" "bitmap s4 = memory_base + virtual_physical_base"
    by (simp_all add: s4_def s3_def b2)
  have "bitmap s1 - virtual_physical_base = memory_base" by (simp add: s1_def)
  with b4(1) have run: "pmm_init mmap s = Inr s6"
    unfolding pmm_init_def Let_def pages s1_def [symmetric] s2_def [symmetric]
    by (simp only: run3 rbind_Inr s4_def [symmetric] bitmap_pages_def [symmetric] c_def [symmetric]
        first_page_def [symmetric] s5_def [symmetric] s6 prod.case)
  have "unat c = bitmap_page_count m"
    using m(2) um by (simp add: c_def unat_bitmap_pages bitmap_page_count_def)
  moreover have "s2 = s\<lparr>bitmap := memory_base + virtual_physical_base, bitmap_len := of_nat m,
      ram := memset (ram s) memory_base 0xFF (of_nat m div 8)\<rparr>"
    by (simp add: s2_def s1_def phys_of_def)
  ultimately show thesis using that [OF run s6 _ _ s5_def] b4 c_def by (simp add: s4_def s3_def)
qed

lemma pmm_init_usable:
  fixes s :: "'a pmm_state_scheme"
  assumes "usable_map mmap m" and m: "8192 < m" "m < 2 ^ 32" "m mod 64 = 0"
  obtains s' where "pmm_init mmap s = Inr s'" "pmm_wf s'" "bitmap_len s' = of_nat m"
    "m - 1 - (8192 + bitmap_page_count m) \<le> 2 * (card (free_slots s') + 2 * bitmap_page_count m)"
proof (rule pmm_init_stages [OF assms(1-3), of s])
  fix s4 s5 s6 :: "'a pmm_state_scheme" and c p
  assume run: "pmm_init mmap s = Inr s6" "pmm_alloc c s5 = Inr (p, s6)" and uc: "unat c = bitmap_page_count m"
    and s4: "s4 = (pmm_free (region_start m) (region_pages m)
       (s\<lparr>bitmap := memory_base + virtual_physical_base, bitmap_len := of_nat m,
          ram := memset (ram s) memory_base 0xFF (of_nat m div 8)\<rparr>))\<lparr>total_pages := free_pages s4\<rparr>"
    and s5: "s5 = s4\<lparr>ram := bit_write (ram s4) (bitmap s4) first_page 1 c\<rparr>"
    and b4: "bitmap s4 = memory_base + virtual_physical_base" "bitmap_len s4 = of_nat m" and c: "c = bitmap_pages (of_nat m)"
  have um: "unat (of_nat m :: u64) = m" using m(2) by (intro unat_of_nat_less) simp
  have fits: "bitmap_fits (of_nat m)"
  proof -
    have "m mod 32768 = 0 \<or> 8 \<le> m mod 32768"
    proof (rule ccontr)
      assume "\<not> (m mod 32768 = 0 \<or> 8 \<le> m mod 32768)"
      then have "m mod 32768 mod 64 = m mod 32768" "m mod 32768 \<noteq> 0" by simp_all
      then show False using m(3) by (simp add: mod_mod_cancel)
    qed
    then show ?thesis by (simp add: bitmap_fits_def um)
  qed
  have wf5: "pmm_wf s5"
  proof (rule pmm_wf_marked_bitmap)
    show "page_marked s5 (first_page + of_nat k)" if "k < unat (bitmap_pages (bitmap_len s5))" for k
      using that bitmap_aligned b4 by (auto simp: page_marked_def s5 c bit_read_write)
  qed (use fits um m(2) b4 in \<open>simp_all add: s5\<close>)
  have "m - 1 - (8192 + bitmap_page_count m) \<le> 2 * card (free_slots s4)"
    by (rule free_slots_range [OF region_released [OF m(1,2) s4]]) (use um b4 in simp_all)
  moreover have "card (free_slots s4) \<le> card (free_slots (pmm_take first_page c s4)) + unat c"
    using bitmap_aligned b4 by (intro free_slots_take) simp
  moreover have "free_slots (pmm_take first_page c s4) = free_slots s5"
    by (simp add: free_slots_def page_marked_def s5 pmm_take_def)
  moreover have "card (free_slots s5) \<le> card (free_slots s6) + unat c" by (rule free_slots_alloc [OF wf5 run(2)])
  ultimately have "m - 1 - (8192 + bitmap_page_count m) \<le> 2 * (card (free_slots s6) + 2 * bitmap_page_count m)"
    unfolding uc by simp
  moreover have "pmm_wf s6" "bitmap_len s6 = of_nat m"
    using pmm_alloc_wf_any [OF run(2) wf5] b4 by (simp_all add: s5)
  ultimately show thesis using that run(1) by blast
qed

section \<open>Both initialisations\<close>

lemma pmm_init_heap_frame:
  fixes s :: "'a heap_state_scheme"
  assumes "pmm_init mmap s = Inr s'"
  shows "heap_top s' = heap_top s" "mm_lock s' = mm_lock s"
proof -
  have entry: "heap_top s' = heap_top s \<and> mm_lock s' = mm_lock s" if "pmm_init_entry bp e s = Inr s'" for bp e and s s' :: "'a heap_state_scheme"
    using that by (auto simp: pmm_init_entry_def round_up_def round_down_def pmm_free_def Let_def split: if_splits)
  have entries: "heap_top s' = heap_top s \<and> mm_lock s' = mm_lock s" if "pmm_init_entries bp es s = Inr s'" for bp es and s s' :: "'a heap_state_scheme"
    using that
  proof (induction es arbitrary: s)
    case (Cons e es)
    then obtain s1 where "pmm_init_entry bp e s = Inr s1" "pmm_init_entries bp es s1 = Inr s'" by (auto simp: rbind_eq_Inr)
    then show ?case using entry [of bp e s s1] Cons.IH [of s1] by simp
  qed simp
  have alloc: "heap_top s' = heap_top s \<and> mm_lock s' = mm_lock s" if "pmm_alloc c s = Inr (p, s')" for c p and s s' :: "'a heap_state_scheme"
    using pmm_alloc_frame [OF that] by simp
  show "heap_top s' = heap_top s" "mm_lock s' = mm_lock s"
    using assms by (auto simp: pmm_init_def Let_def rbind_eq_Inr dest!: entries alloc)
qed

text \<open>The address space of a kernel that has just started: all tables in place, nothing on the heap, the
  direct map and the kernel window.\<close>

definition fresh_kernel :: "nat \<Rightarrow> 'a heap_state_scheme \<Rightarrow> bool" where
  "fresh_kernel n s \<longleftrightarrow> heap_inv s \<and> heap_top s = memory_base \<and> kernel_pml4 s = cr3 s \<and> can_alloc (pmm_alloc 1) n s \<and>
     (\<forall>x. unat x < 2 ^ 32 \<longrightarrow> hw_translate (ram s) (cr3 s) (x + virtual_physical_base) = Some x) \<and>
     (\<forall>x. unat x < 2 ^ 27 \<longrightarrow> hw_translate (ram s) (cr3 s) (x + virtual_kernel_base) = Some x) \<and>
     (\<forall>v. unat v < 2 ^ 47 \<longrightarrow> hw_walk (ram s) (cr3 s) v = Unmapped)"

lemma vmm_init_fresh:
  fixes s :: "'a heap_state_scheme"
  assumes "pmm_wf s" "can_alloc (pmm_alloc 1) (n + 11) s" "heap_top s = memory_base" "\<not> bit (mm_lock s) 0"
  obtains s' where "vmm_init s = Inr s'" "fresh_kernel n s'" "bitmap_len s' = bitmap_len s"
proof (rule vmm_init_room [OF assms(1,2)])
  fix s'
  assume run: "vmm_init s = Inr s'" "space_ok s' (cr3 s')" "kernel_pml4 s' = cr3 s'" "can_alloc (pmm_alloc 1) n s'"
    and walk: "hw_walk (ram s') (cr3 s') =
      edit_range 21 virtual_physical_base 2048 (\<lambda>k _. Page2M (huge_entry (of_nat k * 0x200000) 3))
        (edit_range 21 virtual_kernel_base 64 (\<lambda>k _. Page2M (huge_entry (of_nat k * 0x200000) 3))
          (\<lambda>_. Unmapped))"
  have "(heap_top s', mm_lock s', bitmap_len s') = (heap_top s, mm_lock s, bitmap_len s)"
    by (rule vmm_init_frame [where g = "\<lambda>s. (heap_top s, mm_lock s, bitmap_len s)", OF _ _ _ run(1)])
      (auto elim!: pmm_alloc_cases simp: pmm_take_def)
  then have same: "heap_top s' = memory_base" "\<not> bit (mm_lock s') 0" "bitmap_len s' = bitmap_len s"
    using assms(3,4) by simp_all
  have low: "hw_walk (ram s') (cr3 s') v = Unmapped" if "unat v < 2 ^ 47" for v
    using low_steps [OF that] by (simp add: walk edit_range_def)
  have "\<not> heap_addr s' v" for v by (auto simp: heap_addr_def same(1))
  then have inv: "heap_inv s'"
    using run(2) same low by (simp add: heap_inv_def mm_consts aligned_def)
  have "hw_translate (ram s') (cr3 s') (x + virtual_physical_base) = Some x" if "unat x < 2 ^ 32" for x
  proof -
    have x: "unat x < 2 ^ 47" using that by simp
    have "unat x div 2 ^ 21 < 2048" using that by simp
    then have "hw_walk (ram s') (cr3 s') (x + virtual_physical_base)
        = Page2M (huge_entry (of_nat (unat x div 2 ^ 21) * 0x200000) 3)"
      by (simp add: walk edit_range_def direct_steps(1) [OF x])
    then show ?thesis by (rule direct_translate [OF x])
  qed
  moreover have "hw_translate (ram s') (cr3 s') (x + virtual_kernel_base) = Some x" if x: "unat x < 2 ^ 27" for x
  proof (rule large_translate)
    have "unat x < 2 ^ 31" "unat x div 2 ^ 21 < 64" using x by simp_all
    then show "hw_walk (ram s') (cr3 s') (x + virtual_kernel_base) = Page2M (huge_entry (of_nat (unat x div 2 ^ 21) * 0x200000) 3)"
      using kernel_steps [of x] by (simp add: walk edit_range_def)
    show "take_bit 21 (x + virtual_kernel_base) = take_bit 21 x" by (rule take_bit_21_add) (simp add: mm_consts)
  qed (use x in simp)
  ultimately have "fresh_kernel n s'" using inv same run(3,4) low by (simp add: fresh_kernel_def)
  then show thesis using that run(1) same(3) by blast
qed

lemma memory_run:
  fixes s :: "'a heap_state_scheme"
  assumes "usable_map mmap m" "8192 < m" "m < 2 ^ 32" "m mod 64 = 0"
    and "2 * (n + 11 + 2 * bitmap_page_count m) \<le> m - 1 - (8192 + bitmap_page_count m)"
    and "heap_top s = memory_base" "\<not> bit (mm_lock s) 0"
  obtains s1 s' where "pmm_init mmap s = Inr s1" "vmm_init s1 = Inr s'" "fresh_kernel n s'" "bitmap_len s' = of_nat m"
proof -
  obtain s1 where s1: "pmm_init mmap s = Inr s1" "pmm_wf s1" "bitmap_len s1 = of_nat m"
    "m - 1 - (8192 + bitmap_page_count m) \<le> 2 * (card (free_slots s1) + 2 * bitmap_page_count m)"
    by (rule pmm_init_usable [OF assms(1-4), of s]) (rule that)
  have "n + 11 \<le> card (free_slots s1)" using order_trans [OF assms(5) s1(4)] by simp
  then have can: "can_alloc (pmm_alloc 1) (n + 11) s1" by (rule can_alloc_slots [OF s1(2)])
  have "heap_top s1 = memory_base" "\<not> bit (mm_lock s1) 0" using pmm_init_heap_frame [OF s1(1)] assms(6,7) by simp_all
  then obtain s' where "vmm_init s1 = Inr s'" "fresh_kernel n s'" "bitmap_len s' = bitmap_len s1"
    using vmm_init_fresh [OF s1(2) can] by blast
  then show thesis using that s1(1,3) by simp
qed

end
