(* ===== verification/BootPages.thy ===== *)
theory BootPages
  imports BootMemory FirstFit
begin

text \<open>
  What the start of the kernel leaves alone: the pages below the managed memory with what the boot loader
  put there, and a run of free pages at the end of the memory, as long as single pages are left before it.
  With such a run the heap can grow by a block of many pages.
\<close>

unbundle bit_operations_syntax

section \<open>Data beside a new address space\<close>

context page_allocator
begin

lemma map_huge_pages_n_grows:
  assumes "vinv s r" "perms_ok perms" "map_huge_pages_n n alloc r v phys perms s = Inr (b, s')"
  shows "vinv s' r \<and> grows s s' r"
  using assms
proof (induction n arbitrary: s v phys)
  case 0
  then show ?case by (simp add: grows_refl)
next
  case (Suc n)
  from Suc.prems(1,2) show ?case
  proof (cases rule: map_huge_page_cases [where n = n and phys = phys and v = v])
    case exhausted
    then show ?thesis using Suc.prems(3) by simp
  next
    case (mapped s1)
    then show ?thesis
      using Suc.IH [OF mapped(2) Suc.prems(2)] Suc.prems(3) grows_trans [OF mapped(7)] by (simp del: map_huge_pages_n.simps)
  qed
qed

lemma map_pages_n_room:
  assumes "vinv s r" "perms_ok perms" "\<And>k e. k < n \<Longrightarrow> tree_walk (ram s) r (v + of_nat k * 4096) \<noteq> Page2M e"
    and "can_alloc alloc (3 * n + j) s" "map_pages_n n alloc r v phys perms s = Inr (b, s')"
  shows "vinv s' r \<and> can_alloc alloc j s'"
  using assms
proof (induction n arbitrary: s v phys)
  case 0
  then show ?case by simp
next
  case (Suc n)
  have first: "tree_walk (ram s) r v \<noteq> Page2M e" for e using Suc.prems(3) [of 0] by simp
  from Suc.prems(1,2) first show ?case
  proof (cases rule: map_page_cases [where n = n and phys = phys])
    case exhausted
    then show ?thesis using Suc.prems(5) by simp
  next
    case (mapped s1)
    have nl: "tree_walk (ram s1) r (v + 4096 + of_nat k * 4096) \<noteq> Page2M e" if "k < n" for k e
      using Suc.prems(3) [of "Suc k"] that mapped(3) by (simp add: algebra_simps)
    have "can_alloc alloc (3 * n + j) s1" using Suc.prems(4) mapped(4) [of "3 * n + j"] by (simp add: add.commute add.left_commute)
    from Suc.IH [OF mapped(2) Suc.prems(2) nl this] show ?thesis using Suc.prems(5) unfolding mapped(1) by simp
  qed
qed

lemma new_address_space_keeps:
  assumes wf: "wf s" and run: "new_address_space alloc s = Inr (p, s')" and p: "p \<noteq> 0"
  shows "vinv s' p" and "used s x \<Longrightarrow> \<not> own s x \<Longrightarrow> data_byte s' p x \<and> ram s' x = ram s x"
proof -
  obtain s1 s3 b1 b2 where s1: "alloc s = Inr (p, s1)"
    and s3: "map_huge_pages_n 64 alloc p 0xFFFFFFFF80000000 0 3 (s1\<lparr>ram := memset (ram s1) p 0 4096\<rparr>) = Inr (b1, s3)"
    and s4: "map_huge_pages_n 2048 alloc p 0xFFFF800000000000 0 3 s3 = Inr (b2, s')"
    using run by (auto simp: new_address_space_def rbind_eq_Inr map_huge_pages_def Let_def)
  let ?s2 = "s1\<lparr>ram := memset (ram s1) p 0 4096\<rparr>"
  have perms: "perms_ok 3" by (simp add: perms_ok_def)
  have g3: "vinv s3 p \<and> grows ?s2 s3 p" by (rule map_huge_pages_n_grows [OF fresh_root_inv [OF wf s1 p] perms s3])
  have g4: "vinv s' p \<and> grows s3 s' p" using map_huge_pages_n_grows [OF _ perms s4] g3 by blast
  then show "vinv s' p" by simp
  assume x: "used s x" "\<not> own s x"
  have far: "x div 4096 \<noteq> p div 4096"
    using x(1) alloc_fresh [OF wf s1 p] used_page [of x p s] by blast
  have "aligned 12 p" using alloc_aligned [OF wf s1] by simp
  then have "\<not> in_range x p 4096" using far page_byte [of p x] by simp
  then have r2: "memset (ram s1) p 0 4096 x = ram s x"
    using alloc_ram [OF wf s1 x(2)] by (simp add: memset_eq in_range_def word_less_nat_alt)
  have "memset (ram s1) p 0 4096 y = ram s1 y" if "own s1 y" for y
  proof -
    have "y div 4096 \<noteq> p div 4096" using that alloc_own [OF s1] alloc_not_own [OF wf s1 p, of y] by auto
    then have "\<not> in_range y p 4096" using \<open>aligned 12 p\<close> page_byte [of p y] by simp
    then show ?thesis by (simp add: memset_eq in_range_def word_less_nat_alt)
  qed
  from used_ram [OF this alloc_wf [OF wf s1]] have u2: "used ?s2 = used s1" by simp
  have "data_byte ?s2 p x"
    using alloc_keeps [OF wf s1 x(1)] x(2) far fresh_root_frames [OF wf s1 p]
    by (auto simp: data_byte_def u2 own_ram alloc_own [OF s1])
  moreover have "grows ?s2 s' p" using g3 g4 grows_trans by blast
  ultimately show "data_byte s' p x \<and> ram s' x = ram s x"
    using grows_data [of ?s2 s' p x] r2 by simp
qed

end

section \<open>A run of free pages\<close>

text \<open>As long as a page before \<open>J\<close> is free, the pages from \<open>J\<close> to \<open>E\<close> are: single pages are taken from below.
  \<open>J\<close> begins a word of the bitmap, so that no page before it shares a bit with one behind it.\<close>

definition run_kept :: "u64 \<Rightarrow> u64 \<Rightarrow> 'a pmm_state_scheme \<Rightarrow> bool" where
  "run_kept J E s \<longleftrightarrow> pmm_wf s \<and> 64 dvd unat J \<and> 8192 \<le> J \<and> J \<le> E \<and> E \<le> bitmap_len s \<and>
     ((\<exists>i. 8192 \<le> i \<and> i < J \<and> \<not> page_marked s i) \<longrightarrow> (\<forall>i. J \<le> i \<and> i < E \<longrightarrow> \<not> page_marked s i))"

lemma slot_apart: "64 dvd unat J \<Longrightarrow> i < J \<Longrightarrow> J \<le> j \<Longrightarrow> slot i \<noteq> slot j"
proof -
  assume J: "64 dvd unat J" and i: "i < J" "J \<le> j"
  then obtain q where "unat J = 64 * q" by auto
  then have "unat i div 64 < q" "q \<le> unat j div 64" using i by (simp_all add: word_less_nat_alt word_le_nat_alt)
  then have "unat (i div 64) \<noteq> unat (j div 64)" by (simp add: unat_div)
  then show "slot i \<noteq> slot j" by (auto simp: slot_def)
qed

lemma alloc_lowest:
  assumes "pmm_alloc 1 s = Inr (p, s')" "8192 \<le> i" "i < bitmap_len s" "\<not> page_marked s i"
  obtains idx where "s' = pmm_take idx 1 s" "idx \<le> i" "8192 \<le> idx"
  using assms(1)
proof (cases rule: pmm_alloc_cases)
  case exhausted
  then show ?thesis using assms(2-4) by (auto simp: first_page_eq bitmap_is_free_iff page_marked_def)
next
  case (found idx)
  have "idx \<le> i"
  proof (rule ccontr)
    assume "\<not> idx \<le> i"
    then have "\<not> bitmap_is_free (ram s) (bitmap s) i 1" using found(5) [of i] assms(2) by (simp add: first_page_eq)
    then show False using assms(4) by (simp add: bitmap_is_free_iff page_marked_def)
  qed
  then show ?thesis using that found(1,6) by (simp add: first_page_eq)
qed

lemma run_kept_alloc:
  assumes kept: "run_kept J E s" and run: "pmm_alloc 1 s = Inr (p, s')"
  shows "run_kept J E s'"
proof -
  have wf: "pmm_wf s" and J: "64 dvd unat J" "8192 \<le> J" "J \<le> E" "E \<le> bitmap_len s" using kept by (simp_all add: run_kept_def)
  note al = pmm_wf_aligned [OF wf]
  have wf': "pmm_wf s'" "bitmap_len s' = bitmap_len s" using pmm_alloc_wf_any [OF run wf] by simp_all
  have "\<not> page_marked s' j" if i: "8192 \<le> i" "i < J" "\<not> page_marked s' i" and j: "J \<le> j" "j < E" for i j
  proof -
    have free: "\<not> page_marked s i"
      using run i(3) by (cases rule: pmm_alloc_cases) (auto simp: page_marked_take [OF al])
    have "i < bitmap_len s" using i(2) J by (meson order_less_le_trans)
    from run i(1) this free obtain idx where idx: "s' = pmm_take idx 1 s" "idx \<le> i" by (rule alloc_lowest)
    have "idx < J" using idx(2) i(2) by (rule order_le_less_trans)
    then have "slot idx \<noteq> slot j" by (rule slot_apart [OF J(1) _ j(1)])
    moreover have "\<not> page_marked s j" using kept i(1,2) free j unfolding run_kept_def by blast
    ultimately show ?thesis by (simp add: idx(1) page_marked_take [OF al])
  qed
  then show ?thesis using wf' J unfolding run_kept_def by auto
qed

interpretation run: page_allocator "pmm_alloc 1" "run_kept J E" pmm_used pmm_own for J E
proof (rule page_allocator_with [OF _ run_kept_alloc])
  fix s :: "'a pmm_state_scheme" and m
  assume s: "run_kept J E s" "pmm_wf (s\<lparr>ram := m\<rparr>)"
    and same: "\<And>i. 8192 \<le> i \<Longrightarrow> i < bitmap_len s \<Longrightarrow> page_marked (s\<lparr>ram := m\<rparr>) i = page_marked s i"
  have J: "8192 \<le> J" "J \<le> E" "E \<le> bitmap_len s" using s(1) by (simp_all add: run_kept_def)
  have "page_marked (s\<lparr>ram := m\<rparr>) i = page_marked s i" if "8192 \<le> i" "i < E" for i
    using that J by (intro same) (auto dest: order_less_le_trans)
  moreover have "i < J \<Longrightarrow> i < E" "J \<le> i \<Longrightarrow> 8192 \<le> i" for i using J by (auto dest: order_less_le_trans order_trans)
  ultimately show "run_kept J E (s\<lparr>ram := m\<rparr>)" using s by (auto simp: run_kept_def)
qed (simp_all add: run_kept_def)

lemma run_inv: "run.vinv J E s r \<longleftrightarrow> space_ok s r \<and> run_kept J E s"
  by (auto simp: vmm_inv_def run_kept_def)

text \<open>Enough single pages mean that one of them lies before the run.\<close>

lemma can_alloc_card:
  assumes "pmm_wf s" "can_alloc (pmm_alloc 1) n s"
  shows "n \<le> card (free_slots s)"
  using assms
proof (induction n arbitrary: s)
  case (Suc n)
  obtain p s' where run: "pmm_alloc 1 s = Inr (p, s')" "p \<noteq> 0" "can_alloc (pmm_alloc 1) n s'"
    using Suc.prems(2) by (auto simp: can_alloc.simps split: sum.splits)
  note al = pmm_wf_aligned [OF Suc.prems(1)]
  have "n \<le> card (free_slots s')" using Suc.IH run(3) pmm_alloc_wf_any [OF run(1) Suc.prems(1)] by simp
  moreover have "card (free_slots s') < card (free_slots s)"
    using run(1)
  proof (cases rule: pmm_alloc_cases)
    case (found idx)
    have "slot idx \<in> free_slots s"
      using found(1,2,4) by (auto simp: free_slots_def first_page_eq bitmap_is_free_iff page_marked_def)
    moreover have "slot idx \<notin> free_slots s'" "free_slots s' \<subseteq> free_slots s"
      by (auto simp: free_slots_def found(6) page_marked_take [OF al])
    ultimately show ?thesis by (intro psubset_card_mono) auto
  qed (use run(2) in simp)
  ultimately show ?case by simp
qed simp

lemma card_pages: "card {i :: u64. a \<le> i \<and> i < b} \<le> unat b - unat a"
proof -
  have "card (unat ` {i. a \<le> i \<and> i < b}) \<le> card {unat a..<unat b}"
    by (intro card_mono) (auto simp: word_le_nat_alt word_less_nat_alt)
  then show ?thesis by (simp add: card_image inj_on_def word_unat_eq_iff)
qed

lemma run_below:
  assumes kept: "run_kept J E s" and n: "can_alloc (pmm_alloc 1) n s" "unat (bitmap_len s) - unat J < n"
  shows "J \<le> i \<Longrightarrow> i < E \<Longrightarrow> \<not> page_marked s i"
proof -
  have "\<exists>i. 8192 \<le> i \<and> i < J \<and> \<not> page_marked s i"
  proof (rule ccontr)
    assume none: "\<not> ?thesis"
    have "free_slots s \<subseteq> slot ` {i. J \<le> i \<and> i < bitmap_len s}"
      unfolding free_slots_def using none by (intro image_mono) (blast intro: leI)
    then have "card (free_slots s) \<le> card (slot ` {i. J \<le> i \<and> i < bitmap_len s})" by (intro card_mono) simp_all
    also have "\<dots> \<le> card {i. J \<le> i \<and> i < bitmap_len s}" by (rule card_image_le) simp
    also have "\<dots> \<le> unat (bitmap_len s) - unat J" by (rule card_pages)
    finally show False using can_alloc_card [OF _ n(1)] kept n(2) by (simp add: run_kept_def)
  qed
  then show "J \<le> i \<Longrightarrow> i < E \<Longrightarrow> \<not> page_marked s i" using kept unfolding run_kept_def by blast
qed

text \<open>Then the heap can grow into the run.\<close>

lemma block_pages_not_0: "block_pages n \<noteq> 0"
proof -
  have "unat ((n + page_size - 1) div page_size) \<le> (2 ^ 64 - 1) div 4096"
    using unat_u64_less [of "n + page_size - 1"] by (simp add: unat_div page_size_def)
  then have "unat (block_pages n) = unat ((n + page_size - 1) div page_size) + 1"
    unfolding block_pages_def by (subst unat_add_u64) simp_all
  then show ?thesis by (auto simp flip: unat_eq_zero)
qed

lemma run_room:
  assumes inv: "heap_inv s" and kept: "run_kept J E s"
    and n: "can_alloc (pmm_alloc 1) n s" "unat (bitmap_len s) - unat J < n"
    and c: "c = block_pages (block_bytes bytes)" "unat J + unat c \<le> unat E" "4 * unat c \<le> n"
    and b: "unat bytes < 2 ^ 48" "unat (heap_top s) + 4096 * unat c \<le> 2 ^ 46"
  shows "\<exists>q. malloc_room s bytes q"
proof -
  have wf: "pmm_wf s" and J: "8192 \<le> J" "J \<le> E" "E \<le> bitmap_len s" using kept by (simp_all add: run_kept_def)
  obtain q t where run: "pmm_alloc c s = Inr (q, t)" using pmm_alloc_returns by blast
  have free: "bitmap_is_free (ram s) (bitmap s) J c"
    unfolding bitmap_is_free_iff page_marked_def [symmetric]
  proof (intro allI impI)
    fix k assume k: "k < unat c"
    have "unat (J + of_nat k) = unat J + k"
      using k c(2) unat_u64_less [of E] by (subst unat_add_u64) (simp_all add: unat_of_nat_less)
    then show "\<not> page_marked s (J + of_nat k)"
      using k c(2) by (intro run_below [OF kept n]) (simp_all add: word_le_nat_alt word_less_nat_alt)
  qed
  have "unat J \<noteq> unat (bitmap_len s) \<or> unat c = 0" using c(2) J(3) by (auto simp: word_le_nat_alt)
  moreover have "c \<noteq> 0" unfolding c(1) by (rule block_pages_not_0)
  ultimately have Jl: "J < bitmap_len s" using J by (auto simp: word_less_nat_alt word_le_nat_alt unat_eq_zero)
  from run obtain idx where idx: "q = idx * page_size" "8192 \<le> idx" "idx \<le> J" "t = pmm_take idx c s"
  proof (cases rule: pmm_alloc_cases)
    case exhausted
    then show ?thesis using free Jl J(1) by (simp add: first_page_eq)
  next
    case (found idx)
    have "idx \<le> J"
    proof (rule ccontr)
      assume "\<not> idx \<le> J"
      then have "J < idx" by simp
      then show False using found(5) [of J] free J(1) by (simp add: first_page_eq)
    qed
    then show ?thesis using that found(1,3,6) by (simp add: first_page_eq)
  qed
  have "idx < bitmap_len s" using idx(3) Jl by (rule order_le_less_trans)
  then have uq: "unat q = unat idx * 4096" using unat_page [OF _ wf] idx(1) by simp
  have "0 < unat idx" using idx(2) by (simp add: word_le_nat_alt)
  then have "q \<noteq> 0" using uq by (auto simp flip: unat_eq_zero)
  moreover have "unat q div 4096 + unat c \<le> unat (bitmap_len s)"
    using uq idx(3) c(2) J(3) by (simp add: word_le_nat_alt)
  moreover have "can_alloc (pmm_alloc 1) (3 * unat c) t"
  proof (rule can_alloc_slots)
    show "pmm_wf t" using pmm_alloc_wf_any [OF run wf] by simp
    show "3 * unat c \<le> card (free_slots t)"
      using free_slots_alloc [OF wf run] can_alloc_card [OF wf n(1)] c(3) by simp
  qed
  ultimately have "malloc_room s bytes q"
    using inv b run unfolding malloc_room_def Let_def c(1) [symmetric] by blast
  then show ?thesis ..
qed

section \<open>After \<open>Pmm::init\<close>\<close>

text \<open>The pages below the managed memory stay marked and keep what they hold.\<close>

lemma slot_above:
  assumes "unat x < 2 ^ 25"
  shows "\<not> in_range x (bitmap_slot (memory_base + virtual_physical_base) (i div 64)) 8"
proof -
  have "unat (i div 64) < 2 ^ 58" using unat_u64_less [of i] by (simp add: unat_div)
  then have "unat (8 * (i div 64)) = 8 * unat (i div 64)" by (subst unat_mult_u64) simp_all
  then have u: "unat (bitmap_slot (memory_base + virtual_physical_base) (i div 64)) = 2 ^ 25 + 8 * unat (i div 64)"
    using \<open>unat (i div 64) < 2 ^ 58\<close> unfolding bitmap_slot_def by (subst unat_add_u64) (simp_all add: phys_of_def mm_consts)
  let ?t = "bitmap_slot (memory_base + virtual_physical_base) (i div 64)"
  have "unat (x - ?t) = 2 ^ 64 + unat x - unat ?t"
    using u assms by (subst unat_sub_if_size) (simp add: word_size)
  then show ?thesis using u \<open>unat (i div 64) < 2 ^ 58\<close> by (simp add: in_range_def)
qed

lemma low_ram_kept:
  assumes "unat x < 2 ^ 25" "bitmap s = memory_base + virtual_physical_base"
  shows "bit_write m (bitmap s) i b n x = m x"
  unfolding bit_write_def assms(2) by (rule bit_write_n_outside) (rule slot_above [OF assms(1)])

lemma filled_marked:
  assumes "i < 8192" "8192 < m" "m < 2 ^ 32"
  shows "bit_read (memset r memory_base 0xFF (of_nat m div 8)) (memory_base + virtual_physical_base) i"
  unfolding bit_read_iff
proof (intro allI impI)
  fix k :: nat assume k: "k < 64"
  let ?b = "bitmap_slot (memory_base + virtual_physical_base) (i div 64) + of_nat (k div 8) :: u64"
  have i: "unat (i div 64) < 128" using assms(1) by (simp add: unat_div word_less_nat_alt less_mult_imp_div_less)
  have k8: "k div 8 < 8" using k by simp
  have eq: "?b - memory_base = 8 * (i div 64) + of_nat (k div 8)" by (simp add: bitmap_slot_def phys_of_def)
  have "unat (8 * (i div 64)) = 8 * unat (i div 64)" using i by (subst unat_mult_u64) simp_all
  then have "unat (?b - memory_base) = 8 * unat (i div 64) + k div 8"
    unfolding eq using i k8 by (subst unat_add_u64) (simp_all add: unat_of_nat_less)
  moreover have "unat (of_nat m div 8 :: u64) = m div 8" using assms(3) by (simp add: unat_div unat_of_nat_less)
  moreover have "1024 \<le> m div 8" using assms(2) by simp
  ultimately have "?b - memory_base < of_nat m div 8" using i k8 by (simp add: word_less_nat_alt)
  then have "memset r memory_base 0xFF (of_nat m div 8) ?b = 0xFF" by (simp add: memset_eq)
  moreover have "bit (0xFF :: u8) (k mod 8)"
  proof -
    have "(0xFF :: u8) = mask 8" by (simp add: mask_eq_exp_minus_1)
    then show ?thesis by (simp only: bit_mask_iff) simp
  qed
  ultimately show "bit (load64 (memset r memory_base 0xFF (of_nat m div 8))
      (bitmap_slot (memory_base + virtual_physical_base) (i div 64))) k"
    using k by (simp add: load64_def bit_load_le)
qed

lemma region_above:
  assumes "8192 < m" "m < 2 ^ 32" "k < unat (region_pages m)"
  shows "8192 \<le> block_page (region_start m, region_pages m) k"
proof -
  have "unat (region_start m) = 0x2000000 + m div 8" unfolding region_start_def
    using assms(2) by (intro unat_of_nat_less) simp
  then have r: "unat (region_start m div page_size) = (0x2000000 + m div 8) div 4096" by (simp add: unat_div page_size_def)
  have "unat (region_pages m) = (4096 * (m - 8192) - m div 8) div 4096" unfolding region_pages_def
    using assms(2) by (intro unat_of_nat_less) simp
  then have k: "k < 2 ^ 32" using assms(2,3) by linarith
  then have "unat (of_nat k :: u64) = k" by (intro unat_of_nat_less) simp
  then have "unat (block_page (region_start m, region_pages m) k) = (0x2000000 + m div 8) div 4096 + k"
    using r k assms(2) unfolding block_page_def by (subst unat_add_u64) simp_all
  then show ?thesis by (simp add: word_le_nat_alt)
qed

lemma pmm_init_low:
  fixes s :: "'a pmm_state_scheme"
  assumes m: "usable_map mmap m" "8192 < m" "m < 2 ^ 32" and run: "pmm_init mmap s = Inr s'" and x: "unat x < 2 ^ 25"
  shows "ram s' x = ram s x \<and> pmm_used s' x \<and> \<not> pmm_own s' x"
proof (rule pmm_init_stages [OF m, of s])
  fix s4 s5 s6 :: "'a pmm_state_scheme" and c p
  assume "pmm_init mmap s = Inr s6" and s6: "pmm_alloc c s5 = Inr (p, s6)"
    and s4: "s4 = (pmm_free (region_start m) (region_pages m)
       (s\<lparr>bitmap := memory_base + virtual_physical_base, bitmap_len := of_nat m,
          ram := memset (ram s) memory_base 0xFF (of_nat m div 8)\<rparr>))\<lparr>total_pages := free_pages s4\<rparr>"
    and s5: "s5 = s4\<lparr>ram := bit_write (ram s4) (bitmap s4) first_page 1 c\<rparr>"
    and b4: "bitmap s4 = memory_base + virtual_physical_base" "bitmap_len s4 = of_nat m"
  then have s': "s' = s6" using run by simp
  let ?s2 = "s\<lparr>bitmap := memory_base + virtual_physical_base, bitmap_len := of_nat m,
          ram := memset (ram s) memory_base 0xFF (of_nat m div 8)\<rparr>"
  have b5: "bitmap s5 = memory_base + virtual_physical_base" "bitmap_len s5 = of_nat m" by (simp_all add: s5 b4)
  have b6: "bitmap s6 = memory_base + virtual_physical_base" "bitmap_len s6 = of_nat m"
    using s6 by (cases rule: pmm_alloc_cases, simp_all add: b5 pmm_take_def)+
  have ux: "unat (x - memory_base) = 2 ^ 64 + unat x - 2 ^ 25"
    using x by (subst unat_sub_if_size) (simp add: word_size memory_base_def)
  have "unat (of_nat m div 8 :: u64) < 2 ^ 32" using m(3) by (simp add: unat_div unat_of_nat_less)
  then have r2: "ram ?s2 x = ram s x" using ux by (simp add: memset_eq word_less_nat_alt)
  have r4: "ram s4 x = ram ?s2 x"
    by (subst s4) (simp add: pmm_free_def Let_def low_ram_kept [OF x, of ?s2, simplified])
  have r5: "ram s5 x = ram s4 x" by (simp add: s5 low_ram_kept [OF x b4(1)])
  have "ram s6 x = ram s5 x"
    using s6 by (cases rule: pmm_alloc_cases) (simp_all add: pmm_take_def low_ram_kept [OF x b5(1)])
  then have same: "ram s' x = ram s x" unfolding s' using r2 r4 r5 by (simp only:)
  define i where "i = x div page_size"
  have i: "i < 8192" using x by (simp add: i_def word_less_nat_alt unat_div page_size_def)
  have "page_marked ?s2 i" using filled_marked [OF i m(2,3)] by (simp add: page_marked_def)
  moreover have "slot i \<notin> block_slots (region_start m, region_pages m)"
  proof
    assume "slot i \<in> block_slots (region_start m, region_pages m)"
    then obtain k where "k < unat (region_pages m)" "slot (block_page (region_start m, region_pages m) k) = slot i"
      by (auto simp: in_block_slots)
    moreover have "slot i \<noteq> slot (block_page (region_start m, region_pages m) k)"
      by (rule slot_apart [OF _ i region_above [OF m(2,3) \<open>k < unat (region_pages m)\<close>]]) simp
    ultimately show False by simp
  qed
  ultimately have "page_marked (pmm_free (region_start m) (region_pages m) ?s2) i"
    using bitmap_aligned by (simp add: page_marked_free)
  then have "page_marked s4 i" by (subst s4) (simp add: page_marked_def)
  then have m5: "page_marked s5 i" using bitmap_aligned b4 by (simp add: s5 page_marked_def bit_read_write)
  have al5: "aligned 3 (phys_of (bitmap s5))" using bitmap_aligned b5 by simp
  from s6 have "page_marked s6 i"
    by (cases rule: pmm_alloc_cases) (simp_all add: m5 page_marked_take [OF al5])
  then have used: "pmm_used s' x" by (simp add: s' pmm_used_def i_def)
  have "bitmap_bytes (of_nat m) < 2 ^ 33" using m(3) by (simp add: bitmap_bytes_def unat_of_nat_less)
  then have "\<not> pmm_own s' x"
    using ux by (simp add: s' pmm_own_def b6 in_range_def phys_of_def)
  with same used show ?thesis by simp
qed

lemma pmm_init_run:
  fixes s :: "'a pmm_state_scheme"
  assumes m: "usable_map mmap m" "8192 < m" "m < 2 ^ 32" "m mod 64 = 0" and run: "pmm_init mmap s = Inr s'"
    and j: "64 dvd j" "8192 + 2 * bitmap_page_count m + 128 \<le> j" "j \<le> m - 1"
  shows "run_kept (of_nat j) (of_nat (m - 1)) s'"
proof (rule pmm_init_stages [OF m(1-3), of s])
  fix s4 s5 s6 :: "'a pmm_state_scheme" and c p
  assume "pmm_init mmap s = Inr s6" and s6: "pmm_alloc c s5 = Inr (p, s6)" and uc: "unat c = bitmap_page_count m"
    and s4: "s4 = (pmm_free (region_start m) (region_pages m)
       (s\<lparr>bitmap := memory_base + virtual_physical_base, bitmap_len := of_nat m,
          ram := memset (ram s) memory_base 0xFF (of_nat m div 8)\<rparr>))\<lparr>total_pages := free_pages s4\<rparr>"
    and s5: "s5 = s4\<lparr>ram := bit_write (ram s4) (bitmap s4) first_page 1 c\<rparr>"
    and b4: "bitmap s4 = memory_base + virtual_physical_base" "bitmap_len s4 = of_nat m"
  then have s': "s' = s6" using run by simp
  have wf: "pmm_wf s'" "bitmap_len s' = of_nat m"
    using pmm_init_usable [OF m, of s] run by auto
  have u: "unat (of_nat n :: u64) = n" if "n \<le> m" for n using that m(3) by (intro unat_of_nat_less) simp
  have al: "aligned 3 (phys_of (bitmap s4))" "aligned 3 (phys_of (bitmap s5))" using bitmap_aligned b4 by (simp_all add: s5)
  let ?n = "bitmap_page_count m"
  define K where "K = 64 * ((8192 + ?n + 63) div 64)"
  have K: "64 dvd K" "8192 + ?n \<le> K" "K + ?n \<le> j" unfolding K_def using j(2) by simp_all
  have Km: "K \<le> m" "j \<le> m" using K j by simp_all
  have taken: "first_page + of_nat k = (of_nat (8192 + k) :: u64)" for k by (simp add: first_page_eq)
  have free5: "\<not> page_marked s5 i" if i: "K \<le> unat i" "unat i < m - 1" for i
  proof -
    have "slot (first_page + of_nat k) \<noteq> slot i" if k: "k < unat c" for k
    proof (rule slot_apart)
      show "64 dvd unat (of_nat K :: u64)" using K(1) u Km by simp
      show "first_page + of_nat k < (of_nat K :: u64)"
        unfolding taken using k uc K u Km by (simp add: word_less_nat_alt del: of_nat_add)
      show "of_nat K \<le> i" using i u Km by (simp add: word_le_nat_alt)
    qed
    moreover have "\<not> page_marked s4 (of_nat (unat i))" by (rule region_released [OF m(2,3) s4]) (use i K in simp_all)
    ultimately show ?thesis using al by (auto simp: s5 page_marked_def bit_read_write)
  qed
  define E :: u64 where "E = of_nat (m - 1)"
  have uE: "unat E = m - 1" unfolding E_def by (rule u) simp
  have "\<not> page_marked s6 i" if i: "of_nat j \<le> i" "i < E" for i
    using s6
  proof (cases rule: pmm_alloc_cases)
    case exhausted
    then show ?thesis using free5 i u Km K uE by (simp add: word_le_nat_alt word_less_nat_alt)
  next
    case (found idx)
    have "bitmap_is_free (ram s5) (bitmap s5) (of_nat K) c"
      unfolding bitmap_is_free_iff page_marked_def [symmetric]
    proof (intro allI impI free5)
      fix k assume "k < unat c"
      then have "unat (of_nat (K + k) :: u64) = K + k" using uc K Km by (intro u) simp
      then show "K \<le> unat (of_nat K + of_nat k :: u64)" "unat (of_nat K + of_nat k :: u64) < m - 1"
        using \<open>k < unat c\<close> uc K j by simp_all
    qed
    then have "idx \<le> of_nat K"
      using found(5) [of "of_nat K"] K(2) u Km by (force simp: first_page_eq word_le_nat_alt not_le word_less_nat_alt)
    then have ui: "unat idx \<le> K" using u Km by (simp add: word_le_nat_alt)
    have "slot (idx + of_nat k) \<noteq> slot i" if k: "k < unat c" for k
    proof (rule slot_apart [OF _ _ i(1)])
      show "64 dvd unat (of_nat j :: u64)" using j(1) u Km by simp
      have uk: "unat (of_nat k :: u64) = k" using k uc K Km by (intro u) simp
      have "unat (idx + of_nat k) = unat idx + k" using ui k uc K Km m(3) uk by (subst unat_add_u64) simp_all
      then show "idx + of_nat k < of_nat j" using ui k uc K u Km by (simp add: word_less_nat_alt)
    qed
    moreover have "\<not> page_marked s5 i" using free5 i u Km K uE by (simp add: word_le_nat_alt word_less_nat_alt)
    ultimately show ?thesis by (simp add: found(6) page_marked_take [OF al(2)])
  qed
  then show ?thesis
    using wf j u Km K uE unfolding run_kept_def s' E_def [symmetric] by (simp add: word_le_nat_alt)
qed

section \<open>After \<open>Vmm::init\<close>\<close>

lemma vmm_init_keeps:
  fixes s :: "'a vmm_state_scheme"
  assumes kept: "run_kept J E s" and can: "can_alloc (pmm_alloc 1) 11 s" and run: "vmm_init s = Inr s'"
  shows "run_kept J E s'"
    and "pmm_used s x \<Longrightarrow> \<not> pmm_own s x \<Longrightarrow> pmm_data s' (cr3 s') x \<and> ram s' x = ram s x"
proof -
  obtain p s1 where new: "new_address_space (pmm_alloc 1) s = Inr (p, s1)" and s': "s' = s1\<lparr>kernel_pml4 := p, cr3 := p\<rparr>"
    using run by (auto simp: vmm_init_def set_context_def rbind_eq_Inr)
  have "can_alloc (pmm_alloc 1) (Suc 0) s" by (rule can_alloc_mono [OF can]) simp
  then obtain q t where "pmm_alloc 1 s = Inr (q, t)" "q \<noteq> 0" by (auto simp: can_alloc.simps split: sum.splits)
  moreover have "\<exists>t. pmm_alloc 1 s = Inr (p, t)" using new by (auto simp: new_address_space_def rbind_eq_Inr Let_def)
  ultimately have p: "p \<noteq> 0" by auto
  note keeps = run.new_address_space_keeps [OF kept new p]
  have "run_kept J E s1" using keeps(1) by (simp add: run_inv)
  then show "run_kept J E s'" by (simp add: s' run_kept_def pmm_wf_def pmm_own_def pmm_used_def page_marked_def)
  assume "pmm_used s x" "\<not> pmm_own s x"
  from keeps(2) [OF this] show "pmm_data s' (cr3 s') x \<and> ram s' x = ram s x"
    by (simp add: s' run.data_byte_def pmm.data_byte_def pmm_own_def pmm_used_def page_marked_def)
qed

end
