(* ===== verification/Kernel.thy ===== *)
theory Kernel
  imports PciInit BootMemory
begin

text \<open>
  The entry points of the kernel, \<open>spark.cpp\<close>: what the boot processor does with the boot loader's
  information, and what every other processor does when it has left the trampoline.
\<close>

unbundle bit_operations_syntax

section \<open>The boot loader's information\<close>

definition read_info :: "string \<Rightarrow> u64 \<Rightarrow> 'a vmm_state_scheme \<Rightarrow> u64 result" where
  "read_info f mb_info s = read_member Info f (kernel_reader s) mb_info"

definition read_memory_map :: "reader \<Rightarrow> u64 \<Rightarrow> memory_map result" where
  "read_memory_map rd p =
     rbind (read_member MemoryMap ''size'' rd p) (\<lambda>sz.
     rbind (read_member MemoryMap ''addr'' rd p) (\<lambda>addr.
     rbind (read_member MemoryMap ''len'' rd p) (\<lambda>len.
     rbind (read_member MemoryMap ''type'' rd p) (\<lambda>ty.
       Inr \<lparr>mm_size = ucast sz, mm_addr = addr, mm_len = len, mm_type = ucast ty\<rparr>))))"

primrec read_memory_maps :: "nat \<Rightarrow> reader \<Rightarrow> u64 \<Rightarrow> memory_map list result" where
  "read_memory_maps 0 rd p = Inr []"
| "read_memory_maps (Suc n) rd p =
     rbind (read_memory_map rd p) (\<lambda>e.
     rbind (read_memory_maps n rd (p + of_nat (size_of MemoryMap))) (\<lambda>es. Inr (e # es)))"

section \<open>The boot processor\<close>

text \<open>The memory: \<open>Pmm::init\<close> works on the entries as they are when it is called.\<close>

definition kernel_memory :: "u64 \<Rightarrow> 'a vmm_state_scheme \<Rightarrow> 'a vmm_state_scheme result" where
  "kernel_memory mb_info s =
     rbind (read_info ''mmap_addr'' mb_info s) (\<lambda>memory_map.
     rbind (read_info ''mmap_length'' mb_info s) (\<lambda>mmap_length.
     rbind (read_memory_maps (unat (mmap_length div of_nat (size_of MemoryMap))) (kernel_reader s) memory_map) (\<lambda>mmap.
     rbind (pmm_init mmap s) vmm_init)))"

text \<open>The size of the frame buffer is computed in 32 bits. The result is the structure that \<open>Graphics::init\<close>
  gets, or nothing when the frame buffer could not be mapped.\<close>

definition kernel_frame_buffer :: "u64 \<Rightarrow> 'a heap_state_scheme \<Rightarrow> (mode_info option \<times> 'a heap_state_scheme) result" where
  "kernel_frame_buffer mb_info s =
     rbind (read_info ''framebuffer_addr'' mb_info s) (\<lambda>fb.
     rbind (read_info ''framebuffer_width'' mb_info s) (\<lambda>w.
     rbind (read_info ''framebuffer_pitch'' mb_info s) (\<lambda>pt.
     let virtual_fb = fb + virtual_kernel_base;
         bytes = ucast (ucast w * ucast pt :: u32) :: u64
     in rbind (map_pages (pmm_alloc 1) (get_current_context s) virtual_fb fb ((bytes + page_size - 1) div page_size)
                 (VMM_PRESENT OR VMM_WRITE) s) (\<lambda>(mapped, s1).
        if mapped
        then
          rbind (read_info ''framebuffer_width'' mb_info s1) (\<lambda>w.
          rbind (read_info ''framebuffer_pitch'' mb_info s1) (\<lambda>pt.
          rbind (malloc (ucast (ucast w * ucast pt :: u32)) s1) (\<lambda>(backbuf, s2).
          rbind (read_info ''framebuffer_pitch'' mb_info s2) (\<lambda>pt.
          rbind (read_info ''framebuffer_width'' mb_info s2) (\<lambda>w.
          rbind (read_info ''framebuffer_height'' mb_info s2) (\<lambda>h.
          rbind (read_info ''framebuffer_bpp'' mb_info s2) (\<lambda>depth.
            Inr (Some \<lparr>backbuffer = backbuf, framebuffer = virtual_fb, pitch = ucast pt, mode_width = ucast w,
              mode_height = ucast h, bpp = ucast depth\<rparr>, s2))))))))
        else Inr (None, s1)))))"

text \<open>Everything up to the loop at the end of \<open>kernel_main\<close>, with whether the loop is reached; \<open>entries_addr\<close> is
  the address of \<open>idt_entries\<close>.\<close>

definition kernel_boot ::
  "devices \<Rightarrow> processors \<Rightarrow> cpuid \<Rightarrow> literals \<Rightarrow> smp_symbols \<Rightarrow> u64 \<Rightarrow> u64 \<Rightarrow> u32 \<Rightarrow> 'a pci_state_scheme \<Rightarrow>
   (bool \<times> 'a pci_state_scheme) result" where
  "kernel_boot dev ap cpuid lit sy entries_addr mb_info_ptr multiboot_magic s =
     (if multiboot_magic = 0x2BADB002 \<and> mb_info_ptr \<noteq> 0
      then
        let mb_info = mb_info_ptr + virtual_kernel_base
        in rbind (kernel_memory mb_info s) (\<lambda>s1.
           rbind (kernel_frame_buffer mb_info s1) (\<lambda>(mi, s2).
             case mi of
               None \<Rightarrow> Inr (False, s2)
             | Some mode_info \<Rightarrow>
                 rbind (graphics_init mode_info (gfx (console s2))) (\<lambda>g.
                 let s3 = s2\<lparr>console := (console s2)\<lparr>gfx := g\<rparr>\<rparr>;
                     s4 = idt_init entries_addr s3
                 in rbind (acpi_init dev ap cpuid lit sy s4) (\<lambda>s5.
                    rbind (pci_init lit s5) (\<lambda>s6. Inr (True, s6))))))
      else Inr (False, s))"

definition kernel_main ::
  "devices \<Rightarrow> processors \<Rightarrow> cpuid \<Rightarrow> literals \<Rightarrow> smp_symbols \<Rightarrow> u64 \<Rightarrow> u64 \<Rightarrow> u32 \<Rightarrow> 'a pci_state_scheme \<Rightarrow>
   'a pci_state_scheme result" where
  "kernel_main dev ap cpuid lit sy entries_addr mb_info_ptr multiboot_magic s =
     rbind (kernel_boot dev ap cpuid lit sy entries_addr mb_info_ptr multiboot_magic s) (\<lambda>(loops, s').
       if loops then Inl Halted else Inr s')"

section \<open>The other processors\<close>

definition smp_kernel_boot :: "u64 \<Rightarrow> 'a smp_state_scheme \<Rightarrow> 'a smp_state_scheme" where
  "smp_kernel_boot entries_addr s = set_booted (idt_init entries_addr s)"

definition smp_kernel_main :: "u64 \<Rightarrow> 'a smp_state_scheme \<Rightarrow> 'a smp_state_scheme result" where
  "smp_kernel_main entries_addr s = (let s1 = smp_kernel_boot entries_addr s in Inl Halted)"

section \<open>Properties\<close>

lemma rbind_eq_InrE: "rbind m f = Inr y \<Longrightarrow> (\<And>x. m = Inr x \<Longrightarrow> f x = Inr y \<Longrightarrow> P) \<Longrightarrow> P"
  by (auto simp: rbind_eq_Inr)

lemma map_pages_not_false: "map_pages alloc r v p c perms s \<noteq> Inr (False, s')"
  using map_pages_n_true by (fastforce simp: map_pages_def)

lemma kernel_frame_buffer_mapped:
  assumes "kernel_frame_buffer mb_info s = Inr (mi, s')"
  shows "mi \<noteq> None"
  using assms unfolding kernel_frame_buffer_def Let_def
  by (elim rbind_eq_InrE) (auto simp: map_pages_not_false split: if_splits elim!: rbind_eq_InrE)

lemma kernel_boot_loops:
  assumes "kernel_boot dev ap cpuid lit sy entries_addr mb_info_ptr multiboot_magic s = Inr (b, t)"
  shows "if multiboot_magic = 0x2BADB002 \<and> mb_info_ptr \<noteq> 0 then b else \<not> b \<and> t = s"
proof (cases "multiboot_magic = 0x2BADB002 \<and> mb_info_ptr \<noteq> 0")
  case True
  obtain s1 mi s2 where fb: "kernel_frame_buffer (mb_info_ptr + virtual_kernel_base) s1 = Inr (mi, s2)"
    and rest: "(case mi of None \<Rightarrow> Inr (False, s2)
       | Some mode_info \<Rightarrow>
           rbind (graphics_init mode_info (gfx (console s2))) (\<lambda>g.
             rbind (acpi_init dev ap cpuid lit sy (idt_init entries_addr (s2\<lparr>console := (console s2)\<lparr>gfx := g\<rparr>\<rparr>)))
               (\<lambda>s5. rbind (pci_init lit s5) (\<lambda>s6. Inr (True, s6))))) = Inr (b, t)"
    using assms True unfolding kernel_boot_def Let_def if_P [OF True]
    by (elim rbind_eq_InrE) (auto split: prod.splits)
  then show ?thesis
    using kernel_frame_buffer_mapped [OF fb] True by (cases mi) (auto elim!: rbind_eq_InrE)
next
  case False
  then show ?thesis using assms unfolding kernel_boot_def if_not_P [OF False] by auto
qed

text \<open>C13: \<open>kernel_main\<close> returns to the loader's code exactly when the magic number is wrong or there is no
  information, and then it has done nothing. In particular the branch for a frame buffer that could not be
  mapped is never taken: without memory the kernel faults before it gets there.\<close>

theorem kernel_main_returns:
  "kernel_main dev ap cpuid lit sy entries_addr mb_info_ptr multiboot_magic s = Inr s' \<longleftrightarrow>
     \<not> (multiboot_magic = 0x2BADB002 \<and> mb_info_ptr \<noteq> 0) \<and> s' = s"
proof (cases "multiboot_magic = 0x2BADB002 \<and> mb_info_ptr \<noteq> 0")
  case True
  then show ?thesis
    by (auto simp: kernel_main_def rbind_eq_Inr split: if_splits dest: kernel_boot_loops)
next
  case False
  then show ?thesis by (auto simp: kernel_main_def kernel_boot_def)
qed

text \<open>C11: from the boot loader's memory map to a running address space. When one region of the map reaches
  from the start of the managed memory to page \<open>m\<close>, and the other regions lie below it, the physical
  memory manager takes over \<open>m\<close> pages and \<open>Vmm::init\<close> switches to tables of its own: every physical address
  below 4 GiB is reached through the direct map, the lower half is empty, the heap's invariant holds, and
  \<open>n\<close> more pages can be allocated whenever half of what the region has, less twice the pages of the bitmap
  and the eleven tables, is as much (pages 32 apart share a bit, and the bitmap is allocated twice).\<close>

theorem memory_comes_up:
  fixes s :: "'a heap_state_scheme"
  assumes "read_info ''mmap_addr'' mb_info s = Inr a" "read_info ''mmap_length'' mb_info s = Inr len"
    and "read_memory_maps (unat (len div 24)) (kernel_reader s) a = Inr mmap"
    and "usable_map mmap m" "8192 < m" "m < 2 ^ 32" "m mod 64 = 0"
    and "2 * (n + 11 + 2 * bitmap_page_count m) \<le> m - 1 - (8192 + bitmap_page_count m)"
    and "heap_top s = memory_base" "\<not> bit (mm_lock s) 0"
  shows "\<exists>s'. kernel_memory mb_info s = Inr s' \<and> fresh_kernel n s' \<and> bitmap_len s' = of_nat m"
proof -
  obtain s1 s' where "pmm_init mmap s = Inr s1" "vmm_init s1 = Inr s'" "fresh_kernel n s'" "bitmap_len s' = of_nat m"
    by (rule memory_run [OF assms(4-10)]) (rule that)
  moreover have "(of_nat (size_of MemoryMap) :: u64) = 24" by (simp add: MemoryMap_def size_of_def)
  ultimately show ?thesis by (simp add: kernel_memory_def assms(1-3))
qed

text \<open>A machine as the boot loader leaves it: the loader's tables map the first two MiB at 0 and in the
  kernel window, the information is at 0x9000 and the map, of one region, at 0x9100. The screen has one
  pixel.\<close>

definition loader_region :: memory_map where
  "loader_region = \<lparr>mm_size = 20, mm_addr = 0x100000, mm_len = 0x2300000, mm_type = 1\<rparr>"

definition loader_memory :: memory where
  "loader_memory =
     area 0x9058 21 (le_bytes 8 0xE0000000 @ le_bytes 4 4 @ le_bytes 4 1 @ le_bytes 4 1 @ [32]) (
     area 0x10000 8 (le_bytes 8 0x11003) (area 0x10FF8 8 (le_bytes 8 0x11003)
       (area 0x11000 8 (le_bytes 8 0x12003) (area 0x11FF0 8 (le_bytes 8 0x12003)
       (area 0x12000 8 (le_bytes 8 0x83)
       (area 0x902C 4 (le_bytes 4 24) (area 0x9030 4 (le_bytes 4 0x9100)
       (area 0x9100 24 (le_bytes 4 20 @ le_bytes 8 0x100000 @ le_bytes 8 0x2300000 @ le_bytes 4 1) (\<lambda>_. 0)))))))))"

definition loader_state :: heap_state where
  "loader_state = \<lparr>ram = loader_memory, bitmap = 0, free_pages = 0, total_pages = 0, bitmap_len = 0,
     kernel_pml4 = 0, cr3 = 0x10000, mm_lock = 0, heap_top = memory_base\<rparr>"

lemma loader_tables:
  "load64 loader_memory 0x10000 = 0x11003" "load64 loader_memory 0x10FF8 = 0x11003"
  "load64 loader_memory 0x11000 = 0x12003" "load64 loader_memory 0x11FF0 = 0x12003"
  "load64 loader_memory 0x12000 = 0x83"
  by code_simp+

definition loader_mapped :: "u64 \<Rightarrow> bool" where
  "loader_mapped v \<longleftrightarrow> (hw_index 3 v, hw_index 2 v) \<in> {(0, 0), (511, 510)} \<and> hw_index 1 v = 0"

lemma loader_walk:
  assumes "loader_mapped v"
  shows "hw_walk loader_memory 0x10000 v = Page2M 0x83"
  using assms loader_tables by (auto simp: hw_walk_def hw_frame_def Let_def loader_mapped_def)

lemma loader_reads:
  assumes "list_all (\<lambda>k. loader_mapped (a + of_nat k)) [0..<n]"
  shows "reads (kernel_reader loader_state) (\<lambda>v. loader_memory (v AND 0x1FFFFF)) a n"
  using assms loader_walk
  by (simp add: reads_def list_all_iff kernel_reader_def virt_load8_def loader_state_def hw_translate_def)

lemma loader_usable: "usable_map [loader_region] 0x2400"
  unfolding usable_map_def
  by (intro exI [of _ "[]"] exI [of _ loader_region]) (simp add: loader_region_def AVAILABLE_def aligned_def memory_base_def)

lemma Info_layout:
  "Info = foldr (\<lambda>(f, n) l. ('''', 0) # (f, n) # l)
     [(''flags'', 4), (''mem_lower'', 4), (''mem_upper'', 4), (''boot_device'', 4), (''cmdline'', 4),
      (''mods_count'', 4), (''mods_addr'', 4), (''u'', 16), (''mmap_length'', 4), (''mmap_addr'', 4), (''drives_length'', 4), (''drives_addr'', 4),
      (''config_table'', 4), (''boot_loader_name'', 4), (''apm_table'', 4), (''vbe_control_info'', 4),
      (''vbe_mode_info'', 4), (''vbe_mode'', 2), (''vbe_interface_seg'', 2), (''vbe_interface_off'', 2),
      (''vbe_interface_len'', 2), (''framebuffer_addr'', 8), (''framebuffer_pitch'', 4),
      (''framebuffer_width'', 4), (''framebuffer_height'', 4), (''framebuffer_bpp'', 1),
      (''framebuffer_type'', 1)] [('''', 2), (''color_info'', 8), ('''', 0)]"
  by (simp add: Info_def PaletteInfo_def AoutSymbolTable_def ElfSectionHeaderTable_def natural_eval del: pad_members.simps(2))

lemma info_members:
  "read_member Info ''mmap_length'' rd p = read_n 4 rd (p + 44)"
  "read_member Info ''mmap_addr'' rd p = read_n 4 rd (p + 48)"
  "read_member Info ''framebuffer_addr'' rd p = read_n 8 rd (p + 88)"
  "read_member Info ''framebuffer_pitch'' rd p = read_n 4 rd (p + 96)"
  "read_member Info ''framebuffer_width'' rd p = read_n 4 rd (p + 100)"
  "read_member Info ''framebuffer_height'' rd p = read_n 4 rd (p + 104)"
  "read_member Info ''framebuffer_bpp'' rd p = read_n 1 rd (p + 108)"
  by (simp_all add: read_member_def member_size_def Info_layout)

lemma map_members:
  "read_member MemoryMap ''size'' rd p = read_n 4 rd p" "read_member MemoryMap ''addr'' rd p = read_n 8 rd (p + 4)"
  "read_member MemoryMap ''len'' rd p = read_n 8 rd (p + 12)" "read_member MemoryMap ''type'' rd p = read_n 4 rd (p + 20)"
  by (simp_all add: read_member_def member_size_def MemoryMap_def)

lemma loader_info:
  "read_info ''mmap_length'' (0x9000 + virtual_kernel_base) loader_state = Inr 24"
  "read_info ''mmap_addr'' (0x9000 + virtual_kernel_base) loader_state = Inr 0x9100"
  "read_memory_map (kernel_reader loader_state) 0x9100 = Inr loader_region"
proof -
  let ?m = "\<lambda>v. loader_memory (v AND 0x1FFFFF)"
  have "list_all (\<lambda>k. loader_mapped (0x9000 + virtual_kernel_base + 44 + of_nat k)) [0..<4]"
    "list_all (\<lambda>k. loader_mapped (0x9000 + virtual_kernel_base + 48 + of_nat k)) [0..<4]"
    "list_all (\<lambda>k. loader_mapped (0x9100 + of_nat k)) [0..<4]" "list_all (\<lambda>k. loader_mapped (0x9104 + of_nat k)) [0..<8]"
    "list_all (\<lambda>k. loader_mapped (0x910C + of_nat k)) [0..<8]" "list_all (\<lambda>k. loader_mapped (0x9114 + of_nat k)) [0..<4]"
    by code_simp+
  note n = this [THEN loader_reads, THEN read_n_reads]
  have "load_le 4 ?m (0x9000 + virtual_kernel_base + 44) = 24" "load_le 4 ?m (0x9000 + virtual_kernel_base + 48) = 0x9100"
    "load_le 4 ?m 0x9100 = 20" "load_le 8 ?m 0x9104 = 0x100000" "load_le 8 ?m 0x910C = 0x2300000" "load_le 4 ?m 0x9114 = 1"
    by code_simp+
  note v = n [unfolded this]
  show "read_info ''mmap_length'' (0x9000 + virtual_kernel_base) loader_state = Inr 24"
    "read_info ''mmap_addr'' (0x9000 + virtual_kernel_base) loader_state = Inr 0x9100"
    unfolding read_info_def info_members by (rule v)+
  show "read_memory_map (kernel_reader loader_state) 0x9100 = Inr loader_region"
    by (simp add: read_memory_map_def map_members v(3-6) loader_region_def)
qed

theorem memory_comes_up_witness:
  "\<exists>s'. kernel_memory (0x9000 + virtual_kernel_base) loader_state = Inr s' \<and> fresh_kernel 400 s' \<and> bitmap_len s' = 0x2400"
proof -
  note loader_usable
  moreover have "read_memory_maps (unat (24 div 24 :: u64)) (kernel_reader loader_state) 0x9100 = Inr [loader_region]"
    by (simp add: loader_info(3))
  moreover have "heap_top loader_state = memory_base" "mm_lock loader_state = 0" by (simp_all add: loader_state_def)
  ultimately show ?thesis
    using memory_comes_up [OF loader_info(2,1), of "[loader_region]" "0x2400" 400] by (simp add: bitmap_page_count_def)
qed

end
