(* ===== verification/BootScreen.thy ===== *)
theory BootScreen
  imports Kernel
begin

text \<open>
  The second part of \<open>kernel_main\<close>: the frame buffer is mapped at its distance from the kernel's base, and
  the heap gives the buffer behind it.
\<close>

unbundle bit_operations_syntax

section \<open>Pages mapped beside the heap\<close>

lemma heap_map_beside:
  fixes s :: "'a heap_state_scheme"
  assumes inv: "heap_inv s" and v: "aligned 12 v" "unat v + 4096 * unat c \<le> 2 ^ 47" "unat (heap_top s) \<le> unat v"
    and perms: "perms_ok perms" and can: "can_alloc (pmm_alloc 1) (3 * unat c) s"
  obtains s' where "map_pages (pmm_alloc 1) (cr3 s) v phys c perms s = Inr (True, s')" "heap_inv s'"
    "cr3 s' = cr3 s" "heap_top s' = heap_top s" "bitmap_len s' = bitmap_len s"
    "\<And>w. hw_walk (ram s') (cr3 s) w = (if steps 12 v w < unat c
      then Page4K (leaf_entry (phys + of_nat (steps 12 v w) * 4096) perms) else hw_walk (ram s) (cr3 s) w)"
    "\<And>a b. upper_byte s a b \<Longrightarrow> upper_byte s' a b"
proof -
  note h = heap_invD [OF inv]
  have c: "unat c \<le> 2 ^ 36" using v(2) by simp
  have low: "hw_walk (ram s) (cr3 s) (v + of_nat k * 4096) \<noteq> Page2M e" if "k < unat c" for k e
  proof -
    have "unat (v + of_nat (4096 * k)) = unat v + 4096 * k"
      using that v(2) by (subst unat_add_u64) (simp_all add: unat_of_nat_less del: of_nat_mult)
    then have "unat (v + of_nat (4096 * k)) < 2 ^ 47" using that v(2) by simp
    then show ?thesis using h(6) [of "v + of_nat (4096 * k)" e] by (simp add: mult.commute)
  qed
  obtain s' where s': "map_pages (pmm_alloc 1) (cr3 s) v phys c perms s = Inr (True, s')" "space_ok s' (cr3 s)"
    "pmm.grows s s' (cr3 s)" "hw_walk (ram s') (cr3 s) = edit_range 12 v (unat c)
      (\<lambda>k _. Page4K (leaf_entry (phys + of_nat k * 4096) perms)) (hw_walk (ram s) (cr3 s))"
    using map_pages_correct [OF h(1) perms c low, of phys] can by auto
  have "(cr3 s', heap_top s', mm_lock s', bitmap_len s') = (cr3 s, heap_top s, mm_lock s, bitmap_len s)"
    by (rule map_pages_n_frame [where g = "\<lambda>s. (cr3 s, heap_top s, mm_lock s, bitmap_len s)", OF _ _ s'(1) [unfolded map_pages_def]])
      (auto elim!: pmm_alloc_cases simp: pmm_take_def)
  then have frame: "cr3 s' = cr3 s" "heap_top s' = heap_top s" "mm_lock s' = mm_lock s" "bitmap_len s' = bitmap_len s" by simp_all
  have walk: "hw_walk (ram s') (cr3 s) w = (if steps 12 v w < unat c
      then Page4K (leaf_entry (phys + of_nat (steps 12 v w) * 4096) perms) else hw_walk (ram s) (cr3 s) w)" for w
    by (simp add: s'(4) edit_range_def)
  have old: "\<not> steps 12 v w < unat c" if "heap_addr s w" for w
  proof -
    have "unat w < unat (heap_top s)" using that by (simp add: heap_addr_def word_less_nat_alt)
    then show ?thesis using steps_in_range(1) [OF v(1,2), of w] v(3) h(4) by simp
  qed
  have addr: "heap_addr s' w = heap_addr s w" for w by (simp add: heap_addr_def frame(2))
  have map: "heap_map s' w = heap_map s w" if "heap_addr s w" for w
    using old [OF that] by (simp add: heap_map_def hw_translate_def frame(1) walk)
  have "heap_inv s'"
    unfolding heap_inv_def frame(1-3) addr
  proof (intro conjI allI impI)
    show "\<exists>x. heap_map s' w = Some x \<and> pmm_data s' (cr3 s) x" if "heap_addr s w" for w
      using h(7) [OF that] pmm.grows_data(1) [OF s'(3)] map [OF that] by auto
    show "w = w'" if "heap_addr s w" "heap_addr s w'" "heap_map s' w = heap_map s' w'" for w w'
      using inv that map unfolding heap_inv_def by metis
    show "hw_walk (ram s') (cr3 s) w \<noteq> Page2M e" if "unat w < 2 ^ 47" for w e
      using h(6) [OF that] by (simp add: walk)
  qed (use s'(2) h in simp_all)
  moreover have "upper_byte s' a b" if "upper_byte s a b" for a b
  proof -
    have "\<not> steps 12 v a < unat c" using v(1,2) that by (intro steps_upper) (simp_all add: upper_byte_def)
    then show ?thesis
      using that pmm.grows_data [OF s'(3)] by (auto simp: upper_byte_def hw_translate_def frame(1) walk)
  qed
  ultimately show thesis using that s'(1) frame walk by blast
qed

lemma heap_extended_upper:
  assumes inv: "heap_inv s" and ext: "heap_extended s s' p c" and room: "unat (heap_top s) + 4096 * unat c \<le> 2 ^ 46"
    and byte: "upper_byte s a b"
  shows "upper_byte s' a b"
proof -
  have e: "cr3 s' = cr3 s" "\<And>v. hw_walk (ram s') (cr3 s) v = (if steps 12 (heap_top s) v < unat c
       then Page4K (leaf_entry (p + of_nat (steps 12 (heap_top s) v) * 4096) (VMM_PRESENT OR VMM_WRITE))
       else hw_walk (ram s) (cr3 s) v)"
    "\<And>x. pmm_data s (cr3 s) x \<Longrightarrow> pmm_data s' (cr3 s) x \<and> ram s' x = ram s x"
    using ext by (simp_all add: heap_extended_def)
  have "\<not> steps 12 (heap_top s) a < unat c"
    using heap_invD(2) [OF inv] room byte by (intro steps_upper) (simp_all add: upper_byte_def)
  then show ?thesis using byte e(3) by (auto simp: upper_byte_def hw_translate_def e(1,2))
qed

section \<open>The information stays readable\<close>

definition info_at :: "memory \<Rightarrow> u64 \<Rightarrow> 'a vmm_state_scheme \<Rightarrow> bool" where
  "info_at m p s \<longleftrightarrow> (\<forall>i < size_of Info. upper_byte s (p + of_nat i) (m (p + of_nat i)))"

definition info_field :: "memory \<Rightarrow> u64 \<Rightarrow> string \<Rightarrow> u64" where
  "info_field m p f = load_le (member_size Info f) m (p + of_nat (offset_of Info f))"

lemma read_info_at:
  assumes "info_at m p s"
  shows "read_info f p s = Inr (info_field m p f)"
proof -
  have "reads (kernel_reader s) m p (size_of Info)"
    using assms by (simp add: reads_def info_at_def upper_byte_reads)
  from reads_part [OF this offset_member_le [of Info f]] show ?thesis
    by (simp add: read_info_def read_member_def info_field_def read_n_reads)
qed

section \<open>The frame buffer\<close>

text \<open>The number of bytes of the screen, in 32 bits, and of its pages.\<close>

definition screen_bytes :: "memory \<Rightarrow> u64 \<Rightarrow> u64" where
  "screen_bytes m p = ucast (ucast (info_field m p ''framebuffer_width'') * ucast (info_field m p ''framebuffer_pitch'') :: u32)"

definition screen_pages :: "memory \<Rightarrow> u64 \<Rightarrow> u64" where
  "screen_pages m p = (screen_bytes m p + page_size - 1) div page_size"

lemma screen_pages_cover:
  "unat (screen_bytes m p) \<le> 4096 * unat (screen_pages m p)" "unat (screen_pages m p) \<le> 2 ^ 20"
proof -
  have b: "unat (screen_bytes m p) < 2 ^ 32"
    unfolding screen_bytes_def using unat_u32_less by (simp add: unsigned_ucast_eq take_bit_nat_eq_self)
  then have "unat (screen_bytes m p + 4095) = unat (screen_bytes m p) + 4095" by (subst unat_add_u64) simp_all
  moreover have "screen_bytes m p + page_size - 1 = screen_bytes m p + 4095" "unat page_size = 4096" by (simp_all add: page_size_def)
  ultimately have "unat (screen_pages m p) = (unat (screen_bytes m p) + 4095) div 4096"
    by (simp only: screen_pages_def unat_div)
  then show "unat (screen_bytes m p) \<le> 4096 * unat (screen_pages m p)" "unat (screen_pages m p) \<le> 2 ^ 20"
    using b by simp_all
qed

lemma kernel_window_wraps:
  assumes "2 ^ 31 \<le> unat fb" "unat fb < 2 ^ 46"
  shows "unat (fb + virtual_kernel_base) = unat fb - 2 ^ 31"
proof -
  have eq: "fb + virtual_kernel_base = fb - 0x80000000" by (simp add: mm_consts)
  have "0x80000000 \<le> fb" using assms(1) by (simp add: word_le_nat_alt)
  then show ?thesis unfolding eq by (simp add: unat_sub)
qed

text \<open>The screen, on a machine whose frame buffer lies at 2 GiB or above, so that its address in the kernel
  window wraps around to the lower half, and there beyond the heap: with pages for the tables and room for
  the second buffer, the structure for \<open>Graphics::init\<close> has what the boot loader says, each byte of the
  screen is reached at its distance from \<open>virtual_kernel_base\<close>, also after the heap has grown, the second
  buffer is a block of the heap, and the heap's invariant holds.\<close>

theorem screen_comes_up:
  fixes s :: "'a heap_state_scheme"
  assumes "fb = info_field m p ''framebuffer_addr''" "bytes = screen_bytes m p"
    and "heap_inv s" "info_at m p s"
    and "aligned 12 fb" "2 ^ 31 \<le> unat fb" "unat fb < 2 ^ 46"
    and "unat (heap_top s) + 4096 * unat (block_pages (block_bytes bytes)) + 2 ^ 31 \<le> unat fb"
    and "can_alloc (pmm_alloc 1) (3 * unat (screen_pages m p)) s"
    and "\<And>s1. map_pages (pmm_alloc 1) (cr3 s) (fb + virtual_kernel_base) fb (screen_pages m p) (VMM_PRESENT OR VMM_WRITE) s
      = Inr (True, s1) \<Longrightarrow> heap_inv s1 \<Longrightarrow> \<exists>q. malloc_room s1 bytes q"
  shows "\<exists>b s'. kernel_frame_buffer p s = Inr (Some \<lparr>backbuffer = b, framebuffer = fb + virtual_kernel_base,
        pitch = ucast (info_field m p ''framebuffer_pitch''), mode_width = ucast (info_field m p ''framebuffer_width''),
        mode_height = ucast (info_field m p ''framebuffer_height''), bpp = ucast (info_field m p ''framebuffer_bpp'')\<rparr>, s') \<and>
      heap_inv s' \<and>
      (\<forall>i < unat bytes. heap_addr s' (b + of_nat i) \<and>
        hw_translate (ram s') (cr3 s') (fb + virtual_kernel_base + of_nat i) = Some (fb + of_nat i))"
proof -
  let ?v = "fb + virtual_kernel_base" and ?c = "screen_pages m p" and ?k = "block_pages (block_bytes bytes)"
  note h = heap_invD [OF assms(3)]
  note uv = kernel_window_wraps [OF assms(6,7)]
  note cover = screen_pages_cover [of m p, folded assms(2)]
  have al: "aligned 12 ?v" using assms(5) by (intro aligned_add) (simp_all add: mm_consts aligned_def)
  have room: "unat ?v + 4096 * unat ?c \<le> 2 ^ 47" using cover(2) assms(7) uv by simp
  have top: "unat (heap_top s) + 4096 * unat ?k \<le> unat ?v" using assms(8) uv by simp
  then have above: "unat (heap_top s) \<le> unat ?v" by simp
  obtain s1 where s1: "map_pages (pmm_alloc 1) (cr3 s) ?v fb ?c (VMM_PRESENT OR VMM_WRITE) s = Inr (True, s1)"
    "heap_inv s1" "cr3 s1 = cr3 s" "heap_top s1 = heap_top s"
    "\<And>w. hw_walk (ram s1) (cr3 s) w = (if steps 12 ?v w < unat ?c
      then Page4K (leaf_entry (fb + of_nat (steps 12 ?v w) * 4096) (VMM_PRESENT OR VMM_WRITE)) else hw_walk (ram s) (cr3 s) w)"
    "\<And>a b. upper_byte s a b \<Longrightarrow> upper_byte s1 a b"
    by (rule heap_map_beside [OF assms(3) al room above heap_perms assms(9), where phys = fb]) (rule that)
  obtain q where q: "malloc_room s1 bytes q" using assms(10) [OF s1(1,2)] by blast
  obtain t where t: "unat bytes < 2 ^ 48" "q \<noteq> 0" "unat q div 4096 + unat ?k \<le> unat (bitmap_len s1)"
    "unat (heap_top s1) + 4096 * unat ?k \<le> 2 ^ 46" "pmm_alloc ?k s1 = Inr (q, t)" "can_alloc (pmm_alloc 1) (3 * unat ?k) t"
    using q by (auto simp: malloc_room_def Let_def)
  obtain s2 where s2: "malloc bytes s1 = Inr (heap_top s1 + of_nat (block_gap bytes) + 16, s2)" "heap_inv s2"
    "heap_extended s1 s2 q ?k"
    by (rule malloc_block [OF refl s1(2) t(1,5,2,3,6,4)]) (rule that)
  obtain b s2' where b: "malloc bytes s1 = Inr (b, s2')" "unat (heap_top s1) + 16 \<le> unat b" "unat b + unat bytes \<le> unat (heap_top s2')"
    by (rule malloc_room_block [OF q]) (rule that)
  have same: "s2' = s2" using s2(1) b(1) by simp
  have upper: "upper_byte s2 a w" if "upper_byte s a w" for a w
    using heap_extended_upper [OF s1(2) s2(3) t(4) s1(6) [OF that]] .
  have info: "info_at m p s1" "info_at m p s2" using assms(4) s1(6) upper by (simp_all add: info_at_def)
  note read = read_info_at [OF assms(4)] read_info_at [OF info(1)] read_info_at [OF info(2)]
  have pages: "(bytes + page_size - 1) div page_size = ?c" by (simp add: screen_pages_def assms(2))
  have run: "kernel_frame_buffer p s = Inr (Some \<lparr>backbuffer = b, framebuffer = ?v,
        pitch = ucast (info_field m p ''framebuffer_pitch''), mode_width = ucast (info_field m p ''framebuffer_width''),
        mode_height = ucast (info_field m p ''framebuffer_height''), bpp = ucast (info_field m p ''framebuffer_bpp'')\<rparr>, s2)"
    unfolding kernel_frame_buffer_def read rbind_Inr Let_def get_current_context_def assms(1) [symmetric]
      screen_bytes_def [symmetric] assms(2) [symmetric] pages s1(1) prod.case if_True b(1) [unfolded same] ..
  have heap: "heap_addr s2 (b + of_nat i)" if i: "i < unat bytes" for i
  proof -
    have "unat (b + of_nat i) = unat b + i"
      using i b(3) unat_u64_less [of "heap_top s2'"] by (subst unat_add_u64) (simp_all add: unat_of_nat_less)
    then show ?thesis
      using i b(2,3) heap_invD(3) [OF s1(2)] by (simp add: heap_addr_def word_le_nat_alt word_less_nat_alt same)
  qed
  have fbyte: "hw_translate (ram s2) (cr3 s2) (?v + of_nat i) = Some (fb + of_nat i)" if i: "i < unat bytes" for i
  proof -
    have i4: "i < 4096 * unat ?c" using i cover(1) by simp
    have ui: "unat (?v + of_nat i) = unat ?v + i"
      using i4 room by (subst unat_add_u64) (simp_all add: unat_of_nat_less)
    have "cr3 s2 = cr3 s" using s2(3) s1(3) by (simp add: heap_extended_def)
    moreover have "\<not> steps 12 (heap_top s1) (?v + of_nat i) < unat ?k"
      using steps_in_range(1) [of "heap_top s1" "unat ?k" "?v + of_nat i"] h(2) t(4) s1(4) top ui i4 room by simp
    then have "hw_walk (ram s2) (cr3 s) (?v + of_nat i) = hw_walk (ram s1) (cr3 s) (?v + of_nat i)"
      using s2(3) s1(3) by (simp add: heap_extended_def)
    moreover have "steps 12 ?v (?v + of_nat i) = i div 4096"
      using steps_in_range(2) [OF al room _ i4, of 0] by simp
    ultimately have "hw_walk (ram s2) (cr3 s2) (?v + of_nat i) = Page4K (leaf_entry (fb + of_nat (i div 4096) * 4096) (VMM_PRESENT OR VMM_WRITE))"
      using i4 by (simp add: s1(5) div_less_iff_less_mult mult.commute)
    then show ?thesis
      using assms(7) cover(2) room by (intro leaf_translate [OF assms(5) al _ i4 _ heap_perms]) simp_all
  qed
  show ?thesis using run s2(2) heap fbyte by blast
qed

text \<open>A screen of one pixel, with its frame buffer at 0xE0000000.\<close>

definition demo_screen_contents :: memory where
  "demo_screen_contents =
     area 0x7FE0058 20 (le_bytes 8 0xE0000000 @ le_bytes 4 4 @ le_bytes 4 1 @ le_bytes 4 1) (area 0x7FE006C 1 [32] (\<lambda>_. 0))"

definition demo_screen :: smp_state where
  "demo_screen = demo_heaped demo_screen_contents"

lemma demo_screen_fields:
  "info_at (\<lambda>v. demo_screen_contents (v - virtual_physical_base)) (0x7FE0000 + virtual_physical_base) demo_screen"
  "info_field (\<lambda>v. demo_screen_contents (v - virtual_physical_base)) (0x7FE0000 + virtual_physical_base) ''framebuffer_addr'' = 0xE0000000"
  "screen_bytes (\<lambda>v. demo_screen_contents (v - virtual_physical_base)) (0x7FE0000 + virtual_physical_base) = 4"
  "screen_pages (\<lambda>v. demo_screen_contents (v - virtual_physical_base)) (0x7FE0000 + virtual_physical_base) = 1"
proof -
  let ?m = "\<lambda>v. demo_screen_contents (v - virtual_physical_base)" and ?p = "0x7FE0000 + virtual_physical_base"
  have "size_of Info = 120" by (simp add: size_of_def Info_layout)
  moreover have "?p + of_nat i - virtual_physical_base = 0x7FE0000 + of_nat i" for i by simp
  ultimately show "info_at ?m ?p demo_screen"
    unfolding info_at_def demo_screen_def by (simp only:) (intro allI impI demo_heaped_byte refl, simp)
  have f: "info_field ?m ?p ''framebuffer_addr'' = load_le 8 ?m (?p + 88)" "info_field ?m ?p ''framebuffer_pitch'' = load_le 4 ?m (?p + 96)"
    "info_field ?m ?p ''framebuffer_width'' = load_le 4 ?m (?p + 100)"
    by (simp_all add: info_field_def member_size_def Info_layout)
  have v: "load_le 8 ?m (?p + 88) = 0xE0000000" "load_le 4 ?m (?p + 96) = 4" "load_le 4 ?m (?p + 100) = 1" by code_simp+
  show "info_field ?m ?p ''framebuffer_addr'' = 0xE0000000" unfolding f v ..
  show "screen_bytes ?m ?p = 4" unfolding screen_bytes_def f v by simp
  then show "screen_pages ?m ?p = 1" unfolding screen_pages_def by (simp add: page_size_def)
qed

theorem screen_comes_up_witness:
  "\<exists>b mi s'. kernel_frame_buffer (0x7FE0000 + virtual_physical_base) demo_screen = Inr (Some mi, s') \<and>
     framebuffer mi = 0x60000000 \<and> hw_translate (ram s') (cr3 s') 0x60000003 = Some 0xE0000003"
proof -
  let ?m = "\<lambda>v. demo_screen_contents (v - virtual_physical_base)" and ?p = "0x7FE0000 + virtual_physical_base"
  note f = demo_screen_fields and good = demo_heaped_good [of demo_screen_contents, folded demo_screen_def]
  have b: "(0xE0000000 :: u64) + virtual_kernel_base = 0x60000000" by (simp add: mm_consts)
  have two: "block_pages (block_bytes 4) = 2" by code_simp
  have "page_number 0x60000000 \<noteq> page_number (0x7FE0000 + virtual_physical_base)" "page_number 0x60000000 \<noteq> page_number virtual_physical_base"
    "page_number 0x60000000 \<noteq> page_number (0x400000 + virtual_physical_base)" "block_number 21 0x60000000 \<noteq> block_number 21 virtual_kernel_base"
    by code_simp+
  then have "hw_walk (ram demo_screen) (cr3 demo_screen) 0x60000000 = Unmapped"
    using demo_booted_good(2) [of demo_screen_contents "0x60000000"] by (simp add: demo_screen_def)
  then obtain t where t: "map_pages (pmm_alloc 1) (cr3 demo_screen) 0x60000000 0xE0000000 1 (VMM_PRESENT OR VMM_WRITE) demo_screen = Inr (True, t)"
    "first_fit t" "can_alloc (pmm_alloc 1) 16 t"
    using map_page_first_fit [OF heap_invD(1) [OF good(1)] good(2) heap_perms _ , of "0x60000000" 16 "0xE0000000"] good(3) by auto
  have room: "\<exists>q. malloc_room t 4 q" if "heap_inv t"
  proof (rule two_page_room [OF that t(2)])
    show "can_alloc (pmm_alloc 1) 8 t" using can_alloc_mono [OF t(3), of 8] by simp
    have "heap_top t = heap_top demo_screen" by (rule map_pages_frame(3) [OF t(1)])
    then show "unat (heap_top t) + 0x2000 \<le> 2 ^ 46" by (simp add: demo_screen_def memory_base_def)
  qed (simp_all add: two)
  have "\<exists>b s'. kernel_frame_buffer ?p demo_screen = Inr (Some \<lparr>backbuffer = b, framebuffer = 0xE0000000 + virtual_kernel_base,
        pitch = ucast (info_field ?m ?p ''framebuffer_pitch''), mode_width = ucast (info_field ?m ?p ''framebuffer_width''),
        mode_height = ucast (info_field ?m ?p ''framebuffer_height''), bpp = ucast (info_field ?m ?p ''framebuffer_bpp'')\<rparr>, s') \<and>
      heap_inv s' \<and>
      (\<forall>i < unat (4 :: u64). heap_addr s' (b + of_nat i) \<and>
        hw_translate (ram s') (cr3 s') (0xE0000000 + virtual_kernel_base + of_nat i) = Some (0xE0000000 + of_nat i))"
  proof (rule screen_comes_up [where m = ?m and p = ?p and s = demo_screen and fb = "0xE0000000" and bytes = 4])
    show "aligned 12 (0xE0000000 :: u64)" by (simp add: aligned_def)
    show "unat (heap_top demo_screen) + 4096 * unat (block_pages (block_bytes 4)) + 2 ^ 31 \<le> unat (0xE0000000 :: u64)"
      unfolding two by (simp add: demo_screen_def memory_base_def)
    show "can_alloc (pmm_alloc 1) (3 * unat (screen_pages ?m ?p)) demo_screen"
      using can_alloc_mono [OF good(3), of 3] unfolding f(4) by simp
    show "\<exists>q. malloc_room s1 4 q"
      if "map_pages (pmm_alloc 1) (cr3 demo_screen) (0xE0000000 + virtual_kernel_base) 0xE0000000 (screen_pages ?m ?p) (VMM_PRESENT OR VMM_WRITE) demo_screen
        = Inr (True, s1)" "heap_inv s1" for s1
      using that room t(1) unfolding f(4) b by simp
  qed (use f good in simp_all)
  then obtain bb mi s' where r: "kernel_frame_buffer ?p demo_screen = Inr (Some mi, s')" "framebuffer mi = 0x60000000"
    "\<forall>i < 4. hw_translate (ram s') (cr3 s') (0x60000000 + of_nat i) = Some (0xE0000000 + of_nat i)"
    unfolding b by fastforce
  have "(3 :: nat) < 4" by simp
  with r(3) have "hw_translate (ram s') (cr3 s') (0x60000000 + of_nat 3) = Some (0xE0000000 + of_nat 3)" by (elim allE impE)
  with r(1,2) show ?thesis by auto
qed

end
