(* ===== verification/Boot.thy ===== *)
theory Boot
  imports BootScreen BootPages
begin

text \<open>
  The first half of \<open>kernel_main\<close> as a whole: from the memory that the boot loader leaves to a screen that is
  mapped, with what the machine needs for it stated in numbers of pages.
\<close>

unbundle bit_operations_syntax

section \<open>The loader's information\<close>

text \<open>A member of the information at the physical address \<open>a\<close>.\<close>

definition boot_field :: "memory \<Rightarrow> u64 \<Rightarrow> string \<Rightarrow> u64" where
  "boot_field m a f = load_le (member_size Info f) m (a + of_nat (offset_of Info f))"

lemma load_le_shift: "load_le n (\<lambda>v. m (v - b)) (a + b) = load_le n m a"
proof (induction n arbitrary: a)
  case (Suc n)
  have "load_le n (\<lambda>v. m (v - b)) (a + 1 + b) = load_le n m (a + 1)" by (rule Suc.IH)
  then show ?case by (simp add: ac_simps)
qed simp

lemma info_field_shift: "info_field (\<lambda>v. m (v - b)) (a + b) f = boot_field m a f"
  using load_le_shift [of "member_size Info f" m b "a + of_nat (offset_of Info f)"]
  by (simp add: info_field_def boot_field_def ac_simps)

lemma size_of_Info: "size_of Info = 120"
  by (simp add: size_of_def Info_layout)

text \<open>Before \<open>Pmm::init\<close>, through the loader's tables.\<close>

definition loader_window :: "u64 \<Rightarrow> 'a vmm_state_scheme \<Rightarrow> bool" where
  "loader_window a s \<longleftrightarrow> (\<forall>i < size_of Info. hw_translate (ram s) (cr3 s) (a + virtual_kernel_base + of_nat i) = Some (a + of_nat i))"

lemma loader_read_info:
  assumes "loader_window a s"
  shows "read_info f (a + virtual_kernel_base) s = Inr (boot_field (ram s) a f)"
proof -
  have "reads (kernel_reader s) (\<lambda>v. ram s (v - virtual_kernel_base)) (a + virtual_kernel_base) (size_of Info)"
    using assms by (simp add: reads_def loader_window_def kernel_reader_def virt_load8_def)
  from reads_part [OF this offset_member_le [of Info f]] show ?thesis
    using load_le_shift [of "member_size Info f" "ram s" virtual_kernel_base "a + of_nat (offset_of Info f)"]
    by (simp add: read_info_def read_member_def boot_field_def read_n_reads ac_simps)
qed

section \<open>The memory\<close>

text \<open>The numbers: the pages that the screen takes, those of the block for the second buffer, and the single
  pages that are needed to map the screen and to let the heap grow by the block.\<close>

definition buffer_pages :: "u64 \<Rightarrow> nat" where
  "buffer_pages bytes = unat (block_pages (block_bytes bytes))"

definition pages_needed :: "nat \<Rightarrow> nat \<Rightarrow> nat" where
  "pages_needed screen buffer = 3 * screen + 4 * buffer + 200"

lemma boot_memory_run:
  fixes s :: "'a heap_state_scheme"
  assumes m: "usable_map mmap m" "8192 < m" "m < 2 ^ 32" "m mod 64 = 0"
    and room: "2 * (n + c + 211 + 2 * bitmap_page_count m) \<le> m - 1 - (8192 + bitmap_page_count m)"
    and start: "heap_top s = memory_base" "\<not> bit (mm_lock s) 0"
  obtains s1 s' J E where "pmm_init mmap s = Inr s1" "vmm_init s1 = Inr s'" "fresh_kernel (n + c + 200) s'"
    "run_kept J E s'" "unat J + c \<le> unat E" "unat (bitmap_len s') - unat J < c + 200" "bitmap_len s' = of_nat m"
    "\<And>x. unat x < 2 ^ 25 \<Longrightarrow> pmm_data s' (cr3 s') x \<and> ram s' x = ram s x"
proof -
  obtain s1 where s1: "pmm_init mmap s = Inr s1" "pmm_wf s1" "bitmap_len s1 = of_nat m"
    "m - 1 - (8192 + bitmap_page_count m) \<le> 2 * (card (free_slots s1) + 2 * bitmap_page_count m)"
    by (rule pmm_init_usable [OF m, of s]) (rule that)
  have "n + c + 200 + 11 \<le> card (free_slots s1)" using order_trans [OF room s1(4)] by simp
  then have can: "can_alloc (pmm_alloc 1) (n + c + 200 + 11) s1" by (rule can_alloc_slots [OF s1(2)])
  have "heap_top s1 = memory_base" "\<not> bit (mm_lock s1) 0" using pmm_init_heap_frame [OF s1(1)] start by simp_all
  then obtain s' where s': "vmm_init s1 = Inr s'" "fresh_kernel (n + c + 200) s'" "bitmap_len s' = bitmap_len s1"
    using vmm_init_fresh [OF s1(2) can] by blast
  define j where "j = 64 * ((m - 1 - c) div 64)"
  have j: "64 dvd j" "8192 + 2 * bitmap_page_count m + 128 \<le> j" "j \<le> m - 1" "j + c \<le> m - 1" "m - j < c + 200"
    unfolding j_def using room m(2) by simp_all
  have kept1: "run_kept (of_nat j) (of_nat (m - 1)) s1" by (rule pmm_init_run [OF m s1(1) j(1-3)])
  have can11: "can_alloc (pmm_alloc 1) 11 s1" by (rule can_alloc_mono [OF can]) simp
  note keeps = vmm_init_keeps [OF kept1 can11 s'(1)]
  have u: "unat (of_nat j :: u64) = j" "unat (of_nat (m - 1) :: u64) = m - 1" "unat (of_nat m :: u64) = m"
    using j m(3) by (intro unat_of_nat_less, simp)+
  show thesis
  proof (rule that [OF s1(1) s'(1,2) keeps(1)])
    show "bitmap_len s' = of_nat m" using s'(3) s1(3) by simp
    then show "unat (bitmap_len s') - unat (of_nat j :: u64) < c + 200" using u j by simp
    show "unat (of_nat j :: u64) + c \<le> unat (of_nat (m - 1) :: u64)" unfolding u by (rule j(4))
    show "pmm_data s' (cr3 s') x \<and> ram s' x = ram s x" if "unat x < 2 ^ 25" for x
      using pmm_init_low [OF m(1-3) s1(1) that] keeps(2) [of x] by simp
  qed
qed

section \<open>The screen\<close>

definition boot_screen_bytes :: "memory \<Rightarrow> u64 \<Rightarrow> u64" where
  "boot_screen_bytes m a =
     ucast (ucast (boot_field m a ''framebuffer_width'') * ucast (boot_field m a ''framebuffer_pitch'') :: u32)"

definition boot_screen_pages :: "memory \<Rightarrow> u64 \<Rightarrow> u64" where
  "boot_screen_pages m a = (boot_screen_bytes m a + page_size - 1) div page_size"

lemma screen_shift:
  "screen_bytes (\<lambda>v. m (v - b)) (a + b) = boot_screen_bytes m a" "screen_pages (\<lambda>v. m (v - b)) (a + b) = boot_screen_pages m a"
  by (simp_all add: screen_pages_def boot_screen_pages_def screen_bytes_def boot_screen_bytes_def info_field_shift)

lemma boot_buffer_room:
  assumes fresh: "fresh_kernel (3 * unat count + k) s" and kept: "run_kept J E s" "unat J + buffer_pages bytes \<le> unat E"
      "unat (bitmap_len s) - unat J < k" "4 * buffer_pages bytes \<le> k"
    and v: "aligned 12 v" "unat v + 4096 * unat count \<le> 2 ^ 47"
    and b: "unat bytes < 2 ^ 48" "2 ^ 25 + 4096 * buffer_pages bytes \<le> 2 ^ 46"
    and run: "map_pages (pmm_alloc 1) (cr3 s) v phys count (VMM_PRESENT OR VMM_WRITE) s = Inr (True, s1)" "heap_inv s1"
  shows "\<exists>q. malloc_room s1 bytes q"
proof (rule run_room [OF run(2) _ _ _ refl])
  have inv: "heap_inv s" "heap_top s = memory_base" "can_alloc (pmm_alloc 1) (3 * unat count + k) s"
    and low: "\<And>v. unat v < 2 ^ 47 \<Longrightarrow> hw_walk (ram s) (cr3 s) v = Unmapped"
    using fresh by (simp_all add: fresh_kernel_def)
  note ok = heap_invD(1) [OF inv(1)]
  have "tree_walk (ram s) (cr3 s) (v + of_nat i * 4096) \<noteq> Page2M e" if i: "i < unat count" for i e
  proof -
    have "unat (v + of_nat (4096 * i)) = unat v + 4096 * i"
      using i v(2) by (subst unat_add_u64) (simp_all add: unat_of_nat_less del: of_nat_mult)
    then have "unat (v + of_nat (4096 * i)) < 2 ^ 47" using i v(2) by simp
    from low [OF this] show ?thesis by (simp add: space_walk [OF ok] mult.commute)
  qed
  from run.map_pages_n_room [OF _ heap_perms this inv(3) run(1) [unfolded map_pages_def]]
  have s1: "run_kept J E s1" "can_alloc (pmm_alloc 1) k s1" using ok kept(1) by (simp_all add: run_inv)
  then show "run_kept J E s1" "can_alloc (pmm_alloc 1) k s1" by simp_all
  have "(heap_top s1, bitmap_len s1) = (heap_top s, bitmap_len s)"
    by (rule map_pages_n_frame [where g = "\<lambda>s. (heap_top s, bitmap_len s)", OF _ _ run(1) [unfolded map_pages_def]])
      (auto elim!: pmm_alloc_cases simp: pmm_take_def)
  then have same: "heap_top s1 = memory_base" "bitmap_len s1 = bitmap_len s" using inv(2) by simp_all
  show "unat (bitmap_len s1) - unat J < k" using kept(3) by (simp add: same)
  show "unat (heap_top s1) + 4096 * unat (block_pages (block_bytes bytes)) \<le> 2 ^ 46"
    using b(2) by (simp add: same memory_base_def buffer_pages_def)
qed (use kept b in \<open>simp_all add: buffer_pages_def\<close>)

text \<open>C12: the start of the kernel up to its screen, from the state in which the boot loader leaves the machine.
  The loader's information lies at a physical address below 32 MiB, which the loader's tables show in the
  kernel window; one region of its memory map has \<open>m\<close> pages; the frame buffer lies at 2 GiB or above, beyond the
  room for the second buffer. When half of the pages of the region are enough for the tables, the screen and
  the buffer, \<open>Pmm::init\<close>, \<open>Vmm::init\<close>, \<open>map_pages\<close> and \<open>malloc\<close> succeed one after the other, the structure for
  \<open>Graphics::init\<close> has what the loader wrote, and in the new address space the frame buffer and the second
  buffer are mapped.\<close>

theorem boot_brings_up_screen:
  fixes s :: "'a heap_state_scheme"
  assumes info: "unat a + 120 \<le> 2 ^ 25" "loader_window a s"
    and mmap: "read_memory_maps (unat (boot_field (ram s) a ''mmap_length'' div 24)) (kernel_reader s)
        (boot_field (ram s) a ''mmap_addr'') = Inr mmap"
      "usable_map mmap m" "8192 < m" "m < 2 ^ 32" "m mod 64 = 0"
    and start: "heap_top s = memory_base" "\<not> bit (mm_lock s) 0"
    and screen: "fb = boot_field (ram s) a ''framebuffer_addr''" "bytes = boot_screen_bytes (ram s) a"
      "aligned 12 fb" "2 ^ 31 + 2 ^ 25 + 4096 * buffer_pages bytes \<le> unat fb" "unat fb < 2 ^ 46"
    and room: "2 * (pages_needed (unat (boot_screen_pages (ram s) a)) (buffer_pages bytes) + 11 + 2 * bitmap_page_count m)
        \<le> m - 1 - (8192 + bitmap_page_count m)"
  shows "\<exists>s1 b s2. kernel_memory (a + virtual_kernel_base) s = Inr s1 \<and>
    kernel_frame_buffer (a + virtual_kernel_base) s1 = Inr (Some \<lparr>backbuffer = b, framebuffer = fb + virtual_kernel_base,
        pitch = ucast (boot_field (ram s) a ''framebuffer_pitch''), mode_width = ucast (boot_field (ram s) a ''framebuffer_width''),
        mode_height = ucast (boot_field (ram s) a ''framebuffer_height''), bpp = ucast (boot_field (ram s) a ''framebuffer_bpp'')\<rparr>, s2) \<and>
    heap_inv s2 \<and>
    (\<forall>i < unat bytes. heap_addr s2 (b + of_nat i) \<and>
      hw_translate (ram s2) (cr3 s2) (fb + virtual_kernel_base + of_nat i) = Some (fb + of_nat i))"
proof -
  let ?M = "\<lambda>v. ram s (v - virtual_kernel_base)" and ?p = "a + virtual_kernel_base"
  let ?sp = "boot_screen_pages (ram s) a" and ?c = "buffer_pages bytes"
  note shift = screen_shift [of "ram s" virtual_kernel_base a] info_field_shift [of "ram s" virtual_kernel_base a]
  have cover: "unat bytes \<le> 4096 * unat ?sp" "unat ?sp \<le> 2 ^ 20"
    using screen_pages_cover [of ?M ?p] unfolding shift(1,2) screen(2) [symmetric] .
  have r: "2 * (3 * unat ?sp + 3 * ?c + ?c + 211 + 2 * bitmap_page_count m) \<le> m - 1 - (8192 + bitmap_page_count m)"
    using room by (simp add: pages_needed_def)
  obtain s0 s1 J E where s1: "pmm_init mmap s = Inr s0" "vmm_init s0 = Inr s1" "fresh_kernel (3 * unat ?sp + 3 * ?c + ?c + 200) s1"
    "run_kept J E s1" "unat J + ?c \<le> unat E" "unat (bitmap_len s1) - unat J < ?c + 200"
    "\<And>x. unat x < 2 ^ 25 \<Longrightarrow> pmm_data s1 (cr3 s1) x \<and> ram s1 x = ram s x"
    by (rule boot_memory_run [OF mmap(2-5) r start]) (rule that)
  have "(of_nat (size_of MemoryMap) :: u64) = 24" by (simp add: MemoryMap_def size_of_def)
  then have memory: "kernel_memory ?p s = Inr s1"
    using mmap(1) s1(1,2) by (simp add: kernel_memory_def loader_read_info [OF info(2)])
  have fresh: "fresh_kernel (3 * unat ?sp + (4 * ?c + 200)) s1" using s1(3) by (simp add: algebra_simps)
  then have inv: "heap_inv s1" "heap_top s1 = memory_base" "can_alloc (pmm_alloc 1) (3 * unat ?sp + (4 * ?c + 200)) s1"
    and window: "\<And>x. unat x < 2 ^ 27 \<Longrightarrow> hw_translate (ram s1) (cr3 s1) (x + virtual_kernel_base) = Some x"
    by (simp_all add: fresh_kernel_def)
  have at: "info_at ?M ?p s1"
    unfolding info_at_def size_of_Info upper_byte_def
  proof (intro allI impI conjI exI)
    fix i :: nat assume i: "i < 120"
    have ui: "unat (a + of_nat i) = unat a + i" using i info(1) by (subst unat_add_u64) (simp_all add: unat_of_nat_less)
    have small: "unat (a + of_nat i) < 2 ^ 25" using ui i info(1) by simp
    have eq: "?p + of_nat i = (a + of_nat i) + virtual_kernel_base" by (simp add: ac_simps)
    have "unat ((a + of_nat i) + virtual_kernel_base) = unat (a + of_nat i) + unat virtual_kernel_base"
      using small by (intro unat_add_u64) (simp add: mm_consts)
    then show "virtual_physical_base \<le> ?p + of_nat i" unfolding eq by (simp add: word_le_nat_alt mm_consts)
    show "hw_translate (ram s1) (cr3 s1) (?p + of_nat i) = Some (a + of_nat i)"
      unfolding eq using small by (intro window) simp
    show "pmm_data s1 (cr3 s1) (a + of_nat i)" using s1(7) [OF small] by simp
    show "ram s1 (a + of_nat i) = ram s (?p + of_nat i - virtual_kernel_base)"
      using s1(7) [OF small] by (simp add: eq)
  qed
  have fb: "2 ^ 31 \<le> unat fb" using screen(4) by simp
  note uv = kernel_window_wraps [OF fb screen(5)]
  have al: "aligned 12 (fb + virtual_kernel_base)" using screen(3) by (intro aligned_add) (simp_all add: mm_consts aligned_def)
  have "unat bytes < 2 ^ 48" using cover by simp
  note buffer = boot_buffer_room [OF fresh s1(4,5) _ _ al _ this, where phys = fb]
  have "\<exists>b s2. kernel_frame_buffer ?p s1 = Inr (Some \<lparr>backbuffer = b, framebuffer = fb + virtual_kernel_base,
        pitch = ucast (info_field ?M ?p ''framebuffer_pitch''), mode_width = ucast (info_field ?M ?p ''framebuffer_width''),
        mode_height = ucast (info_field ?M ?p ''framebuffer_height''), bpp = ucast (info_field ?M ?p ''framebuffer_bpp'')\<rparr>, s2) \<and>
      heap_inv s2 \<and>
      (\<forall>i < unat bytes. heap_addr s2 (b + of_nat i) \<and>
        hw_translate (ram s2) (cr3 s2) (fb + virtual_kernel_base + of_nat i) = Some (fb + of_nat i))"
  proof (rule screen_comes_up [OF _ _ inv(1) at screen(3) fb screen(5)])
    show "unat (heap_top s1) + 4096 * unat (block_pages (block_bytes bytes)) + 2 ^ 31 \<le> unat fb"
      using screen(4) by (simp add: inv(2) memory_base_def buffer_pages_def)
    show "can_alloc (pmm_alloc 1) (3 * unat (screen_pages ?M ?p)) s1"
      unfolding shift by (rule can_alloc_mono [OF inv(3)]) simp
    show "\<exists>q. malloc_room s2 bytes q"
      if "map_pages (pmm_alloc 1) (cr3 s1) (fb + virtual_kernel_base) fb (screen_pages ?M ?p) (VMM_PRESENT OR VMM_WRITE) s1 = Inr (True, s2)"
        "heap_inv s2" for s2
      using that s1(6) cover uv screen(4,5) unfolding shift by (intro buffer) simp_all
  qed (simp_all add: shift screen(1,2))
  then show ?thesis using memory unfolding shift(3) by blast
qed

text \<open>The machine of the witness for the memory: its screen of one pixel needs 219 pages.\<close>

lemma loader_window_ok: "loader_window 0x9000 loader_state"
  unfolding loader_window_def
proof (intro allI impI)
  fix i assume i: "i < size_of Info"
  let ?v = "0x9000 + virtual_kernel_base + of_nat i"
  have "list_all (\<lambda>i. loader_mapped (0x9000 + virtual_kernel_base + of_nat i) \<and>
      (0x9000 + virtual_kernel_base + of_nat i) AND 0x1FFFFF = (0x9000 + of_nat i :: u64)) [0..<120]"
    by code_simp
  then have v: "loader_mapped ?v" "?v AND 0x1FFFFF = 0x9000 + of_nat i" using i by (simp_all add: list_all_iff size_of_Info)
  show "hw_translate (ram loader_state) (cr3 loader_state) ?v = Some (0x9000 + of_nat i)"
    using loader_walk [OF v(1)] v(2) by (simp add: hw_translate_def loader_state_def)
qed

lemma loader_fields:
  "boot_field (ram loader_state) 0x9000 ''mmap_length'' = 24" "boot_field (ram loader_state) 0x9000 ''mmap_addr'' = 0x9100"
  "boot_field (ram loader_state) 0x9000 ''framebuffer_addr'' = 0xE0000000"
  "boot_screen_bytes (ram loader_state) 0x9000 = 4" "boot_screen_pages (ram loader_state) 0x9000 = 1"
proof -
  have f: "boot_field m a ''mmap_length'' = load_le 4 m (a + 44)" "boot_field m a ''mmap_addr'' = load_le 4 m (a + 48)"
    "boot_field m a ''framebuffer_addr'' = load_le 8 m (a + 88)" "boot_field m a ''framebuffer_pitch'' = load_le 4 m (a + 96)"
    "boot_field m a ''framebuffer_width'' = load_le 4 m (a + 100)" for m a
    by (simp_all add: boot_field_def member_size_def Info_layout)
  have v: "load_le 4 loader_memory (0x9000 + 44) = 24" "load_le 4 loader_memory (0x9000 + 48) = 0x9100"
    "load_le 8 loader_memory (0x9000 + 88) = 0xE0000000" "load_le 4 loader_memory (0x9000 + 96) = 4"
    "load_le 4 loader_memory (0x9000 + 100) = 1"
    by code_simp+
  have r: "ram loader_state = loader_memory" by (simp add: loader_state_def)
  show "boot_field (ram loader_state) 0x9000 ''mmap_length'' = 24" "boot_field (ram loader_state) 0x9000 ''mmap_addr'' = 0x9100"
    "boot_field (ram loader_state) 0x9000 ''framebuffer_addr'' = 0xE0000000"
    unfolding f r v by (rule refl)+
  show "boot_screen_bytes (ram loader_state) 0x9000 = 4" unfolding boot_screen_bytes_def f r v by simp
  then show "boot_screen_pages (ram loader_state) 0x9000 = 1" by (simp add: boot_screen_pages_def page_size_def)
qed

theorem boot_brings_up_screen_witness:
  "\<exists>s1 mi s2. kernel_memory (0x9000 + virtual_kernel_base) loader_state = Inr s1 \<and>
     kernel_frame_buffer (0x9000 + virtual_kernel_base) s1 = Inr (Some mi, s2) \<and>
     framebuffer mi = 0x60000000 \<and> hw_translate (ram s2) (cr3 s2) 0x60000003 = Some 0xE0000003"
proof -
  have maps: "read_memory_maps (unat (boot_field (ram loader_state) 0x9000 ''mmap_length'' div 24)) (kernel_reader loader_state)
      (boot_field (ram loader_state) 0x9000 ''mmap_addr'') = Inr [loader_region]"
    by (simp add: loader_fields loader_info(3))
  have two: "buffer_pages 4 = 2" unfolding buffer_pages_def by code_simp
  have one: "bitmap_page_count 0x2400 = 1" by (simp add: bitmap_page_count_def)
  have start: "heap_top loader_state = memory_base" "\<not> bit (mm_lock loader_state) 0" by (simp_all add: loader_state_def)
  have al: "aligned 12 (0xE0000000 :: u64)" by (simp add: aligned_def)
  have eq: "(0xE0000000 :: u64) + virtual_kernel_base = 0x60000000" by (simp add: mm_consts)
  have room: "2 * (pages_needed (unat (boot_screen_pages (ram loader_state) 0x9000)) (buffer_pages 4) + 11 + 2 * bitmap_page_count 0x2400)
      \<le> 0x2400 - 1 - (8192 + bitmap_page_count 0x2400)"
    unfolding two one by (simp add: loader_fields pages_needed_def)
  have "\<exists>s1 b s2. kernel_memory (0x9000 + virtual_kernel_base) loader_state = Inr s1 \<and>
    kernel_frame_buffer (0x9000 + virtual_kernel_base) s1 = Inr (Some \<lparr>backbuffer = b, framebuffer = 0xE0000000 + virtual_kernel_base,
        pitch = ucast (boot_field (ram loader_state) 0x9000 ''framebuffer_pitch''),
        mode_width = ucast (boot_field (ram loader_state) 0x9000 ''framebuffer_width''),
        mode_height = ucast (boot_field (ram loader_state) 0x9000 ''framebuffer_height''),
        bpp = ucast (boot_field (ram loader_state) 0x9000 ''framebuffer_bpp'')\<rparr>, s2) \<and>
    heap_inv s2 \<and>
    (\<forall>i < unat (4 :: u64). heap_addr s2 (b + of_nat i) \<and>
      hw_translate (ram s2) (cr3 s2) (0xE0000000 + virtual_kernel_base + of_nat i) = Some (0xE0000000 + of_nat i))"
    by (rule boot_brings_up_screen [OF _ loader_window_ok maps loader_usable _ _ _ start _ _ al _ _ room])
      (simp_all add: loader_fields two)
  then obtain s1 mi s2 where r: "kernel_memory (0x9000 + virtual_kernel_base) loader_state = Inr s1"
    "kernel_frame_buffer (0x9000 + virtual_kernel_base) s1 = Inr (Some mi, s2)" "framebuffer mi = 0x60000000"
    "\<forall>i < 4. hw_translate (ram s2) (cr3 s2) (0x60000000 + of_nat i) = Some (0xE0000000 + of_nat i)"
    unfolding eq by fastforce
  have "(3 :: nat) < 4" by simp
  with r(4) have "hw_translate (ram s2) (cr3 s2) (0x60000000 + of_nat 3) = Some (0xE0000000 + of_nat 3)" by (elim allE impE)
  with r(1-3) show ?thesis by auto
qed

end
