(* ===== verification/Spec2Isabelle.thy ===== *)
theory Spec2Isabelle
  imports Prelude MemOps MathLib PageAllocator Pmm PmmSafety Vmm VmmTree VmmMap VmmSafety Tlb
    VirtualMemory Spinlock KernelHeap HeapSafety HeapBlocks LinkedList KernelList CString Ctype Sprintf CopyTemplates Font Graphics Terminal
    Ports Idt LargePages Apic
    Layout AcpiTables Console FirstFit Smp Trampoline Acpi AcpiInit AcpiBoot
    Structures Pci PciInit PciAccess BootMemory BootPages Kernel BootScreen Boot
begin

text \<open>
  A verification library for the Spark kernel, a small x86-64 kernel in C++ under \<open>src/Spark\<close>. The kernel's
  functions are translated one by one into HOL functions, in the order and with the branches of the source;
  the theorems say what they do, and where they do not do what they are meant to.

  \<^bold>\<open>The program.\<close> A multiboot loader starts \<open>main.asm\<close>, which switches to 64-bit mode and calls
  \<open>kernel_main\<close> (\<open>spark.cpp\<close>). It reads the loader's information (\<open>multiboot.hpp\<close>); \<open>Pmm::init\<close> puts a bitmap
  of the page frames into physical memory; \<open>Vmm::init\<close> builds page tables with \<open>Pmm::alloc\<close> and loads \<open>cr3\<close>; the
  frame buffer is mapped, the second buffer comes from the heap, and \<open>Graphics::init\<close> gets both; \<open>Idt::init\<close>
  programs the interrupt controllers; \<open>Acpi::init\<close> finds the firmware's tables, enables the local interrupt
  controller and has \<open>Smp::boot_cpu\<close> start every processor of the table, which ends up in \<open>smp_kernel_main\<close>;
  \<open>Pci::init\<close> lists the windows of the configuration space. The messages on the way go through \<open>sprintf\<close> and
  the terminal. Then the processor sleeps for good.

  \<^bold>\<open>Theories and sources.\<close> Every theory holds a component's state, its operations and its lemmas; each \<open>Safety\<close>
  theory holds the properties of the one it is named after.

  \<^item> \<open>Prelude\<close>: integer widths, outcomes, byte-addressed memory, lemmas on words.
  \<^item> \<open>MemOps\<close>: \<open>memset\<close> and \<open>memcpy\<close> of \<open>mm.cpp\<close>, the constants of \<open>mm.hpp\<close>. \<open>MathLib\<close>: \<open>math.cpp\<close>.
  \<^item> \<open>Pmm\<close>, \<open>PmmSafety\<close>: \<open>pmm.cpp\<close>. \<open>PageAllocator\<close> is the interface that the page-table code uses, \<open>pmm\<close> and
    (in \<open>FirstFit\<close>) \<open>boot\<close> are its interpretations by \<open>Pmm::alloc(1)\<close>.
  \<^item> \<open>Vmm\<close>: the page-table operations of \<open>vmm.cpp\<close>; \<open>VmmTree\<close> is the specification, the walk of the processor;
    \<open>VmmMap\<close> relates the two inside the locale \<open>page_allocator\<close>; \<open>VmmSafety\<close> has the results for the kernel's
    allocator; \<open>LargePages\<close> what a first large page does to a mapping; \<open>Tlb\<close> the translation cache and
    \<open>update_mapping\<close>; \<open>VirtualMemory\<close> loads and stores through \<open>cr3\<close>, \<open>Vmm::init\<close> and the contexts.
  \<^item> \<open>Spinlock\<close>: \<open>spinlock.cpp\<close> and \<open>cpu.cpp\<close>, with the interleavings of any number of processors.
  \<^item> \<open>KernelHeap\<close>, \<open>HeapSafety\<close>: \<open>malloc\<close>, \<open>calloc\<close>, \<open>realloc\<close>, \<open>free\<close> of \<open>mm.cpp\<close>; \<open>HeapBlocks\<close> is the
    specification of the first two, a list of arrays, and the simulation of every run.
  \<^item> \<open>LinkedList\<close>: \<open>linked_list.hpp\<close> over a store of nodes, with the locales \<open>node_heap\<close> and
    \<open>sticking_node_heap\<close>; \<open>KernelList\<close> interprets both by the kernel heap.
  \<^item> \<open>CString\<close>, \<open>Sprintf\<close>: \<open>lib.cpp\<close>. \<open>Ctype\<close>: \<open>ctype.cpp\<close>. \<open>CopyTemplates\<close>: the templates of \<open>lib.hpp\<close>.
  \<^item> \<open>Font\<close>: \<open>font.hpp\<close>. \<open>Graphics\<close>: \<open>vbe.cpp\<close>. \<open>Terminal\<close>: \<open>terminal.cpp\<close>. \<open>Console\<close>: messages, and
    \<open>panic.cpp\<close>.
  \<^item> \<open>Ports\<close>: \<open>port.cpp\<close>, \<open>msr.cpp\<close>, and the trace of device accesses. \<open>Idt\<close>: \<open>idt.cpp\<close>. \<open>Apic\<close>: \<open>apic.cpp\<close>.
  \<^item> \<open>Layout\<close>: C structures as lists of members, read through the page tables. \<open>AcpiTables\<close>, \<open>Acpi\<close>:
    \<open>acpi.hpp\<close>, \<open>acpi.cpp\<close>; \<open>AcpiInit\<close> and \<open>AcpiBoot\<close> have the properties of \<open>Acpi::init\<close>, the loop over the
    table inside the locale \<open>cpu_starter\<close>, which \<open>boot_cpu\<close> interprets. \<open>Smp\<close>, \<open>Trampoline\<close>: \<open>smp.cpp\<close>.
    \<open>Structures\<close>: the structures that no operation reads, against their specifications.
  \<^item> \<open>Pci\<close>: \<open>pci.cpp\<close> and \<open>pci.hpp\<close>; \<open>PciInit\<close> and \<open>PciAccess\<close> have the properties that rest on the heap and
    on the page tables.
  \<^item> \<open>Kernel\<close>: \<open>spark.cpp\<close>; \<open>BootMemory\<close>, \<open>BootPages\<close>, \<open>BootScreen\<close> and \<open>Boot\<close> compose the allocator, the page tables
    and the heap as \<open>kernel_main\<close> does. The free pages are followed there by a third interpretation, \<open>run\<close>.

  \<^bold>\<open>State.\<close> The globals of the files are the fields of records that extend each other in the order in which the
  files use each other: \<open>machine\<close> (the physical memory \<open>ram\<close>), \<open>pmm_state\<close>, \<open>vmm_state\<close> (with \<open>cr3\<close>),
  \<open>heap_state\<close>, \<open>device_state\<close> (with the trace), \<open>idt_state\<close>, \<open>apic_state\<close>, \<open>console_state\<close>, \<open>smp_state\<close>,
  \<open>acpi_state\<close>, \<open>pci_state\<close>. An operation takes the state and returns it changed; it is polymorphic in the
  fields that it does not know, so that later components use it as it is.

  \<^bold>\<open>Outcomes.\<close> A result is \<open>Inr\<close> of the value or \<open>Inl\<close> of a \<open>fault\<close>: a null pointer, an address that is not
  mapped, an access out of bounds, a lock taken twice by its only user, a loop without end, a division by
  zero, and the halt of \<open>hlt\<close>. Errors that the code returns are values.
\<close>

text \<open>
  \<^bold>\<open>What the lemmas show.\<close>

  \<^item> Memory manager: allocation returns for every state and is first fit; live blocks never share a page,
    whatever the order of calls; for which sizes of memory the bitmap is never handed out; what the 32-bit mask does to pages 32 apart.
  \<^item> Page tables: the operations refine a map from pages to mappings, as the processor's walk sees it, and
    keep a well-formed tree; out of memory is a store through a null pointer; large pages are overwritten;
    the address space that \<open>new_address_space\<close> builds.
  \<^item> Heap: an invariant with virtual range, frames and lock; blocks are fresh, and every run of
    requests and stores is one of a list of arrays; \<open>free\<close> keeps the lock, after which every operation on heap and list spins.
  \<^item> List: what any sequence of insertions does on the kernel's own heap, the ones that release a node
    included, as a function on HOL lists; and the exact removals.
  \<^item> Library: string functions against their specifications, with divergence where no zero byte comes;
    digits and their round trip; \<open>sprintf\<close> against a rendering function.
  \<^item> Screen: drawing a character sets exactly its cell, writing a line stays inside the frame buffer.
  \<^item> Interrupts and processors: the trace of port writes leaves two 8259 controllers in the stated state; the
    registers of the local controller are mapped and written; a processor is started with its two
    interrupts; \<open>Acpi::init\<close> starts the enabled ones in order, and hangs on one that is not enabled.
  \<^item> Configuration space: ports refine an array of registers, windows are listed in order, where the
    address of a register lies, and the requests that a device sees when it is reached through a window.
  \<^item> Boot: \<open>kernel_main\<close> returns only when the loader is not the expected one; from the
    state in which the loader leaves the machine, and with a stated number of pages, the memory comes up with
    the invariants that the later components need and the frame buffer is mapped beside the heap.

  \<^bold>\<open>Choices.\<close>

  \<^item> Integers are words of the width of the C++ type, with its conversions and promotions; a sum or product
    that the code computes in 32 bits is one in the model. Where C++ leaves a shift undefined, the model has
    what the instruction of an x86-64 processor gives, which takes the count modulo the width.
  \<^item> Code that works on page tables or the bitmap by pointers into the direct map uses \<open>phys_of\<close>, the
    distance from \<open>virtual_physical_base\<close>, and never faults there. That is so as long as the direct map of the
    tables in \<open>cr3\<close> reaches the page in question: the tables of \<open>main.asm\<close> and those of \<open>Vmm::init\<close> do for the
    first GiB and the first 4 GiB; no property has it as a hypothesis. The functions of the C library run on a flat memory. The heap, the
    firmware's tables, the trampoline and the loader's information are read and written through the page
    tables that are loaded.
  \<^item> A loop with a counter is recursion on that counter or on what is left of it, and total. A loop that may
    not end is \<open>partial_function (option)\<close>, whose \<open>None\<close> is the fault \<open>Diverges\<close> in the operation around it; that
    it returns is proved wherever it is claimed. No fuel is used.
  \<^item> Device accesses are events of a trace. A read is answered by a parameter \<open>devices\<close> that sees the trace;
    when another processor has answered is the parameter \<open>processors\<close>; \<open>cpuid\<close> is a parameter. How an 8259, a
    gate, a host bridge behave is stated in definitions of their own, beside the code.
  \<^item> The linker's symbols, the addresses of string literals and of \<open>idt_entries\<close>, the addresses at which
    devices answer in a window, and the iteration of a range-based loop over \<open>LinkedList\<close>, which declares no
    \<open>begin\<close> and \<open>end\<close>, are parameters. The image of the trampoline is whatever memory holds at its symbols.
  \<^item> Local arrays for messages are memory of their own, and so is the frame buffer (\<open>vmem\<close>) that the terminal
    draws on. The nodes of a list are kept by address in a map; where they lie comes from the kernel heap.
  \<^item> \<open>Pmm::init\<close> gets the memory map as it is when it is called; the bitmap, which is all
    that it writes, is taken to lie elsewhere.
  \<^item> The processor's translation cache is modelled in \<open>Tlb\<close> only: everywhere else an access sees the tables.
  \<^item> Only \<open>Spinlock\<close> interleaves processors; elsewhere one processor runs, and the others show in the trace.

  \<^bold>\<open>Not modelled.\<close> \<open>main.asm\<close> and \<open>trampoline.asm\<close> (assembly; the model starts where they call C++) and the
  linker script. \<open>userland\<close> has no code yet, the body of \<open>atexit\<close> is empty and \<open>LocalApic::send_eoi\<close> has none. What a compiler
  may make of undefined behaviour, of the missing \<open>volatile\<close> in \<open>smp.cpp\<close> or of unaligned members is left out,
  except where a text names it. \<open>kernel_main\<close> is translated as a whole, but its properties follow the boot up to
  the screen; \<open>Acpi::init\<close> and \<open>Pci::init\<close> have theirs from preconditions of their own.
\<close>

end
